(* ===== verification/Prelude.thy ===== *)
theory Prelude
  imports Main "HOL-Library.Word" "HOL-Library.AList" "HOL-Library.Multiset"
begin

text \<open>
  Shared vocabulary of the development.

  \<^item> \<open>byte\<close>, \<open>bytes\<close>: the code's \<open>uint8_t\<close> and \<open>std::vector<uint8_t>\<close>
    (\<open>src/librats/core/bytes.h\<close>). A \<open>ByteView\<close> is a non-owning pointer and length; it is
    modelled by the list of the bytes it shows.
  \<^item> \<open>u16_be\<close>, \<open>u32_be\<close> and their inverses: a \<open>memcpy\<close> of an integer that went through
    \<open>htons\<close>/\<open>htonl\<close>, that is big-endian (network) order, and the reverse.
  \<^item> associative containers: \<open>std::unordered_map\<close> is an association list with distinct keys,
    so that the code's iterations are list recursions; the unspecified iteration order of the
    source is the order of the list, and no theorem depends on which order it is.
  \<^item> the collections \<open>codec\<close> (rewrite rules of the byte codecs) and \<open>inv_intro\<close>
    (preservation rules of the invariants).
\<close>

unbundle bit_operations_syntax

named_theorems codec
named_theorems inv_intro

type_synonym byte = "8 word"
type_synonym bytes = "byte list"
type_synonym u16 = "16 word"
type_synonym u32 = "32 word"
type_synonym u64 = "64 word"

text \<open>A C++ string literal as the bytes it holds.\<close>

definition str :: "string \<Rightarrow> bytes" where
  "str s = map of_char s"

lemma foldl_keeps: "(\<And>a x. f (g a x) = f a) \<Longrightarrow> f (foldl g a xs) = f a"
  by (induction xs arbitrary: a) simp_all

subsection \<open>Association lists\<close>

lemma length_update: "length (AList.update k v xs) = (if k \<in> fst ` set xs then length xs else Suc (length xs))"
  by (induction xs) auto

lemma update_all: "list_all (\<lambda>(k, v). P k v) xs \<Longrightarrow> P k v \<Longrightarrow> list_all (\<lambda>(k, v). P k v) (AList.update k v xs)"
  by (induction xs) auto

lemma length_delete:
  "distinct (map fst xs) \<Longrightarrow> k \<in> fst ` set xs \<Longrightarrow> Suc (length (AList.delete k xs)) = length xs"
  by (induction xs) (auto simp: delete_notin_dom)

lemma set_delete_subset: "set (AList.delete k xs) \<subseteq> set xs"
  by (induction xs) auto

subsection \<open>Network byte order\<close>

definition u16_be :: "u16 \<Rightarrow> bytes" where
  "u16_be w = [ucast (drop_bit 8 w), ucast w]"

definition be_u16 :: "byte \<Rightarrow> byte \<Rightarrow> u16" where
  "be_u16 hi lo = push_bit 8 (ucast hi) OR ucast lo"

definition u32_be :: "u32 \<Rightarrow> bytes" where
  "u32_be w = [ucast (drop_bit 24 w), ucast (drop_bit 16 w), ucast (drop_bit 8 w), ucast w]"

definition be_u32 :: "byte \<Rightarrow> byte \<Rightarrow> byte \<Rightarrow> byte \<Rightarrow> u32" where
  "be_u32 a b c d =
     push_bit 24 (ucast a) OR push_bit 16 (ucast b) OR push_bit 8 (ucast c) OR ucast d"

lemma byte_bit_beyond [simp]: "8 \<le> n \<Longrightarrow> \<not> bit (b :: byte) n"
  by (auto dest: bit_imp_le_length)

lemma length_u16_be [simp]: "length (u16_be w) = 2"
  by (simp add: u16_be_def)

lemma length_u32_be [simp]: "length (u32_be w) = 4"
  by (simp add: u32_be_def)

lemma be_u16_u16_be [simp, codec]: "be_u16 (ucast (drop_bit 8 w)) (ucast w) = w"
  unfolding be_u16_def
  by (rule bit_word_eqI) (auto simp: bit_simps)

lemma u16_be_be_u16 [simp, codec]: "u16_be (be_u16 a b) = [a, b]"
  unfolding u16_be_def be_u16_def
  by (auto intro!: bit_word_eqI simp: bit_simps)

lemma be_u32_u32_be [simp, codec]:
  "be_u32 (ucast (drop_bit 24 w)) (ucast (drop_bit 16 w)) (ucast (drop_bit 8 w)) (ucast w) = w"
  (is "?l = w")
proof (rule bit_word_eqI)
  fix n
  assume "n < LENGTH(32)"
  then consider "n < 8" | "8 \<le> n" "n < 16" | "16 \<le> n" "n < 24" | "24 \<le> n" "n < 32"
    by force
  then show "bit ?l n \<longleftrightarrow> bit w n"
    by cases (auto simp: be_u32_def bit_simps)
qed

lemma u32_be_be_u32 [simp, codec]: "u32_be (be_u32 a b c d) = [a, b, c, d]"
  unfolding u32_be_def be_u32_def
  by (auto intro!: bit_word_eqI simp: bit_simps)

subsection \<open>Decimal text\<close>

text \<open>\<open>std::to_string\<close> of a natural number.\<close>

fun decimal :: "nat \<Rightarrow> bytes" where
  "decimal n = (if n < 10 then [48 + of_nat n] else decimal (n div 10) @ [48 + of_nat (n mod 10)])"

declare decimal.simps [simp del]

lemma digit_byte:
  assumes "d < 10"
  shows "\<not> (48 + of_nat d :: byte) < 48" "\<not> 57 < (48 + of_nat d :: byte)"
    "unat (48 + of_nat d - 48 :: byte) = d" "(48 + of_nat d :: byte) \<noteq> 58"
proof -
  have "d \<in> set [0, 1, 2, 3, 4, 5, 6, 7, 8, 9]"
    using assms by auto
  then show "\<not> (48 + of_nat d :: byte) < 48" "\<not> 57 < (48 + of_nat d :: byte)"
    "unat (48 + of_nat d - 48 :: byte) = d" "(48 + of_nat d :: byte) \<noteq> 58"
    by auto
qed

lemma decimal_ne [simp]: "decimal n \<noteq> []"
  by (simp add: decimal.simps [of n])

lemma decimal_digits: "58 \<notin> set (decimal n)"
proof (induction n rule: decimal.induct)
  case (1 n)
  then show ?case
    using digit_byte(4) [of n] digit_byte(4) [of "n mod 10"]
    by (cases "n < 10") (auto simp: decimal.simps [of n])
qed

subsection \<open>Lexicographic order of byte arrays\<close>

fun bytes_less :: "bytes \<Rightarrow> bytes \<Rightarrow> bool" where
  "bytes_less (a # as) (b # bs) = (if a \<noteq> b then a < b else bytes_less as bs)"
| "bytes_less [] (b # bs) = True"
| "bytes_less _ [] = False"

lemma bytes_less_irrefl [simp]: "\<not> bytes_less p p"
  by (induction p) auto

lemma bytes_less_trans: "bytes_less a b \<Longrightarrow> bytes_less b c \<Longrightarrow> bytes_less a c"
proof (induction a b arbitrary: c rule: bytes_less.induct)
  case (1 a as b bs)
  then show ?case
    by (cases c) (auto split: if_splits)
next
  case (2 b bs)
  then show ?case
    by (cases c) auto
qed simp

lemma bytes_less_total: "a \<noteq> b \<Longrightarrow> bytes_less a b \<or> bytes_less b a"
  by (induction a b rule: bytes_less.induct) (auto simp: neq_Nil_conv)

lemma bytes_less_asym: "bytes_less a b \<Longrightarrow> \<not> bytes_less b a"
  using bytes_less_irrefl bytes_less_trans by blast

end
