(* ===== verification/Wire_Frame.thy ===== *)
theory Wire_Frame
  imports Prelude
begin

text \<open>
  The two-level wire framing of \<open>src/librats/wire/frame.h\<close> and \<open>frame.cpp\<close>: outer
  length-prefixed blocks and inner messages with a four-byte header. The functions append to
  an output buffer in the code; here they return the bytes appended. A \<open>MessageType\<close> is an
  enumeration with \<open>uint8_t\<close> underneath, into which \<open>parse_message\<close> casts any byte it
  reads, so the model keeps the byte and names the enumerators.
\<close>

subsection \<open>Data\<close>

type_synonym message_type = byte

definition MT_App :: message_type where "MT_App = 1"
definition MT_Control :: message_type where "MT_Control = 2"
definition MT_Gossip :: message_type where "MT_Gossip = 3"
definition MT_FileChunk :: message_type where "MT_FileChunk = 4"
definition MT_Ping :: message_type where "MT_Ping = 5"
definition MT_Storage :: message_type where "MT_Storage = 6"
definition MT_Typed :: message_type where "MT_Typed = 7"
definition MT_Pex :: message_type where "MT_Pex = 8"

record frame_header =
  fh_type :: message_type
  fh_flags :: byte
  fh_channel :: u16

record frame =
  fr_header :: frame_header
  fr_payload :: bytes

datatype block_status = Ok | Incomplete | Error

record block =
  bk_status :: block_status
  bk_consumed :: nat
  bk_body :: bytes
  bk_needed :: nat

definition kLengthPrefixSize :: nat where "kLengthPrefixSize = 4"
definition kHeaderSize :: nat where "kHeaderSize = 4"
definition kMaxBlockSize :: nat where "kMaxBlockSize = 64 * 1024 * 1024"

subsection \<open>Outer block\<close>

definition encode_block_header :: "nat \<Rightarrow> bytes" where
  "encode_block_header body_size = u32_be (of_nat body_size)"

definition encode_block :: "bytes \<Rightarrow> bytes" where
  "encode_block body = encode_block_header (length body) @ body"

definition block_len :: "bytes \<Rightarrow> nat" where
  "block_len data = unat (be_u32 (data ! 0) (data ! 1) (data ! 2) (data ! 3))"

definition try_take_block :: "bytes \<Rightarrow> block" where
  "try_take_block data =
     (if length data < kLengthPrefixSize
      then \<lparr>bk_status = Incomplete, bk_consumed = 0, bk_body = [], bk_needed = 0\<rparr>
      else let len = block_len data in
        if len > kMaxBlockSize
        then \<lparr>bk_status = Error, bk_consumed = 0, bk_body = [], bk_needed = 0\<rparr>
        else let total = kLengthPrefixSize + len in
          if length data < total
          then \<lparr>bk_status = Incomplete, bk_consumed = 0, bk_body = [], bk_needed = total\<rparr>
          else \<lparr>bk_status = Ok, bk_consumed = total,
                bk_body = take len (drop kLengthPrefixSize data), bk_needed = total\<rparr>)"

subsection \<open>Inner message\<close>

definition encode_message :: "frame_header \<Rightarrow> bytes \<Rightarrow> bytes" where
  "encode_message h payload = [fh_type h, fh_flags h] @ u16_be (fh_channel h) @ payload"

definition parse_message :: "bytes \<Rightarrow> frame option" where
  "parse_message inner =
     (if length inner < kHeaderSize then None
      else Some \<lparr>fr_header = \<lparr>fh_type = inner ! 0, fh_flags = inner ! 1,
                             fh_channel = be_u16 (inner ! 2) (inner ! 3)\<rparr>,
                 fr_payload = drop kHeaderSize inner\<rparr>)"

subsection \<open>Lemmas\<close>

lemmas frame_consts = kLengthPrefixSize_def kHeaderSize_def kMaxBlockSize_def

lemma length_encode_block_header [simp]: "length (encode_block_header n) = 4"
  by (simp add: encode_block_header_def)

lemma length_encode_block [simp]: "length (encode_block body) = 4 + length body"
  by (simp add: encode_block_def)

lemma encode_block_not_Nil [simp]: "encode_block body \<noteq> []"
  by (metis length_encode_block list.size(3) add_is_0 zero_neq_numeral)

lemma block_len_append [simp, codec]:
  "4 \<le> length data \<Longrightarrow> block_len (data @ rest) = block_len data"
  by (auto simp: block_len_def nth_append)

lemma block_len_header [codec]:
  assumes "n < 2 ^ 32"
  shows "block_len (encode_block_header n) = n"
  using assms
  by (simp add: block_len_def encode_block_header_def u32_be_def unat_of_nat)

lemma block_len_encode [codec]:
  assumes "length body \<le> kMaxBlockSize"
  shows "block_len (encode_block body) = length body"
  using assms block_len_header [of "length body"]
  by (simp add: encode_block_def frame_consts)

lemma try_take_block_encode [codec]:
  assumes "length body \<le> kMaxBlockSize"
  shows "try_take_block (encode_block body @ rest) =
           \<lparr>bk_status = Ok, bk_consumed = 4 + length body, bk_body = body,
            bk_needed = 4 + length body\<rparr>"
proof -
  have "drop 4 (encode_block body @ rest) = body @ rest"
    by (simp add: encode_block_def)
  with assms show ?thesis
    by (simp add: try_take_block_def block_len_encode Let_def kLengthPrefixSize_def)
qed

lemma try_take_block_short:
  "length data < 4 \<Longrightarrow>
   try_take_block data =
     \<lparr>bk_status = Incomplete, bk_consumed = 0, bk_body = [], bk_needed = 0\<rparr>"
  by (simp add: try_take_block_def kLengthPrefixSize_def)

lemma try_take_block_Ok_iff:
  "bk_status (try_take_block data) = Ok \<longleftrightarrow>
   4 \<le> length data \<and> block_len data \<le> kMaxBlockSize \<and> 4 + block_len data \<le> length data"
  by (auto simp: try_take_block_def Let_def kLengthPrefixSize_def)

lemma try_take_block_Error_iff:
  "bk_status (try_take_block data) = Error \<longleftrightarrow>
   4 \<le> length data \<and> kMaxBlockSize < block_len data"
  by (auto simp: try_take_block_def Let_def kLengthPrefixSize_def)

lemma try_take_block_OkD:
  assumes "bk_status (try_take_block data) = Ok"
  shows "bk_consumed (try_take_block data) = 4 + block_len data"
    and "bk_body (try_take_block data) = take (block_len data) (drop 4 data)"
    and "length (bk_body (try_take_block data)) = block_len data"
    and "4 \<le> bk_consumed (try_take_block data)"
    and "bk_consumed (try_take_block data) \<le> length data"
  using assms
  by (auto simp: try_take_block_def Let_def kLengthPrefixSize_def split: if_splits)

lemma u32_be_block_len:
  assumes "4 \<le> length data"
  shows "u32_be (of_nat (block_len data)) = take 4 data"
proof -
  from assms obtain a b c d rest where data: "data = a # b # c # d # rest"
    by (auto simp: numeral_eq_Suc Suc_le_length_iff)
  show ?thesis
    by (simp add: data block_len_def)
qed

lemma try_take_block_reencode:
  assumes "bk_status (try_take_block data) = Ok"
  shows "encode_block (bk_body (try_take_block data)) =
           take (bk_consumed (try_take_block data)) data"
proof -
  from assms have "4 \<le> length data" "min (length data - 4) (block_len data) = block_len data"
    by (auto simp: try_take_block_Ok_iff)
  with assms show ?thesis
    by (simp add: try_take_block_OkD encode_block_def encode_block_header_def
        u32_be_block_len take_add)
qed

lemma try_take_block_append [codec]:
  assumes "bk_status (try_take_block data) \<noteq> Incomplete"
  shows "try_take_block (data @ extra) = try_take_block data"
  using assms
  by (auto simp: try_take_block_def Let_def kLengthPrefixSize_def split: if_splits)

lemma parse_message_encode [simp, codec]:
  "parse_message (encode_message h payload) = Some \<lparr>fr_header = h, fr_payload = payload\<rparr>"
  by (simp add: parse_message_def encode_message_def kHeaderSize_def u16_be_def)

lemma encode_message_parse:
  assumes "parse_message inner = Some f"
  shows "encode_message (fr_header f) (fr_payload f) = inner"
proof -
  from assms have "4 \<le> length inner"
    by (simp add: parse_message_def kHeaderSize_def split: if_splits)
  then obtain a b c d rest where inner: "inner = a # b # c # d # rest"
    by (auto simp: numeral_eq_Suc Suc_le_length_iff)
  from assms show ?thesis
    by (auto simp: inner parse_message_def encode_message_def kHeaderSize_def)
qed

lemma length_encode_message [simp]: "length (encode_message h payload) = 4 + length payload"
  by (simp add: encode_message_def)

subsection \<open>Properties\<close>

text \<open>
  C5: decoding inverts encoding on the outer layer, in a stream: the front of a buffer that
  starts with an encoded block of at most \<open>kMaxBlockSize\<close> bytes is taken as exactly that
  block, and exactly its bytes are consumed, whatever follows it.
\<close>

theorem block_roundtrip:
  assumes "length body \<le> kMaxBlockSize"
  shows "try_take_block (encode_block body @ rest) =
           \<lparr>bk_status = Ok, bk_consumed = length (encode_block body), bk_body = body,
            bk_needed = length (encode_block body)\<rparr>"
  using assms by (simp add: try_take_block_encode)

theorem block_roundtrip_witness:
  "length [1, 2, 3 :: byte] \<le> kMaxBlockSize \<and>
   bk_body (try_take_block (encode_block [1, 2, 3] @ [9])) = [1, 2, 3]"
proof -
  have h: "length [1, 2, 3 :: byte] \<le> kMaxBlockSize" by (simp add: kMaxBlockSize_def)
  show ?thesis using h block_roundtrip [OF h, of "[9]"] by simp
qed

text \<open>
  C6: the block decoder is total and its answer is exact. It takes a block precisely when the
  buffer starts with the encoding of a body of at most \<open>kMaxBlockSize\<close> bytes, and then returns
  that body and consumes its encoding and no more. It reports an error precisely when the
  four-byte prefix is there and declares more than \<open>kMaxBlockSize\<close> bytes. Otherwise it waits:
  for the prefix, announcing nothing, or for the rest of the block, announcing the size of the
  whole block, which is the number of bytes at which the same buffer will decode. An answer
  other than incomplete is not changed by bytes that arrive later.
\<close>

theorem try_take_block_exact:
  "(bk_status (try_take_block data) = Ok \<longleftrightarrow>
      (\<exists>body rest. data = encode_block body @ rest \<and> length body \<le> kMaxBlockSize)) \<and>
   (bk_status (try_take_block data) = Ok \<longrightarrow>
      bk_consumed (try_take_block data) = length (encode_block (bk_body (try_take_block data))) \<and>
      bk_consumed (try_take_block data) \<le> length data \<and>
      encode_block (bk_body (try_take_block data)) =
        take (bk_consumed (try_take_block data)) data) \<and>
   (bk_status (try_take_block data) = Error \<longleftrightarrow> 4 \<le> length data \<and> kMaxBlockSize < block_len data) \<and>
   (bk_status (try_take_block data) = Incomplete \<longrightarrow>
      bk_needed (try_take_block data) = (if length data < 4 then 0 else 4 + block_len data)) \<and>
   (bk_status (try_take_block data) \<noteq> Incomplete \<longrightarrow>
      try_take_block (data @ extra) = try_take_block data) \<and>
   (bk_status (try_take_block data) = Incomplete \<and> 0 < bk_needed (try_take_block data) \<longrightarrow>
      length data < bk_needed (try_take_block data) \<and>
      (bk_status (try_take_block (data @ extra)) = Ok \<longleftrightarrow>
         bk_needed (try_take_block data) \<le> length (data @ extra)))"
proof (intro conjI impI)
  show "bk_status (try_take_block data) = Ok \<longleftrightarrow>
      (\<exists>body rest. data = encode_block body @ rest \<and> length body \<le> kMaxBlockSize)"
  proof
    assume ok: "bk_status (try_take_block data) = Ok"
    let ?t = "try_take_block data"
    have "data = encode_block (bk_body ?t) @ drop (bk_consumed ?t) data"
      using try_take_block_reencode [OF ok] by simp
    moreover have "length (bk_body ?t) \<le> kMaxBlockSize"
      using ok try_take_block_OkD(3) [OF ok] by (simp add: try_take_block_Ok_iff)
    ultimately show "\<exists>body rest. data = encode_block body @ rest \<and> length body \<le> kMaxBlockSize" by blast
  qed (auto simp: try_take_block_encode)
next
  show "bk_status (try_take_block data) = Error \<longleftrightarrow>
      4 \<le> length data \<and> kMaxBlockSize < block_len data"
    by (rule try_take_block_Error_iff)
next
  assume "bk_status (try_take_block data) = Incomplete"
  then show "bk_needed (try_take_block data) = (if length data < 4 then 0 else 4 + block_len data)"
    by (auto simp: try_take_block_def Let_def kLengthPrefixSize_def split: if_splits)
next
  assume "bk_status (try_take_block data) = Ok"
  then show "bk_consumed (try_take_block data) = length (encode_block (bk_body (try_take_block data)))"
    and "bk_consumed (try_take_block data) \<le> length data"
    and "encode_block (bk_body (try_take_block data)) =
        take (bk_consumed (try_take_block data)) data"
    using try_take_block_OkD(1,3,5) [of data] try_take_block_reencode [of data]
    by simp_all
next
  assume "bk_status (try_take_block data) \<noteq> Incomplete"
  then show "try_take_block (data @ extra) = try_take_block data"
    by (rule try_take_block_append)
next
  assume "bk_status (try_take_block data) = Incomplete \<and> 0 < bk_needed (try_take_block data)"
  then have "4 \<le> length data" "block_len data \<le> kMaxBlockSize"
    "bk_needed (try_take_block data) = 4 + block_len data" "length data < 4 + block_len data"
    by (auto simp: try_take_block_def Let_def kLengthPrefixSize_def split: if_splits)
  then show "length data < bk_needed (try_take_block data)"
    and "bk_status (try_take_block (data @ extra)) = Ok \<longleftrightarrow>
         bk_needed (try_take_block data) \<le> length (data @ extra)"
    by (auto simp: try_take_block_Ok_iff)
qed

theorem try_take_block_exact_witness:
  "bk_status (try_take_block [0, 0, 0, 2, 7]) = Incomplete \<and>
   bk_needed (try_take_block [0, 0, 0, 2, 7]) = 6 \<and>
   bk_status (try_take_block ([0, 0, 0, 2, 7] @ [8])) = Ok \<and>
   bk_status (try_take_block [255, 0, 0, 0]) = Error"
proof -
  have inc: "bk_status (try_take_block [0, 0, 0, 2, 7]) = Incomplete"
    "bk_needed (try_take_block [0, 0, 0, 2, 7]) = 6"
    by (simp_all add: try_take_block_def Let_def frame_consts block_len_def be_u32_def)
  have err: "4 \<le> length [255, 0, 0, 0 :: byte] \<and> kMaxBlockSize < block_len [255, 0, 0, 0]"
    by (simp add: frame_consts block_len_def be_u32_def)
  show ?thesis
    using inc err try_take_block_exact [of "[0, 0, 0, 2, 7]" "[8]"]
      try_take_block_exact [of "[255, 0, 0, 0]" "[]"]
    by simp
qed

text \<open>
  The inner message layer loses nothing in either direction: parsing an encoded message
  returns its header and payload, any header byte and any channel included, and a message
  that parses re-encodes to the same bytes; only inputs shorter than the header are refused.
\<close>

lemma message_roundtrip:
  "parse_message (encode_message h payload) = Some \<lparr>fr_header = h, fr_payload = payload\<rparr> \<and>
   (parse_message inner = None \<longleftrightarrow> length inner < kHeaderSize) \<and>
   (\<forall>f. parse_message inner = Some f \<longrightarrow> encode_message (fr_header f) (fr_payload f) = inner)"
proof (intro conjI allI impI)
  show "parse_message inner = None \<longleftrightarrow> length inner < kHeaderSize"
    by (simp add: parse_message_def)
qed (simp_all add: encode_message_parse)

end
