(* ===== verification/Byte_Fifo.thy ===== *)
theory Byte_Fifo
  imports Prelude
begin

text \<open>
  The contract of a byte queue: what a client of the receive buffer or of the send buffer may
  rely on. \<open>view\<close> is the list of bytes in the queue, \<open>push\<close> adds bytes at the back and
  \<open>pop\<close> drops bytes from the front. Both buffers of \<open>src/librats/core\<close> implement it; the
  connection layer uses only this contract. The lemmas of the locale are proved once: pushing
  a list of slices is pushing their concatenation, and over any interleaving of pushes and
  pops the bytes come out in the order they went in, none lost and none invented.
\<close>

datatype fifo_op = Push bytes | Pop nat

text \<open>
  One client operation. A pop asks for at most \<open>n\<close> bytes and returns what it takes; the
  clipping to the bytes present is the client's obligation in the code (both \<open>consume\<close> and
  \<open>pop_front\<close> assert it).
\<close>

definition fifo_step ::
  "('b \<Rightarrow> bytes) \<Rightarrow> ('b \<Rightarrow> bytes \<Rightarrow> 'b) \<Rightarrow> ('b \<Rightarrow> nat \<Rightarrow> 'b) \<Rightarrow>
   'b \<times> bytes \<Rightarrow> fifo_op \<Rightarrow> 'b \<times> bytes" where
  "fifo_step view push pop s x =
     (case x of
        Push xs \<Rightarrow> (push (fst s) xs, snd s)
      | Pop n \<Rightarrow> (let k = min n (length (view (fst s)))
                 in (pop (fst s) k, snd s @ take k (view (fst s)))))"

definition fifo_run ::
  "('b \<Rightarrow> bytes) \<Rightarrow> ('b \<Rightarrow> bytes \<Rightarrow> 'b) \<Rightarrow> ('b \<Rightarrow> nat \<Rightarrow> 'b) \<Rightarrow> fifo_op list \<Rightarrow> 'b \<Rightarrow> 'b \<times> bytes" where
  "fifo_run view push pop ops b = foldl (fifo_step view push pop) (b, []) ops"

fun pushed :: "fifo_op list \<Rightarrow> bytes" where
  "pushed [] = []"
| "pushed (Push xs # ops) = xs @ pushed ops"
| "pushed (Pop n # ops) = pushed ops"

locale byte_fifo =
  fixes view :: "'b \<Rightarrow> bytes"
    and inv :: "'b \<Rightarrow> bool"
    and push :: "'b \<Rightarrow> bytes \<Rightarrow> 'b"
    and pop :: "'b \<Rightarrow> nat \<Rightarrow> 'b"
  assumes view_push: "inv b \<Longrightarrow> view (push b xs) = view b @ xs"
    and inv_push: "inv b \<Longrightarrow> inv (push b xs)"
    and view_pop: "inv b \<Longrightarrow> n \<le> length (view b) \<Longrightarrow> view (pop b n) = drop n (view b)"
    and inv_pop: "inv b \<Longrightarrow> n \<le> length (view b) \<Longrightarrow> inv (pop b n)"
begin

lemma inv_pushes: "inv b \<Longrightarrow> inv (foldl push b xss)"
  by (induction xss arbitrary: b) (auto simp: inv_push)

lemma view_pushes: "inv b \<Longrightarrow> view (foldl push b xss) = view b @ concat xss"
  by (induction xss arbitrary: b) (auto simp: view_push inv_push)

lemma step_conserves:
  assumes "inv (fst s)"
  shows "inv (fst (fifo_step view push pop s x))"
    and "snd (fifo_step view push pop s x) @ view (fst (fifo_step view push pop s x)) =
           snd s @ view (fst s) @ pushed [x]"
  using assms by (cases x; simp add: fifo_step_def Let_def inv_push inv_pop view_push view_pop)+

lemma run_conserves_from:
  assumes "inv (fst s)"
  shows "inv (fst (foldl (fifo_step view push pop) s ops)) \<and>
    snd (foldl (fifo_step view push pop) s ops) @ view (fst (foldl (fifo_step view push pop) s ops)) =
      snd s @ view (fst s) @ pushed ops"
  using assms
proof (induction ops arbitrary: s)
  case Nil
  then show ?case by simp
next
  case (Cons x ops)
  have eq: "pushed (x # ops) = pushed [x] @ pushed ops"
    by (cases x) simp_all
  from step_conserves [OF Cons.prems, of x] Cons.IH [of "fifo_step view push pop s x"]
  show ?case by (simp add: eq del: pushed.simps)
qed

lemma run_conserves:
  assumes "inv b" and "fifo_run view push pop ops b = (b', out)"
  shows "inv b'" and "out @ view b' = view b @ pushed ops"
  using run_conserves_from [of "(b, [])" ops] assms by (auto simp: fifo_run_def)

end

end
