(* ===== verification/Receive_Buffer.thy ===== *)
theory Receive_Buffer
  imports Byte_Fifo
begin

text \<open>
  The stream receive buffer of \<open>src/librats/core/receive_buffer.h\<close> and \<open>.cpp\<close>. The heap
  block \<open>buf_\<close> is a list of cells; a cell is \<open>None\<close> until something is written to it,
  because the code allocates it uninitialised, so that the invariant says the parser never
  reads an uninitialised byte. \<open>size_t\<close> quantities are natural numbers: under the invariant
  every subtraction of the code is between ordered operands, and sizes are bounded by the
  address space. \<open>prepare\<close> returns the writable tail as its size; \<open>fill\<close> is the write of
  \<open>recv\<close> into that tail. The \<open>assert\<close>s of the code are the preconditions of the lemmas.
\<close>

record rbuf =
  rb_mem :: "byte option list"
  rb_cap :: nat
  rb_start :: nat
  rb_end :: nat
  rb_peak :: nat
  rb_watermark :: nat
  rb_received :: bool

definition kMinCapacity :: nat where "kMinCapacity = 1024"
definition kAllocGranularity :: nat where "kAllocGranularity = 256"
definition kUsageAverageShift :: nat where "kUsageAverageShift = 4"

definition round_up :: "nat \<Rightarrow> nat \<Rightarrow> nat" where
  "round_up n granularity = (n + granularity - 1) div granularity * granularity"

definition rb_size :: "rbuf \<Rightarrow> nat" where
  "rb_size b = rb_end b - rb_start b"

definition rb_live :: "rbuf \<Rightarrow> byte option list" where
  "rb_live b = take (rb_size b) (drop (rb_start b) (rb_mem b))"

definition rb_view :: "rbuf \<Rightarrow> bytes" where
  "rb_view b = map the (rb_live b)"

definition rb_empty :: "rbuf \<Rightarrow> bool" where
  "rb_empty b \<longleftrightarrow> rb_start b = rb_end b"

definition rb_null :: rbuf where
  "rb_null = \<lparr>rb_mem = [], rb_cap = 0, rb_start = 0, rb_end = 0, rb_peak = 0,
              rb_watermark = 0, rb_received = False\<rparr>"

definition reallocate :: "nat \<Rightarrow> rbuf \<Rightarrow> rbuf" where
  "reallocate new_capacity b =
     (let live = rb_size b in
      b\<lparr>rb_mem := rb_live b @ replicate (new_capacity - live) None,
        rb_cap := new_capacity, rb_start := 0, rb_end := live\<rparr>)"

definition grow_to :: "nat \<Rightarrow> rbuf \<Rightarrow> rbuf" where
  "grow_to new_capacity b =
     (let b1 = reallocate new_capacity b
      in b1\<lparr>rb_watermark := rb_cap b1, rb_peak := rb_size b1\<rparr>)"

definition rb_init :: "nat \<Rightarrow> rbuf" where
  "rb_init initial_capacity =
     (if initial_capacity > 0 then grow_to (round_up initial_capacity kAllocGranularity) rb_null
      else rb_null)"

text \<open>Move assignment: the destination takes every field, the source is left empty.\<close>

definition rb_move :: "rbuf \<Rightarrow> rbuf \<times> rbuf" where
  "rb_move other = (other, rb_null)"

definition grown_capacity :: "rbuf \<Rightarrow> nat \<Rightarrow> nat" where
  "grown_capacity b needed =
     (let n0 = rb_cap b + rb_cap b div 2;
          n1 = (if n0 < kMinCapacity then kMinCapacity else n0);
          n2 = (if n1 < needed then needed else n1)
      in round_up n2 kAllocGranularity)"

definition sample_usage :: "rbuf \<Rightarrow> rbuf" where
  "sample_usage b =
     (let n = 2 ^ kUsageAverageShift in
      b\<lparr>rb_watermark := (rb_watermark b * (n - 1) + rb_peak b + (n - 1)) div n,
        rb_peak := rb_size b\<rparr>)"

definition compact :: "rbuf \<Rightarrow> rbuf" where
  "compact b =
     (if rb_start b = 0 then b
      else let live = rb_size b;
               moved = rb_live b @ drop live (rb_mem b)
           in sample_usage (b\<lparr>rb_mem := moved, rb_start := 0, rb_end := live\<rparr>))"

definition make_room :: "nat \<Rightarrow> rbuf \<Rightarrow> rbuf" where
  "make_room n b =
     (let live = rb_size b in
      if rb_cap b - live \<ge> n then compact b
      else grow_to (grown_capacity b (live + n)) b)"

definition prepare :: "nat \<Rightarrow> rbuf \<Rightarrow> rbuf \<times> nat" where
  "prepare min_bytes b =
     (let b1 = (if rb_cap b - rb_end b < min_bytes then make_room min_bytes b else b);
          b2 = b1\<lparr>rb_peak := max (rb_peak b1) (rb_size b1 + min_bytes)\<rparr>
      in (b2, rb_cap b2 - rb_end b2))"

definition fill :: "bytes \<Rightarrow> rbuf \<Rightarrow> rbuf" where
  "fill xs b =
     b\<lparr>rb_mem := take (rb_end b) (rb_mem b) @ map Some xs @ drop (rb_end b + length xs) (rb_mem b)\<rparr>"

definition commit :: "nat \<Rightarrow> rbuf \<Rightarrow> rbuf" where
  "commit n b =
     (let b1 = b\<lparr>rb_end := rb_end b + n\<rparr>
      in b1\<lparr>rb_peak := max (rb_peak b1) (rb_size b1), rb_received := True\<rparr>)"

definition maybe_shrink :: "rbuf \<Rightarrow> rbuf" where
  "maybe_shrink b =
     (if rb_cap b \<le> kMinCapacity \<or> rb_cap b div 2 \<le> rb_watermark b then b
      else let floor = max kMinCapacity (rb_size b);
               target = round_up (max floor (rb_watermark b)) kAllocGranularity
           in if target < rb_cap b then reallocate target b else b)"

definition consume :: "nat \<Rightarrow> rbuf \<Rightarrow> rbuf" where
  "consume n b =
     (let b1 = b\<lparr>rb_start := rb_start b + n\<rparr> in
      if rb_start b1 \<noteq> rb_end b1 then b1
      else maybe_shrink (sample_usage (b1\<lparr>rb_start := 0, rb_end := 0\<rparr>)))"

definition decay :: "rbuf \<Rightarrow> rbuf" where
  "decay b =
     (if rb_cap b \<le> kMinCapacity then b
      else if rb_received b then b\<lparr>rb_received := False\<rparr>
      else if rb_size b * 2 > rb_cap b then b
      else maybe_shrink (b\<lparr>rb_watermark := rb_watermark b div 2\<rparr>))"

definition rb_clear :: "rbuf \<Rightarrow> rbuf" where
  "rb_clear b = b\<lparr>rb_start := 0, rb_end := 0, rb_peak := 0\<rparr>"

definition rb_reset :: "rbuf \<Rightarrow> rbuf" where
  "rb_reset b = b\<lparr>rb_mem := [], rb_cap := 0, rb_start := 0, rb_end := 0, rb_peak := 0,
                  rb_watermark := 0\<rparr>"

text \<open>One read: \<open>prepare\<close>, the write by \<open>recv\<close>, \<open>commit\<close>.\<close>

definition receive :: "nat \<Rightarrow> bytes \<Rightarrow> rbuf \<Rightarrow> rbuf" where
  "receive min_bytes xs b = commit (length xs) (fill xs (fst (prepare min_bytes b)))"

definition rb_inv :: "rbuf \<Rightarrow> bool" where
  "rb_inv b \<longleftrightarrow>
     rb_start b \<le> rb_end b \<and> rb_end b \<le> rb_cap b \<and> length (rb_mem b) = rb_cap b \<and>
     None \<notin> set (rb_live b)"

subsection \<open>Lemmas\<close>

lemma round_up_ge: "0 < g \<Longrightarrow> n \<le> round_up n g"
proof -
  assume g: "0 < g"
  define m where "m = n + g - 1"
  have "m = m div g * g + m mod g"
    by simp
  moreover have "m mod g < g"
    using g by simp
  ultimately have "n \<le> m div g * g"
    using g unfolding m_def by linarith
  then show ?thesis
    by (simp add: round_up_def m_def)
qed

lemma round_up_mono: "m \<le> n \<Longrightarrow> round_up m g \<le> round_up n g"
  by (simp add: round_up_def div_le_mono)

lemma granularity_pos [simp]: "0 < kAllocGranularity"
  by (simp add: kAllocGranularity_def)

lemma length_rb_live: "rb_inv b \<Longrightarrow> length (rb_live b) = rb_size b"
  by (auto simp: rb_inv_def rb_live_def rb_size_def)

lemma length_rb_view: "rb_inv b \<Longrightarrow> length (rb_view b) = rb_size b"
  by (simp add: rb_view_def length_rb_live)

lemma rb_view_empty: "rb_inv b \<Longrightarrow> rb_view b = [] \<longleftrightarrow> rb_empty b"
  using length_rb_view [of b]
  by (auto simp: rb_empty_def rb_size_def rb_inv_def simp flip: length_0_conv)

text \<open>A buffer with the same live cells has the same view; the cursors only locate them.\<close>

lemma rb_cong:
  assumes "rb_mem b' = rb_mem b" "rb_start b' = rb_start b" "rb_end b' = rb_end b" "rb_cap b' = rb_cap b"
  shows "rb_live b' = rb_live b" "rb_size b' = rb_size b" "rb_inv b' = rb_inv b" "rb_view b' = rb_view b"
  using assms by (auto simp: rb_live_def rb_size_def rb_inv_def rb_view_def)

lemma rb_inv_null [inv_intro]: "rb_inv rb_null" and rb_view_null [simp]: "rb_view rb_null = []"
  by (simp_all add: rb_inv_def rb_null_def rb_live_def rb_size_def rb_view_def)

lemma reallocate_facts:
  assumes "rb_inv b" "rb_size b \<le> n"
  shows "rb_live (reallocate n b) = rb_live b" "rb_inv (reallocate n b)"
    "rb_size (reallocate n b) = rb_size b" "rb_cap (reallocate n b) = n"
    "rb_end (reallocate n b) = rb_size b"
  using assms length_rb_live [of b]
  by (auto simp: reallocate_def Let_def rb_live_def rb_inv_def rb_size_def)

lemma grow_to_facts:
  assumes "rb_inv b" "rb_size b \<le> n"
  shows "rb_live (grow_to n b) = rb_live b" "rb_inv (grow_to n b)"
    "rb_cap (grow_to n b) = n" "rb_end (grow_to n b) = rb_size b"
proof -
  let ?r = "reallocate n b"
  have *: "rb_mem (grow_to n b) = rb_mem ?r" "rb_start (grow_to n b) = rb_start ?r"
    "rb_end (grow_to n b) = rb_end ?r" "rb_cap (grow_to n b) = rb_cap ?r"
    by (simp_all add: grow_to_def Let_def)
  show "rb_live (grow_to n b) = rb_live b" "rb_inv (grow_to n b)"
    "rb_cap (grow_to n b) = n" "rb_end (grow_to n b) = rb_size b"
    using rb_cong [OF *] * reallocate_facts [OF assms] by simp_all
qed

lemma sample_usage_fields [simp]:
  "rb_mem (sample_usage b) = rb_mem b" "rb_start (sample_usage b) = rb_start b"
  "rb_end (sample_usage b) = rb_end b" "rb_cap (sample_usage b) = rb_cap b"
  "rb_received (sample_usage b) = rb_received b"
  by (simp_all add: sample_usage_def Let_def)

lemma compact_facts:
  assumes "rb_inv b"
  shows "rb_live (compact b) = rb_live b" "rb_inv (compact b)"
    "rb_cap (compact b) = rb_cap b" "rb_end (compact b) = rb_size b"
proof -
  have "rb_live (compact b) = rb_live b \<and> rb_inv (compact b) \<and>
      rb_cap (compact b) = rb_cap b \<and> rb_end (compact b) = rb_size b"
  proof (cases "rb_start b = 0")
    case True
    with assms show ?thesis
      by (simp add: compact_def rb_size_def)
  next
    case False
    let ?c = "b\<lparr>rb_mem := rb_live b @ drop (rb_size b) (rb_mem b), rb_start := 0, rb_end := rb_size b\<rparr>"
    have c: "compact b = sample_usage ?c"
      using False by (simp add: compact_def Let_def)
    have l: "rb_live ?c = rb_live b"
      using length_rb_live [OF assms] by (simp add: rb_live_def rb_size_def)
    have i: "rb_inv ?c"
      using assms l length_rb_live [OF assms] by (auto simp: rb_inv_def rb_size_def)
    have "rb_live (compact b) = rb_live ?c" "rb_inv (compact b) = rb_inv ?c"
      unfolding c by (rule rb_cong; simp)+
    with l i show ?thesis
      by (simp add: c)
  qed
  then show "rb_live (compact b) = rb_live b" "rb_inv (compact b)"
    "rb_cap (compact b) = rb_cap b" "rb_end (compact b) = rb_size b"
    by simp_all
qed

lemma grown_capacity_ge: "needed \<le> grown_capacity b needed"
  by (auto simp: grown_capacity_def Let_def intro: order_trans [OF _ round_up_ge])

lemma make_room_facts:
  assumes "rb_inv b"
  shows "rb_live (make_room n b) = rb_live b" "rb_inv (make_room n b)"
    "n \<le> rb_cap (make_room n b) - rb_end (make_room n b)"
proof -
  have "rb_size b \<le> grown_capacity b (rb_size b + n)" "rb_size b + n \<le> grown_capacity b (rb_size b + n)"
    using grown_capacity_ge [of "rb_size b + n" b] by simp_all
  then show "rb_live (make_room n b) = rb_live b" "rb_inv (make_room n b)"
    "n \<le> rb_cap (make_room n b) - rb_end (make_room n b)"
    using compact_facts [OF assms] grow_to_facts [OF assms, of "grown_capacity b (rb_size b + n)"]
    by (auto simp: make_room_def Let_def)
qed

lemma prepare_facts:
  assumes "rb_inv b"
  shows "rb_live (fst (prepare n b)) = rb_live b" "rb_inv (fst (prepare n b))"
    "n \<le> snd (prepare n b)"
    "snd (prepare n b) = rb_cap (fst (prepare n b)) - rb_end (fst (prepare n b))"
proof -
  define b1 where "b1 = (if rb_cap b - rb_end b < n then make_room n b else b)"
  have b1: "rb_live b1 = rb_live b" "rb_inv b1" "n \<le> rb_cap b1 - rb_end b1"
    using assms make_room_facts [OF assms, of n] by (auto simp: b1_def)
  have p: "prepare n b = (b1\<lparr>rb_peak := max (rb_peak b1) (rb_size b1 + n)\<rparr>, rb_cap b1 - rb_end b1)"
    by (simp add: prepare_def b1_def Let_def)
  have "rb_live (fst (prepare n b)) = rb_live b1" "rb_inv (fst (prepare n b)) = rb_inv b1"
    unfolding p by (rule rb_cong; simp)+
  with b1 show "rb_live (fst (prepare n b)) = rb_live b" "rb_inv (fst (prepare n b))"
    "n \<le> snd (prepare n b)"
    "snd (prepare n b) = rb_cap (fst (prepare n b)) - rb_end (fst (prepare n b))"
    by (simp_all add: p)
qed

lemma fill_commit_facts:
  assumes "rb_inv b" "length xs \<le> rb_cap b - rb_end b"
  shows "rb_view (commit (length xs) (fill xs b)) = rb_view b @ xs"
    "rb_inv (commit (length xs) (fill xs b))"
proof -
  have le: "rb_start b \<le> rb_end b" "rb_end b \<le> length (rb_mem b)"
    "rb_end b + length xs \<le> length (rb_mem b)"
    using assms by (auto simp: rb_inv_def)
  have live: "rb_live (commit (length xs) (fill xs b)) = rb_live b @ map Some xs"
    using le by (simp add: rb_live_def rb_size_def commit_def fill_def Let_def take_drop)
  then show "rb_view (commit (length xs) (fill xs b)) = rb_view b @ xs"
    by (simp add: rb_view_def comp_def)
  show "rb_inv (commit (length xs) (fill xs b))"
    using assms le live
    by (auto simp: rb_inv_def) (auto simp: commit_def fill_def Let_def)
qed

lemma receive_facts:
  assumes "rb_inv b" "length xs \<le> snd (prepare n b)"
  shows "rb_view (receive n xs b) = rb_view b @ xs" "rb_inv (receive n xs b)"
proof -
  let ?p = "fst (prepare n b)"
  have "length xs \<le> rb_cap ?p - rb_end ?p"
    using assms prepare_facts(4) [OF assms(1)] by simp
  with fill_commit_facts [OF prepare_facts(2) [OF assms(1)], of xs n] prepare_facts(1) [OF assms(1)]
  show "rb_view (receive n xs b) = rb_view b @ xs" "rb_inv (receive n xs b)"
    by (simp_all add: receive_def rb_view_def)
qed

lemma maybe_shrink_facts:
  assumes "rb_inv b"
  shows "rb_live (maybe_shrink b) = rb_live b" "rb_inv (maybe_shrink b)"
    "rb_size (maybe_shrink b) = rb_size b" "rb_cap (maybe_shrink b) \<le> rb_cap b"
    "rb_watermark (maybe_shrink b) = rb_watermark b" "rb_received (maybe_shrink b) = rb_received b"
proof -
  let ?t = "round_up (max (max kMinCapacity (rb_size b)) (rb_watermark b)) kAllocGranularity"
  have "rb_size b \<le> ?t"
    by (rule order_trans [OF _ round_up_ge]) simp_all
  note r = reallocate_facts [OF assms this]
  show "rb_live (maybe_shrink b) = rb_live b" "rb_inv (maybe_shrink b)"
    "rb_size (maybe_shrink b) = rb_size b" "rb_cap (maybe_shrink b) \<le> rb_cap b"
    using r assms by (auto simp: maybe_shrink_def Let_def)
  show "rb_watermark (maybe_shrink b) = rb_watermark b" "rb_received (maybe_shrink b) = rb_received b"
    by (auto simp: maybe_shrink_def Let_def reallocate_def)
qed

lemma consume_facts:
  assumes "rb_inv b" "n \<le> rb_size b"
  shows "rb_view (consume n b) = drop n (rb_view b)" "rb_inv (consume n b)"
proof -
  let ?b1 = "b\<lparr>rb_start := rb_start b + n\<rparr>"
  have l1: "rb_live ?b1 = drop n (rb_live b)"
    by (simp add: rb_live_def rb_size_def drop_take add.commute)
  have i1: "rb_inv ?b1"
    using assms l1 by (auto simp: rb_inv_def rb_size_def dest: in_set_dropD)
  have "rb_view (consume n b) = drop n (rb_view b) \<and> rb_inv (consume n b)"
  proof (cases "rb_start ?b1 = rb_end ?b1")
    case False
    with l1 i1 show ?thesis
      by (simp add: consume_def Let_def rb_view_def drop_map)
  next
    case True
    let ?z = "?b1\<lparr>rb_start := 0, rb_end := 0\<rparr>"
    have z: "rb_inv ?z" "rb_live ?z = []"
      using assms by (auto simp: rb_inv_def rb_live_def rb_size_def)
    have s: "rb_inv (sample_usage ?z)" "rb_live (sample_usage ?z) = []"
      using z rb_cong [of "sample_usage ?z" ?z] by simp_all
    have "drop n (rb_view b) = []"
      using True length_rb_view [OF assms(1)] by (simp add: rb_size_def)
    with True s maybe_shrink_facts [OF s(1)] show ?thesis
      by (simp add: consume_def Let_def rb_view_def)
  qed
  then show "rb_view (consume n b) = drop n (rb_view b)" "rb_inv (consume n b)"
    by simp_all
qed

lemma decay_facts:
  assumes "rb_inv b"
  shows "rb_live (decay b) = rb_live b" "rb_inv (decay b)" "rb_size (decay b) = rb_size b"
    "rb_cap (decay b) \<le> rb_cap b" "rb_view (decay b) = rb_view b"
proof -
  let ?w = "b\<lparr>rb_watermark := rb_watermark b div 2\<rparr>" and ?r = "b\<lparr>rb_received := False\<rparr>"
  have "rb_inv ?w" "rb_live ?w = rb_live b" "rb_size ?w = rb_size b"
    "rb_inv ?r" "rb_live ?r = rb_live b" "rb_size ?r = rb_size b"
    using assms rb_cong [of ?w b] rb_cong [of ?r b] by simp_all
  with assms maybe_shrink_facts [of ?w]
  show l: "rb_live (decay b) = rb_live b" and "rb_inv (decay b)" "rb_size (decay b) = rb_size b"
    "rb_cap (decay b) \<le> rb_cap b"
    by (auto simp: decay_def)
  from l show "rb_view (decay b) = rb_view b"
    by (simp add: rb_view_def)
qed

lemma rb_clear_facts:
  "rb_inv b \<Longrightarrow> rb_inv (rb_clear b)" "rb_view (rb_clear b) = []"
  by (auto simp: rb_inv_def rb_clear_def rb_live_def rb_size_def rb_view_def)

lemma rb_reset_facts:
  "rb_inv (rb_reset b)" "rb_view (rb_reset b) = []" "rb_cap (rb_reset b) = 0"
  by (auto simp: rb_inv_def rb_reset_def rb_live_def rb_size_def rb_view_def)

lemma rb_init_facts [inv_intro]: "rb_inv (rb_init n)" "rb_view (rb_init n) = []"
proof -
  have "rb_size rb_null \<le> k" for k
    by (simp add: rb_null_def rb_size_def)
  from grow_to_facts [OF rb_inv_null this] show "rb_inv (rb_init n)" "rb_view (rb_init n) = []"
    by (auto simp: rb_init_def rb_inv_null rb_view_def) (auto simp: rb_null_def rb_live_def rb_size_def)
qed

text \<open>The buffer is a byte queue: a read that asks for what it delivers, and \<open>consume\<close>.\<close>

definition rb_push :: "rbuf \<Rightarrow> bytes \<Rightarrow> rbuf" where
  "rb_push b xs = receive (length xs) xs b"

definition rb_pop :: "rbuf \<Rightarrow> nat \<Rightarrow> rbuf" where
  "rb_pop b n = consume n b"

interpretation rx: byte_fifo rb_view rb_inv rb_push rb_pop
proof unfold_locales
  fix b :: rbuf and xs :: bytes and n :: nat
  assume b: "rb_inv b"
  then have "length xs \<le> snd (prepare (length xs) b)"
    by (rule prepare_facts(3))
  from receive_facts [OF b this]
  show "rb_view (rb_push b xs) = rb_view b @ xs" "rb_inv (rb_push b xs)"
    by (simp_all add: rb_push_def)
  assume "n \<le> length (rb_view b)"
  with b consume_facts [OF b, of n] length_rb_view [OF b]
  show "rb_view (rb_pop b n) = drop n (rb_view b)" "rb_inv (rb_pop b n)"
    by (simp_all add: rb_pop_def)
qed

subsection \<open>Runs of the buffer\<close>

text \<open>
  A client's use of the buffer, as the connection uses it: reads of any requested size, to
  which the socket answers with at most as many bytes as the span offers; consumption of at
  most the live bytes; and maintenance. The run keeps what was read and what was consumed.
\<close>

datatype rb_op = Recv nat bytes | Take nat | Tick | Compact

definition rb_exec :: "rbuf \<times> bytes \<times> bytes \<Rightarrow> rb_op \<Rightarrow> rbuf \<times> bytes \<times> bytes" where
  "rb_exec s x =
     (case s of (b, inp, out) \<Rightarrow>
       (case x of
          Recv m xs \<Rightarrow> (let ys = take (snd (prepare m b)) xs in (receive m ys b, inp @ ys, out))
        | Take n \<Rightarrow> (let k = min n (rb_size b) in (consume k b, inp, out @ take k (rb_view b)))
        | Tick \<Rightarrow> (decay b, inp, out)
        | Compact \<Rightarrow> (compact b, inp, out)))"

definition rb_conserves :: "rbuf \<times> bytes \<times> bytes \<Rightarrow> bool" where
  "rb_conserves s = (case s of (b, inp, out) \<Rightarrow> rb_inv b \<and> out @ rb_view b = inp)"

lemma rb_exec_conserves: "rb_conserves s \<Longrightarrow> rb_conserves (rb_exec s x)"
proof -
  assume s: "rb_conserves s"
  obtain b inp out where eq: "s = (b, inp, out)"
    by (cases s)
  with s have b: "rb_inv b" and io: "inp = out @ rb_view b"
    by (simp_all add: rb_conserves_def)
  show ?thesis
  proof (cases x)
    case (Recv m xs)
    with receive_facts [OF b, of "take (snd (prepare m b)) xs" m] show ?thesis
      by (simp add: eq io rb_exec_def rb_conserves_def Let_def)
  next
    case (Take n)
    with consume_facts [OF b, of "min n (rb_size b)"] show ?thesis
      by (simp add: eq io rb_exec_def rb_conserves_def Let_def)
  next
    case Tick
    with decay_facts [OF b] show ?thesis
      by (simp add: eq io rb_exec_def rb_conserves_def)
  next
    case Compact
    with compact_facts [OF b] show ?thesis
      by (simp add: eq io rb_exec_def rb_conserves_def rb_view_def)
  qed
qed

lemma rb_run_conserves: "rb_conserves s \<Longrightarrow> rb_conserves (foldl rb_exec s ops)"
  by (induction ops arbitrary: s) (simp_all add: rb_exec_conserves)

subsection \<open>Idle decay\<close>

lemma kMin_round_up: "round_up kMinCapacity kAllocGranularity = kMinCapacity"
  by (simp add: round_up_def kMinCapacity_def kAllocGranularity_def)

definition decay_bound :: "nat \<Rightarrow> nat" where
  "decay_bound live = max (round_up (max kMinCapacity live) kAllocGranularity) (2 * live)"

lemma decay_bound_ge: "kMinCapacity \<le> decay_bound live" "2 * live \<le> decay_bound live"
  "round_up (max kMinCapacity live) kAllocGranularity \<le> decay_bound live"
  using round_up_ge [OF granularity_pos, of "max kMinCapacity live"]
  by (auto simp: decay_bound_def)

lemma decay_pow_facts:
  assumes "rb_inv b"
  shows "rb_inv ((decay ^^ k) b) \<and> rb_size ((decay ^^ k) b) = rb_size b \<and>
    rb_view ((decay ^^ k) b) = rb_view b \<and> rb_cap ((decay ^^ k) b) \<le> rb_cap b"
  using assms
proof (induction k)
  case (Suc k)
  then show ?case
    using decay_facts [of "(decay ^^ k) b"] by auto
qed simp

text \<open>A silent tick either finds the allocation within the bound or halves the watermark.\<close>

lemma silent_decay:
  assumes "rb_inv b" "\<not> rb_received b" "decay_bound (rb_size b) < rb_cap b"
  shows "rb_watermark (decay b) = rb_watermark b div 2" "\<not> rb_received (decay b)"
    and "rb_watermark b \<le> 1 \<Longrightarrow> rb_cap (decay b) \<le> decay_bound (rb_size b)"
proof -
  let ?w = "b\<lparr>rb_watermark := rb_watermark b div 2\<rparr>"
  have w: "rb_inv ?w" "rb_size ?w = rb_size b"
    using assms rb_cong [of ?w b] by simp_all
  have gt: "kMinCapacity < rb_cap b" "\<not> rb_cap b < rb_size b * 2"
    using assms(3) decay_bound_ge [of "rb_size b"] by auto
  have d: "decay b = maybe_shrink ?w"
    using assms gt by (simp add: decay_def)
  show "rb_watermark (decay b) = rb_watermark b div 2" "\<not> rb_received (decay b)"
    using maybe_shrink_facts [OF w(1)] assms(2) by (simp_all add: d)
  assume "rb_watermark b \<le> 1"
  then have z: "rb_watermark b div 2 = 0" by simp
  have sz: "rb_size b \<le> round_up (max kMinCapacity (rb_size b)) kAllocGranularity"
    by (rule order_trans [OF _ round_up_ge]) simp_all
  have "0 < rb_cap b div 2"
    using gt by (simp add: kMinCapacity_def)
  then have "maybe_shrink ?w = reallocate (round_up (max kMinCapacity (rb_size b)) kAllocGranularity) ?w"
    using z gt assms(3) decay_bound_ge(3) [of "rb_size b"] w(2) by (simp add: maybe_shrink_def Let_def)
  then show "rb_cap (decay b) \<le> decay_bound (rb_size b)"
    using reallocate_facts [OF w(1), of "round_up (max kMinCapacity (rb_size b)) kAllocGranularity"] sz w(2)
      decay_bound_ge(3) [of "rb_size b"]
    by (simp add: d)
qed

lemma silent_decay_converges:
  assumes "rb_inv b" "\<not> rb_received b" "rb_watermark b < 2 ^ Suc k"
  shows "rb_cap ((decay ^^ Suc k) b) \<le> decay_bound (rb_size b)"
  using assms
proof (induction k arbitrary: b)
  case 0
  then show ?case
    using silent_decay [of b] decay_facts [of b] by (cases "decay_bound (rb_size b) < rb_cap b") auto
next
  case (Suc k)
  show ?case
  proof (cases "decay_bound (rb_size b) < rb_cap b")
    case True
    with Suc.prems have "rb_cap ((decay ^^ Suc k) (decay b)) \<le> decay_bound (rb_size (decay b))"
      by (intro Suc.IH) (auto simp: silent_decay decay_facts)
    then show ?thesis
      using decay_facts(3) [OF Suc.prems(1)] by (simp add: funpow_Suc_right del: funpow.simps)
  next
    case False
    then show ?thesis
      using decay_pow_facts [OF Suc.prems(1), of "Suc (Suc k)"] by simp
  qed
qed

subsection \<open>Properties\<close>

text \<open>
  C3: the receive buffer never loses, reorders or invents a byte. From any initial capacity,
  over any sequence of reads, consumptions, compactions and idle ticks, the bytes consumed
  followed by the bytes still live are exactly the bytes received, and every live byte is one
  that was written (the invariant): the parser never sees uninitialised or stale memory, no
  matter how the buffer was compacted, grown or shrunk in between.
\<close>

theorem receive_buffer_conserves:
  assumes "foldl rb_exec (rb_init n, [], []) ops = (b, inp, out)"
  shows "rb_inv b \<and> out @ rb_view b = inp"
proof -
  have "rb_conserves (rb_init n, [], [])"
    by (simp add: rb_conserves_def rb_init_facts)
  from rb_run_conserves [OF this, of ops] assms show ?thesis
    by (simp add: rb_conserves_def)
qed

theorem receive_buffer_conserves_witness:
  "\<exists>b inp out. foldl rb_exec (rb_init 0, [], []) [Recv 3 [1, 2, 3], Take 2, Tick, Recv 1 [4]] =
     (b, inp, out) \<and> rb_inv b \<and> out @ rb_view b = inp"
proof -
  obtain b inp out where
    e: "foldl rb_exec (rb_init 0, [], []) [Recv 3 [1, 2, 3], Take 2, Tick, Recv 1 [4]] = (b, inp, out)"
    by (cases "foldl rb_exec (rb_init 0, [], []) [Recv 3 [1, 2, 3], Take 2, Tick, Recv 1 [4]]")
  from e receive_buffer_conserves [OF e] show ?thesis by blast
qed

text \<open>
  An idle connection gives its memory back. After one tick that may still see the flag of
  earlier traffic, every further silent tick halves the remembered demand, so within
  logarithmically many ticks the allocation is at most the larger of the rounded-up floor and
  twice the bytes still live, and those bytes are unchanged.
\<close>

lemma idle_decay_converges:
  assumes "rb_inv b" and "rb_watermark b < 2 ^ k"
  shows "rb_view ((decay ^^ (k + 2)) b) = rb_view b \<and>
    rb_cap ((decay ^^ (k + 2)) b) \<le> decay_bound (rb_size b)"
proof -
  have "rb_cap ((decay ^^ Suc k) (decay b)) \<le> decay_bound (rb_size b)"
  proof (cases "rb_cap b \<le> kMinCapacity \<or> \<not> decay_bound (rb_size b) < rb_cap b")
    case True
    then have "rb_cap b \<le> decay_bound (rb_size b)"
      using decay_bound_ge [of "rb_size b"] by auto
    then show ?thesis
      using decay_pow_facts [OF assms(1), of "Suc (Suc k)"]
      by (simp add: funpow_Suc_right del: funpow.simps)
  next
    case False
    then have "\<not> rb_received (decay b)" "rb_watermark (decay b) \<le> rb_watermark b"
      using silent_decay [OF assms(1)] by (cases "rb_received b"; simp add: decay_def)+
    moreover have "rb_watermark b < 2 ^ Suc k"
      using assms(2) by (rule less_le_trans) simp
    ultimately show ?thesis
      using silent_decay_converges [of "decay b" k] decay_facts [OF assms(1)] by simp
  qed
  then show ?thesis
    using decay_pow_facts [OF assms(1), of "k + 2"] by (simp add: funpow_Suc_right del: funpow.simps)
qed

end
