(* ===== verification/Send_Buffer.thy ===== *)
theory Send_Buffer
  imports Byte_Fifo
begin

text \<open>
  The outbound byte queue of \<open>src/librats/core/chained_send_buffer.h\<close> and \<open>.cpp\<close>: a vector
  of heap chunks with a head index, drained with gather I/O. A \<open>Bytes\<close> value is a record of
  its contents and its capacity, since the code decides by capacity where to pack a small
  message; \<open>reserve\<close> on an empty vector gives exactly the capacity asked for, and a
  moved-from buffer is empty with capacity 0 (the code overwrites it with an empty one). The
  capacity of the slot vector \<open>chunks_\<close> itself, which \<open>reclaim_drained_slots\<close> also trims,
  is not observable through the interface and is not part of the model.
\<close>

record vec =
  vc_data :: bytes
  vc_cap :: nat

record chunk =
  ck_buf :: vec
  ck_sent :: nat

record sbuf =
  sb_chunks :: "chunk list"
  sb_head :: nat
  sb_pending :: nat
  sb_allocated :: nat
  sb_recycled :: vec

definition kScratchCapacity :: nat where "kScratchCapacity = 1024"
definition kMaxRecycledCapacity :: nat where "kMaxRecycledCapacity = 4 * 1024"
definition kMaxGatherBytes :: nat where "kMaxGatherBytes = 1024 * 1024"

definition vec_empty :: vec where
  "vec_empty = \<lparr>vc_data = [], vc_cap = 0\<rparr>"

definition sb_null :: sbuf where
  "sb_null = \<lparr>sb_chunks = [], sb_head = 0, sb_pending = 0, sb_allocated = 0,
              sb_recycled = vec_empty\<rparr>"

definition ck_size :: "chunk \<Rightarrow> nat" where
  "ck_size c = length (vc_data (ck_buf c))"

definition ck_remaining :: "chunk \<Rightarrow> nat" where
  "ck_remaining c = ck_size c - ck_sent c"

definition ck_slice :: "chunk \<Rightarrow> bytes" where
  "ck_slice c = drop (ck_sent c) (vc_data (ck_buf c))"

definition sb_is_empty :: "sbuf \<Rightarrow> bool" where
  "sb_is_empty b \<longleftrightarrow> sb_pending b = 0"

definition sb_held :: "sbuf \<Rightarrow> nat" where
  "sb_held b = sb_allocated b + vc_cap (sb_recycled b)"

subsection \<open>Queueing\<close>

definition append_own :: "vec \<Rightarrow> sbuf \<Rightarrow> sbuf" where
  "append_own v b =
     (if vc_data v = [] then b
      else b\<lparr>sb_pending := sb_pending b + length (vc_data v),
             sb_allocated := sb_allocated b + vc_cap v,
             sb_chunks := sb_chunks b @ [\<lparr>ck_buf = v, ck_sent = 0\<rparr>]\<rparr>)"

definition coalescable_tail :: "nat \<Rightarrow> sbuf \<Rightarrow> bool" where
  "coalescable_tail n b =
     (if sb_head b = length (sb_chunks b) then False
      else let tail = ck_buf (last (sb_chunks b)) in vc_cap tail - length (vc_data tail) \<ge> n)"

definition take_chunk :: "nat \<Rightarrow> sbuf \<Rightarrow> vec \<times> sbuf" where
  "take_chunk n b =
     (if vc_cap (sb_recycled b) \<ge> n
      then (sb_recycled b, b\<lparr>sb_recycled := vec_empty\<rparr>)
      else (\<lparr>vc_data = [], vc_cap = max n kScratchCapacity\<rparr>, b))"

definition pack_tail :: "bytes \<Rightarrow> chunk \<Rightarrow> chunk" where
  "pack_tail xs c = c\<lparr>ck_buf := (ck_buf c)\<lparr>vc_data := vc_data (ck_buf c) @ xs\<rparr>\<rparr>"

definition append_copy :: "bytes \<Rightarrow> sbuf \<Rightarrow> sbuf" where
  "append_copy xs b =
     (if xs = [] then b
      else if coalescable_tail (length xs) b
      then b\<lparr>sb_chunks := butlast (sb_chunks b) @ [pack_tail xs (last (sb_chunks b))],
             sb_pending := sb_pending b + length xs\<rparr>
      else let (v, b1) = take_chunk (length xs) b in append_own (v\<lparr>vc_data := xs\<rparr>) b1)"

subsection \<open>Draining\<close>

fun gather_loop :: "nat \<Rightarrow> chunk list \<Rightarrow> nat \<Rightarrow> nat \<Rightarrow> bytes list" where
  "gather_loop max_bytes [] slots acc = []"
| "gather_loop max_bytes (c # cs) slots acc =
     (if slots = 0 then []
      else ck_slice c #
        (if acc + ck_remaining c \<ge> max_bytes then []
         else gather_loop max_bytes cs (slots - 1) (acc + ck_remaining c)))"

definition gather :: "nat \<Rightarrow> nat \<Rightarrow> sbuf \<Rightarrow> bytes list" where
  "gather max_slices max_bytes b = gather_loop max_bytes (drop (sb_head b) (sb_chunks b)) max_slices 0"

definition front :: "sbuf \<Rightarrow> bytes" where
  "front b = (if sb_head b = length (sb_chunks b) then [] else ck_slice (sb_chunks b ! sb_head b))"

definition recycle :: "vec \<Rightarrow> sbuf \<Rightarrow> sbuf" where
  "recycle dead b =
     (if vc_cap dead > kMaxRecycledCapacity then b
      else if vc_cap dead \<le> vc_cap (sb_recycled b) then b
      else b\<lparr>sb_recycled := dead\<lparr>vc_data := []\<rparr>\<rparr>)"

definition drop_head_chunk :: "sbuf \<Rightarrow> sbuf" where
  "drop_head_chunk b =
     (let h = sb_chunks b ! sb_head b;
          b1 = b\<lparr>sb_pending := sb_pending b - ck_remaining h,
                 sb_allocated := sb_allocated b - vc_cap (ck_buf h),
                 sb_chunks := (sb_chunks b)[sb_head b := h\<lparr>ck_buf := vec_empty\<rparr>]\<rparr>;
          b2 = recycle (ck_buf h) b1
      in b2\<lparr>sb_head := sb_head b2 + 1\<rparr>)"

definition advance_head :: "nat \<Rightarrow> sbuf \<Rightarrow> sbuf" where
  "advance_head n b =
     (let h = sb_chunks b ! sb_head b in
      b\<lparr>sb_chunks := (sb_chunks b)[sb_head b := h\<lparr>ck_sent := ck_sent h + n\<rparr>],
        sb_pending := sb_pending b - n\<rparr>)"

lemma drop_head_chunk_measure [simp]:
  "sb_head (drop_head_chunk b) = Suc (sb_head b)"
  "length (sb_chunks (drop_head_chunk b)) = length (sb_chunks b)"
  by (simp_all add: drop_head_chunk_def recycle_def Let_def)

function pop_loop :: "nat \<Rightarrow> sbuf \<Rightarrow> sbuf" where
  "pop_loop n b =
     (if 0 < n \<and> sb_head b < length (sb_chunks b)
      then let left = ck_remaining (sb_chunks b ! sb_head b) in
        if n < left then advance_head n b
        else pop_loop (n - left) (drop_head_chunk b)
      else b)"
  by pat_completeness auto
termination
  by (relation "measure (\<lambda>(n, b). length (sb_chunks b) - sb_head b)") auto

declare pop_loop.simps [simp del]

definition reclaim_drained_slots :: "sbuf \<Rightarrow> sbuf" where
  "reclaim_drained_slots b =
     (if sb_head b = 0 then b
      else if sb_head b = length (sb_chunks b) then b\<lparr>sb_chunks := [], sb_head := 0\<rparr>
      else if sb_head b * 2 \<ge> length (sb_chunks b)
      then b\<lparr>sb_chunks := drop (sb_head b) (sb_chunks b), sb_head := 0\<rparr>
      else b)"

definition pop_front :: "nat \<Rightarrow> sbuf \<Rightarrow> sbuf" where
  "pop_front n b = reclaim_drained_slots (pop_loop n b)"

definition sb_clear :: "sbuf \<Rightarrow> sbuf" where
  "sb_clear b = sb_null"

definition sb_move :: "sbuf \<Rightarrow> sbuf \<times> sbuf" where
  "sb_move other = (other, sb_clear other)"

subsection \<open>Abstraction and invariant\<close>

definition sb_live :: "sbuf \<Rightarrow> chunk list" where
  "sb_live b = drop (sb_head b) (sb_chunks b)"

definition sb_view :: "sbuf \<Rightarrow> bytes" where
  "sb_view b = concat (map ck_slice (sb_live b))"

definition ck_ok :: "chunk \<Rightarrow> bool" where
  "ck_ok c \<longleftrightarrow> ck_sent c < ck_size c \<and> ck_size c \<le> vc_cap (ck_buf c)"

definition sb_inv :: "sbuf \<Rightarrow> bool" where
  "sb_inv b \<longleftrightarrow>
     sb_head b \<le> length (sb_chunks b) \<and> list_all ck_ok (sb_live b) \<and>
     sb_pending b = length (sb_view b) \<and>
     sb_allocated b = sum_list (map (\<lambda>c. vc_cap (ck_buf c)) (sb_live b)) \<and>
     vc_data (sb_recycled b) = [] \<and> vc_cap (sb_recycled b) \<le> kMaxRecycledCapacity"

lemma length_ck_slice [simp]: "length (ck_slice c) = ck_remaining c"
  by (simp add: ck_slice_def ck_remaining_def ck_size_def)

lemma sb_inv_null [inv_intro]: "sb_inv sb_null" and sb_view_null [simp]: "sb_view sb_null = []"
  by (simp_all add: sb_inv_def sb_null_def sb_view_def sb_live_def vec_empty_def)

lemma append_own_facts:
  assumes "sb_inv b" "length (vc_data v) \<le> vc_cap v"
  shows "sb_view (append_own v b) = sb_view b @ vc_data v" "sb_inv (append_own v b)"
  using assms
  by (auto simp: append_own_def sb_inv_def sb_view_def sb_live_def ck_ok_def ck_slice_def ck_size_def)

lemma pack_tail_slice: "ck_ok c \<Longrightarrow> ck_slice (pack_tail xs c) = ck_slice c @ xs"
  by (simp add: ck_ok_def ck_slice_def pack_tail_def ck_size_def)

lemma pack_tail_ok:
  "ck_ok c \<Longrightarrow> length xs \<le> vc_cap (ck_buf c) - length (vc_data (ck_buf c)) \<Longrightarrow> ck_ok (pack_tail xs c)"
  by (auto simp: ck_ok_def pack_tail_def ck_size_def)

lemma append_packed_facts:
  assumes "sb_inv b" "coalescable_tail (length xs) b" "xs \<noteq> []"
  shows "sb_view (append_copy xs b) = sb_view b @ xs" "sb_inv (append_copy xs b)"
proof -
  have ne: "sb_chunks b \<noteq> []" "sb_head b < length (sb_chunks b)"
    and room: "length xs \<le> vc_cap (ck_buf (last (sb_chunks b))) - length (vc_data (ck_buf (last (sb_chunks b))))"
    using assms by (auto simp: coalescable_tail_def sb_inv_def Let_def split: if_splits)
  obtain cs c where cs: "sb_chunks b = cs @ [c]"
    using ne by (metis rev_exhaust)
  with ne have h: "sb_head b \<le> length cs" by simp
  have c: "ck_ok c"
    using assms(1) h by (simp add: sb_inv_def sb_live_def cs)
  have a: "append_copy xs b =
      b\<lparr>sb_chunks := cs @ [pack_tail xs c], sb_pending := sb_pending b + length xs\<rparr>"
    using assms(2,3) by (simp add: append_copy_def cs)
  show "sb_view (append_copy xs b) = sb_view b @ xs"
    using h c by (simp add: a sb_view_def sb_live_def cs pack_tail_slice)
  then show "sb_inv (append_copy xs b)"
    using assms(1) h c room pack_tail_ok [OF c, of xs]
    by (simp add: sb_inv_def a sb_live_def cs) (simp add: pack_tail_def)
qed

lemma append_copy_facts:
  assumes "sb_inv b"
  shows "sb_view (append_copy xs b) = sb_view b @ xs \<and> sb_inv (append_copy xs b)"
proof -
  consider "xs = []" | "xs \<noteq> []" "coalescable_tail (length xs) b"
    | "xs \<noteq> []" "\<not> coalescable_tail (length xs) b" by blast
  then show ?thesis
  proof cases
    case 3
    obtain v b1 where t: "take_chunk (length xs) b = (v, b1)" by fastforce
    have "sb_inv b1" "sb_view b1 = sb_view b" "length xs \<le> vc_cap v"
      using t assms
      by (auto simp: take_chunk_def vec_empty_def sb_inv_def sb_view_def sb_live_def split: if_splits)
    with 3 t append_own_facts [of b1 "v\<lparr>vc_data := xs\<rparr>"] show ?thesis
      by (simp add: append_copy_def)
  qed (use assms append_packed_facts in \<open>simp_all add: append_copy_def [of "[]"]\<close>)
qed

subsection \<open>Draining lemmas\<close>

lemma sb_live_Cons:
  assumes "sb_head b < length (sb_chunks b)"
  shows "sb_live b = sb_chunks b ! sb_head b # drop (Suc (sb_head b)) (sb_chunks b)"
  using assms by (simp add: sb_live_def Cons_nth_drop_Suc)

lemma gather_loop_prefix: "\<exists>rest. concat (map ck_slice cs) = concat (gather_loop m cs k acc) @ rest"
proof (induction cs arbitrary: k acc)
  case (Cons c cs)
  from Cons.IH [of "k - 1" "acc + ck_remaining c"] show ?case by auto
qed simp

lemma gather_loop_count: "length (gather_loop m cs k acc) \<le> k"
  by (induction m cs k acc rule: gather_loop.induct) auto

lemma drop_head_chunk_facts:
  assumes "sb_inv b" "sb_head b < length (sb_chunks b)"
  shows "sb_inv (drop_head_chunk b)"
    and "sb_view b = ck_slice (sb_chunks b ! sb_head b) @ sb_view (drop_head_chunk b)"
proof -
  let ?h = "sb_chunks b ! sb_head b"
  have live: "sb_live (drop_head_chunk b) = drop (Suc (sb_head b)) (sb_chunks b)"
    by (simp add: sb_live_def drop_head_chunk_def recycle_def Let_def)
  show v: "sb_view b = ck_slice ?h @ sb_view (drop_head_chunk b)"
    using sb_live_Cons [OF assms(2)] by (simp add: sb_view_def live)
  have p: "sb_pending (drop_head_chunk b) = sb_pending b - ck_remaining ?h"
    "sb_allocated (drop_head_chunk b) = sb_allocated b - vc_cap (ck_buf ?h)"
    by (simp_all add: drop_head_chunk_def recycle_def Let_def)
  have r: "vc_data (sb_recycled (drop_head_chunk b)) = []"
    "vc_cap (sb_recycled (drop_head_chunk b)) \<le> kMaxRecycledCapacity"
    using assms(1) by (auto simp: drop_head_chunk_def recycle_def Let_def sb_inv_def)
  show "sb_inv (drop_head_chunk b)"
    using assms v p r sb_live_Cons [OF assms(2)] by (simp add: sb_inv_def live)
qed

lemma advance_head_facts:
  assumes "sb_inv b" "sb_head b < length (sb_chunks b)" "n < ck_remaining (sb_chunks b ! sb_head b)"
  shows "sb_inv (advance_head n b)" "sb_view (advance_head n b) = drop n (sb_view b)"
proof -
  let ?h = "sb_chunks b ! sb_head b"
  let ?h' = "?h\<lparr>ck_sent := ck_sent ?h + n\<rparr>"
  have live: "sb_live (advance_head n b) = ?h' # drop (Suc (sb_head b)) (sb_chunks b)"
    using assms(2) by (simp add: sb_live_def advance_head_def Let_def Cons_nth_drop_Suc [symmetric]
        drop_update_cancel)
  have sl: "ck_slice ?h' = drop n (ck_slice ?h)"
    by (simp add: ck_slice_def add.commute)
  show v: "sb_view (advance_head n b) = drop n (sb_view b)"
    using sb_live_Cons [OF assms(2)] sl assms(3) by (simp add: sb_view_def live)
  have "ck_ok ?h'"
    using assms sb_live_Cons [OF assms(2)]
    by (auto simp: sb_inv_def ck_ok_def ck_remaining_def ck_size_def)
  then show "sb_inv (advance_head n b)"
    using assms v sb_live_Cons [OF assms(2)]
    by (simp add: sb_inv_def live) (simp add: advance_head_def Let_def)
qed

lemma pop_loop_facts:
  assumes "sb_inv b"
  shows "sb_inv (pop_loop n b) \<and> sb_view (pop_loop n b) = drop n (sb_view b)"
  using assms
proof (induction n b rule: pop_loop.induct)
  case (1 n b)
  let ?h = "sb_chunks b ! sb_head b"
  consider "n = 0" | "sb_head b = length (sb_chunks b)"
    | "0 < n" "sb_head b < length (sb_chunks b)" "n < ck_remaining ?h"
    | "0 < n" "sb_head b < length (sb_chunks b)" "\<not> n < ck_remaining ?h"
    using "1.prems" by (meson le_neq_implies_less neq0_conv sb_inv_def)
  then show ?case
  proof cases
    case 4
    with "1.IH" drop_head_chunk_facts [OF "1.prems" 4(2)]
    show ?thesis by (simp add: pop_loop.simps [of n b] Let_def)
  next
    case 1
    with "1.prems" show ?thesis by (simp add: pop_loop.simps [of 0 b])
  next
    case 2
    with "1.prems" show ?thesis by (simp add: pop_loop.simps [of n b] sb_view_def sb_live_def)
  next
    case 3
    with "1.prems" show ?thesis by (simp add: pop_loop.simps [of n b] Let_def advance_head_facts)
  qed
qed

lemma reclaim_facts:
  assumes "sb_inv b"
  shows "sb_inv (reclaim_drained_slots b)" "sb_view (reclaim_drained_slots b) = sb_view b"
    "sb_head (reclaim_drained_slots b) = 0 \<or>
       2 * sb_head (reclaim_drained_slots b) < length (sb_chunks (reclaim_drained_slots b))"
  using assms
  by (auto simp: reclaim_drained_slots_def sb_inv_def sb_view_def sb_live_def)

lemma pop_front_facts:
  assumes "sb_inv b"
  shows "sb_inv (pop_front n b)" "sb_view (pop_front n b) = drop n (sb_view b)"
  using reclaim_facts [of "pop_loop n b"] pop_loop_facts [OF assms, of n]
  by (simp_all add: pop_front_def)

text \<open>Sending never makes the queue hold more memory than before.\<close>

lemma drop_head_chunk_held:
  assumes "sb_inv b" "sb_head b < length (sb_chunks b)"
  shows "sb_held (drop_head_chunk b) \<le> sb_held b"
proof -
  have "vc_cap (ck_buf (sb_chunks b ! sb_head b)) \<le> sb_allocated b"
    using assms sb_live_Cons [OF assms(2)] by (simp add: sb_inv_def)
  then show ?thesis
    by (auto simp: drop_head_chunk_def recycle_def sb_held_def Let_def)
qed

lemma pop_loop_held: "sb_inv b \<Longrightarrow> sb_held (pop_loop n b) \<le> sb_held b"
proof (induction n b rule: pop_loop.induct)
  case (1 n b)
  show ?case
  proof (cases "0 < n \<and> sb_head b < length (sb_chunks b) \<and> ck_remaining (sb_chunks b ! sb_head b) \<le> n")
    case True
    then show ?thesis
      using 1 drop_head_chunk_facts [OF "1.prems"] drop_head_chunk_held [OF "1.prems"]
      by (subst pop_loop.simps) (auto simp: Let_def intro: order_trans)
  next
    case False
    then show ?thesis
      by (subst pop_loop.simps) (auto simp: Let_def advance_head_def sb_held_def)
  qed
qed

lemma pop_front_held: "sb_inv b \<Longrightarrow> sb_held (pop_front n b) \<le> sb_held b"
  using pop_loop_held [of b n]
  by (auto simp: pop_front_def reclaim_drained_slots_def sb_held_def)

text \<open>Queueing adds at most the chunk it opens.\<close>

lemma append_copy_held: "sb_held (append_copy xs b) \<le> sb_held b + max (length xs) kScratchCapacity"
  by (auto simp: append_copy_def append_own_def take_chunk_def sb_held_def vec_empty_def)

text \<open>The send queue is a byte queue: copies go in at the back, sent bytes leave in front.\<close>

definition sb_push :: "sbuf \<Rightarrow> bytes \<Rightarrow> sbuf" where
  "sb_push b xs = append_copy xs b"

definition sb_pop :: "sbuf \<Rightarrow> nat \<Rightarrow> sbuf" where
  "sb_pop b n = pop_front n b"

interpretation tx: byte_fifo sb_view sb_inv sb_push sb_pop
  by unfold_locales
    (simp_all add: sb_push_def sb_pop_def append_copy_facts pop_front_facts)

subsection \<open>Runs of the queue\<close>

text \<open>
  The owner's use of the queue: messages are queued by copy or by handing over a buffer, and
  a send describes the front of the queue with \<open>gather\<close> and drops as many bytes as the
  socket accepted. The run keeps what was queued and what left.
\<close>

definition kMaxSendSlices :: nat where "kMaxSendSlices = 256"

datatype sb_op = AppendOwn vec | AppendCopy bytes | SendSome nat

definition gathered :: "sbuf \<Rightarrow> bytes" where
  "gathered b = concat (gather kMaxSendSlices kMaxGatherBytes b)"

definition sb_exec :: "sbuf \<times> bytes \<times> bytes \<Rightarrow> sb_op \<Rightarrow> sbuf \<times> bytes \<times> bytes" where
  "sb_exec s x =
     (case s of (b, queued, sent) \<Rightarrow>
       (case x of
          AppendOwn v \<Rightarrow> (append_own v b, queued @ vc_data v, sent)
        | AppendCopy xs \<Rightarrow> (append_copy xs b, queued @ xs, sent)
        | SendSome n \<Rightarrow>
            (let out = take n (gathered b) in (pop_front (length out) b, queued, sent @ out))))"

definition sb_op_ok :: "sb_op \<Rightarrow> bool" where
  "sb_op_ok x = (case x of AppendOwn v \<Rightarrow> length (vc_data v) \<le> vc_cap v | _ \<Rightarrow> True)"

definition sb_conserves :: "sbuf \<times> bytes \<times> bytes \<Rightarrow> bool" where
  "sb_conserves s = (case s of (b, queued, sent) \<Rightarrow> sb_inv b \<and> sent @ sb_view b = queued)"

lemma gathered_prefix: "\<exists>rest. sb_view b = gathered b @ rest"
  using gather_loop_prefix by (simp add: gathered_def gather_def sb_view_def sb_live_def)

lemma gathered_progress:
  assumes "sb_inv b" "\<not> sb_is_empty b"
  shows "gathered b \<noteq> []"
proof -
  have h: "sb_head b < length (sb_chunks b)"
    using assms by (cases "sb_head b = length (sb_chunks b)")
      (auto simp: sb_inv_def sb_is_empty_def sb_view_def sb_live_def)
  have "ck_ok (sb_chunks b ! sb_head b)"
    using assms(1) sb_live_Cons [OF h] by (simp add: sb_inv_def)
  then have "ck_slice (sb_chunks b ! sb_head b) \<noteq> []"
    by (simp add: ck_ok_def ck_slice_def ck_size_def)
  then show ?thesis
    using sb_live_Cons [OF h] by (simp add: gathered_def gather_def sb_live_def kMaxSendSlices_def)
qed

lemma pop_gathered:
  assumes "sb_inv b" "n \<le> length (gathered b)"
  shows "take n (gathered b) @ sb_view (pop_front n b) = sb_view b"
proof -
  obtain rest where "sb_view b = gathered b @ rest"
    using gathered_prefix by blast
  then have "take n (gathered b) = take n (sb_view b)"
    using assms(2) by simp
  then show ?thesis
    using pop_front_facts(2) [OF assms(1), of n] by simp
qed

lemma sb_exec_conserves: "sb_conserves s \<Longrightarrow> sb_op_ok x \<Longrightarrow> sb_conserves (sb_exec s x)"
proof -
  assume s: "sb_conserves s" and x: "sb_op_ok x"
  obtain b queued sent where eq: "s = (b, queued, sent)"
    by (cases s)
  with s have b: "sb_inv b" and io: "queued = sent @ sb_view b"
    by (simp_all add: sb_conserves_def)
  show ?thesis
  proof (cases x)
    case (AppendOwn v)
    with x append_own_facts [OF b, of v] show ?thesis
      by (simp add: eq io sb_exec_def sb_conserves_def sb_op_ok_def)
  next
    case (AppendCopy xs)
    with append_copy_facts [OF b, of xs] show ?thesis
      by (simp add: eq io sb_exec_def sb_conserves_def)
  next
    case (SendSome n)
    let ?k = "length (take n (gathered b))"
    have "take n (gathered b) = take ?k (gathered b)"
      by (simp add: min_def)
    with SendSome pop_gathered [OF b, of ?k] pop_front_facts(1) [OF b, of ?k] show ?thesis
      by (simp add: eq io sb_exec_def sb_conserves_def Let_def)
  qed
qed

lemma sb_run_conserves:
  "sb_conserves s \<Longrightarrow> list_all sb_op_ok ops \<Longrightarrow> sb_conserves (foldl sb_exec s ops)"
  by (induction ops arbitrary: s) (simp_all add: sb_exec_conserves)

lemma live_size_le_allocated:
  assumes "list_all ck_ok cs"
  shows "length (concat (map ck_slice cs)) \<le> sum_list (map (\<lambda>c. vc_cap (ck_buf c)) cs)"
  using assms by (induction cs) (auto simp: ck_ok_def ck_remaining_def)

lemmas sb_run_defs = append_own_def append_copy_def coalescable_tail_def take_chunk_def pack_tail_def
  gathered_def gather_def ck_slice_def ck_remaining_def ck_size_def sb_null_def vec_empty_def Let_def
  pop_front_def pop_loop.simps drop_head_chunk_def advance_head_def recycle_def reclaim_drained_slots_def
  sb_live_def kScratchCapacity_def kMaxGatherBytes_def kMaxSendSlices_def kMaxRecycledCapacity_def

subsection \<open>Properties\<close>

text \<open>
  C4: the send queue never loses, reorders or invents a byte, however messages are packed into
  chunks, chunks are recycled and slots reclaimed: over any sequence of appends and partial
  sends, the bytes handed to the socket followed by the bytes still queued are the bytes
  queued. The counters are exact: \<open>size\<close> is the number of bytes still queued, \<open>allocated_\<close> is
  the total capacity of the chunks still queued, and the memory figure the high-water mark
  watches is that plus the capacity of the one chunk kept for reuse, which is at most
  \<open>kMaxRecycledCapacity\<close>. So a queue that has sent everything holds no more than that.
\<close>

theorem send_buffer_conserves:
  assumes "foldl sb_exec (sb_null, [], []) ops = (b, queued, sent)" and "list_all sb_op_ok ops"
  shows "sent @ sb_view b = queued \<and> sb_pending b = length (sb_view b) \<and>
    sb_allocated b = sum_list (map (\<lambda>c. vc_cap (ck_buf c)) (sb_live b)) \<and>
    sb_held b = sb_allocated b + vc_cap (sb_recycled b) \<and> vc_cap (sb_recycled b) \<le> kMaxRecycledCapacity \<and>
    sb_pending b \<le> sb_held b \<and> (sent = queued \<longleftrightarrow> sb_live b = [])"
proof -
  have "sb_conserves (sb_null, [], [])"
    by (simp add: sb_conserves_def sb_inv_null)
  from sb_run_conserves [OF this assms(2)] assms(1)
  have b: "sb_inv b" "sent @ sb_view b = queued"
    by (simp_all add: sb_conserves_def)
  moreover have "sb_view b = [] \<longleftrightarrow> sb_live b = []"
    using b(1) by (cases "sb_live b") (auto simp: sb_view_def sb_inv_def ck_ok_def ck_slice_def ck_size_def)
  ultimately show ?thesis
    using live_size_le_allocated [of "sb_live b"]
    by (auto simp: sb_inv_def sb_view_def sb_held_def)
qed

theorem send_buffer_conserves_witness:
  "\<exists>b queued sent.
     foldl sb_exec (sb_null, [], []) [AppendOwn \<lparr>vc_data = [7], vc_cap = 1\<rparr>, AppendCopy [1, 2], AppendCopy [3], SendSome 2] =
       (b, queued, sent) \<and>
     sent = [7, 1] \<and> sb_view b = [2, 3] \<and> sb_pending b = 2 \<and> sb_held b = 1024 + 1"
proof -
  let ?ops = "[AppendOwn \<lparr>vc_data = [7], vc_cap = 1\<rparr>, AppendCopy [1, 2], AppendCopy [3], SendSome 2]"
  obtain b queued sent where e: "foldl sb_exec (sb_null, [], []) ?ops = (b, queued, sent)"
    by (cases "foldl sb_exec (sb_null, [], []) ?ops")
  have "list_all sb_op_ok ?ops"
    by (simp add: sb_op_ok_def)
  note c = send_buffer_conserves [OF e this]
  have "sb_live b = [\<lparr>ck_buf = \<lparr>vc_data = [1, 2, 3], vc_cap = 1024\<rparr>, ck_sent = 1\<rparr>]"
    "sb_recycled b = \<lparr>vc_data = [], vc_cap = 1\<rparr>" "sent = [7, 1]"
    using e by (auto simp: sb_exec_def sb_run_defs)
  with e c show ?thesis
    by (simp add: sb_view_def ck_slice_def)
qed

text \<open>
  Draining makes progress and does not leak slots: a queue that is not empty describes at
  least one byte to the socket, in at most \<open>kMaxSendSlices\<close> slices that are a prefix of the
  queue, and after a pop the drained slots kept in the vector are fewer than half of it.
\<close>

lemma drain_progress:
  assumes "sb_inv b" and "\<not> sb_is_empty b"
  shows "gathered b \<noteq> [] \<and> (\<exists>rest. sb_view b = gathered b @ rest) \<and>
    length (gather kMaxSendSlices kMaxGatherBytes b) \<le> kMaxSendSlices \<and>
    (sb_head (pop_front n b) = 0 \<or>
     2 * sb_head (pop_front n b) < length (sb_chunks (pop_front n b)))"
proof -
  have "sb_inv (pop_loop n b)"
    using pop_loop_facts [OF assms(1)] by simp
  from reclaim_facts(3) [OF this] show ?thesis
    using gathered_progress [OF assms] gathered_prefix [of b] gather_loop_count
    by (simp add: pop_front_def gather_def)
qed

end
