(* ===== verification/Block_Hash.thy ===== *)
theory Block_Hash
  imports Prelude
begin

text \<open>
  The contract of a streaming hash over 64-byte blocks, as SHA-1 and SHA-256 implement it: data
  arrives in pieces of any size, whole blocks are compressed into a chaining value, the rest
  waits in a buffer, and the digest is taken after the padding of FIPS 180-4. From the contract
  alone, the digest only depends on the bytes absorbed, and is the padded hash of the standard.
\<close>

subsection \<open>Absorbing whole blocks\<close>

function absorb :: "('h \<Rightarrow> bytes \<Rightarrow> 'h) \<Rightarrow> 'h \<Rightarrow> bytes \<Rightarrow> 'h \<times> bytes" where
  "absorb compress h xs =
     (if length xs < 64 then (h, xs) else absorb compress (compress h (take 64 xs)) (drop 64 xs))"
  by pat_completeness auto
termination
  by (relation "measure (\<lambda>(c, h, xs). length xs)") auto

declare absorb.simps [simp del]

lemma absorb_short [simp]: "length xs < 64 \<Longrightarrow> absorb compress h xs = (h, xs)"
  by (simp add: absorb.simps)

lemma absorb_block: "length b = 64 \<Longrightarrow> absorb compress h (b @ xs) = absorb compress (compress h b) xs"
  by (subst absorb.simps) simp

lemma absorb_step: "\<not> length xs < 64 \<Longrightarrow> absorb compress h xs = absorb compress (compress h (take 64 xs)) (drop 64 xs)"
  by (subst absorb.simps) simp

lemma absorb_rest_length: "length (snd (absorb compress h xs)) = length xs mod 64"
proof (induction compress h xs rule: absorb.induct)
  case (1 compress h xs)
  show ?case
  proof (cases "length xs < 64")
    case False
    then have "length (drop 64 xs) mod 64 = length xs mod 64" by (simp add: le_mod_geq)
    then show ?thesis using 1 False by (simp add: absorb_step)
  qed simp
qed

lemma absorb_append:
  "absorb compress h (xs @ ys) =
     (let (h1, r) = absorb compress h xs in absorb compress h1 (r @ ys))"
proof (induction compress h xs rule: absorb.induct)
  case (1 compress h xs)
  show ?case
  proof (cases "length xs < 64")
    case False
    then have "absorb compress h (xs @ ys) = absorb compress (compress h (take 64 xs)) (drop 64 xs @ ys)"
      by (subst absorb_step) simp_all
    also have "\<dots> = (let (h1, r) = absorb compress h xs in absorb compress h1 (r @ ys))"
      unfolding 1 [OF False] absorb_step [OF False] ..
    finally show ?thesis .
  qed simp
qed

subsection \<open>The hash of the standard\<close>

text \<open>
  The message, a one bit, zeros up to eight bytes short of a block, and the length in bits as
  a 64-bit big-endian number, taken modulo 2^64.
\<close>

definition md_zeros :: "nat \<Rightarrow> nat" where
  "md_zeros n = (119 - n mod 64) mod 64"

definition md_length :: "u64 \<Rightarrow> bytes" where
  "md_length bits = u32_be (ucast (drop_bit 32 bits)) @ u32_be (ucast bits)"

definition md_pad :: "bytes \<Rightarrow> bytes" where
  "md_pad msg = msg @ [0x80] @ replicate (md_zeros (length msg)) 0 @ md_length (of_nat (8 * length msg))"

definition md_hash :: "('h \<Rightarrow> bytes \<Rightarrow> 'h) \<Rightarrow> 'h \<Rightarrow> bytes \<Rightarrow> 'h" where
  "md_hash compress iv msg = fst (absorb compress iv (md_pad msg))"

lemma length_md_length [simp]: "length (md_length w) = 8"
  by (simp add: md_length_def)

lemma md_zeros_bound: "md_zeros n < 64"
  by (simp add: md_zeros_def)

lemma md_pad_blocks: "64 dvd length (md_pad msg)"
proof -
  let ?n = "length msg mod 64"
  have "(119 - n) mod 64 = (if n \<le> 55 then 55 - n else 119 - n)" if "n < 64" for n :: nat
    using that by (auto simp: le_mod_geq)
  then have "64 dvd (n + 9 + (119 - n) mod 64)" if "n < 64" for n :: nat
    using that by (cases "n \<le> 55") simp_all
  then have "64 dvd (?n + 9 + (119 - ?n) mod 64)" by simp
  then have "64 dvd (64 * (length msg div 64) + (?n + 9 + (119 - ?n) mod 64))"
    using dvd_add [OF dvd_triv_left] by blast
  moreover have "length (md_pad msg) = 64 * (length msg div 64) + (?n + 9 + (119 - ?n) mod 64)"
    by (simp add: md_pad_def md_zeros_def)
  ultimately show ?thesis by (simp only:)
qed

text \<open>Padding always ends on a block boundary: nothing is left in the buffer.\<close>

lemma absorb_whole: "64 dvd length xs \<Longrightarrow> snd (absorb compress h xs) = []"
  using absorb_rest_length [of compress h xs] by (simp add: dvd_eq_mod_eq_0)

subsection \<open>The contract\<close>

locale stream_hash =
  fixes valid :: "'c \<Rightarrow> bool"
    and chain :: "'c \<Rightarrow> 'h"
    and pending :: "'c \<Rightarrow> bytes"
    and bits :: "'c \<Rightarrow> u64"
    and update :: "'c \<Rightarrow> bytes \<Rightarrow> 'c"
    and compress :: "'h \<Rightarrow> bytes \<Rightarrow> 'h"
    and started :: "'c \<Rightarrow> bool"
  assumes started_valid: "started c \<Longrightarrow> valid c"
    and started_empty: "started c \<Longrightarrow> pending c = [] \<and> bits c = 0"
    and pending_short: "valid c \<Longrightarrow> length (pending c) < 64"
    and update_valid: "valid c \<Longrightarrow> valid (update c xs)"
    and update_absorbs: "valid c \<Longrightarrow> (chain (update c xs), pending (update c xs)) = absorb compress (chain c) (pending c @ xs)"
    and update_counts: "valid c \<Longrightarrow> bits (update c xs) = bits c + of_nat (8 * length xs)"
begin

lemma updates:
  assumes "started s"
  shows "valid (foldl update s chunks) \<and>
   (chain (foldl update s chunks), pending (foldl update s chunks)) = absorb compress (chain s) (concat chunks) \<and>
   bits (foldl update s chunks) = of_nat (8 * length (concat chunks))"
proof (induction chunks rule: rev_induct)
  case Nil
  show ?case using started_valid [OF assms] started_empty [OF assms] by simp
next
  case (snoc xs chunks)
  let ?c = "foldl update s chunks"
  have v: "valid ?c" using snoc by simp
  have a: "(chain ?c, pending ?c) = absorb compress (chain s) (concat chunks)" using snoc by simp
  have "absorb compress (chain s) (concat chunks @ xs) = absorb compress (chain ?c) (pending ?c @ xs)"
    using a [symmetric] by (simp add: absorb_append [of _ _ "concat chunks"])
  then show ?case
    using snoc update_valid [OF v] update_absorbs [OF v, of xs] update_counts [OF v, of xs] by (simp add: algebra_simps)
qed

text \<open>What is left to do once the message is in: absorb the padding.\<close>

lemma padded:
  assumes "started s" "c = foldl update s chunks"
  shows "fst (absorb compress (chain c) (pending c @ [0x80] @ replicate (md_zeros (length (pending c))) 0 @ md_length (bits c))) =
    md_hash compress (chain s) (concat chunks)"
proof -
  have u: "(chain c, pending c) = absorb compress (chain s) (concat chunks)" "bits c = of_nat (8 * length (concat chunks))"
    using updates [OF assms(1), of chunks] assms(2) by auto
  have "length (pending c) = length (concat chunks) mod 64"
    using absorb_rest_length [of compress "chain s" "concat chunks"] u(1) by (metis snd_conv)
  then have "md_zeros (length (pending c)) = md_zeros (length (concat chunks))"
    by (simp add: md_zeros_def)
  then show ?thesis
    using u by (simp add: md_hash_def md_pad_def absorb_append [of _ _ "concat chunks"] u(1) [symmetric])
qed

end

end
