(* ===== verification/Sha256.thy ===== *)
theory Sha256
  imports Block_Hash
begin

text \<open>
  SHA-256 as \<open>src/librats/crypto/sha256.h\<close> and \<open>sha256.c\<close> compute it: a context with a partial
  block, a transform whose eight-fold unrolled rounds rename the registers instead of moving
  them, and padding written into the context's own block. The reference is FIPS 180-4: one
  round after the other, rotations as rotations, the message padded as a whole.
\<close>

subsection \<open>The context and the transform\<close>

type_synonym sha_regs = "u32 \<times> u32 \<times> u32 \<times> u32 \<times> u32 \<times> u32 \<times> u32 \<times> u32"

record sha256_context =
  sh_h :: sha_regs
  sh_m :: bytes
  sh_length :: u64
  sh_posn :: byte

definition sha256_iv :: sha_regs where
  "sha256_iv = (0x6a09e667, 0xbb67ae85, 0x3c6ef372, 0xa54ff53a, 0x510e527f, 0x9b05688c, 0x1f83d9ab, 0x5be0cd19)"

definition sha256_reset :: "sha256_context \<Rightarrow> sha256_context" where
  "sha256_reset c = c\<lparr>sh_h := sha256_iv, sh_length := 0, sh_posn := 0\<rparr>"

definition rightRotate :: "u32 \<Rightarrow> nat \<Rightarrow> u32" where
  "rightRotate v n = drop_bit n v OR push_bit (32 - n) v"

definition sha256_k :: "u32 list" where
  "sha256_k = concat [
     [0x428a2f98, 0x71374491, 0xb5c0fbcf, 0xe9b5dba5], [0x3956c25b, 0x59f111f1, 0x923f82a4, 0xab1c5ed5],
     [0xd807aa98, 0x12835b01, 0x243185be, 0x550c7dc3], [0x72be5d74, 0x80deb1fe, 0x9bdc06a7, 0xc19bf174],
     [0xe49b69c1, 0xefbe4786, 0x0fc19dc6, 0x240ca1cc], [0x2de92c6f, 0x4a7484aa, 0x5cb0a9dc, 0x76f988da],
     [0x983e5152, 0xa831c66d, 0xb00327c8, 0xbf597fc7], [0xc6e00bf3, 0xd5a79147, 0x06ca6351, 0x14292967],
     [0x27b70a85, 0x2e1b2138, 0x4d2c6dfc, 0x53380d13], [0x650a7354, 0x766a0abb, 0x81c2c92e, 0x92722c85],
     [0xa2bfe8a1, 0xa81a664b, 0xc24b8b70, 0xc76c51a3], [0xd192e819, 0xd6990624, 0xf40e3585, 0x106aa070],
     [0x19a4c116, 0x1e376c08, 0x2748774c, 0x34b0bcb5], [0x391c0cb3, 0x4ed8aa4a, 0x5b9cca4f, 0x682e6ff3],
     [0x748f82ee, 0x78a5636f, 0x84c87814, 0x8cc70208], [0x90befffa, 0xa4506ceb, 0xbef9a3f7, 0xc67178f2]]"

text \<open>
  The constants are what the standard says: the first 32 bits of the fractional parts of the
  cube roots of the first 64 primes. \<open>cube_root_bits p k\<close> says that the cube root of \<open>p\<close> lies
  between \<open>b + k / 2^32\<close> and \<open>b + (k + 1) / 2^32\<close> for an integer part \<open>b\<close>.
\<close>

definition cube_root_bits :: "int \<Rightarrow> u32 \<Rightarrow> bool" where
  "cube_root_bits p k \<longleftrightarrow>
     (\<exists>b \<in> {1, 2, 3, 4, 5, 6}. (2 ^ 32 * b + uint k) ^ 3 \<le> p * 2 ^ 96 \<and> p * 2 ^ 96 < (2 ^ 32 * b + uint k + 1) ^ 3)"

lemma sha256_k_standard:
  "list_all2 cube_root_bits
     [2, 3, 5, 7, 11, 13, 17, 19, 23, 29, 31, 37, 41, 43, 47, 53,
      59, 61, 67, 71, 73, 79, 83, 89, 97, 101, 103, 107, 109, 113, 127, 131,
      137, 139, 149, 151, 157, 163, 167, 173, 179, 181, 191, 193, 197, 199, 211, 223,
      227, 229, 233, 239, 241, 251, 257, 263, 269, 271, 277, 281, 283, 293, 307, 311] sha256_k"
  by (simp add: sha256_k_def cube_root_bits_def)

definition sha256_words :: "bytes \<Rightarrow> u32 list" where
  "sha256_words m = map (\<lambda>i. be_u32 (m ! (4 * i)) (m ! (4 * i + 1)) (m ! (4 * i + 2)) (m ! (4 * i + 3))) [0..<16]"

definition sha256_next_word :: "u32 list \<Rightarrow> u32" where
  "sha256_next_word w =
     (let i = length w in
      w ! (i - 16) + w ! (i - 7) +
      (rightRotate (w ! (i - 15)) 7 XOR rightRotate (w ! (i - 15)) 18 XOR drop_bit 3 (w ! (i - 15))) +
      (rightRotate (w ! (i - 2)) 17 XOR rightRotate (w ! (i - 2)) 19 XOR drop_bit 10 (w ! (i - 2))))"

definition sha256_schedule :: "bytes \<Rightarrow> u32 list" where
  "sha256_schedule m = ((\<lambda>w. w @ [sha256_next_word w]) ^^ 48) (sha256_words m)"

definition SHA256_ROUND ::
  "u32 \<Rightarrow> u32 \<Rightarrow> u32 \<Rightarrow> u32 \<Rightarrow> u32 \<Rightarrow> u32 \<Rightarrow> u32 \<Rightarrow> u32 \<Rightarrow> u32 \<Rightarrow> u32 \<Rightarrow> u32 \<times> u32" where
  "SHA256_ROUND a b c d e f g h k w =
     (let temp1 = h + k + w + (rightRotate e 6 XOR rightRotate e 11 XOR rightRotate e 25) +
                  ((e AND f) XOR (NOT e AND g));
          temp2 = (rightRotate a 2 XOR rightRotate a 13 XOR rightRotate a 22) +
                  ((a AND b) XOR (a AND c) XOR (b AND c))
      in (d + temp1, temp1 + temp2))"

definition sha256_eight_rounds :: "u32 list \<Rightarrow> sha_regs \<Rightarrow> nat \<Rightarrow> sha_regs" where
  "sha256_eight_rounds w r i =
     (case r of (a, b, c, d, e, f, g, h) \<Rightarrow>
       let (d, h) = SHA256_ROUND a b c d e f g h (sha256_k ! i) (w ! i);
           (c, g) = SHA256_ROUND h a b c d e f g (sha256_k ! (i + 1)) (w ! (i + 1));
           (b, f) = SHA256_ROUND g h a b c d e f (sha256_k ! (i + 2)) (w ! (i + 2));
           (a, e) = SHA256_ROUND f g h a b c d e (sha256_k ! (i + 3)) (w ! (i + 3));
           (h, d) = SHA256_ROUND e f g h a b c d (sha256_k ! (i + 4)) (w ! (i + 4));
           (g, c) = SHA256_ROUND d e f g h a b c (sha256_k ! (i + 5)) (w ! (i + 5));
           (f, b) = SHA256_ROUND c d e f g h a b (sha256_k ! (i + 6)) (w ! (i + 6));
           (e, a) = SHA256_ROUND b c d e f g h a (sha256_k ! (i + 7)) (w ! (i + 7))
       in (a, b, c, d, e, f, g, h))"

definition add_regs :: "sha_regs \<Rightarrow> sha_regs \<Rightarrow> sha_regs" where
  "add_regs x y =
     (case (x, y) of ((a, b, c, d, e, f, g, h), (a1, b1, c1, d1, e1, f1, g1, h1)) \<Rightarrow>
        (a + a1, b + b1, c + c1, d + d1, e + e1, f + f1, g + g1, h + h1))"

definition sha256_transform :: "sha_regs \<Rightarrow> bytes \<Rightarrow> sha_regs" where
  "sha256_transform hs m =
     (let w = sha256_schedule m
      in add_regs hs (foldl (sha256_eight_rounds w) hs (map (\<lambda>j. 8 * j) [0..<8])))"

text \<open>
  The loop of \<open>rats_sha256_update\<close>. The position stays below 64 (\<open>sha_valid\<close> below), where a
  round of the loop always consumes data; the test on it only makes the recursion total.
\<close>

function sha256_update :: "sha256_context \<Rightarrow> bytes \<Rightarrow> sha256_context" where
  "sha256_update c d =
     (if d = [] \<or> 64 \<le> unat (sh_posn c) then c
      else if sh_posn c = 0 \<and> 64 \<le> length d then
        sha256_update
          (c\<lparr>sh_h := sha256_transform (sh_h c) (take 64 d), sh_length := sh_length c + 512\<rparr>)
          (drop 64 d)
      else
        let posn = unat (sh_posn c);
            temp = min (64 - posn) (length d);
            m = take posn (sh_m c) @ take temp d @ drop (posn + temp) (sh_m c);
            posn1 = sh_posn c + of_nat temp;
            c1 = (if 64 \<le> posn1
                  then c\<lparr>sh_m := m, sh_h := sha256_transform (sh_h c) m, sh_posn := 0\<rparr>
                  else c\<lparr>sh_m := m, sh_posn := posn1\<rparr>)
        in sha256_update (c1\<lparr>sh_length := sh_length c + of_nat (temp * 8)\<rparr>) (drop temp d))"
  by pat_completeness auto
termination
  by (relation "measure (\<lambda>(c, d). length d)") (auto simp: Let_def)

definition sha256_finish :: "sha256_context \<Rightarrow> bytes \<times> sha256_context" where
  "sha256_finish c =
     (let posn = unat (sh_posn c);
          c1 = (if posn \<le> 64 - 9 then
                  c\<lparr>sh_m := take posn (sh_m c) @ [0x80] @ replicate (64 - 8 - (posn + 1)) 0 @ drop 56 (sh_m c)\<rparr>
                else
                  let m = take posn (sh_m c) @ [0x80] @ replicate (64 - (posn + 1)) 0
                  in c\<lparr>sh_h := sha256_transform (sh_h c) m, sh_m := replicate 56 0 @ drop 56 m\<rparr>);
          m = take 56 (sh_m c1) @ u32_be (ucast (drop_bit 32 (sh_length c))) @ u32_be (ucast (sh_length c));
          c2 = c1\<lparr>sh_m := m, sh_h := sha256_transform (sh_h c1) m, sh_posn := 0\<rparr>
      in (case sh_h c2 of (a, b, c, d, e, f, g, h) \<Rightarrow> concat (map u32_be [a, b, c, d, e, f, g, h]), c2))"

text \<open>A context on the stack: whatever its memory holds, the reset sets what is read.\<close>

definition sha256_fresh :: sha256_context where
  "sha256_fresh = sha256_reset \<lparr>sh_h = sha256_iv, sh_m = replicate 64 0, sh_length = 0, sh_posn = 0\<rparr>"

definition sha256_hash :: "bytes \<Rightarrow> bytes" where
  "sha256_hash data = fst (sha256_finish (sha256_update sha256_fresh data))"

declare sha256_update.simps [simp del]

subsection \<open>The compression function of the standard\<close>

definition fips_Sigma :: "nat \<Rightarrow> nat \<Rightarrow> nat \<Rightarrow> u32 \<Rightarrow> u32" where
  "fips_Sigma p q r x = word_rotr p x XOR word_rotr q x XOR word_rotr r x"

definition fips_sigma :: "nat \<Rightarrow> nat \<Rightarrow> nat \<Rightarrow> u32 \<Rightarrow> u32" where
  "fips_sigma p q r x = word_rotr p x XOR word_rotr q x XOR drop_bit r x"

definition fips_Ch :: "u32 \<Rightarrow> u32 \<Rightarrow> u32 \<Rightarrow> u32" where
  "fips_Ch x y z = (x AND y) XOR (NOT x AND z)"

definition fips_Maj :: "u32 \<Rightarrow> u32 \<Rightarrow> u32 \<Rightarrow> u32" where
  "fips_Maj x y z = (x AND y) XOR (x AND z) XOR (y AND z)"

fun fips_W :: "bytes \<Rightarrow> nat \<Rightarrow> u32" where
  "fips_W m t =
     (if t < 16 then sha256_words m ! t
      else fips_sigma 17 19 10 (fips_W m (t - 2)) + fips_W m (t - 7) +
           fips_sigma 7 18 3 (fips_W m (t - 15)) + fips_W m (t - 16))"

declare fips_W.simps [simp del]

definition fips_round :: "bytes \<Rightarrow> sha_regs \<Rightarrow> nat \<Rightarrow> sha_regs" where
  "fips_round m r t =
     (case r of (a, b, c, d, e, f, g, h) \<Rightarrow>
        let T1 = h + fips_Sigma 6 11 25 e + fips_Ch e f g + sha256_k ! t + fips_W m t;
            T2 = fips_Sigma 2 13 22 a + fips_Maj a b c
        in (T1 + T2, a, b, c, d + T1, e, f, g))"

definition fips_compress :: "sha_regs \<Rightarrow> bytes \<Rightarrow> sha_regs" where
  "fips_compress hs m = add_regs hs (foldl (fips_round m) hs [0..<64])"

definition fips_digest :: "sha_regs \<Rightarrow> bytes" where
  "fips_digest r = (case r of (a, b, c, d, e, f, g, h) \<Rightarrow> concat (map u32_be [a, b, c, d, e, f, g, h]))"

definition fips_sha256 :: "bytes \<Rightarrow> bytes" where
  "fips_sha256 msg = fips_digest (md_hash fips_compress sha256_iv msg)"

subsection \<open>The transform is the compression function\<close>

lemma rightRotate_rotr: "0 < n \<Longrightarrow> n < 32 \<Longrightarrow> rightRotate v n = word_rotr n v"
proof (rule bit_word_eqI)
  fix k
  assume n: "0 < n" "n < 32" and "k < LENGTH(32)"
  then have k: "k < 32" by simp
  show "bit (rightRotate v n) k = bit (word_rotr n v) k"
  proof (cases "k + n < 32")
    case True
    then have "\<not> 32 - n \<le> k" using n by linarith
    with True k show ?thesis
      by (simp add: rightRotate_def bit_or_iff bit_drop_bit_eq bit_push_bit_iff bit_word_rotr_iff ac_simps)
  next
    case False
    then have "32 - n \<le> k" "k - (32 - n) = (k + n) mod 32"
      using n k by (simp_all add: le_mod_geq)
    moreover have "\<not> bit v (k + n)" using False bit_imp_le_length [of v "k + n"] by auto
    ultimately show ?thesis
      using k n by (simp add: rightRotate_def bit_or_iff bit_drop_bit_eq bit_push_bit_iff bit_word_rotr_iff ac_simps)
  qed
qed

lemma schedule_prefix:
  "n \<le> 48 \<Longrightarrow> ((\<lambda>w. w @ [sha256_next_word w]) ^^ n) (sha256_words m) = map (fips_W m) [0..<16 + n]"
proof (induction n)
  case 0
  show ?case
    by (rule nth_equalityI) (simp_all add: sha256_words_def fips_W.simps)
next
  case (Suc n)
  let ?w = "map (fips_W m) [0..<16 + n]"
  have "sha256_next_word ?w = fips_W m (16 + n)"
    by (simp add: sha256_next_word_def Let_def fips_sigma_def rightRotate_rotr fips_W.simps [of m "n + 16"] algebra_simps)
  moreover have "[0..<16 + Suc n] = [0..<16 + n] @ [16 + n]" by (simp only: add_Suc_right upt_Suc_append le0)
  ultimately show ?case using Suc by (simp del: upt_Suc)
qed

lemma schedule_nth: "t < 64 \<Longrightarrow> sha256_schedule m ! t = fips_W m t"
  using schedule_prefix [of 48 m] by (simp add: sha256_schedule_def)

lemma round_step:
  "fips_round m (a, b, c, d, e, f, g, h) t =
     (let r = SHA256_ROUND a b c d e f g h (sha256_k ! t) (fips_W m t) in (snd r, a, b, c, fst r, e, f, g))"
  by (simp add: SHA256_ROUND_def fips_round_def Let_def rightRotate_rotr fips_Sigma_def fips_Ch_def fips_Maj_def ac_simps)

lemma eight_rounds:
  assumes "i + 7 < 64"
  shows "sha256_eight_rounds (sha256_schedule m) r i = foldl (fips_round m) r [i..<i + 8]"
proof -
  obtain a b c d e f g h where r: "r = (a, b, c, d, e, f, g, h)"
    by (metis prod.collapse)
  have w: "sha256_schedule m ! (i + j) = fips_W m (i + j)" if "j < 8" for j
    using assms that by (simp add: schedule_nth)
  have list: "[i..<i + 8] = [i, i + 1, i + 2, i + 3, i + 4, i + 5, i + 6, i + 7]"
    by (simp add: upt_rec)
  show ?thesis
    unfolding r list sha256_eight_rounds_def
    using w [of 0] w [of 1] w [of 2] w [of 3] w [of 4] w [of 5] w [of 6] w [of 7]
    by (simp add: Let_def round_step split_beta)
qed

lemma transform_compress: "sha256_transform hs m = fips_compress hs m"
proof -
  have steps: "foldl (sha256_eight_rounds (sha256_schedule m)) r (map (\<lambda>j. 8 * j) [0..<n]) = foldl (fips_round m) r [0..<8 * n]"
    if "n \<le> 8" for n r
    using that
  proof (induction n)
    case (Suc n)
    have "[0..<8 * Suc n] = [0..<8 * n] @ [8 * n..<8 * n + 8]"
      using upt_add_eq_append [of 0 "8 * n" 8] by (simp add: add.commute)
    moreover have "[0..<Suc n] = [0..<n] @ [n]" by simp
    ultimately show ?case using Suc by (simp add: eight_rounds del: upt_Suc)
  qed simp
  show ?thesis
    using steps [of 8 hs] by (simp add: sha256_transform_def fips_compress_def Let_def del: upt_Suc)
qed

subsection \<open>Streaming\<close>

definition sha_valid :: "sha256_context \<Rightarrow> bool" where
  "sha_valid c \<longleftrightarrow> length (sh_m c) = 64 \<and> unat (sh_posn c) < 64"

definition sha_pending :: "sha256_context \<Rightarrow> bytes" where
  "sha_pending c = take (unat (sh_posn c)) (sh_m c)"

text \<open>One turn of the loop of \<open>rats_sha256_update\<close>: the bytes it takes and the state it leaves.\<close>

definition sha_turn :: "sha256_context \<Rightarrow> bytes \<Rightarrow> nat \<times> sha256_context" where
  "sha_turn c d =
     (if sh_posn c = 0 \<and> 64 \<le> length d then
        (64, c\<lparr>sh_h := sha256_transform (sh_h c) (take 64 d), sh_length := sh_length c + 512\<rparr>)
      else
        let posn = unat (sh_posn c);
            temp = min (64 - posn) (length d);
            m = take posn (sh_m c) @ take temp d @ drop (posn + temp) (sh_m c);
            posn1 = sh_posn c + of_nat temp;
            c1 = (if 64 \<le> posn1
                  then c\<lparr>sh_m := m, sh_h := sha256_transform (sh_h c) m, sh_posn := 0\<rparr>
                  else c\<lparr>sh_m := m, sh_posn := posn1\<rparr>)
        in (temp, c1\<lparr>sh_length := sh_length c + of_nat (temp * 8)\<rparr>))"

lemma update_turn:
  assumes "sha_valid c" "d \<noteq> []"
  shows "sha256_update c d = sha256_update (snd (sha_turn c d)) (drop (fst (sha_turn c d)) d)"
  using assms by (subst sha256_update.simps) (simp add: sha_turn_def sha_valid_def Let_def)

lemma posn_add: "unat p + n \<le> 64 \<Longrightarrow> unat (p + of_nat n :: byte) = unat p + n"
  by (simp add: unat_word_ariths unat_of_nat)

lemma turn_absorbs:
  assumes "sha_valid c" "d \<noteq> []"
  defines "n \<equiv> fst (sha_turn c d)" and "c1 \<equiv> snd (sha_turn c d)"
  shows "sha_valid c1 \<and> 0 < n \<and> n \<le> length d \<and> sh_length c1 = sh_length c + of_nat (8 * n) \<and>
    absorb sha256_transform (sh_h c1) (sha_pending c1 @ drop n d) = absorb sha256_transform (sh_h c) (sha_pending c @ d)"
proof (cases "sh_posn c = 0 \<and> 64 \<le> length d")
  case True
  then have "absorb sha256_transform (sh_h c) d = absorb sha256_transform (sha256_transform (sh_h c) (take 64 d)) (drop 64 d)"
    by (subst absorb_step) simp_all
  with True assms(1) show ?thesis
    by (simp add: n_def c1_def sha_turn_def sha_valid_def sha_pending_def)
next
  case False
  define p where "p = unat (sh_posn c)"
  define t where "t = min (64 - p) (length d)"
  define m where "m = take p (sh_m c) @ take t d @ drop (p + t) (sh_m c)"
  have p: "p < 64" "length (sh_m c) = 64" using assms(1) by (simp_all add: sha_valid_def p_def)
  have t: "0 < t" "p + t \<le> 64" "t \<le> length d" using p assms(2) by (auto simp: t_def)
  have posn: "unat (sh_posn c + of_nat t) = p + t" using t(2) posn_add [of "sh_posn c" t] by (simp add: p_def)
  have full: "64 \<le> sh_posn c + of_nat t \<longleftrightarrow> p + t = 64"
    using posn t(2) by (simp add: word_le_nat_alt)
  have m: "length m = 64" "take (p + t) m = take p (sh_m c) @ take t d" using p t by (simp_all add: m_def)
  have turn: "n = t" "c1 = (if p + t = 64 then c\<lparr>sh_m := m, sh_h := sha256_transform (sh_h c) m, sh_posn := 0\<rparr>
      else c\<lparr>sh_m := m, sh_posn := sh_posn c + of_nat t\<rparr>)\<lparr>sh_length := sh_length c + of_nat (t * 8)\<rparr>"
    unfolding n_def c1_def sha_turn_def if_not_P [OF False] Let_def p_def [symmetric] t_def [symmetric] m_def [symmetric]
    by (simp_all add: full)
  have data: "sha_pending c @ d = take (p + t) m @ drop t d" by (simp add: m(2)) (simp add: sha_pending_def p_def)
  show ?thesis
  proof (cases "p + t = 64")
    case True
    then have "sha_pending c @ d = m @ drop t d" using data m(1) by simp
    then have "absorb sha256_transform (sh_h c) (sha_pending c @ d) = absorb sha256_transform (sha256_transform (sh_h c) m) (drop t d)"
      using absorb_block [OF m(1)] by simp
    moreover have "sha_pending c1 = []" using True by (simp add: turn sha_pending_def)
    ultimately show ?thesis using True t p m by (simp add: turn sha_valid_def mult.commute)
  next
    case False
    with t p m show ?thesis by (simp add: turn sha_valid_def data) (simp add: sha_pending_def posn mult.commute)
  qed
qed

lemma update_sound:
  "sha_valid c \<Longrightarrow> sha_valid (sha256_update c d) \<and>
     (sh_h (sha256_update c d), sha_pending (sha256_update c d)) = absorb sha256_transform (sh_h c) (sha_pending c @ d) \<and>
     sh_length (sha256_update c d) = sh_length c + of_nat (8 * length d)"
proof (induction "length d" arbitrary: c d rule: less_induct)
  case less
  show ?case
  proof (cases "d = []")
    case True
    then have "sha256_update c d = c" by (simp add: sha256_update.simps)
    with less.prems True show ?thesis by (simp add: sha_valid_def sha_pending_def)
  next
    case False
    note step = turn_absorbs [OF less.prems False]
    have "length (drop (fst (sha_turn c d)) d) < length d" using step by auto
    note IH = less.hyps [OF this conjunct1 [OF step]]
    have "of_nat (8 * fst (sha_turn c d)) + of_nat (8 * length (drop (fst (sha_turn c d)) d)) = (of_nat (8 * length d) :: u64)"
      using step by (simp only: of_nat_add [symmetric]) simp
    with IH step show ?thesis unfolding update_turn [OF less.prems False] by (simp add: add.assoc)
  qed
qed

definition sha_started :: "sha256_context \<Rightarrow> bool" where
  "sha_started c \<longleftrightarrow> length (sh_m c) = 64 \<and> c = sha256_reset c"

lemma started_fields:
  "sha_started c \<Longrightarrow> sha_valid c" "sha_started c \<Longrightarrow> sha_pending c = [] \<and> sh_length c = 0" "sha_started c \<Longrightarrow> sh_h c = sha256_iv"
  unfolding sha_started_def sha256_reset_def
  by (cases c, simp add: sha_valid_def sha_pending_def)+

lemma reset_started: "length (sh_m c) = 64 \<Longrightarrow> sha_started (sha256_reset c)"
  by (simp add: sha_started_def sha256_reset_def)

lemma fresh_started: "sha_started sha256_fresh"
  by (simp add: sha256_fresh_def reset_started)

interpretation sha: stream_hash sha_valid sh_h sha_pending sh_length sha256_update sha256_transform sha_started
proof
  show "length (sha_pending c) < 64" if "sha_valid c" for c
    using that by (simp add: sha_valid_def sha_pending_def)
qed (use update_sound started_fields in auto)

subsection \<open>The digest\<close>

lemma transform_pad:
  "length p < 64 \<Longrightarrow> length (md_length w) = 8 \<Longrightarrow>
   fst (absorb sha256_transform h (p @ [0x80] @ replicate (md_zeros (length p)) 0 @ md_length w)) =
     (if length p \<le> 55 then sha256_transform h (p @ [0x80] @ replicate (55 - length p) 0 @ md_length w)
      else sha256_transform (sha256_transform h (p @ [0x80] @ replicate (63 - length p) 0)) (replicate 56 0 @ md_length w))"
proof -
  assume p: "length p < 64"
  have z: "md_zeros (length p) = (if length p \<le> 55 then 55 - length p else 119 - length p)"
    using p by (auto simp: md_zeros_def le_mod_geq)
  show ?thesis
  proof (cases "length p \<le> 55")
    case True
    let ?b = "p @ [0x80] @ replicate (55 - length p) 0 @ md_length w"
    have "absorb sha256_transform h ?b = (sha256_transform h ?b, [])"
      using absorb_block [of ?b sha256_transform h "[]"] True by simp
    with True z show ?thesis by simp
  next
    case False
    let ?b = "p @ [0x80] @ replicate (63 - length p) 0" and ?c = "replicate 56 0 @ md_length w"
    have "replicate (119 - length p) (0 :: byte) = replicate (63 - length p) 0 @ replicate 56 0"
      using p by (simp add: replicate_add [symmetric])
    then have "p @ [0x80] @ replicate (md_zeros (length p)) 0 @ md_length w = ?b @ ?c"
      using False z by simp
    moreover have "absorb sha256_transform h (?b @ ?c) = absorb sha256_transform (sha256_transform h ?b) ?c"
      by (rule absorb_block) (use p in simp)
    moreover have "absorb sha256_transform g ?c = (sha256_transform g ?c, [])" for g
      using absorb_block [of ?c sha256_transform g "[]"] by simp
    ultimately show ?thesis using False by simp
  qed
qed

lemma finish_digest:
  assumes "sha_valid c"
  shows "fst (sha256_finish c) =
    fips_digest (fst (absorb sha256_transform (sh_h c) (sha_pending c @ [0x80] @ replicate (md_zeros (length (sha_pending c))) 0 @ md_length (sh_length c))))"
proof -
  have l: "length (sha_pending c) = unat (sh_posn c)" "unat (sh_posn c) < 64" using assms by (simp_all add: sha_valid_def sha_pending_def)
  have d: "(case r of (a, b, c, d, e, f, g, h) \<Rightarrow> concat (map u32_be [a, b, c, d, e, f, g, h])) = fips_digest r" for r
    by (simp add: fips_digest_def)
  show ?thesis
    unfolding sha256_finish_def Let_def fst_conv d transform_pad [OF l(2) [folded l(1)] length_md_length]
    using l assms by (simp add: sha_pending_def sha_valid_def md_length_def take_Cons')
qed

lemma digest_exact:
  assumes "sha_started c"
  shows "fst (sha256_finish (foldl sha256_update c chunks)) = fips_sha256 (concat chunks)"
    "length (sh_m (snd (sha256_finish (foldl sha256_update c chunks)))) = 64"
proof -
  let ?c = "foldl sha256_update c chunks"
  have v: "sha_valid ?c" using sha.updates [OF assms, of chunks] by simp
  moreover have "sha256_transform = fips_compress" by (simp add: fun_eq_iff transform_compress)
  ultimately show "fst (sha256_finish ?c) = fips_sha256 (concat chunks)"
    using sha.padded [OF assms refl, of chunks] started_fields(3) [OF assms] by (simp add: finish_digest fips_sha256_def)
  show "length (sh_m (snd (sha256_finish ?c))) = 64"
    using v by (auto simp: sha256_finish_def Let_def sha_valid_def split: prod.splits)
qed

lemma sha256_hash_fips: "sha256_hash data = fips_sha256 data"
  using digest_exact(1) [OF fresh_started, of "[data]"] by (simp add: sha256_hash_def)

lemma length_fips_sha256 [simp]: "length (fips_sha256 m) = 32"
  by (simp add: fips_sha256_def fips_digest_def split: prod.splits)

text \<open>
  C36: whatever pieces the data arrives in, the digest is the SHA-256 of FIPS 180-4 of the
  pieces joined together: streaming, the padding written into the context's block, and the
  unrolled transform compute the standard's function.
\<close>

theorem sha256_exact: "fst (sha256_finish (foldl sha256_update sha256_fresh chunks)) = fips_sha256 (concat chunks)"
  by (rule digest_exact(1) [OF fresh_started])

end
