(* ===== verification/Peer_Id.thy ===== *)
theory Peer_Id
  imports Sha256
begin

text \<open>
  Peer identities (\<open>src/librats/peer/peer_id.h\<close> and \<open>.cpp\<close>) and the core enumerations of
  \<open>src/librats/core/types.h\<close>. An identity is its 32 bytes; \<open>from_public_key\<close> applies
  the SHA-256 of \<open>crypto/sha256.c\<close>. The order
  on identities is the lexicographic order of \<open>std::array\<close>.
\<close>

datatype conn_role = Inbound | Outbound

datatype conn_state = Connecting | Handshaking | Established | Closing | Closed

datatype close_reason =
  LocalClose | PeerClosed | PeerReset | ConnectFailed | HandshakeFailed | ProtocolError
  | SlowConsumer | ReactorShutdown | DuplicateConn | PeerLimit

type_synonym peer_id = bytes

definition pid_size :: nat where "pid_size = 32"

definition pid_zero :: peer_id where
  "pid_zero = replicate pid_size 0"

definition pid_wf :: "peer_id \<Rightarrow> bool" where
  "pid_wf p \<longleftrightarrow> length p = pid_size"

definition hex_digits :: bytes where
  "hex_digits = str ''0123456789abcdef''"

definition hex_value :: "byte \<Rightarrow> byte option" where
  "hex_value c =
     (if 48 \<le> c \<and> c \<le> 57 then Some (c - 48)
      else if 97 \<le> c \<and> c \<le> 102 then Some (c - 97 + 10)
      else if 65 \<le> c \<and> c \<le> 70 then Some (c - 65 + 10)
      else None)"

definition from_public_key :: "bytes \<Rightarrow> peer_id" where
  "from_public_key key = sha256_hash key"

definition from_bytes :: "bytes \<Rightarrow> peer_id option" where
  "from_bytes raw = (if length raw \<noteq> pid_size then None else Some raw)"

fun hex_pairs :: "bytes \<Rightarrow> bytes option" where
  "hex_pairs (h # l # rest) =
     (case (hex_value h, hex_value l) of
        (Some hi, Some lo) \<Rightarrow> map_option ((#) (push_bit 4 hi OR lo)) (hex_pairs rest)
      | _ \<Rightarrow> None)"
| "hex_pairs _ = Some []"

definition from_hex :: "bytes \<Rightarrow> peer_id option" where
  "from_hex hex = (if length hex \<noteq> pid_size * 2 then None else hex_pairs hex)"

definition hex_byte :: "byte \<Rightarrow> bytes" where
  "hex_byte b = [hex_digits ! unat (drop_bit 4 b), hex_digits ! unat (b AND 15)]"

definition to_hex :: "peer_id \<Rightarrow> bytes" where
  "to_hex p = concat (map hex_byte p)"

definition short_hex :: "peer_id \<Rightarrow> bytes" where
  "short_hex p = take 8 (to_hex p)"

definition is_zero :: "peer_id \<Rightarrow> bool" where
  "is_zero p = list_all (\<lambda>b. b = 0) p"

definition pid_less :: "peer_id \<Rightarrow> peer_id \<Rightarrow> bool" where
  "pid_less a b = bytes_less a b"

subsection \<open>Lemmas\<close>

lemma hex_digits_nums:
  "hex_digits = [48, 49, 50, 51, 52, 53, 54, 55, 56, 57, 97, 98, 99, 100, 101, 102]"
  by (simp add: hex_digits_def str_def)

lemma hex_value_digit:
  assumes "n < 16"
  shows "hex_value (hex_digits ! n) = Some (of_nat n)"
proof -
  have "list_all2 (\<lambda>c n. hex_value c = Some (of_nat n)) hex_digits
      [0, 1, 2, 3, 4, 5, 6, 7, 8, 9, 10, 11, 12, 13, 14, 15]"
    by (simp add: hex_digits_nums hex_value_def)
  also have "[0, 1, 2, 3, 4, 5, 6, 7, 8, 9, 10, 11, 12, 13, 14, 15] = [0..<16]"
    by (simp add: upt_rec)
  finally have all: "list_all2 (\<lambda>c n. hex_value c = Some (of_nat n)) hex_digits [0..<16]" .
  have len: "n < length hex_digits" and nth: "[0..<16] ! n = n"
    using assms by (simp_all add: hex_digits_nums)
  show ?thesis
    using list_all2_nthD [OF all len] by (simp only: nth)
qed

lemma nibbles: "push_bit 4 (drop_bit 4 b) OR (b AND 15) = (b :: byte)"
proof -
  have "b AND 15 = take_bit 4 b"
    using take_bit_eq_mask [of 4 b] by (simp add: mask_eq_exp_minus_1)
  then show ?thesis
    by (auto intro!: bit_word_eqI simp: bit_simps)
qed

lemma hex_pairs_hex_byte: "hex_pairs (hex_byte b @ rest) = map_option ((#) b) (hex_pairs rest)"
proof -
  have "b AND 15 \<le> 15" by (rule word_and_le1)
  then have lo: "unat (b AND 15) < 16"
    by (simp add: word_le_nat_alt)
  have hi: "unat (drop_bit 4 b) < 16"
    using unsigned_less [of b, where ?'a = nat] by (simp add: drop_bit_eq_div unat_div less_mult_imp_div_less)
  show ?thesis
    by (simp add: hex_byte_def hex_value_digit lo hi nibbles)
qed

lemma hex_pairs_to_hex: "hex_pairs (to_hex p) = Some p"
  by (induction p) (simp_all add: to_hex_def hex_pairs_hex_byte)

lemma length_to_hex [simp]: "length (to_hex p) = 2 * length p"
  by (induction p) (simp_all add: to_hex_def hex_byte_def)

lemma is_zero_iff: "pid_wf p \<Longrightarrow> is_zero p \<longleftrightarrow> p = pid_zero"
  by (auto simp: pid_wf_def is_zero_def pid_zero_def list_all_iff intro: replicate_eqI)

lemma pid_less_asym: "pid_less a b \<Longrightarrow> \<not> pid_less b a"
  by (simp add: pid_less_def bytes_less_asym)

lemma pid_less_total: "a \<noteq> b \<Longrightarrow> pid_less a b \<or> pid_less b a"
  by (simp add: pid_less_def bytes_less_total)

subsection \<open>Properties\<close>

lemma hex_pairs_length:
  "hex_pairs xs = Some ys \<Longrightarrow> even (length xs) \<Longrightarrow> 2 * length ys = length xs"
  by (induction xs arbitrary: ys rule: hex_pairs.induct) (auto split: option.splits)

lemma from_hex_wf: "from_hex hex = Some q \<Longrightarrow> pid_wf q"
  using hex_pairs_length [of hex q] by (simp add: from_hex_def pid_wf_def split: if_splits)

lemma from_hex_to_hex: "pid_wf p \<Longrightarrow> from_hex (to_hex p) = Some p"
  by (simp add: from_hex_def pid_wf_def hex_pairs_to_hex)

text \<open>
  The textual form of an identity is exact: parsing the hexadecimal form returns the
  identity; parsing accepts only strings of 64 digits, in either case, and what it returns is
  a 32-byte identity.
\<close>

lemma hex_roundtrip:
  assumes "pid_wf p"
  shows "from_hex (to_hex p) = Some p \<and> (\<forall>hex q. from_hex hex = Some q \<longrightarrow> pid_wf q)"
  using from_hex_to_hex [OF assms] from_hex_wf by blast

end
