(* ===== verification/Security.thy ===== *)
theory Security
  imports Peer_Id
begin

text \<open>
  The secure-channel interface (\<open>src/librats/security/session.h\<close>, \<open>handshaker.h\<close>) and its
  plaintext implementation (\<open>plaintext_security.h\<close>). The virtual methods of
  \<open>SecurityProvider\<close>, \<open>Handshaker\<close> and \<open>Session\<close> are the fields of one record of functions;
  the object behind a handshaker or a session is a value of type \<open>'h\<close> or \<open>'s\<close> that the methods
  return updated. The locale \<open>secure_channel\<close> is the contract the transport relies on: what one
  side encrypts, the linked side decrypts, in order, whatever either side does in the other
  direction, for ciphertexts up to a length \<open>limit\<close>.
\<close>

subsection \<open>The interface\<close>

datatype ('h, 's) outcome = NeedMore 'h | Done 's peer_id | Failed

record ('h, 's) security_ops =
  sec_create :: "conn_role \<Rightarrow> 'h"
  hs_start :: "'h \<Rightarrow> (bytes \<times> 'h) option"
  hs_consume :: "'h \<Rightarrow> bytes \<Rightarrow> ('h, 's) outcome \<times> bytes"
  ses_encrypt :: "'s \<Rightarrow> bytes \<Rightarrow> (bytes \<times> 's) option"
  ses_decrypt :: "'s \<Rightarrow> bytes \<Rightarrow> (bytes \<times> 's) option"
  ses_remote_id :: "'s \<Rightarrow> peer_id"
  ses_is_secure :: "'s \<Rightarrow> bool"
  sec_local_id :: peer_id

fun encrypt_all :: "('s \<Rightarrow> bytes \<Rightarrow> (bytes \<times> 's) option) \<Rightarrow> 's \<Rightarrow> bytes list \<Rightarrow> (bytes list \<times> 's) option" where
  "encrypt_all enc s [] = Some ([], s)"
| "encrypt_all enc s (p # ps) =
     (case enc s p of
        None \<Rightarrow> None
      | Some (c, s1) \<Rightarrow>
          (case encrypt_all enc s1 ps of
             None \<Rightarrow> None
           | Some (cs, s2) \<Rightarrow> Some (c # cs, s2)))"

lemma encrypt_all_append:
  "encrypt_all enc s (ps @ qs) =
     (case encrypt_all enc s ps of
        None \<Rightarrow> None
      | Some (cs, s1) \<Rightarrow>
          (case encrypt_all enc s1 qs of
             None \<Rightarrow> None
           | Some (ds, s2) \<Rightarrow> Some (cs @ ds, s2)))"
  by (induction ps arbitrary: s) (auto split: option.splits)

lemma encrypt_all_length: "encrypt_all enc s ps = Some (cs, s') \<Longrightarrow> length cs = length ps"
  by (induction ps arbitrary: s cs) (auto split: option.splits)

text \<open>
  \<open>linked a b\<close>: the sending half of \<open>a\<close> and the receiving half of \<open>b\<close> are in step.
\<close>

locale secure_channel =
  fixes enc dec :: "'s \<Rightarrow> bytes \<Rightarrow> (bytes \<times> 's) option"
    and linked :: "'s \<Rightarrow> 's \<Rightarrow> bool"
    and overhead limit :: nat
  assumes dec_enc: "linked a b \<Longrightarrow> enc a p = Some (c, a') \<Longrightarrow> length c \<le> limit \<Longrightarrow> \<exists>b'. dec b c = Some (p, b') \<and> linked a' b'"
    and receiver_sends: "linked a b \<Longrightarrow> enc b p = Some (c, b') \<Longrightarrow> linked a b'"
    and enc_length: "enc a p = Some (c, a') \<Longrightarrow> length c \<le> length p + overhead"
begin

lemma decrypt_all:
  "linked a b \<Longrightarrow> encrypt_all enc a ps = Some (cs, a') \<Longrightarrow> list_all (\<lambda>c. length c \<le> limit) cs \<Longrightarrow>
     \<exists>b'. encrypt_all dec b cs = Some (ps, b') \<and> linked a' b'"
proof (induction ps arbitrary: a b cs)
  case (Cons p ps)
  then obtain c a1 ds where step: "enc a p = Some (c, a1)" "cs = c # ds"
    and rest: "encrypt_all enc a1 ps = Some (ds, a')"
    by (auto split: option.splits)
  obtain b1 where "dec b c = Some (p, b1)" "linked a1 b1"
    using dec_enc [OF Cons.prems(1) step(1)] Cons.prems(3) step(2) by auto
  with Cons.IH [OF this(2) rest] Cons.prems(3) step(2) show ?case
    by auto
qed simp

end

subsection \<open>Plaintext security\<close>

definition protocol_id :: "bytes \<Rightarrow> bytes" where
  "protocol_id protocol = str ''librats-proto'' @ [0x1f] @ protocol"

record plain_handshaker =
  ph_local :: peer_id
  ph_proto :: bytes
  ph_initiator :: bool

definition append_message :: "plain_handshaker \<Rightarrow> bytes" where
  "append_message h =
     (let n = length (ph_proto h) in
      [of_nat (n div 256), of_nat n] @ ph_proto h @ ph_local h)"

definition plain_start :: "plain_handshaker \<Rightarrow> (bytes \<times> plain_handshaker) option" where
  "plain_start h = Some (if ph_initiator h then append_message h else [], h)"

definition plain_consume ::
  "plain_handshaker \<Rightarrow> bytes \<Rightarrow> (plain_handshaker, peer_id) outcome \<times> bytes" where
  "plain_consume h p =
     (let n = length p in
      if n < 2 then (Failed, [])
      else
        let proto_len = unat (p ! 0) * 256 + unat (p ! 1) in
        if n < 2 + proto_len + pid_size then (Failed, [])
        else if proto_len \<noteq> length (ph_proto h) \<or> take proto_len (drop 2 p) \<noteq> ph_proto h
          then (Failed, [])
        else
          case from_bytes (take pid_size (drop (2 + proto_len) p)) of
            None \<Rightarrow> (Failed, [])
          | Some remote \<Rightarrow>
              (Done remote remote, if \<not> ph_initiator h then append_message h else []))"

definition plain_encrypt :: "peer_id \<Rightarrow> bytes \<Rightarrow> (bytes \<times> peer_id) option" where
  "plain_encrypt s p = Some (p, s)"

definition plain_decrypt :: "peer_id \<Rightarrow> bytes \<Rightarrow> (bytes \<times> peer_id) option" where
  "plain_decrypt s c = Some (c, s)"

definition plain_create :: "peer_id \<Rightarrow> bytes \<Rightarrow> conn_role \<Rightarrow> plain_handshaker" where
  "plain_create local proto role =
     \<lparr>ph_local = local, ph_proto = proto, ph_initiator = (role = Outbound)\<rparr>"

definition plaintext_security :: "peer_id \<Rightarrow> bytes \<Rightarrow> (plain_handshaker, peer_id) security_ops" where
  "plaintext_security local protocol =
     \<lparr>sec_create = plain_create local (protocol_id protocol), hs_start = plain_start,
      hs_consume = plain_consume, ses_encrypt = plain_encrypt, ses_decrypt = plain_decrypt,
      ses_remote_id = (\<lambda>s. s), ses_is_secure = (\<lambda>s. False), sec_local_id = local\<rparr>"

definition plain_linked :: "peer_id \<Rightarrow> peer_id \<Rightarrow> bool" where
  "plain_linked a b = True"

interpretation plain: secure_channel plain_encrypt plain_decrypt plain_linked 0 limit for limit
  by unfold_locales (auto simp: plain_encrypt_def plain_decrypt_def plain_linked_def)

lemma protocol_id_inj: "protocol_id a = protocol_id b \<longleftrightarrow> a = b"
  by (simp add: protocol_id_def)

lemma length_prefix_16:
  "n < 65536 \<Longrightarrow> unat (of_nat (n div 256) :: byte) * 256 + unat (of_nat n :: byte) = n"
  by (simp add: unsigned_of_nat take_bit_eq_mod)

lemma plain_consume_message:
  assumes "pid_wf (ph_local h)" "length (ph_proto h) < 65536"
  shows "plain_consume k (append_message h @ extra) =
    (if ph_proto h = ph_proto k
     then (Done (ph_local h) (ph_local h), if ph_initiator k then [] else append_message k)
     else (Failed, []))"
proof -
  obtain n where n: "length (ph_proto h) = n"
    by blast
  have len: "unat (of_nat (n div 256) :: byte) * 256 + unat (of_nat n :: byte) = n"
    using assms(2) length_prefix_16 n by simp
  show ?thesis
  proof (cases "ph_proto h = ph_proto k")
    case True
    with assms(1) n show ?thesis
      by (simp add: plain_consume_def append_message_def Let_def from_bytes_def pid_wf_def len)
  next
    case False
    with assms(1) n show ?thesis
      by (auto simp: plain_consume_def append_message_def Let_def from_bytes_def pid_wf_def len)
  qed
qed

text \<open>
  C9: two plaintext nodes complete the handshake exactly when their protocol strings are
  equal. The initiator's first message makes the responder reply and finish with the
  initiator's identity, and the reply makes the initiator finish with the responder's identity;
  with different protocol strings the responder rejects the first message and sends nothing.
\<close>

theorem plaintext_handshake:
  assumes "pid_wf ida" "pid_wf idb" "length proto_a < 60000" "length proto_b < 60000"
  defines "ha \<equiv> sec_create (plaintext_security ida proto_a) Outbound"
    and "hb \<equiv> sec_create (plaintext_security idb proto_b) Inbound"
  shows "\<exists>m1 m2. plain_start ha = Some (m1, ha) \<and> plain_start hb = Some ([], hb) \<and>
    plain_consume hb m1 = (if proto_a = proto_b then (Done ida ida, m2) else (Failed, [])) \<and>
    plain_consume ha m2 = (if proto_a = proto_b then (Done idb idb, []) else (Failed, []))"
proof -
  have a: "ph_local ha = ida" "ph_proto ha = protocol_id proto_a" "ph_initiator ha"
    and b: "ph_local hb = idb" "ph_proto hb = protocol_id proto_b" "\<not> ph_initiator hb"
    by (simp_all add: ha_def hb_def plaintext_security_def plain_create_def)
  have "length (protocol_id proto_a) < 65536" "length (protocol_id proto_b) < 65536"
    using assms(3,4) by (simp_all add: protocol_id_def str_def)
  then have "plain_consume hb (append_message ha) =
      (if proto_a = proto_b then (Done ida ida, append_message hb) else (Failed, []))"
    and "plain_consume ha (append_message hb) =
      (if proto_a = proto_b then (Done idb idb, []) else (Failed, []))"
    using plain_consume_message [of ha hb "[]"] plain_consume_message [of hb ha "[]"] assms(1,2)
    by (auto simp: a b protocol_id_inj)
  moreover have "plain_start ha = Some (append_message ha, ha)" "plain_start hb = Some ([], hb)"
    by (simp_all add: plain_start_def a b)
  ultimately show ?thesis
    by blast
qed

theorem plaintext_handshake_witness:
  "\<exists>m1 m2. plain_start (sec_create (plaintext_security pid_zero (str ''a'')) Outbound) =
      Some (m1, sec_create (plaintext_security pid_zero (str ''a'')) Outbound) \<and>
    plain_consume (sec_create (plaintext_security pid_zero (str ''a'')) Inbound) m1 =
      (Done pid_zero pid_zero, m2)"
proof -
  have "pid_wf pid_zero" "length (str ''a'') < 60000"
    by (simp_all add: pid_wf_def pid_zero_def str_def)
  from plaintext_handshake [OF this(1) this(1) this(2) this(2)] show ?thesis
    by auto
qed

end
