(* ===== verification/Connection.thy ===== *)
theory Connection
  imports Wire_Frame Receive_Buffer Send_Buffer Security
begin

text \<open>
  The per-peer transport state machine (\<open>src/librats/transport/connection.h\<close> and \<open>.cpp\<close>),
  over the models of the receive buffer, the send queue, the framer and the secure channel.
  The kernel is two scripts of results: each \<open>recv\<close> takes the next element of \<open>cn_rd\<close> (at
  most the offered span of it), each \<open>send_vectored\<close> the next element of \<open>cn_wr\<close> (at most the
  gathered bytes of it); an exhausted script would block. Bytes the socket accepted are kept in
  \<open>cn_wire\<close>. The delegate and the reactor are seen through the log of calls made to them, and
  the delegate's inline reaction to a call is any function of the calls made so far.
\<close>

subsection \<open>State\<close>

datatype conn_event =
    Established_Ev peer_id       \<comment> \<open>\<open>delegate_.on_established\<close>\<close>
  | Frame_Ev frame               \<comment> \<open>\<open>delegate_.on_frame\<close>\<close>
  | Close_Ev close_reason        \<comment> \<open>\<open>reactor_.close\<close>\<close>
  | Interest_Ev bool             \<comment> \<open>\<open>reactor_.set_interest\<close>, with or without \<open>PollOut\<close>\<close>
  | Cancel_Ev nat                \<comment> \<open>\<open>reactor_.cancel\<close>\<close>

datatype recv_result = Received bytes | Recv_Eof | Recv_Block | Recv_Error

datatype send_result = Accepted nat | Send_Block | Send_Error

datatype delegate_act = Send_Act frame_header bytes | Close_Act close_reason

record ('h, 's) connection =
  cn_role :: conn_role
  cn_state :: conn_state
  cn_reason :: close_reason
  cn_handshaker :: "'h option"
  cn_session :: "'s option"
  cn_remote_id :: peer_id
  cn_rx :: rbuf
  cn_rx_need :: nat
  cn_tx :: sbuf
  cn_want_write :: bool
  cn_high_water :: nat
  cn_timer :: nat
  cn_dial_host :: bytes
  cn_dial_port :: u16
  cn_rd :: "recv_result list"
  cn_wr :: "send_result list"
  cn_wire :: bytes
  cn_log :: "conn_event list"

record ('h, 's) conn_env =
  ce_sec :: "('h, 's) security_ops"
  ce_delegate :: "conn_event list \<Rightarrow> delegate_act list"

definition kDefaultSendHighWater :: nat where "kDefaultSendHighWater = 8 * 1024 * 1024"
definition kRecvChunk :: nat where "kRecvChunk = 16 * 1024"
definition kMaxEagerReserve :: nat where "kMaxEagerReserve = 1024 * 1024"
definition kInlineBlockLimit :: nat where "kInlineBlockLimit = kScratchCapacity"

definition new_connection :: "conn_role \<Rightarrow> ('h, 's) connection" where
  "new_connection role =
     \<lparr>cn_role = role, cn_state = Connecting, cn_reason = PeerClosed, cn_handshaker = None,
      cn_session = None, cn_remote_id = pid_zero, cn_rx = rb_null, cn_rx_need = 0,
      cn_tx = sb_null, cn_want_write = False, cn_high_water = kDefaultSendHighWater,
      cn_timer = 0, cn_dial_host = [], cn_dial_port = 0,
      cn_rd = [], cn_wr = [], cn_wire = [], cn_log = []\<rparr>"

definition emit :: "conn_event \<Rightarrow> ('h, 's) connection \<Rightarrow> ('h, 's) connection" where
  "emit e c = c\<lparr>cn_log := cn_log c @ [e]\<rparr>"

definition set_dial_address :: "bytes \<Rightarrow> u16 \<Rightarrow> ('h, 's) connection \<Rightarrow> ('h, 's) connection" where
  "set_dial_address host port c = c\<lparr>cn_dial_host := host, cn_dial_port := port\<rparr>"

definition has_dial_address :: "('h, 's) connection \<Rightarrow> bool" where
  "has_dial_address c \<longleftrightarrow> cn_dial_port c \<noteq> 0"

definition set_establish_timer :: "nat \<Rightarrow> ('h, 's) connection \<Rightarrow> ('h, 's) connection" where
  "set_establish_timer tid c = c\<lparr>cn_timer := tid\<rparr>"

definition on_maintenance_tick :: "('h, 's) connection \<Rightarrow> ('h, 's) connection" where
  "on_maintenance_tick c = c\<lparr>cn_rx := decay (cn_rx c)\<rparr>"

definition is_secure :: "('h, 's) conn_env \<Rightarrow> ('h, 's) connection \<Rightarrow> bool" where
  "is_secure env c = (case cn_session c of None \<Rightarrow> False | Some s \<Rightarrow> ses_is_secure (ce_sec env) s)"

subsection \<open>Writing\<close>

text \<open>Operations that can request teardown return \<open>(keep, connection)\<close>, as the C++ \<open>bool\<close>.\<close>

definition fail :: "close_reason \<Rightarrow> ('h, 's) connection \<Rightarrow> bool \<times> ('h, 's) connection" where
  "fail r c = (False, c\<lparr>cn_reason := r, cn_state := Closing\<rparr>)"

definition arm_write :: "('h, 's) connection \<Rightarrow> ('h, 's) connection" where
  "arm_write c = (if cn_want_write c then c else emit (Interest_Ev True) (c\<lparr>cn_want_write := True\<rparr>))"

definition disarm_write :: "('h, 's) connection \<Rightarrow> ('h, 's) connection" where
  "disarm_write c = (if \<not> cn_want_write c then c else emit (Interest_Ev False) (c\<lparr>cn_want_write := False\<rparr>))"

fun flush_loop :: "send_result list \<Rightarrow> sbuf \<Rightarrow> bytes \<Rightarrow> bool \<times> send_result list \<times> sbuf \<times> bytes" where
  "flush_loop [] tx wire = (True, [], tx, wire)"
| "flush_loop (r # rs) tx wire =
     (if sb_is_empty tx then (True, r # rs, tx, wire)
      else case r of
        Accepted n \<Rightarrow>
          (let out = take n (gathered tx) in
           if out = [] then (True, rs, tx, wire)
           else flush_loop rs (pop_front (length out) tx) (wire @ out))
      | Send_Block \<Rightarrow> (True, rs, tx, wire)
      | Send_Error \<Rightarrow> (False, rs, tx, wire))"

definition flush :: "('h, 's) connection \<Rightarrow> bool \<times> ('h, 's) connection" where
  "flush c =
     (case flush_loop (cn_wr c) (cn_tx c) (cn_wire c) of
        (ok, wr, tx, wire) \<Rightarrow>
          let c1 = c\<lparr>cn_wr := wr, cn_tx := tx, cn_wire := wire\<rparr> in
          if \<not> ok then fail PeerReset c1
          else if sb_is_empty tx then (True, disarm_write c1) else (True, arm_write c1))"

definition queue_block :: "bytes \<Rightarrow> ('h, 's) connection \<Rightarrow> ('h, 's) connection" where
  "queue_block body c =
     (let tx1 = append_copy (encode_block_header (length body)) (cn_tx c);
          tx2 = (if length body \<le> kInlineBlockLimit then append_copy body tx1
                 else append_own \<lparr>vc_data = body, vc_cap = length body\<rparr> tx1)
      in c\<lparr>cn_tx := tx2\<rparr>)"

definition send :: "('h, 's) conn_env \<Rightarrow> frame_header \<Rightarrow> bytes \<Rightarrow> ('h, 's) connection \<Rightarrow> ('h, 's) connection" where
  "send env header payload c =
     (if cn_state c \<noteq> Established then c
      else case cn_session c of
        None \<Rightarrow> c
      | Some s \<Rightarrow>
          (case ses_encrypt (ce_sec env) s (encode_message header payload) of
             None \<Rightarrow> emit (Close_Ev ProtocolError) c
           | Some (cipher, s1) \<Rightarrow>
               let c1 = queue_block cipher (c\<lparr>cn_session := Some s1\<rparr>) in
               if sb_held (cn_tx c1) > cn_high_water c1
               then emit (Close_Ev SlowConsumer) (c1\<lparr>cn_reason := SlowConsumer, cn_state := Closing\<rparr>)
               else case flush c1 of
                 (True, c2) \<Rightarrow> c2
               | (False, c2) \<Rightarrow> emit (Close_Ev (cn_reason c2)) c2))"

definition delegate_act :: "('h, 's) conn_env \<Rightarrow> ('h, 's) connection \<Rightarrow> delegate_act \<Rightarrow> ('h, 's) connection" where
  "delegate_act env c a =
     (case a of Send_Act h p \<Rightarrow> send env h p c | Close_Act r \<Rightarrow> emit (Close_Ev r) c)"

definition call_delegate :: "('h, 's) conn_env \<Rightarrow> conn_event \<Rightarrow> ('h, 's) connection \<Rightarrow> ('h, 's) connection" where
  "call_delegate env e c =
     (let c1 = emit e c in foldl (delegate_act env) c1 (ce_delegate env (cn_log c1)))"

subsection \<open>Handshake lifecycle\<close>

definition begin_handshake :: "('h, 's) conn_env \<Rightarrow> ('h, 's) connection \<Rightarrow> ('h, 's) connection" where
  "begin_handshake env c =
     (let c1 = emit (Interest_Ev False) (c\<lparr>cn_state := Handshaking, cn_want_write := False\<rparr>);
          h = sec_create (ce_sec env) (cn_role c1)
      in case hs_start (ce_sec env) h of
           None \<Rightarrow> emit (Close_Ev HandshakeFailed) (c1\<lparr>cn_handshaker := Some h\<rparr>)
         | Some (out, h1) \<Rightarrow>
             let c2 = c1\<lparr>cn_handshaker := Some h1\<rparr> in
             if out = [] then c2
             else case flush (queue_block out c2) of
               (True, c3) \<Rightarrow> c3
             | (False, c3) \<Rightarrow> emit (Close_Ev (cn_reason c3)) c3)"

definition start_handshake :: "('h, 's) conn_env \<Rightarrow> ('h, 's) connection \<Rightarrow> ('h, 's) connection" where
  "start_handshake env c = (if cn_state c = Connecting then begin_handshake env c else c)"

definition cancel_establish_timer :: "('h, 's) connection \<Rightarrow> ('h, 's) connection" where
  "cancel_establish_timer c =
     (if cn_timer c \<noteq> 0 then (emit (Cancel_Ev (cn_timer c)) c)\<lparr>cn_timer := 0\<rparr> else c)"

definition complete_established :: "('h, 's) conn_env \<Rightarrow> ('h, 's) connection \<Rightarrow> ('h, 's) connection" where
  "complete_established env c =
     (let c1 = cancel_establish_timer (c\<lparr>cn_state := Established\<rparr>) in
      call_delegate env (Established_Ev (cn_remote_id c1)) c1)"

definition drive_handshake :: "('h, 's) conn_env \<Rightarrow> bytes \<Rightarrow> ('h, 's) connection \<Rightarrow> bool \<times> ('h, 's) connection" where
  "drive_handshake env body c =
     (case cn_handshaker c of
        None \<Rightarrow> (True, c)
      | Some h \<Rightarrow>
          (case hs_consume (ce_sec env) h body of
             (Failed, _) \<Rightarrow> fail HandshakeFailed c
           | (oc, out) \<Rightarrow>
               (case (if out = [] then (True, c) else flush (queue_block out c)) of
                  (False, c1) \<Rightarrow> (False, c1)
                | (True, c1) \<Rightarrow>
                    (case oc of
                       Done s remote \<Rightarrow>
                         (True, complete_established env
                            (c1\<lparr>cn_session := Some s, cn_remote_id := remote, cn_handshaker := None\<rparr>))
                     | NeedMore h1 \<Rightarrow> (True, c1\<lparr>cn_handshaker := Some h1\<rparr>)
                     | Failed \<Rightarrow> (True, c1)))))"

subsection \<open>Reading\<close>

definition read_size :: "('h, 's) connection \<Rightarrow> nat" where
  "read_size c =
     (if cn_state c \<noteq> Established then kRecvChunk
      else if cn_rx_need c > rb_size (cn_rx c)
      then min (cn_rx_need c - rb_size (cn_rx c)) kMaxEagerReserve
      else kRecvChunk)"

definition deliver_frame :: "('h, 's) conn_env \<Rightarrow> bytes \<Rightarrow> ('h, 's) connection \<Rightarrow> bool \<times> ('h, 's) connection" where
  "deliver_frame env body c =
     (case cn_session c of
        None \<Rightarrow> fail ProtocolError c
      | Some s \<Rightarrow>
          (case ses_decrypt (ce_sec env) s body of
             None \<Rightarrow> fail ProtocolError c
           | Some (plain, s1) \<Rightarrow>
               (case parse_message plain of
                  None \<Rightarrow> fail ProtocolError (c\<lparr>cn_session := Some s1\<rparr>)
                | Some fr \<Rightarrow> (True, call_delegate env (Frame_Ev fr) (c\<lparr>cn_session := Some s1\<rparr>)))))"

text \<open>Nothing below the read loop touches the receive side.\<close>

lemma emit_fields [simp]:
  "cn_rx (emit e c) = cn_rx c" "cn_rd (emit e c) = cn_rd c" "cn_state (emit e c) = cn_state c"
  "cn_session (emit e c) = cn_session c" "cn_handshaker (emit e c) = cn_handshaker c"
  "cn_tx (emit e c) = cn_tx c" "cn_wire (emit e c) = cn_wire c" "cn_role (emit e c) = cn_role c"
  "cn_high_water (emit e c) = cn_high_water c" "cn_wr (emit e c) = cn_wr c"
  "cn_remote_id (emit e c) = cn_remote_id c" "cn_reason (emit e c) = cn_reason c"
  "cn_rx_need (emit e c) = cn_rx_need c" "cn_timer (emit e c) = cn_timer c"
  "cn_log (emit e c) = cn_log c @ [e]"
  by (simp_all add: emit_def)

lemma flush_fields:
  assumes "flush c = (k, c')"
  shows "cn_rx c' = cn_rx c" "cn_rd c' = cn_rd c" "cn_session c' = cn_session c"
    "cn_handshaker c' = cn_handshaker c" "cn_role c' = cn_role c"
    "cn_high_water c' = cn_high_water c" "cn_remote_id c' = cn_remote_id c"
    "cn_state c' = (if k then cn_state c else Closing)"
    "\<exists>es. cn_log c' = cn_log c @ es \<and> set es \<subseteq> range Interest_Ev"
  using assms
  by (auto simp: flush_def fail_def arm_write_def disarm_write_def emit_def Let_def
      split: prod.splits if_splits intro: rangeI)

lemma queue_block_fields [simp]:
  "cn_rx (queue_block b c) = cn_rx c" "cn_rd (queue_block b c) = cn_rd c"
  "cn_state (queue_block b c) = cn_state c" "cn_session (queue_block b c) = cn_session c"
  "cn_handshaker (queue_block b c) = cn_handshaker c" "cn_log (queue_block b c) = cn_log c"
  "cn_wire (queue_block b c) = cn_wire c" "cn_high_water (queue_block b c) = cn_high_water c"
  by (simp_all add: queue_block_def Let_def)

lemma send_cases:
  obtains (closed) "cn_state c \<noteq> Established \<or> cn_session c = None" "send env h p c = c"
  | (crypto) s where "cn_state c = Established" "cn_session c = Some s"
      "ses_encrypt (ce_sec env) s (encode_message h p) = None"
      "send env h p c = emit (Close_Ev ProtocolError) c"
  | (slow) s cipher s1 c1 where "cn_state c = Established" "cn_session c = Some s"
      "ses_encrypt (ce_sec env) s (encode_message h p) = Some (cipher, s1)"
      "c1 = queue_block cipher (c\<lparr>cn_session := Some s1\<rparr>)" "cn_high_water c < sb_held (cn_tx c1)"
      "send env h p c =
         emit (Close_Ev SlowConsumer) (c1\<lparr>cn_reason := SlowConsumer, cn_state := Closing\<rparr>)"
  | (flushed) s cipher s1 c1 k c2 where "cn_state c = Established" "cn_session c = Some s"
      "ses_encrypt (ce_sec env) s (encode_message h p) = Some (cipher, s1)"
      "c1 = queue_block cipher (c\<lparr>cn_session := Some s1\<rparr>)" "sb_held (cn_tx c1) \<le> cn_high_water c"
      "flush c1 = (k, c2)" "send env h p c = (if k then c2 else emit (Close_Ev (cn_reason c2)) c2)"
proof (cases "cn_state c = Established")
  case est: True
  show thesis
  proof (cases "cn_session c")
    case (Some s)
    show thesis
    proof (cases "ses_encrypt (ce_sec env) s (encode_message h p)")
      case None
      with est Some show thesis
        by (intro crypto [OF est Some]) (simp_all add: send_def)
    next
      case enc: (Some r)
      obtain cipher s1 where r: "r = (cipher, s1)" by (cases r)
      let ?c1 = "queue_block cipher (c\<lparr>cn_session := Some s1\<rparr>)"
      obtain k c2 where f: "flush ?c1 = (k, c2)" by (cases "flush ?c1")
      show thesis
      proof (cases "cn_high_water c < sb_held (cn_tx ?c1)")
        case True
        with est Some enc r show thesis
          by (intro slow [OF est Some _ refl]) (simp_all add: send_def Let_def)
      next
        case False
        with est Some enc r f show thesis
          by (intro flushed [OF est Some _ refl _ f]) (simp_all add: send_def Let_def split: bool.splits)
      qed
    qed
  qed (use closed in \<open>simp add: send_def\<close>)
qed (use closed in \<open>simp add: send_def\<close>)

lemma send_rx [simp]:
  "cn_rx (send env h p c) = cn_rx c" "cn_rd (send env h p c) = cn_rd c"
  by (cases rule: send_cases [of c env h p]; simp add: flush_fields)+

lemma call_delegate_rx [simp]:
  "cn_rx (call_delegate env e c) = cn_rx c" "cn_rd (call_delegate env e c) = cn_rd c"
proof -
  have "cn_rx (foldl (delegate_act env) d as) = cn_rx d \<and> cn_rd (foldl (delegate_act env) d as) = cn_rd d"
    for d as
    by (induction as arbitrary: d) (simp_all add: delegate_act_def split: delegate_act.splits)
  then show "cn_rx (call_delegate env e c) = cn_rx c" "cn_rd (call_delegate env e c) = cn_rd c"
    by (simp_all add: call_delegate_def Let_def)
qed

lemma deliver_frame_rx [simp]:
  "cn_rx (snd (deliver_frame env b c)) = cn_rx c" "cn_rd (snd (deliver_frame env b c)) = cn_rd c"
  by (simp_all add: deliver_frame_def fail_def split: option.splits prod.splits)

lemma drive_handshake_cases:
  obtains (none) "cn_handshaker c = None" "drive_handshake env b c = (True, c)"
  | (failed) h out where "cn_handshaker c = Some h" "hs_consume (ce_sec env) h b = (Failed, out)"
      "drive_handshake env b c = fail HandshakeFailed c"
  | (reset) h oc out c1 where "cn_handshaker c = Some h" "hs_consume (ce_sec env) h b = (oc, out)"
      "flush (queue_block out c) = (False, c1)" "drive_handshake env b c = (False, c1)"
  | (more) h h1 out c1 where "cn_handshaker c = Some h" "hs_consume (ce_sec env) h b = (NeedMore h1, out)"
      "if out = [] then c1 = c else flush (queue_block out c) = (True, c1)"
      "drive_handshake env b c = (True, c1\<lparr>cn_handshaker := Some h1\<rparr>)"
  | (finished) h s remote out c1 where "cn_handshaker c = Some h" "hs_consume (ce_sec env) h b = (Done s remote, out)"
      "if out = [] then c1 = c else flush (queue_block out c) = (True, c1)"
      "drive_handshake env b c = (True, complete_established env
         (c1\<lparr>cn_session := Some s, cn_remote_id := remote, cn_handshaker := None\<rparr>))"
proof (cases "cn_handshaker c")
  case (Some h)
  obtain oc out where oc: "hs_consume (ce_sec env) h b = (oc, out)"
    by (cases "hs_consume (ce_sec env) h b")
  obtain k c1 where k: "(if out = [] then (True, c) else flush (queue_block out c)) = (k, c1)"
    by (cases "if out = [] then (True, c) else flush (queue_block out c)")
  show thesis
  proof (cases oc)
    case Failed
    then show thesis
      using Some oc by (intro failed [OF Some]) (simp_all add: drive_handshake_def)
  next
    case (NeedMore h1)
    then show thesis
      using Some oc k
      by (cases k) (auto simp: drive_handshake_def split: if_splits intro: reset [OF Some] more [OF Some])
  next
    case (Done s remote)
    then show thesis
      using Some oc k
      by (cases k) (auto simp: drive_handshake_def split: if_splits intro: reset [OF Some] finished [OF Some])
  qed
qed (use none in \<open>simp add: drive_handshake_def\<close>)

lemma complete_established_rx [simp]:
  "cn_rx (complete_established env c) = cn_rx c" "cn_rd (complete_established env c) = cn_rd c"
  by (simp_all add: complete_established_def cancel_establish_timer_def Let_def)

lemma drive_handshake_rx [simp]:
  "cn_rx (snd (drive_handshake env b c)) = cn_rx c" "cn_rd (snd (drive_handshake env b c)) = cn_rd c"
  by (cases rule: drive_handshake_cases [of c env b];
      auto simp: fail_def flush_fields split: if_splits)+

text \<open>One decoded block: the handshake or the frame path, then the block leaves the buffer.\<close>

definition take_block :: "('h, 's) conn_env \<Rightarrow> bytes \<Rightarrow> nat \<Rightarrow> ('h, 's) connection \<Rightarrow> bool \<times> ('h, 's) connection" where
  "take_block env body consumed c =
     (let (keep, c1) = (if cn_state c = Handshaking then drive_handshake env body c
                        else deliver_frame env body c)
      in (keep, c1\<lparr>cn_rx := consume consumed (cn_rx c1)\<rparr>))"

lemma take_block_rx:
  "cn_rx (snd (take_block env body n c)) = consume n (cn_rx c)"
  "cn_rd (snd (take_block env body n c)) = cn_rd c"
  by (simp_all add: take_block_def split_beta)

lemma rb_size_consume: "0 < n \<Longrightarrow> n \<le> rb_size b \<Longrightarrow> rb_size (consume n b) < rb_size b"
  by (auto simp: consume_def maybe_shrink_def reallocate_def sample_usage_def rb_size_def Let_def)

lemma length_rb_view_le: "length (rb_view b) \<le> rb_size b"
  by (simp add: rb_view_def rb_live_def)

function process_loop :: "('h, 's) conn_env \<Rightarrow> ('h, 's) connection \<Rightarrow> bool \<times> ('h, 's) connection" where
  "process_loop env c =
     (if rb_empty (cn_rx c) then (True, c)
      else let bk = try_take_block (rb_view (cn_rx c)) in
        case bk_status bk of
          Incomplete \<Rightarrow> (True, c\<lparr>cn_rx_need := bk_needed bk\<rparr>)
        | Error \<Rightarrow> fail ProtocolError c
        | Ok \<Rightarrow>
            let r = take_block env (bk_body bk) (bk_consumed bk) c in
            if \<not> fst r then r
            else if cn_state (snd r) = Closing \<or> cn_state (snd r) = Closed then (False, snd r)
            else process_loop env (snd r))"
  by pat_completeness auto
termination
proof (relation "measure (\<lambda>(env, c). rb_size (cn_rx c))", goal_cases)
  case (2 env c bk r)
  then have "0 < bk_consumed bk" "bk_consumed bk \<le> rb_size (cn_rx c)"
    using try_take_block_OkD(4,5) [of "rb_view (cn_rx c)"] length_rb_view_le [of "cn_rx c"]
    by simp_all
  with 2 show ?case
    by (simp add: take_block_rx rb_size_consume)
qed simp

declare process_loop.simps [simp del]

lemma process_loop_cases:
  fixes c :: "('h, 's) connection"
  defines "bk \<equiv> try_take_block (rb_view (cn_rx c))"
  obtains (empty) "rb_empty (cn_rx c)" "process_loop env c = (True, c)"
  | (wait) "bk_status bk = Incomplete" "process_loop env c = (True, c\<lparr>cn_rx_need := bk_needed bk\<rparr>)"
  | (bad) "bk_status bk = Error" "process_loop env c = fail ProtocolError c"
  | (stop) r where "bk_status bk = Ok" "r = take_block env (bk_body bk) (bk_consumed bk) c"
      "\<not> fst r \<or> cn_state (snd r) = Closing \<or> cn_state (snd r) = Closed"
      "process_loop env c = (False, snd r)"
  | (continue) r where "bk_status bk = Ok" "r = take_block env (bk_body bk) (bk_consumed bk) c"
      "fst r" "cn_state (snd r) \<noteq> Closing" "cn_state (snd r) \<noteq> Closed"
      "process_loop env c = process_loop env (snd r)" "rb_size (cn_rx (snd r)) < rb_size (cn_rx c)"
proof (cases "rb_empty (cn_rx c)")
  case ne: False
  show thesis
  proof (cases "bk_status bk")
    case Ok
    define r where "r = take_block env (bk_body bk) (bk_consumed bk) c"
    have "rb_size (cn_rx (snd r)) < rb_size (cn_rx c)"
      using Ok try_take_block_OkD(4,5) [of "rb_view (cn_rx c)"] length_rb_view_le [of "cn_rx c"]
      by (simp add: r_def bk_def take_block_rx rb_size_consume)
    moreover have "process_loop env c =
        (if \<not> fst r \<or> cn_state (snd r) = Closing \<or> cn_state (snd r) = Closed then (False, snd r)
         else process_loop env (snd r))"
      using ne Ok by (subst process_loop.simps) (auto simp: Let_def r_def bk_def prod_eq_iff)
    ultimately show thesis
      using stop [OF Ok r_def] continue [OF Ok r_def] by auto
  qed (use ne in \<open>auto simp: bk_def process_loop.simps [of env c] Let_def intro: wait bad\<close>)
qed (use empty in \<open>simp add: process_loop.simps [of env c]\<close>)

definition process_blocks :: "('h, 's) conn_env \<Rightarrow> ('h, 's) connection \<Rightarrow> bool \<times> ('h, 's) connection" where
  "process_blocks env c = process_loop env (c\<lparr>cn_rx_need := 0\<rparr>)"

lemma fail_simps [simp]:
  "fst (fail r c) = False" "cn_state (snd (fail r c)) = Closing" "cn_rd (snd (fail r c)) = cn_rd c"
  "cn_rx (snd (fail r c)) = cn_rx c" "cn_log (snd (fail r c)) = cn_log c"
  "cn_session (snd (fail r c)) = cn_session c" "cn_tx (snd (fail r c)) = cn_tx c"
  "cn_wire (snd (fail r c)) = cn_wire c" "cn_handshaker (snd (fail r c)) = cn_handshaker c"
  by (simp_all add: fail_def)

lemma process_loop_rd: "cn_rd (snd (process_loop env c)) = cn_rd c"
  by (induction env c rule: process_loop.induct)
    (subst process_loop.simps, simp add: Let_def take_block_rx split: block_status.split)

lemma process_blocks_rd [simp]: "cn_rd (snd (process_blocks env c)) = cn_rd c"
  by (simp add: process_blocks_def process_loop_rd)

text \<open>A \<open>recv\<close> that returns zero: deliver what arrived before the end, then close.\<close>

definition read_eof :: "('h, 's) conn_env \<Rightarrow> ('h, 's) connection \<Rightarrow> bool \<times> ('h, 's) connection" where
  "read_eof env c =
     (let r = process_blocks env c in if \<not> fst r then r else fail PeerClosed (snd r))"

definition rd_weight :: "recv_result list \<Rightarrow> nat" where
  "rd_weight rs = sum_list (map (\<lambda>r. case r of Received xs \<Rightarrow> Suc (length xs) | _ \<Rightarrow> 1) rs)"

definition rd_rest :: "nat \<Rightarrow> bytes \<Rightarrow> recv_result list \<Rightarrow> recv_result list" where
  "rd_rest n xs rs = (if drop n xs = [] then rs else Received (drop n xs) # rs)"

function on_readable :: "('h, 's) conn_env \<Rightarrow> ('h, 's) connection \<Rightarrow> bool \<times> ('h, 's) connection" where
  "on_readable env c =
     (let (rx1, span) = prepare (read_size c) (cn_rx c); c0 = c\<lparr>cn_rx := rx1\<rparr> in
      case cn_rd c of
        [] \<Rightarrow> (True, c0)
      | Recv_Block # rs \<Rightarrow> (True, c0\<lparr>cn_rd := rs\<rparr>)
      | Recv_Error # rs \<Rightarrow> fail PeerReset (c0\<lparr>cn_rd := rs\<rparr>)
      | Recv_Eof # rs \<Rightarrow> read_eof env (c0\<lparr>cn_rd := rs\<rparr>)
      | Received xs # rs \<Rightarrow>
          let out = take span xs in
          if out = [] then read_eof env (c0\<lparr>cn_rd := rs\<rparr>)
          else
            let r = process_blocks env
                      (c0\<lparr>cn_rx := commit (length out) (fill out rx1), cn_rd := rd_rest span xs rs\<rparr>) in
            if \<not> fst r then r
            else if length out < span then r
            else on_readable env (snd r))"
  by pat_completeness auto
termination
  by (relation "measure (\<lambda>(env, c). rd_weight (cn_rd c))")
    (auto simp: rd_weight_def rd_rest_def split: if_splits)

declare on_readable.simps [simp del]

definition on_writable :: "('h, 's) conn_env \<Rightarrow> int \<Rightarrow> ('h, 's) connection \<Rightarrow> bool \<times> ('h, 's) connection" where
  "on_writable env connect_result c =
     (if cn_state c = Connecting then
        if connect_result \<noteq> 0 then fail ConnectFailed c
        else
          let c1 = begin_handshake env c in
          if cn_state c1 = Closing then (False, c1) else flush c1
      else flush c)"

definition on_error :: "('h, 's) connection \<Rightarrow> bool \<times> ('h, 's) connection" where
  "on_error c = fail PeerReset c"

end
