(* ===== verification/Connection_Safety.thy ===== *)
theory Connection_Safety
  imports Connection
begin

text \<open>
  Invariants of the connection state machine over every sequence of the calls the reactor and
  the node make on a connection: the states only move forward, the delegate sees the peer
  established exactly once and before its first frame, the buffers stay well formed, the bytes
  handed to the socket are exactly the framed blocks that were queued, and the memory a peer can
  make the connection hold is bounded.
\<close>

subsection \<open>Runs of a connection\<close>

text \<open>
  \<open>Do_Poll err rd wr r\<close> is one poller event as \<open>Reactor::handle_event\<close> dispatches it, with the
  result \<open>r\<close> of the pending connect; \<open>Do_Kernel\<close> supplies the results of the next socket calls.
\<close>

datatype conn_op =
    Do_Send frame_header bytes
  | Do_Start
  | Do_Poll bool bool bool int
  | Do_Tick
  | Do_Kernel "recv_result list" "send_result list"

definition poll_event ::
  "('h, 's) conn_env \<Rightarrow> bool \<Rightarrow> bool \<Rightarrow> bool \<Rightarrow> int \<Rightarrow> ('h, 's) connection \<Rightarrow> bool \<times> ('h, 's) connection" where
  "poll_event env err rd wr r c =
     (if cn_state c = Closing \<or> cn_state c = Closed then (True, c)
      else if err then on_error c
      else
        let (keep, c1) = (if rd then on_readable env c else (True, c)) in
        if keep \<and> wr then on_writable env r c1 else (keep, c1))"

definition conn_do :: "('h, 's) conn_env \<Rightarrow> ('h, 's) connection \<Rightarrow> conn_op \<Rightarrow> ('h, 's) connection" where
  "conn_do env c x =
     (case x of
        Do_Send h p \<Rightarrow> send env h p c
      | Do_Start \<Rightarrow> start_handshake env c
      | Do_Poll err rd wr r \<Rightarrow> snd (poll_event env err rd wr r c)
      | Do_Tick \<Rightarrow> on_maintenance_tick c
      | Do_Kernel rs ws \<Rightarrow> c\<lparr>cn_rd := rs, cn_wr := ws\<rparr>)"

definition conn_run :: "('h, 's) conn_env \<Rightarrow> ('h, 's) connection \<Rightarrow> conn_op list \<Rightarrow> ('h, 's) connection" where
  "conn_run env c ops = foldl (conn_do env) c ops"

subsection \<open>The invariant\<close>

definition rank :: "conn_state \<Rightarrow> nat" where
  "rank s = (case s of Connecting \<Rightarrow> 0 | Handshaking \<Rightarrow> 1 | Established \<Rightarrow> 2 | Closing \<Rightarrow> 3 | Closed \<Rightarrow> 4)"

definition is_call :: "conn_event \<Rightarrow> bool" where
  "is_call e = (case e of Established_Ev _ \<Rightarrow> True | Frame_Ev _ \<Rightarrow> True | _ \<Rightarrow> False)"

definition calls :: "('h, 's) connection \<Rightarrow> conn_event list" where
  "calls c = filter is_call (cn_log c)"

definition delivered :: "('h, 's) connection \<Rightarrow> frame list" where
  "delivered c = concat (map (\<lambda>e. case e of Frame_Ev f \<Rightarrow> [f] | _ \<Rightarrow> []) (cn_log c))"

definition calls_ok :: "('h, 's) connection \<Rightarrow> bool" where
  "calls_ok c \<longleftrightarrow>
     (case cn_session c of
        None \<Rightarrow> calls c = []
      | Some s \<Rightarrow> calls c = Established_Ev (cn_remote_id c) # map Frame_Ev (delivered c))"

definition phase_ok :: "('h, 's) connection \<Rightarrow> bool" where
  "phase_ok c \<longleftrightarrow>
     cn_state c \<noteq> Closed \<and>
     (cn_state c = Connecting \<longrightarrow> cn_session c = None) \<and>
     (cn_state c = Handshaking \<longrightarrow> cn_session c = None \<and> cn_handshaker c \<noteq> None) \<and>
     (cn_state c = Established \<longrightarrow> cn_session c \<noteq> None)"

definition conn_inv :: "('h, 's) connection \<Rightarrow> bool" where
  "conn_inv c \<longleftrightarrow> rb_inv (cn_rx c) \<and> sb_inv (cn_tx c) \<and> phase_ok c \<and> calls_ok c"

text \<open>
  \<open>evolves c c'\<close>: the part of the invariant every operation below the read loop keeps, with
  the state moving forward and the log growing.
\<close>

definition evolves :: "('h, 's) connection \<Rightarrow> ('h, 's) connection \<Rightarrow> bool" where
  "evolves c c' \<longleftrightarrow>
     rank (cn_state c) \<le> rank (cn_state c') \<and> (\<exists>es. cn_log c' = cn_log c @ es)"

lemma evolves_refl [simp]: "evolves c c"
  by (simp add: evolves_def)

lemma evolves_trans [trans]: "evolves a b \<Longrightarrow> evolves b c \<Longrightarrow> evolves a c"
  by (auto simp: evolves_def)

lemma rank_simps [simp]:
  "rank Connecting = 0" "rank Handshaking = 1" "rank Established = 2" "rank Closing = 3" "rank Closed = 4"
  by (simp_all add: rank_def)

subsection \<open>The write side\<close>

lemma flush_loop_facts:
  assumes "sb_inv tx" "flush_loop rs tx wire = (ok, rs', tx', wire')"
  shows "sb_inv tx' \<and> wire' @ sb_view tx' = wire @ sb_view tx \<and> sb_held tx' \<le> sb_held tx"
  using assms
proof (induction rs tx wire rule: flush_loop.induct)
  case (2 r rs tx wire)
  show ?case
  proof (cases "\<exists>n. r = Accepted n \<and> \<not> sb_is_empty tx \<and> take n (gathered tx) \<noteq> []")
    case True
    then obtain n where n: "r = Accepted n" "\<not> sb_is_empty tx" "take n (gathered tx) \<noteq> []"
      by blast
    define m where "m = length (take n (gathered tx))"
    have take: "take n (gathered tx) = take m (gathered tx)" "m \<le> length (gathered tx)"
      by (auto simp: m_def min_def)
    have "flush_loop rs (pop_front m tx) (wire @ take n (gathered tx)) = (ok, rs', tx', wire')"
      using "2.prems"(2) n by (simp add: m_def)
    with "2.IH" [OF n(2,1) refl n(3)] pop_front_facts(1) [OF "2.prems"(1)]
    have "sb_inv tx'" "wire' @ sb_view tx' = wire @ take n (gathered tx) @ sb_view (pop_front m tx)"
      "sb_held tx' \<le> sb_held (pop_front m tx)"
      by (simp_all add: m_def)
    then show ?thesis
      using pop_gathered [OF "2.prems"(1) take(2)] pop_front_held [OF "2.prems"(1), of m] take(1)
      by auto
  next
    case False
    with "2.prems" show ?thesis
      by (cases r) (auto split: if_splits)
  qed
qed simp

lemma flush_facts:
  assumes "sb_inv (cn_tx c)" "flush c = (k, c')"
  shows "sb_inv (cn_tx c')" "cn_wire c' @ sb_view (cn_tx c') = cn_wire c @ sb_view (cn_tx c)"
    "sb_held (cn_tx c') \<le> sb_held (cn_tx c)"
proof -
  obtain ok wr tx wire where f: "flush_loop (cn_wr c) (cn_tx c) (cn_wire c) = (ok, wr, tx, wire)"
    using prod_cases4 by blast
  have "cn_tx c' = tx" "cn_wire c' = wire"
    using assms(2) f
    by (auto simp: flush_def fail_def arm_write_def disarm_write_def emit_def Let_def split: if_splits)
  with flush_loop_facts [OF assms(1) f]
  show "sb_inv (cn_tx c')" "cn_wire c' @ sb_view (cn_tx c') = cn_wire c @ sb_view (cn_tx c)"
    "sb_held (cn_tx c') \<le> sb_held (cn_tx c)"
    by simp_all
qed

lemma queue_block_facts:
  assumes "sb_inv (cn_tx c)"
  shows "sb_inv (cn_tx (queue_block b c))"
    "sb_view (cn_tx (queue_block b c)) = sb_view (cn_tx c) @ encode_block b"
proof -
  have h: "sb_view (append_copy (encode_block_header (length b)) (cn_tx c)) =
      sb_view (cn_tx c) @ encode_block_header (length b)"
    "sb_inv (append_copy (encode_block_header (length b)) (cn_tx c))"
    using append_copy_facts [OF assms] by simp_all
  show "sb_inv (cn_tx (queue_block b c))"
    "sb_view (cn_tx (queue_block b c)) = sb_view (cn_tx c) @ encode_block b"
    using h append_copy_facts [OF h(2), of b] append_own_facts [OF h(2), of "\<lparr>vc_data = b, vc_cap = length b\<rparr>"]
    by (auto simp: queue_block_def Let_def encode_block_def)
qed

text \<open>What a step that only writes keeps of the rest of the connection.\<close>

definition kept :: "('h, 's) connection \<Rightarrow> ('h, 's) connection \<Rightarrow> bool" where
  "kept c c' \<longleftrightarrow>
     evolves c c' \<and> calls c' = calls c \<and> delivered c' = delivered c \<and>
     cn_remote_id c' = cn_remote_id c \<and> cn_handshaker c' = cn_handshaker c \<and>
     cn_rx c' = cn_rx c \<and> cn_rd c' = cn_rd c \<and> (cn_session c' = None \<longleftrightarrow> cn_session c = None) \<and>
     (sb_inv (cn_tx c) \<longrightarrow> sb_inv (cn_tx c')) \<and>
     (cn_state c' = cn_state c \<or> cn_state c' = Closing)"

lemma rank_le: "cn_state c \<noteq> Closed \<Longrightarrow> rank (cn_state c) \<le> 3"
  by (cases "cn_state c") simp_all

lemma kept_refl [simp]: "kept c c"
  by (simp add: kept_def)

lemma kept_trans [trans]: "kept a b \<Longrightarrow> kept b c \<Longrightarrow> kept a c"
  by (auto simp: kept_def intro: evolves_trans)

lemma kept_inv: "kept c c' \<Longrightarrow> conn_inv c \<Longrightarrow> conn_inv c'"
  by (auto simp: kept_def conn_inv_def phase_ok_def calls_ok_def split: option.splits)

lemma keptD: "kept c c' \<Longrightarrow> evolves c c'"
  by (simp add: kept_def)

lemma kept_step: "kept d c' \<Longrightarrow> conn_inv d \<Longrightarrow> evolves c d \<Longrightarrow> conn_inv c' \<and> evolves c c'"
  by (blast intro: kept_inv evolves_trans dest: keptD)

lemma kept_emit: "\<not> is_call e \<Longrightarrow> kept c (emit e c)"
  by (auto simp: kept_def evolves_def calls_def delivered_def is_call_def emit_def
      split: conn_event.splits)

lemma interest_calls: "set es \<subseteq> range Interest_Ev \<Longrightarrow> filter is_call es = [] \<and>
    concat (map (\<lambda>e. case e of Frame_Ev f \<Rightarrow> [f] | _ \<Rightarrow> []) es) = []"
  by (induction es) (auto simp: is_call_def)

lemma kept_flush:
  assumes "flush c = (k, c')" "rank (cn_state c) \<le> 3"
  shows "kept c c'"
proof -
  obtain es where es: "cn_log c' = cn_log c @ es" "set es \<subseteq> range Interest_Ev"
    using flush_fields(9) [OF assms(1)] by blast
  note f = flush_fields [OF assms(1)]
  have "sb_inv (cn_tx c) \<longrightarrow> sb_inv (cn_tx c')"
    using flush_facts(1) [OF _ assms(1)] by blast
  with f es interest_calls [OF es(2)] assms(2) show ?thesis
    by (simp add: kept_def evolves_def calls_def delivered_def)
qed

lemma kept_queue_block: "kept c (queue_block b c)"
  using queue_block_facts(1) [of c b]
  by (simp add: kept_def evolves_def calls_def delivered_def) (simp add: queue_block_def Let_def)

lemma kept_send: "kept c (send env h p c)"
proof (cases rule: send_cases [of c env h p])
  case closed
  then show ?thesis by simp
next
  case (crypto s)
  then show ?thesis by (simp add: kept_emit is_call_def)
next
  case (slow s cipher s1 c1)
  let ?d = "c1\<lparr>cn_reason := SlowConsumer, cn_state := Closing\<rparr>"
  have "kept c ?d"
    using slow queue_block_facts(1) [of "c\<lparr>cn_session := Some s1\<rparr>" cipher]
    by (simp add: kept_def evolves_def calls_def delivered_def) (simp add: queue_block_def Let_def)
  then show ?thesis
    using kept_emit [of "Close_Ev SlowConsumer" ?d] slow(6) by (auto simp: is_call_def intro: kept_trans)
next
  case (flushed s cipher s1 c1 k c2)
  have "kept c (c\<lparr>cn_session := Some s1\<rparr>)"
    using flushed(2) by (simp add: kept_def evolves_def calls_def delivered_def)
  then have "kept c c1"
    unfolding flushed(4) using kept_queue_block kept_trans by blast
  moreover have "kept c1 c2"
    using kept_flush [OF flushed(6)] flushed(1,4) by simp
  ultimately show ?thesis
    using kept_emit [of "Close_Ev (cn_reason c2)" c2] flushed(7)
    by (auto simp: is_call_def intro: kept_trans)
qed

lemma kept_delegate_acts: "kept c (foldl (delegate_act env) c as)"
proof (induction as arbitrary: c)
  case (Cons a as)
  have "kept c (delegate_act env c a)"
    by (cases a) (simp_all add: delegate_act_def kept_send kept_emit is_call_def)
  with Cons show ?case
    by (auto intro: kept_trans)
qed simp

lemma call_delegate_kept: "kept (emit e c) (call_delegate env e c)"
  by (simp add: call_delegate_def Let_def kept_delegate_acts)

subsection \<open>The read side keeps the invariant\<close>

lemma fail_step:
  assumes "conn_inv c"
  shows "conn_inv (snd (fail r c)) \<and> evolves c (snd (fail r c))"
  using assms rank_le [of c]
  by (auto simp: fail_def conn_inv_def phase_ok_def calls_ok_def calls_def delivered_def evolves_def
      split: option.splits)

lemma deliver_frame_step:
  assumes "conn_inv c" "cn_state c \<noteq> Handshaking"
  shows "conn_inv (snd (deliver_frame env b c)) \<and> evolves c (snd (deliver_frame env b c))"
proof (cases "cn_session c")
  case None
  then show ?thesis
    using fail_step [OF assms(1)] by (simp add: deliver_frame_def)
next
  case (Some s)
  have upd: "conn_inv (c\<lparr>cn_session := Some s1\<rparr>)" "evolves c (c\<lparr>cn_session := Some s1\<rparr>)" for s1
    using assms Some
    by (auto simp: conn_inv_def phase_ok_def calls_ok_def calls_def delivered_def evolves_def)
  have frame: "conn_inv (emit (Frame_Ev f) (c\<lparr>cn_session := Some s1\<rparr>))"
    "evolves c (emit (Frame_Ev f) (c\<lparr>cn_session := Some s1\<rparr>))" for f s1
    using assms Some
    by (auto simp: conn_inv_def phase_ok_def calls_ok_def calls_def delivered_def evolves_def is_call_def)
  have call: "conn_inv (call_delegate env (Frame_Ev f) (c\<lparr>cn_session := Some s1\<rparr>)) \<and>
      evolves c (call_delegate env (Frame_Ev f) (c\<lparr>cn_session := Some s1\<rparr>))" for f s1
    using kept_step [OF call_delegate_kept frame] by blast
  have bad: "conn_inv (snd (fail ProtocolError (c\<lparr>cn_session := Some s1\<rparr>))) \<and>
      evolves c (snd (fail ProtocolError (c\<lparr>cn_session := Some s1\<rparr>)))" for s1
    using fail_step [OF upd(1)] upd(2) evolves_trans by blast
  show ?thesis
    using call bad fail_step [OF assms(1)] Some
    by (simp add: deliver_frame_def split: option.split prod.split)
qed

lemma complete_established_step:
  assumes "rb_inv (cn_rx c)" "sb_inv (cn_tx c)" "cn_state c = Handshaking" "calls c = []"
    "cn_session c = Some s"
  shows "conn_inv (complete_established env c) \<and> evolves c (complete_established env c)"
proof -
  let ?c = "cancel_establish_timer (c\<lparr>cn_state := Established\<rparr>)"
  let ?d = "emit (Established_Ev (cn_remote_id ?c)) ?c"
  have d: "delivered c = []"
    using assms(4) by (auto simp: calls_def delivered_def is_call_def filter_empty_conv
        split: conn_event.splits)
  have "conn_inv ?d" "evolves c ?d"
    using assms d
    by (auto simp: cancel_establish_timer_def emit_def conn_inv_def phase_ok_def calls_ok_def
        calls_def delivered_def is_call_def evolves_def)
  then show ?thesis
    using kept_step [OF call_delegate_kept] by (simp add: complete_established_def Let_def)
qed

lemma drive_handshake_step:
  assumes "conn_inv c" "cn_state c = Handshaking"
  shows "conn_inv (snd (drive_handshake env b c)) \<and> evolves c (snd (drive_handshake env b c))"
proof -
  have flushed: "kept c c1" if "flush (queue_block out c) = (k, c1)" for out k c1
    using kept_flush [OF that] kept_queue_block [of c out] assms(2) kept_trans by fastforce
  have kept: "conn_inv c1 \<and> evolves c c1" if "kept c c1" for c1
    using kept_step [OF that assms(1) evolves_refl] .
  show ?thesis
  proof (cases rule: drive_handshake_cases [of c env b])
    case (more h h1 out c1)
    then have k: "kept c c1"
      using flushed by (auto split: if_splits)
    have "conn_inv (c1\<lparr>cn_handshaker := Some h1\<rparr>)" "evolves c1 (c1\<lparr>cn_handshaker := Some h1\<rparr>)"
      using kept [OF k]
      by (auto simp: conn_inv_def phase_ok_def calls_ok_def calls_def delivered_def evolves_def
          split: option.splits)
    with kept [OF k] more(4) show ?thesis
      by (auto intro: evolves_trans)
  next
    case (finished h s remote out c1)
    then have k: "kept c c1" and st: "cn_state c1 = Handshaking"
      using flushed flush_fields(8) [of "queue_block out c" True c1] assms(2) by (auto split: if_splits)
    let ?d = "c1\<lparr>cn_session := Some s, cn_remote_id := remote, cn_handshaker := None\<rparr>"
    have "conn_inv (complete_established env ?d) \<and> evolves ?d (complete_established env ?d)"
      using kept [OF k] st
      by (intro complete_established_step) (auto simp: conn_inv_def phase_ok_def calls_ok_def calls_def)
    moreover have "evolves c ?d"
      using kept [OF k] by (simp add: evolves_def)
    ultimately show ?thesis
      using finished(4) by (auto intro: evolves_trans)
  qed (use assms(1) kept flushed fail_step [OF assms(1)] in auto)
qed

lemma rx_step:
  assumes "conn_inv c" "rb_inv b"
  shows "conn_inv (c\<lparr>cn_rx := b\<rparr>) \<and> evolves c (c\<lparr>cn_rx := b\<rparr>)"
  using assms
  by (auto simp: conn_inv_def phase_ok_def calls_ok_def calls_def delivered_def evolves_def
      split: option.splits)

lemma kernel_step:
  assumes "conn_inv c"
  shows "conn_inv (c\<lparr>cn_rd := rs\<rparr>) \<and> evolves c (c\<lparr>cn_rd := rs\<rparr>)"
    "conn_inv (c\<lparr>cn_wr := ws\<rparr>) \<and> evolves c (c\<lparr>cn_wr := ws\<rparr>)"
    "conn_inv (c\<lparr>cn_rx_need := n\<rparr>) \<and> evolves c (c\<lparr>cn_rx_need := n\<rparr>)"
  using assms
  by (auto simp: conn_inv_def phase_ok_def calls_ok_def calls_def delivered_def evolves_def
      split: option.splits)

lemma take_block_step:
  assumes "conn_inv c" "n \<le> rb_size (cn_rx c)"
  shows "conn_inv (snd (take_block env b n c)) \<and> evolves c (snd (take_block env b n c))"
proof -
  define r where "r = (if cn_state c = Handshaking then drive_handshake env b c else deliver_frame env b c)"
  have r: "conn_inv (snd r)" "evolves c (snd r)"
    using drive_handshake_step [OF assms(1)] deliver_frame_step [OF assms(1)] by (simp_all add: r_def)
  have "cn_rx (snd r) = cn_rx c"
    by (simp add: r_def)
  then have "rb_inv (consume n (cn_rx (snd r)))"
    using consume_facts(2) [OF _ assms(2)] assms(1) by (simp add: conn_inv_def)
  from rx_step [OF r(1) this] r(2) show ?thesis
    using evolves_trans by (auto simp: take_block_def split_beta r_def)
qed

lemma process_loop_step: "conn_inv c \<Longrightarrow>
    conn_inv (snd (process_loop env c)) \<and> evolves c (snd (process_loop env c))"
proof (induction env c rule: process_loop.induct)
  case (1 env c)
  let ?bk = "try_take_block (rb_view (cn_rx c))"
  let ?r = "take_block env (bk_body ?bk) (bk_consumed ?bk) c"
  have ok: "conn_inv (snd ?r) \<and> evolves c (snd ?r)" if "bk_status ?bk = Ok"
    using take_block_step [OF "1.prems"] try_take_block_OkD(5) [OF that]
      length_rb_view_le [of "cn_rx c"] by simp
  show ?case
  proof (cases "\<not> rb_empty (cn_rx c) \<and> bk_status ?bk = Ok \<and> fst ?r \<and>
      cn_state (snd ?r) \<noteq> Closing \<and> cn_state (snd ?r) \<noteq> Closed")
    case True
    then have "process_loop env c = process_loop env (snd ?r)"
      by (subst process_loop.simps) (simp add: Let_def)
    moreover have "conn_inv (snd (process_loop env (snd ?r))) \<and>
        evolves (snd ?r) (snd (process_loop env (snd ?r)))"
      using True ok by (intro "1.IH" [OF _ refl _ refl]) auto
    ultimately show ?thesis
      using ok True evolves_trans by metis
  next
    case False
    then show ?thesis
      using ok "1.prems" kernel_step(3) [OF "1.prems"] fail_step [OF "1.prems"]
      by (subst (1 2) process_loop.simps) (auto simp: Let_def split: block_status.split)
  qed
qed

lemma process_blocks_step: "conn_inv c \<Longrightarrow>
    conn_inv (snd (process_blocks env c)) \<and> evolves c (snd (process_blocks env c))"
  using process_loop_step kernel_step(3) evolves_trans unfolding process_blocks_def by blast

lemma read_eof_step: "conn_inv c \<Longrightarrow>
    conn_inv (snd (read_eof env c)) \<and> evolves c (snd (read_eof env c))"
  using process_blocks_step [of c env] fail_step [of "snd (process_blocks env c)" PeerClosed] evolves_trans
  by (auto simp: read_eof_def Let_def)

lemma recv_step:
  assumes "conn_inv c" "prepare n (cn_rx c) = (rx1, span)" "length out \<le> span"
  shows "conn_inv (c\<lparr>cn_rx := commit (length out) (fill out rx1), cn_rd := rs\<rparr>) \<and>
    evolves c (c\<lparr>cn_rx := commit (length out) (fill out rx1), cn_rd := rs\<rparr>)"
proof -
  have "rb_inv (receive n out (cn_rx c))"
    using receive_facts(2) [of "cn_rx c" out n] assms by (simp add: conn_inv_def)
  then have "rb_inv (commit (length out) (fill out rx1))"
    using assms(2) by (simp add: receive_def)
  from rx_step [OF assms(1) this] kernel_step(1) evolves_trans show ?thesis
    by fastforce
qed

lemma prepare_step:
  assumes "conn_inv c" "prepare n (cn_rx c) = (rx1, span)"
  shows "conn_inv (c\<lparr>cn_rx := rx1\<rparr>) \<and> evolves c (c\<lparr>cn_rx := rx1\<rparr>)"
  using rx_step [OF assms(1)] prepare_facts(2) [of "cn_rx c" n] assms by (simp add: conn_inv_def)

lemma on_readable_step: "conn_inv c \<Longrightarrow>
    conn_inv (snd (on_readable env c)) \<and> evolves c (snd (on_readable env c))"
proof (induction env c rule: on_readable.induct)
  case (1 env c)
  obtain rx1 span where p: "prepare (read_size c) (cn_rx c) = (rx1, span)"
    by (cases "prepare (read_size c) (cn_rx c)")
  let ?c0 = "c\<lparr>cn_rx := rx1\<rparr>"
  note c0 = prepare_step [OF "1.prems" p]
  have rd: "conn_inv (?c0\<lparr>cn_rd := rs\<rparr>)" "evolves c (?c0\<lparr>cn_rd := rs\<rparr>)" for rs
    using kernel_step(1) c0 evolves_trans by blast+
  have eof: "conn_inv (snd (read_eof env (?c0\<lparr>cn_rd := rs\<rparr>))) \<and>
      evolves c (snd (read_eof env (?c0\<lparr>cn_rd := rs\<rparr>)))" for rs
    using read_eof_step [OF rd(1)] rd(2) evolves_trans by blast
  have err: "conn_inv (snd (fail PeerReset (?c0\<lparr>cn_rd := rs\<rparr>))) \<and>
      evolves c (snd (fail PeerReset (?c0\<lparr>cn_rd := rs\<rparr>)))" for rs
    using fail_step [OF rd(1)] rd(2) evolves_trans by blast
  show ?case
  proof (cases "\<exists>xs rs. cn_rd c = Received xs # rs \<and> take span xs \<noteq> []")
    case False
    then show ?thesis
      using p c0 rd eof err
      by (subst (1 2) on_readable.simps) (auto simp: Let_def split: list.split recv_result.split)
  next
    case True
    then obtain xs rs where xs: "cn_rd c = Received xs # rs" "take span xs \<noteq> []"
      by blast
    let ?out = "take span xs"
    define r where "r = process_blocks env
      (c\<lparr>cn_rx := commit (length ?out) (fill ?out rx1), cn_rd := rd_rest span xs rs\<rparr>)"
    have r: "conn_inv (snd r)" "evolves c (snd r)"
      using process_blocks_step recv_step [OF "1.prems" p, of ?out "rd_rest span xs rs"] evolves_trans
      unfolding r_def by (auto, blast+)
    have step: "on_readable env c = (if \<not> fst r \<or> length ?out < span then r else on_readable env (snd r))"
      using p xs by (subst on_readable.simps) (simp add: Let_def r_def)
    have "conn_inv (snd (on_readable env (snd r))) \<and> evolves (snd r) (snd (on_readable env (snd r)))"
      if "fst r" "\<not> length ?out < span"
      using "1.IH" [OF refl p [symmetric] refl xs(1) refl refl xs(2)] that r(1) by (simp add: r_def)
    then show ?thesis
      using step r evolves_trans by auto
  qed
qed

lemma begin_handshake_step:
  assumes "conn_inv c" "cn_state c = Connecting"
  shows "conn_inv (begin_handshake env c) \<and> evolves c (begin_handshake env c)"
proof -
  let ?d = "\<lambda>h. (emit (Interest_Ev False) (c\<lparr>cn_state := Handshaking, cn_want_write := False\<rparr>))
    \<lparr>cn_handshaker := Some h\<rparr>"
  have d: "conn_inv (?d h)" "evolves c (?d h)" "rank (cn_state (?d h)) \<le> 3" for h
    using assms
    by (auto simp: conn_inv_def phase_ok_def calls_ok_def calls_def delivered_def evolves_def
        emit_def is_call_def split: option.splits)
  have f: "kept (?d h) c3" if "flush (queue_block out (?d h)) = (k, c3)" for out h k c3
    using kept_flush [OF that] kept_queue_block [of "?d h" out] kept_trans by fastforce
  have e: "kept c3 (emit (Close_Ev r) c3)" for r c3
    by (simp add: kept_emit is_call_def)
  have "\<exists>h. kept (?d h) (begin_handshake env c)"
  proof (cases "hs_start (ce_sec env) (sec_create (ce_sec env) (cn_role c))")
    case None
    then show ?thesis
      using e by (intro exI) (simp add: begin_handshake_def Let_def)
  next
    case (Some r)
    obtain out h where r: "r = (out, h)" by (cases r)
    obtain k c3 where k: "flush (queue_block out (?d h)) = (k, c3)"
      by (cases "flush (queue_block out (?d h))")
    have "kept (?d h) (if k then c3 else emit (Close_Ev (cn_reason c3)) c3)"
      using f [OF k] kept_trans [OF f [OF k] e] by simp
    then show ?thesis
      using Some r k
      by (intro exI [of _ h], cases k) (simp_all add: begin_handshake_def Let_def)
  qed
  then show ?thesis
    using kept_step d by blast
qed

lemma on_writable_step:
  assumes "conn_inv c"
  shows "conn_inv (snd (on_writable env r c)) \<and> evolves c (snd (on_writable env r c))"
proof -
  have f: "conn_inv (snd (flush d)) \<and> evolves d (snd (flush d))" if "conn_inv d" for d
    using that kept_step [OF kept_flush [of d "fst (flush d)" "snd (flush d)"] that evolves_refl]
      rank_le [of d]
    by (simp add: conn_inv_def phase_ok_def)
  show ?thesis
  proof (cases "cn_state c = Connecting")
    case True
    then show ?thesis
      using begin_handshake_step [OF assms True, of env] f [of "begin_handshake env c"]
        fail_step [OF assms] evolves_trans
      by (auto simp: on_writable_def Let_def)
  qed (use f [OF assms] in \<open>simp add: on_writable_def\<close>)
qed

lemma poll_event_step:
  assumes "conn_inv c"
  shows "conn_inv (snd (poll_event env err rd wr r c)) \<and> evolves c (snd (poll_event env err rd wr r c))"
proof -
  have "conn_inv (snd (on_writable env r (snd (on_readable env c)))) \<and>
      evolves c (snd (on_writable env r (snd (on_readable env c))))"
    using on_writable_step on_readable_step [OF assms] evolves_trans by blast
  then show ?thesis
    using on_readable_step [OF assms] on_writable_step [OF assms] fail_step [OF assms] assms
    by (auto simp: poll_event_def on_error_def split_beta)
qed

lemma conn_do_step:
  assumes "conn_inv c"
  shows "conn_inv (conn_do env c x) \<and> evolves c (conn_do env c x)"
proof (cases x)
  case (Do_Send h p)
  then show ?thesis
    using kept_step [OF kept_send assms evolves_refl] by (simp add: conn_do_def)
next
  case Do_Start
  then show ?thesis
    using begin_handshake_step [OF assms] assms by (simp add: conn_do_def start_handshake_def)
next
  case Do_Tick
  then show ?thesis
    using rx_step [OF assms] decay_facts assms
    by (simp add: conn_do_def on_maintenance_tick_def conn_inv_def)
next
  case (Do_Kernel rs ws)
  then show ?thesis
    using kernel_step [OF assms] kernel_step(2) evolves_trans by (fastforce simp: conn_do_def)
next
  case (Do_Poll err rd wr r)
  then show ?thesis
    using poll_event_step [OF assms] by (simp add: conn_do_def)
qed

lemma conn_inv_new: "conn_inv (new_connection role)"
  by (simp add: conn_inv_def new_connection_def rb_inv_null sb_inv_null phase_ok_def calls_ok_def calls_def)

lemma conn_run_step:
  "conn_inv c \<Longrightarrow> conn_inv (conn_run env c ops) \<and> evolves c (conn_run env c ops)"
proof (induction ops arbitrary: c)
  case (Cons x ops)
  then show ?case
    using conn_do_step [OF Cons.prems, of env x] evolves_trans
    unfolding conn_run_def foldl_Cons by blast
qed (simp add: conn_run_def)

subsection \<open>Properties\<close>

text \<open>
  C2: whatever the peer, the kernel and the delegate do, a connection only moves forward
  through its states, and its delegate is called in order: first \<open>on_established\<close>, once, with
  the identity the handshake proved, then one \<open>on_frame\<close> per frame. Before the connection is
  established there is no call at all, so no frame is delivered on an unauthenticated channel;
  the buffers stay well formed throughout.
\<close>

theorem connection_lifecycle:
  fixes env :: "('h, 's) conn_env" and role ops ops'
  defines "c \<equiv> conn_run env (new_connection role) ops"
    and "c' \<equiv> conn_run env (conn_run env (new_connection role) ops) ops'"
  shows "rank (cn_state c) \<le> rank (cn_state c') \<and> (\<exists>es. cn_log c' = cn_log c @ es) \<and>
    (calls c = [] \<or> 2 \<le> rank (cn_state c) \<and>
       calls c = Established_Ev (cn_remote_id c) # map Frame_Ev (delivered c)) \<and>
    rb_inv (cn_rx c) \<and> sb_inv (cn_tx c)"
proof -
  have c: "conn_inv c" "evolves c c'"
    using conn_run_step conn_inv_new unfolding c_def c'_def by blast+
  then have "calls c = [] \<or> 2 \<le> rank (cn_state c) \<and>
      calls c = Established_Ev (cn_remote_id c) # map Frame_Ev (delivered c)"
    by (cases "cn_state c") (auto simp: conn_inv_def phase_ok_def calls_ok_def split: option.splits)
  with c show ?thesis
    by (simp add: evolves_def conn_inv_def)
qed

lemma send_established:
  assumes "conn_inv c" "cn_state c = Established" "cn_session c = Some s"
    and "ses_encrypt (ce_sec env) s (encode_message h p) = Some (cipher, s1)"
  defines "c' \<equiv> send env h p c"
  shows "cn_session c' = Some s1 \<and>
    cn_wire c' @ sb_view (cn_tx c') = cn_wire c @ sb_view (cn_tx c) @ encode_block cipher \<and>
    (if cn_state c' = Established then sb_held (cn_tx c') \<le> cn_high_water c
     else cn_state c' = Closing \<and> last (cn_log c') = Close_Ev (cn_reason c') \<and>
       cn_reason c' \<in> {SlowConsumer, PeerReset})"
proof (cases rule: send_cases [of c env h p])
  case (slow s' cipher' s1' c1)
  with assms show ?thesis
    using queue_block_facts(2) [of "c\<lparr>cn_session := Some s1\<rparr>" cipher]
    by (simp add: c'_def conn_inv_def)
next
  case (flushed s' cipher' s1' c1 k c2)
  have c1: "c1 = queue_block cipher (c\<lparr>cn_session := Some s1\<rparr>)"
    using flushed assms by simp
  have tx: "sb_inv (cn_tx c1)" "sb_view (cn_tx c1) = sb_view (cn_tx c) @ encode_block cipher"
    using assms(1) queue_block_facts [of "c\<lparr>cn_session := Some s1\<rparr>" cipher] c1 by (simp_all add: conn_inv_def)
  have "cn_reason c2 = PeerReset" if "\<not> k"
    using flushed(6) that
    by (auto simp: flush_def fail_def Let_def split: prod.splits if_splits)
  moreover have "cn_session c2 = Some s1" "cn_state c2 = (if k then Established else Closing)"
    using flush_fields [OF flushed(6)] flushed(1) c1 by simp_all
  moreover have "cn_wire c2 @ sb_view (cn_tx c2) = cn_wire c @ sb_view (cn_tx c) @ encode_block cipher"
    "sb_held (cn_tx c2) \<le> cn_high_water c"
    using flush_facts [OF tx(1) flushed(6)] tx(2) c1 flushed(5) by simp_all
  moreover have "c' = (if k then c2 else emit (Close_Ev (cn_reason c2)) c2)"
    using flushed(7) by (simp add: c'_def)
  ultimately show ?thesis
    by simp
qed (use assms in auto)

text \<open>
  C7: sending on an established connection appends exactly one framed block, the encryption
  of the encoded message, behind everything queued before; nothing queued earlier is lost or
  reordered. The connection then either stays established, holding no more memory than its
  high-water mark, or is closing, with the reactor told to close it for that reason.
\<close>

theorem send_effect:
  assumes "conn_inv c" "cn_state c = Established" "cn_session c = Some s"
    and "ses_encrypt (ce_sec env) s (encode_message h p) = Some (cipher, s1)"
  defines "c' \<equiv> send env h p c"
  shows "cn_session c' = Some s1 \<and>
    cn_wire c' @ sb_view (cn_tx c') = cn_wire c @ sb_view (cn_tx c) @ encode_block cipher \<and>
    (if cn_state c' = Established then sb_held (cn_tx c') \<le> cn_high_water c
     else cn_state c' = Closing \<and> last (cn_log c') = Close_Ev (cn_reason c') \<and>
       cn_reason c' \<in> {SlowConsumer, PeerReset})"
  using send_established [OF assms(1-4)] unfolding c'_def .

text \<open>A plaintext connection whose handshake has just finished, for concrete runs.\<close>

definition plain_env :: "(conn_event list \<Rightarrow> delegate_act list) \<Rightarrow> (plain_handshaker, peer_id) conn_env" where
  "plain_env d = \<lparr>ce_sec = plaintext_security pid_zero (str ''t''), ce_delegate = d\<rparr>"

definition established_plain :: "(plain_handshaker, peer_id) connection" where
  "established_plain =
     (new_connection Inbound)\<lparr>cn_state := Established, cn_session := Some pid_zero,
        cn_log := [Established_Ev pid_zero]\<rparr>"

lemma established_plain_inv: "conn_inv established_plain"
  by (simp add: established_plain_def new_connection_def conn_inv_def rb_inv_null sb_inv_null
      phase_ok_def calls_ok_def calls_def delivered_def is_call_def)

theorem send_effect_witness:
  "cn_session (send (plain_env (\<lambda>_. [])) \<lparr>fh_type = 0, fh_flags = 0, fh_channel = 7\<rparr> [1, 2]
     established_plain) = Some pid_zero"
proof -
  have "cn_state established_plain = Established" "cn_session established_plain = Some pid_zero"
    by (simp_all add: established_plain_def)
  moreover have "ses_encrypt (ce_sec (plain_env (\<lambda>_. []))) pid_zero m = Some (m, pid_zero)" for m
    by (simp add: plain_env_def plaintext_security_def plain_encrypt_def)
  ultimately show ?thesis
    using send_effect [OF established_plain_inv] by blast
qed

subsection \<open>Bounds on what a peer can make us reserve\<close>

lemma grow_bound:
  assumes "rb_cap b < k" "k \<le> m" "kMinCapacity \<le> m"
  shows "grown_capacity b k \<le> round_up (m + m div 2) kAllocGranularity"
  using assms by (auto simp: grown_capacity_def Let_def intro!: round_up_mono)

lemma prepare_cap:
  assumes "rb_inv b" "kMinCapacity \<le> m" "rb_size b + n \<le> m"
  shows "rb_cap (fst (prepare n b)) \<le> max (rb_cap b) (round_up (m + m div 2) kAllocGranularity)"
proof -
  have "rb_cap (make_room n b) \<le> max (rb_cap b) (round_up (m + m div 2) kAllocGranularity)"
  proof (cases "rb_cap b - rb_size b \<ge> n")
    case True
    then show ?thesis
      using compact_facts(3) [OF assms(1)] by (simp add: make_room_def Let_def)
  next
    case False
    then have "rb_cap b < rb_size b + n" by simp
    moreover have "rb_size b \<le> grown_capacity b (rb_size b + n)"
      using grown_capacity_ge [of "rb_size b + n" b] by simp
    ultimately show ?thesis
      using False grow_bound [of b "rb_size b + n" m] assms grow_to_facts(3) [OF assms(1)]
      by (simp add: make_room_def Let_def max_def)
  qed
  then show ?thesis
    by (auto simp: prepare_def Let_def)
qed

text \<open>
  C8: the memory a read reserves is bounded by what the peer has really sent, not by what it
  declares: the buffer offered to \<open>recv\<close> never exceeds its former capacity or one and a half
  times the buffered bytes plus 16 KiB (an unauthenticated peer) or plus 1 MiB (an established
  one), rounded up to the allocation granularity, although a length prefix may announce 64 MiB.
\<close>

theorem receive_reserve_bound:
  assumes "conn_inv c"
  defines "m \<equiv> rb_size (cn_rx c) + (if cn_state c = Established then kMaxEagerReserve else kRecvChunk)"
  shows "rb_cap (fst (prepare (read_size c) (cn_rx c))) \<le>
    max (rb_cap (cn_rx c)) (round_up (m + m div 2) kAllocGranularity)"
proof (rule prepare_cap)
  show "rb_inv (cn_rx c)"
    using assms(1) by (simp add: conn_inv_def)
  have "kMinCapacity \<le> kRecvChunk" "kRecvChunk \<le> kMaxEagerReserve"
    by (simp_all add: kMinCapacity_def kMaxEagerReserve_def kRecvChunk_def)
  then show "kMinCapacity \<le> m" "rb_size (cn_rx c) + read_size c \<le> m"
    by (simp_all add: m_def read_size_def)
qed

theorem receive_reserve_bound_witness:
  "rb_cap (fst (prepare (read_size established_plain) (cn_rx established_plain))) \<le> 1572864"
proof -
  have "cn_state established_plain = Established" "cn_rx established_plain = rb_null"
    "rb_size rb_null = 0" "rb_cap rb_null = 0"
    by (simp_all add: established_plain_def new_connection_def rb_null_def rb_size_def)
  moreover have "round_up (kMaxEagerReserve + kMaxEagerReserve div 2) kAllocGranularity = 1572864"
    by (simp add: kMaxEagerReserve_def round_up_def kAllocGranularity_def)
  ultimately show ?thesis
    using receive_reserve_bound [OF established_plain_inv] by simp
qed

end
