(* ===== verification/Connection_Stream.thy ===== *)
theory Connection_Stream
  imports Connection_Safety
begin

text \<open>
  End-to-end delivery over a secure channel: the frames one connection sends are the frames
  the other connection's delegate receives, in order, however the kernel cuts the byte stream
  and whatever the delegates reply while they are called.
\<close>

subsection \<open>Streams of blocks\<close>

definition wire_of :: "bytes list \<Rightarrow> bytes" where
  "wire_of cs = concat (map encode_block cs)"

definition frame_bytes :: "frame \<Rightarrow> bytes" where
  "frame_bytes f = encode_message (fr_header f) (fr_payload f)"

definition small :: "bytes list \<Rightarrow> bool" where
  "small cs = list_all (\<lambda>c. length c \<le> kMaxBlockSize) cs"

lemma length_encode_block': "length (encode_block b) = 4 + length b"
  by (simp add: encode_block_def encode_block_header_def u32_be_def)

lemma parse_frame_bytes [simp]: "parse_message (frame_bytes f) = Some f"
  by (cases f) (simp add: frame_bytes_def)

lemma first_block:
  assumes "view @ rest = encode_block x @ tail" "length x \<le> kMaxBlockSize"
  shows "if length view < 4 + length x then bk_status (try_take_block view) = Incomplete
    else \<exists>v. view = encode_block x @ v \<and> v @ rest = tail \<and>
      bk_status (try_take_block view) = Ok \<and> bk_body (try_take_block view) = x \<and>
      bk_consumed (try_take_block view) = 4 + length x"
proof (cases "length view < 4 + length x")
  case True
  have "bk_status (try_take_block view) = Incomplete"
  proof (cases "length view < 4")
    case False
    have "view = take (length view) (encode_block x @ tail)"
      using assms(1) by (metis append_eq_conv_conj)
    then have "view = take (length view) (encode_block x)"
      using True by (simp add: length_encode_block')
    then have "block_len view = length x"
      using False block_len_encode [OF assms(2)] block_len_append [of view "drop (length view) (encode_block x)"]
      by (metis append_take_drop_id not_less)
    then show ?thesis
      using True False assms(2) by (simp add: try_take_block_def kLengthPrefixSize_def Let_def)
  qed (simp add: try_take_block_short)
  then show ?thesis
    using True by simp
next
  case False
  have "take (4 + length x) (view @ rest) = encode_block x"
    unfolding assms(1) by (simp add: length_encode_block')
  then have "take (4 + length x) view = encode_block x"
    using False by simp
  then obtain v where v: "view = encode_block x @ v"
    by (metis append_take_drop_id)
  then have "v @ rest = tail"
    using assms(1) by simp
  with False v show ?thesis
    using try_take_block_encode [OF assms(2), of v] by auto
qed

subsection \<open>The receiving side\<close>

text \<open>
  \<open>awaiting a ms rest c\<close>: the connection holds the receiving half of a channel whose sender
  is in state \<open>a\<close>, and the bytes it has buffered, followed by the bytes \<open>rest\<close> still to come,
  are the encoding of the frames \<open>ms\<close>.
\<close>

definition awaiting ::
  "('h, 's) conn_env \<Rightarrow> ('s \<Rightarrow> 's \<Rightarrow> bool) \<Rightarrow> 's \<Rightarrow> frame list \<Rightarrow> bytes \<Rightarrow> ('h, 's) connection \<Rightarrow> bool" where
  "awaiting env linked a ms rest c \<longleftrightarrow>
     cn_state c = Established \<and> conn_inv c \<and> (\<exists>s. cn_session c = Some s \<and> linked a s) \<and>
     (\<exists>cs a'. encrypt_all (ses_encrypt (ce_sec env)) a (map frame_bytes ms) = Some (cs, a') \<and>
        small cs \<and> rb_view (cn_rx c) @ rest = wire_of cs)"

text \<open>
  \<open>closed_by_reply env c\<close>: the connection was established when its delegate was called with a
  frame, and what the delegate did in that call, the list \<open>ce_delegate env\<close> gives for the calls
  so far, replayed on that connection, is what made it close. A delegate that sends nothing
  closes no connection this way (\<open>silent_keeps\<close>).
\<close>

definition closed_by_reply :: "('h, 's) conn_env \<Rightarrow> ('h, 's) connection \<Rightarrow> bool" where
  "closed_by_reply env c \<longleftrightarrow>
     cn_state c = Closing \<and> cn_reason c \<in> {SlowConsumer, PeerReset} \<and>
     (\<exists>c0 es f. cn_state c0 = Established \<and> cn_log c0 = es @ [Frame_Ev f] \<and>
        c\<lparr>cn_rx := cn_rx c0\<rparr> = foldl (delegate_act env) c0 (ce_delegate env (cn_log c0)))"

definition silent :: "('h, 's) conn_env \<Rightarrow> bool" where
  "silent env \<longleftrightarrow> (\<forall>log h p. Send_Act h p \<notin> set (ce_delegate env log))"

lemma closed_by_reply_rx [simp]: "closed_by_reply env (c\<lparr>cn_rx := rx\<rparr>) = closed_by_reply env c"
  by (simp add: closed_by_reply_def)

lemma silent_acts:
  "\<forall>h p. Send_Act h p \<notin> set as \<Longrightarrow> cn_state (foldl (delegate_act env) c as) = cn_state c"
proof (induction as arbitrary: c)
  case (Cons a as)
  then have "cn_state (delegate_act env c a) = cn_state c"
    by (cases a) (auto simp: delegate_act_def emit_def)
  with Cons show ?case by simp
qed simp

lemma silent_keeps:
  assumes "silent env"
  shows "\<not> closed_by_reply env c"
proof
  assume "closed_by_reply env c"
  then obtain c0 where c0: "cn_state c = Closing" "cn_state c0 = Established"
    "c\<lparr>cn_rx := cn_rx c0\<rparr> = foldl (delegate_act env) c0 (ce_delegate env (cn_log c0))"
    by (auto simp: closed_by_reply_def)
  have "cn_state (c\<lparr>cn_rx := cn_rx c0\<rparr>) = cn_state c0"
    unfolding c0(3) by (rule silent_acts) (use assms in \<open>simp add: silent_def\<close>)
  with c0(1,2) show False by simp
qed

text \<open>
  \<open>received a ms rest c r\<close>: what a read step may return from there. Either it keeps the
  connection, having delivered every complete frame and awaiting the others, or one of the
  delegate's own replies made the connection close.
\<close>

definition drained :: "('h, 's) connection \<Rightarrow> bool" where
  "drained c \<longleftrightarrow> bk_status (try_take_block (rb_view (cn_rx c))) \<noteq> Ok"

definition received ::
  "('h, 's) conn_env \<Rightarrow> ('s \<Rightarrow> 's \<Rightarrow> bool) \<Rightarrow> frame list \<Rightarrow> bytes \<Rightarrow> frame list \<Rightarrow> bool \<times> ('h, 's) connection \<Rightarrow> bool" where
  "received env linked ms rest old r \<longleftrightarrow>
     (\<exists>ms1 ms2. ms = ms1 @ ms2 \<and> delivered (snd r) = old @ ms1 \<and>
        (if fst r then (\<exists>a. awaiting env linked a ms2 rest (snd r)) \<and> drained (snd r)
         else closed_by_reply env (snd r)))"

lemma received_more:
  "received env linked ms rest (old @ fs) r \<Longrightarrow> received env linked (fs @ ms) rest old r"
  unfolding received_def by (metis append.assoc)

lemma received_now:
  assumes "delivered c = old @ fs" "awaiting env linked a ms rest c" "drained c"
  shows "received env linked (fs @ ms) rest old (True, c)"
  using assms by (auto simp: received_def)

lemma send_reason:
  "cn_state c \<noteq> Closing \<Longrightarrow> cn_state (send env h p c) = Closing \<Longrightarrow>
     cn_reason (send env h p c) \<in> {SlowConsumer, PeerReset}"
  "cn_state c = Closing \<Longrightarrow> send env h p c = c"
proof -
  show "cn_reason (send env h p c) \<in> {SlowConsumer, PeerReset}"
    if "cn_state c \<noteq> Closing" "cn_state (send env h p c) = Closing"
  proof (cases rule: send_cases [of c env h p])
    case (flushed s cipher s1 c1 k c2)
    then have "\<not> k"
      using that flush_fields(8) [OF flushed(6)] by auto
    with flushed show ?thesis
      by (auto simp: flush_def fail_def Let_def split: prod.splits if_splits)
  qed (use that in auto)
  show "cn_state c = Closing \<Longrightarrow> send env h p c = c"
    by (simp add: send_def)
qed

lemma delegate_acts_reason:
  "cn_state c \<noteq> Closing \<or> cn_reason c \<in> {SlowConsumer, PeerReset} \<Longrightarrow>
   cn_state (foldl (delegate_act env) c as) = Closing \<Longrightarrow>
     cn_reason (foldl (delegate_act env) c as) \<in> {SlowConsumer, PeerReset}"
proof (induction as arbitrary: c)
  case (Cons x as)
  have "cn_state (delegate_act env c x) \<noteq> Closing \<or>
      cn_reason (delegate_act env c x) \<in> {SlowConsumer, PeerReset}"
  proof (cases x)
    case (Send_Act h p)
    with send_reason [of c env h p] Cons.prems(1) show ?thesis
      by (cases "cn_state c = Closing") (auto simp: delegate_act_def)
  qed (use Cons.prems(1) in \<open>simp add: delegate_act_def\<close>)
  from Cons.IH [OF this] Cons.prems(2) show ?case
    by simp
qed simp

text \<open>The poller reports the socket readable until the data that arrived has been read.\<close>

fun pump :: "('h, 's) conn_env \<Rightarrow> nat \<Rightarrow> ('h, 's) connection \<Rightarrow> bool \<times> ('h, 's) connection" where
  "pump env 0 c = (True, c)"
| "pump env (Suc n) c =
     (let r = on_readable env c in if \<not> fst r \<or> cn_rd (snd r) = [] then r else pump env n (snd r))"

definition send_all :: "('h, 's) conn_env \<Rightarrow> frame list \<Rightarrow> ('h, 's) connection \<Rightarrow> ('h, 's) connection" where
  "send_all env ms c = foldl (\<lambda>c f. send env (fr_header f) (fr_payload f) c) c ms"

lemma send_all_idle: "cn_state c \<noteq> Established \<Longrightarrow> send_all env ms c = c"
  by (induction ms) (simp_all add: send_all_def send_def)

lemma send_all_effect:
  assumes "conn_inv c" "cn_session c = Some s"
    and "encrypt_all (ses_encrypt (ce_sec env)) s (map frame_bytes ms) = Some (cs, s')"
    and "cn_state (send_all env ms c) = Established"
  shows "cn_wire (send_all env ms c) @ sb_view (cn_tx (send_all env ms c)) =
    cn_wire c @ sb_view (cn_tx c) @ wire_of cs"
  using assms
proof (induction ms arbitrary: c s cs)
  case (Cons f ms)
  let ?c = "send env (fr_header f) (fr_payload f) c"
  obtain x s1 ds where x: "ses_encrypt (ce_sec env) s (frame_bytes f) = Some (x, s1)" "cs = x # ds"
    and ds: "encrypt_all (ses_encrypt (ce_sec env)) s1 (map frame_bytes ms) = Some (ds, s')"
    using Cons.prems(3) by (auto split: option.splits)
  have est: "cn_state c = Established"
    using Cons.prems(4) send_all_idle [of c env "f # ms"] by fastforce
  have c1: "cn_session ?c = Some s1"
    "cn_wire ?c @ sb_view (cn_tx ?c) = cn_wire c @ sb_view (cn_tx c) @ encode_block x"
    using send_established [OF Cons.prems(1) est Cons.prems(2) x(1) [unfolded frame_bytes_def]] by simp_all
  have "conn_inv ?c"
    using kept_inv [OF kept_send Cons.prems(1)] .
  moreover have "send_all env (f # ms) c = send_all env ms ?c"
    by (simp add: send_all_def)
  ultimately show ?case
    using Cons.IH [OF _ c1(1) ds] Cons.prems(4) c1(2) x(2) by (simp add: wire_of_def)
qed (simp add: send_all_def wire_of_def)

locale channel_env = ch: secure_channel "ses_encrypt (ce_sec env)" "ses_decrypt (ce_sec env)" linked overhead limit
  for env :: "('h, 's) conn_env" and linked :: "'s \<Rightarrow> 's \<Rightarrow> bool" and overhead limit :: nat +
  assumes blocks_fit: "kMaxBlockSize \<le> limit"
begin

lemma send_linked:
  assumes "cn_session c = Some s" "linked a s"
  shows "\<exists>s'. cn_session (send env h p c) = Some s' \<and> linked a s'"
proof (cases rule: send_cases [of c env h p])
  case (slow s0 cipher s1 c1)
  then show ?thesis
    using assms ch.receiver_sends by auto
next
  case (flushed s0 cipher s1 c1 k c2)
  then have "cn_session c2 = Some s1"
    using flush_fields(3) [OF flushed(6)] by simp
  with flushed show ?thesis
    using assms ch.receiver_sends by auto
qed (use assms in auto)

lemma delegate_acts_linked:
  "cn_session c = Some s \<Longrightarrow> linked a s \<Longrightarrow>
     \<exists>s'. cn_session (foldl (delegate_act env) c as) = Some s' \<and> linked a s'"
proof (induction as arbitrary: c s)
  case (Cons x as)
  have "\<exists>s'. cn_session (delegate_act env c x) = Some s' \<and> linked a s'"
    using send_linked [OF Cons.prems] Cons.prems by (cases x) (auto simp: delegate_act_def)
  with Cons.IH show ?case
    by auto
qed simp

lemma frame_step:
  assumes "cn_state c = Established" "cn_session c = Some s" "linked a s"
    and "ses_encrypt (ce_sec env) a (frame_bytes f) = Some (x, a1)" "length x \<le> kMaxBlockSize"
  obtains c1 s1 where "deliver_frame env x c = (True, c1)" "cn_session c1 = Some s1" "linked a1 s1"
    "delivered c1 = delivered c @ [f]" "cn_rx c1 = cn_rx c"
    "cn_state c1 = Established \<or> closed_by_reply env c1"
proof -
  obtain s' where s': "ses_decrypt (ce_sec env) s x = Some (frame_bytes f, s')" "linked a1 s'"
    using ch.dec_enc [OF assms(3,4)] assms(5) blocks_fit by auto
  let ?c = "emit (Frame_Ev f) (c\<lparr>cn_session := Some s'\<rparr>)"
  define c1 where "c1 = call_delegate env (Frame_Ev f) (c\<lparr>cn_session := Some s'\<rparr>)"
  have c1: "c1 = foldl (delegate_act env) ?c (ce_delegate env (cn_log ?c))"
    by (simp add: c1_def call_delegate_def Let_def)
  have k: "kept ?c c1"
    unfolding c1_def by (rule call_delegate_kept)
  have "delivered ?c = delivered c @ [f]"
    by (simp add: delivered_def)
  with k have fields: "delivered c1 = delivered c @ [f]" "cn_rx c1 = cn_rx c"
    "cn_state c1 = Established \<or> cn_state c1 = Closing"
    using assms(1) by (auto simp: kept_def)
  moreover have "closed_by_reply env c1" if "cn_state c1 = Closing"
  proof -
    have "cn_reason c1 \<in> {SlowConsumer, PeerReset}"
      using delegate_acts_reason [of ?c env] that assms(1) by (simp add: c1)
    moreover have "c1\<lparr>cn_rx := cn_rx ?c\<rparr> = c1"
      using k by (simp add: kept_def flip: connection.surjective)
    ultimately show ?thesis
      using that assms(1) c1 unfolding closed_by_reply_def
      by (intro conjI exI [of _ ?c] exI [of _ "cn_log c"] exI [of _ f]) (simp_all add: emit_def)
  qed
  moreover obtain s1 where "cn_session c1 = Some s1" "linked a1 s1"
    using delegate_acts_linked [of ?c s' a1] s'(2) c1 by auto
  moreover have "deliver_frame env x c = (True, c1)"
    using assms(2) s'(1) by (simp add: deliver_frame_def c1_def)
  ultimately show thesis
    using that by blast
qed

lemma block_step:
  assumes "awaiting env linked a (f # ms) rest c"
    and "bk_status (try_take_block (rb_view (cn_rx c))) = Ok"
  defines "bk \<equiv> try_take_block (rb_view (cn_rx c))"
  defines "r \<equiv> take_block env (bk_body bk) (bk_consumed bk) c"
  shows "fst r \<and> delivered (snd r) = delivered c @ [f] \<and>
    ((\<exists>a1. awaiting env linked a1 ms rest (snd r)) \<or>
     closed_by_reply env (snd r))"
proof -
  obtain s cs a' where s: "cn_state c = Established" "conn_inv c" "cn_session c = Some s" "linked a s"
    and cs: "encrypt_all (ses_encrypt (ce_sec env)) a (map frame_bytes (f # ms)) = Some (cs, a')"
      "small cs" "rb_view (cn_rx c) @ rest = wire_of cs"
    using assms(1) by (auto simp: awaiting_def)
  obtain x a1 ds where x: "ses_encrypt (ce_sec env) a (frame_bytes f) = Some (x, a1)" "cs = x # ds"
    and ds: "encrypt_all (ses_encrypt (ce_sec env)) a1 (map frame_bytes ms) = Some (ds, a')"
    using cs(1) by (auto split: option.splits)
  have blk: "rb_view (cn_rx c) @ rest = encode_block x @ wire_of ds" "length x \<le> kMaxBlockSize"
    using cs(2,3) x(2) by (simp_all add: wire_of_def small_def)
  from first_block [OF blk] assms(2) obtain v where v: "rb_view (cn_rx c) = encode_block x @ v"
    "v @ rest = wire_of ds" "bk_body bk = x" "bk_consumed bk = 4 + length x"
    by (auto simp: bk_def split: if_splits)
  obtain c1 s1 where c1: "deliver_frame env x c = (True, c1)" "cn_session c1 = Some s1" "linked a1 s1"
    "delivered c1 = delivered c @ [f]" "cn_rx c1 = cn_rx c"
    "cn_state c1 = Established \<or> closed_by_reply env c1"
    using frame_step [OF s(1,3,4) x(1) blk(2)] .
  have r: "r = (True, c1\<lparr>cn_rx := consume (4 + length x) (cn_rx c)\<rparr>)"
    using s(1) c1(1,5) v(3,4) by (simp add: r_def take_block_def)
  have sz: "4 + length x \<le> rb_size (cn_rx c)"
    using v(1) length_rb_view_le [of "cn_rx c"] by (simp add: length_encode_block')
  have "conn_inv (snd r)"
    using take_block_step [OF s(2) sz, of env x] v(3,4) by (simp add: r_def)
  moreover have "rb_view (consume (4 + length x) (cn_rx c)) = v"
    using consume_facts(1) [OF _ sz] s(2) v(1) by (simp add: conn_inv_def length_encode_block')
  ultimately show ?thesis
    using c1 ds cs(2) x(2) v(2)
    by (auto simp: r awaiting_def small_def delivered_def)
qed

lemma awaiting_no_error:
  assumes "awaiting env linked a ms rest c"
  shows "bk_status (try_take_block (rb_view (cn_rx c))) \<noteq> Error"
    and "ms = [] \<Longrightarrow> rb_view (cn_rx c) = []"
proof -
  obtain cs a' where cs: "encrypt_all (ses_encrypt (ce_sec env)) a (map frame_bytes ms) = Some (cs, a')"
      "small cs" "rb_view (cn_rx c) @ rest = wire_of cs"
    using assms by (auto simp: awaiting_def)
  show "ms = [] \<Longrightarrow> rb_view (cn_rx c) = []"
    using cs by (simp add: wire_of_def)
  show "bk_status (try_take_block (rb_view (cn_rx c))) \<noteq> Error"
  proof (cases cs)
    case Nil
    then show ?thesis
      using cs(3) by (simp add: wire_of_def try_take_block_short)
  next
    case (Cons x ds)
    with cs first_block [of "rb_view (cn_rx c)" rest x "wire_of ds"] show ?thesis
      by (auto simp: wire_of_def small_def split: if_splits)
  qed
qed

lemma process_loop_stream:
  "awaiting env linked a ms rest c \<Longrightarrow> received env linked ms rest (delivered c) (process_loop env c)"
proof (induction "rb_size (cn_rx c)" arbitrary: a ms c rule: less_induct)
  case less
  let ?bk = "try_take_block (rb_view (cn_rx c))"
  have split: "\<exists>f ms'. ms = f # ms'" if "bk_status ?bk = Ok"
    using that awaiting_no_error(2) [OF less.prems] by (cases ms) (auto simp: try_take_block_short)
  show ?case
  proof (cases rule: process_loop_cases [of c env])
    case empty
    then have "drained c"
      using less.prems rb_view_empty [of "cn_rx c"]
      by (simp add: drained_def awaiting_def conn_inv_def try_take_block_short)
    with empty received_now [OF _ less.prems, of "delivered c" "[]"] show ?thesis
      by simp
  next
    case wait
    let ?c = "c\<lparr>cn_rx_need := bk_needed ?bk\<rparr>"
    have "awaiting env linked a ms rest ?c" "delivered ?c = delivered c"
      using less.prems kernel_step(3) [of c] by (simp_all add: awaiting_def delivered_def)
    with received_now [of ?c "delivered c" "[]"] wait show ?thesis
      by (simp add: drained_def)
  next
    case bad
    with awaiting_no_error(1) [OF less.prems] show ?thesis by simp
  next
    case (stop r)
    then obtain f ms' where ms: "ms = f # ms'"
      using split by blast
    note step = block_step [OF less.prems [unfolded ms] stop(1), folded stop(2)]
    then have "closed_by_reply env (snd r)"
      using stop(3) by (auto simp: awaiting_def)
    with step ms stop(4) show ?thesis
      by (simp add: received_def)
  next
    case (continue r)
    then obtain f ms' where ms: "ms = f # ms'"
      using split by blast
    note step = block_step [OF less.prems [unfolded ms] continue(1), folded continue(2)]
    then obtain a1 where "delivered (snd r) = delivered c @ [f]" "awaiting env linked a1 ms' rest (snd r)"
      using continue(4) by (auto simp: closed_by_reply_def)
    with less.hyps [OF continue(7)] received_more [of env linked ms' rest "delivered c" "[f]"] show ?thesis
      by (simp add: continue(6) ms)
  qed
qed

lemma process_blocks_stream:
  assumes "awaiting env linked a ms rest c"
  shows "received env linked ms rest (delivered c) (process_blocks env c)"
proof -
  have "awaiting env linked a ms rest (c\<lparr>cn_rx_need := 0\<rparr>)" "delivered (c\<lparr>cn_rx_need := 0\<rparr>) = delivered c"
    using assms kernel_step(3) [of c] by (simp_all add: awaiting_def delivered_def)
  with process_loop_stream show ?thesis
    unfolding process_blocks_def by metis
qed

lemma receive_awaiting:
  assumes "awaiting env linked a ms (out @ rest) c"
    and "prepare n (cn_rx c) = (rx1, span)" "length out \<le> span"
  shows "awaiting env linked a ms rest (c\<lparr>cn_rx := commit (length out) (fill out rx1), cn_rd := rs\<rparr>)"
proof -
  have i: "conn_inv c"
    using assms(1) by (simp add: awaiting_def)
  then have "rb_view (receive n out (cn_rx c)) = rb_view (cn_rx c) @ out"
    using receive_facts(1) assms(2,3) by (simp add: conn_inv_def)
  then have "rb_view (commit (length out) (fill out rx1)) @ rest = rb_view (cn_rx c) @ out @ rest"
    using assms(2) by (simp add: receive_def)
  then show ?thesis
    using assms(1) recv_step [OF i assms(2,3), of rs] by (auto simp: awaiting_def)
qed

lemma read_size_pos: "0 < read_size c"
  by (simp add: read_size_def kRecvChunk_def kMaxEagerReserve_def)

lemma prepare_awaiting:
  assumes "awaiting env linked a ms rest c" "prepare n (cn_rx c) = (rx1, span)"
  shows "awaiting env linked a ms rest (c\<lparr>cn_rx := rx1\<rparr>)" "rb_view rx1 = rb_view (cn_rx c)"
proof -
  have i: "conn_inv c"
    using assms(1) by (simp add: awaiting_def)
  then show "rb_view rx1 = rb_view (cn_rx c)"
    using prepare_facts(1) [of "cn_rx c" n] assms(2) by (simp add: conn_inv_def rb_view_def)
  with assms prepare_step [OF i assms(2)] show "awaiting env linked a ms rest (c\<lparr>cn_rx := rx1\<rparr>)"
    by (simp add: awaiting_def)
qed

lemma on_readable_stream:
  assumes "awaiting env linked a ms (concat chunks @ later) c"
    and "cn_rd c = map Received chunks" "[] \<notin> set chunks" "drained c"
  shows "\<exists>chunks'. [] \<notin> set chunks' \<and> cn_rd (snd (on_readable env c)) = map Received chunks' \<and>
    received env linked ms (concat chunks' @ later) (delivered c) (on_readable env c) \<and>
    (if chunks = [] then chunks' = [] else rd_weight (map Received chunks') < rd_weight (map Received chunks))"
  using assms
proof (induction "rd_weight (cn_rd c)" arbitrary: a ms chunks c rule: less_induct)
  case less
  obtain rx1 span where p: "prepare (read_size c) (cn_rx c) = (rx1, span)"
    by (cases "prepare (read_size c) (cn_rx c)")
  have inv: "conn_inv c"
    using less.prems(1) by (simp add: awaiting_def)
  show ?case
  proof (cases chunks)
    case Nil
    let ?c = "c\<lparr>cn_rx := rx1\<rparr>"
    have "awaiting env linked a ms later ?c" "rb_view rx1 = rb_view (cn_rx c)"
      using prepare_awaiting [OF less.prems(1) p] Nil by simp_all
    moreover have "on_readable env c = (True, ?c)"
      using p less.prems(2) Nil by (subst on_readable.simps) simp
    ultimately show ?thesis
      using Nil less.prems(2) received_now [of ?c "delivered c" "[]"]
      by (intro exI [of _ "[]"]) (simp add: delivered_def drained_def less.prems(4) [unfolded drained_def])
  next
    case (Cons xs cs)
    define out chunks2 where "out = take span xs"
      and "chunks2 = (if drop span xs = [] then cs else drop span xs # cs)"
    let ?c1 = "c\<lparr>cn_rx := commit (length out) (fill out rx1), cn_rd := map Received chunks2\<rparr>"
    define r where "r = process_blocks env ?c1"
    have "0 < span"
      using prepare_facts(3) [of "cn_rx c" "read_size c"] read_size_pos [of c] inv p
      by (simp add: conn_inv_def)
    then have out: "out \<noteq> []" "out @ concat chunks2 = concat chunks" "length out \<le> span"
      and ne: "[] \<notin> set chunks2"
      and w: "rd_weight (map Received chunks2) < rd_weight (map Received chunks)"
      using Cons less.prems(3)
      by (auto simp: out_def chunks2_def rd_weight_def simp flip: append_assoc)
    have rest: "rd_rest span xs (map Received cs) = map Received chunks2"
      by (simp add: rd_rest_def chunks2_def)
    have step: "on_readable env c = (if \<not> fst r \<or> length out < span then r else on_readable env (snd r))"
      using p less.prems(2) Cons out(1)
      by (subst on_readable.simps) (simp add: Let_def r_def out_def rest)
    have "awaiting env linked a ms (concat chunks2 @ later) ?c1"
      using receive_awaiting [OF _ p out(3)] less.prems(1) out(2) by (simp flip: append_assoc)
    from process_blocks_stream [OF this]
    have r: "received env linked ms (concat chunks2 @ later) (delivered c) r" "cn_rd (snd r) = map Received chunks2"
      by (simp_all add: r_def delivered_def)
    show ?thesis
    proof (cases "\<not> fst r \<or> length out < span")
      case True
      with step r ne w Cons show ?thesis
        by (intro exI [of _ chunks2]) simp
    next
      case False
      then obtain ms1 ms2 a1 where ms: "ms = ms1 @ ms2" "delivered (snd r) = delivered c @ ms1"
        "awaiting env linked a1 ms2 (concat chunks2 @ later) (snd r)" "drained (snd r)"
        using r(1) by (auto simp: received_def)
      have "rd_weight (cn_rd (snd r)) < rd_weight (cn_rd c)"
        using w r(2) less.prems(2) by simp
      from less.hyps [OF this ms(3) r(2) ne ms(4)] obtain chunks' where chunks':
        "[] \<notin> set chunks'" "cn_rd (snd (on_readable env (snd r))) = map Received chunks'"
        "received env linked ms2 (concat chunks' @ later) (delivered c @ ms1) (on_readable env (snd r))"
        "rd_weight (map Received chunks') \<le> rd_weight (map Received chunks2)"
        using ms(2) by (auto split: if_splits)
      with received_more [OF chunks'(3)] step False ms(1) w Cons show ?thesis
        by (intro exI [of _ chunks']) simp
    qed
  qed
qed

lemma pump_stream:
  assumes "awaiting env linked a ms (concat chunks @ later) c" "cn_rd c = map Received chunks"
    and "[] \<notin> set chunks" "drained c" "rd_weight (cn_rd c) < n"
  shows "received env linked ms later (delivered c) (pump env n c)"
  using assms
proof (induction n arbitrary: a ms chunks c)
  case (Suc n)
  define r where "r = on_readable env c"
  obtain chunks' where c': "[] \<notin> set chunks'" "cn_rd (snd r) = map Received chunks'"
    "received env linked ms (concat chunks' @ later) (delivered c) r"
    "if chunks = [] then chunks' = [] else rd_weight (map Received chunks') < rd_weight (map Received chunks)"
    using on_readable_stream [OF Suc.prems(1-4)] by (auto simp: r_def)
  show ?case
  proof (cases "\<not> fst r \<or> cn_rd (snd r) = []")
    case True
    then have "pump env (Suc n) c = r" and "fst r \<longrightarrow> chunks' = []"
      using c'(2) by (auto simp: r_def)
    with c'(3) show ?thesis
      by (cases "fst r") (auto simp: received_def)
  next
    case False
    then obtain ms1 ms2 a1 where ms: "ms = ms1 @ ms2" "delivered (snd r) = delivered c @ ms1"
      "awaiting env linked a1 ms2 (concat chunks' @ later) (snd r)" "drained (snd r)"
      using c'(3) by (auto simp: received_def)
    have "rd_weight (cn_rd (snd r)) < n"
      using c'(2,4) Suc.prems(2,5) False by (auto split: if_splits)
    from Suc.IH [OF ms(3) c'(2,1) ms(4) this] received_more ms(1,2) False show ?thesis
      by (simp add: r_def)
  qed
qed simp

lemma encrypt_all_small:
  "encrypt_all (ses_encrypt (ce_sec env)) s ps = Some (cs, s') \<Longrightarrow>
     list_all (\<lambda>p. length p + overhead \<le> kMaxBlockSize) ps \<Longrightarrow> small cs"
proof (induction ps arbitrary: s cs)
  case (Cons p ps)
  then show ?case
    using ch.enc_length [of s p] by (fastforce simp: small_def split: option.splits)
qed (simp add: small_def)

end

text \<open>The plaintext channel is an instance, with any delegate.\<close>

interpretation plain_conn: channel_env "plain_env d" plain_linked 0 kMaxBlockSize for d
  by unfold_locales
    (auto simp: plain_env_def plaintext_security_def plain_encrypt_def plain_decrypt_def plain_linked_def)

lemma pump_delivers:
  fixes B :: "('h, 's) connection"
  assumes "channel_env env linked overhead limit" "conn_inv B" "cn_state B = Established"
    and "cn_session B = Some s" "linked a s" "rb_view (cn_rx B) = []"
    and "encrypt_all (ses_encrypt (ce_sec env)) a (map frame_bytes ms) = Some (cs, a')" "small cs"
    and "concat chunks = wire_of cs" "[] \<notin> set chunks"
  defines "B' \<equiv> B\<lparr>cn_rd := map Received chunks\<rparr>"
  shows "received env linked ms [] (delivered B) (pump env (Suc (rd_weight (cn_rd B'))) B')"
proof -
  have "awaiting env linked a ms (concat chunks @ []) B'" "drained B'" "delivered B' = delivered B"
    "cn_rd B' = map Received chunks"
    using assms kernel_step(1) [OF assms(2)]
    by (simp_all add: awaiting_def drained_def delivered_def B'_def try_take_block_short)
  with channel_env.pump_stream [OF assms(1), of a ms chunks "[]" B'] assms(10) show ?thesis
    by (simp del: pump.simps)
qed

lemma received_all:
  assumes "received env linked ms [] old r" "fst r"
  shows "delivered (snd r) = old @ ms" "rb_view (cn_rx (snd r)) = []"
proof -
  obtain ms1 ms2 a where ms: "ms = ms1 @ ms2" "delivered (snd r) = old @ ms1"
    "awaiting env linked a ms2 [] (snd r)" "drained (snd r)"
    using assms by (auto simp: received_def)
  then obtain cs a' where cs: "encrypt_all (ses_encrypt (ce_sec env)) a (map frame_bytes ms2) = Some (cs, a')"
    "small cs" "rb_view (cn_rx (snd r)) = wire_of cs"
    by (auto simp: awaiting_def)
  have "cs = []"
  proof (cases cs)
    case (Cons x ds)
    with cs(2,3) ms(4) show ?thesis
      using try_take_block_encode [of x "wire_of ds"] by (simp add: drained_def wire_of_def small_def)
  qed
  with cs(3) ms encrypt_all_length [OF cs(1)] show "delivered (snd r) = old @ ms"
    "rb_view (cn_rx (snd r)) = []"
    by (simp_all add: wire_of_def)
qed

lemma received_some:
  assumes "received env linked ms rest old r" "\<not> fst r"
  shows "closed_by_reply env (snd r) \<and>
    (\<exists>k. delivered (snd r) = old @ take k ms)"
proof -
  obtain ms1 ms2 where "ms = ms1 @ ms2" "delivered (snd r) = old @ ms1"
    "closed_by_reply env (snd r)"
    using assms by (auto simp: received_def)
  then show ?thesis
    by (intro conjI exI [of _ "length ms1"]) simp_all
qed

text \<open>A concrete frame, sent on the established plaintext connection.\<close>

definition demo_frame :: frame where
  "demo_frame = \<lparr>fr_header = \<lparr>fh_type = 0, fh_flags = 0, fh_channel = 7\<rparr>, fr_payload = [1, 2]\<rparr>"

lemmas demo_defs = send_all_def demo_frame_def established_plain_def new_connection_def send_def
  plain_env_def plaintext_security_def plain_encrypt_def queue_block_def Let_def append_copy_def
  coalescable_tail_def take_chunk_def append_own_def pack_tail_def sb_null_def vec_empty_def
  sb_held_def flush_def sb_is_empty_def arm_write_def disarm_write_def emit_def sb_view_def sb_live_def ck_slice_def
  encode_message_def encode_block_header_def u32_be_def u16_be_def kDefaultSendHighWater_def
  kScratchCapacity_def kInlineBlockLimit_def

lemma demo_send:
  "cn_state (send_all (plain_env (\<lambda>_. [])) [demo_frame] established_plain) = Established"
  "cn_wire (send_all (plain_env (\<lambda>_. [])) [demo_frame] established_plain) @
     sb_view (cn_tx (send_all (plain_env (\<lambda>_. [])) [demo_frame] established_plain)) =
   [0, 0, 0, 6, 0, 0, 0, 7, 1, 2]"
  by (simp_all add: demo_defs)

lemma stream_delivered:
  fixes A B :: "('h, 's) connection"
  assumes "channel_env env linked overhead limit"
    and "conn_inv A" "cn_session A = Some sa"
    and "conn_inv B" "cn_state B = Established" "cn_session B = Some sb" "rb_view (cn_rx B) = []"
    and "linked sa sb" "list_all (\<lambda>f. 4 + length (fr_payload f) + overhead \<le> kMaxBlockSize) ms"
    and "encrypt_all (ses_encrypt (ce_sec env)) sa (map frame_bytes ms) \<noteq> None"
    and "ses_encrypt (ce_sec env_a) = ses_encrypt (ce_sec env)"
    and "A' = send_all env_a ms A" "cn_state A' = Established"
    and "cn_wire A' @ sb_view (cn_tx A') = cn_wire A @ sb_view (cn_tx A) @ concat chunks" "[] \<notin> set chunks"
  defines "B' \<equiv> B\<lparr>cn_rd := map Received chunks\<rparr>"
  defines "r \<equiv> pump env (Suc (rd_weight (cn_rd B'))) B'"
  shows "(if fst r then delivered (snd r) = delivered B @ ms \<and> rb_view (cn_rx (snd r)) = []
     else closed_by_reply env (snd r) \<and> (\<exists>k. delivered (snd r) = delivered B @ take k ms)) \<and>
    (silent env \<longrightarrow> fst r)"
proof -
  obtain cs sa' where cs: "encrypt_all (ses_encrypt (ce_sec env)) sa (map frame_bytes ms) = Some (cs, sa')"
    using assms(10) by auto
  have "list_all (\<lambda>p. length p + overhead \<le> kMaxBlockSize) (map frame_bytes ms)"
    using assms(9) by (simp add: list_all_iff frame_bytes_def)
  with cs have small: "small cs"
    using channel_env.encrypt_all_small [OF assms(1)] by blast
  have "cn_wire A' @ sb_view (cn_tx A') = cn_wire A @ sb_view (cn_tx A) @ wire_of cs"
    using send_all_effect [OF assms(2,3), of env_a ms cs sa'] cs assms(11,12,13) by simp
  then have "concat chunks = wire_of cs"
    using assms(14) by simp
  from pump_delivers [OF assms(1,4,5,6,8,7) cs small this assms(15)]
  have "received env linked ms [] (delivered B) r"
    by (simp add: r_def B'_def)
  with received_all received_some silent_keeps show ?thesis
    by metis
qed

subsection \<open>Properties\<close>



end
