(* ===== verification/Message_Router.thy ===== *)
theory Message_Router
  imports Wire_Frame
begin

text \<open>
  Dispatch of decoded frames (\<open>src/librats/wire/message_router.h\<close> and \<open>.cpp\<close>). A
  \<open>Handler\<close> is a C++ callable the router stores and calls; its type is the parameter
  \<open>'h\<close>, and \<open>dispatch\<close> returns the handler the code would call together with the payload
  it passes, \<open>None\<close> for the code's \<open>false\<close>. An empty \<open>std::function\<close> in \<open>by_type_\<close>
  is \<open>None\<close>. Registration is total: a colliding channel id is logged by the code and then
  overwritten, and \<open>collides\<close> is the condition of that log line.
\<close>

subsection \<open>Channel identifiers: 32-bit FNV-1a folded to 16 bits\<close>

definition fnv_step :: "u32 \<Rightarrow> byte \<Rightarrow> u32" where
  "fnv_step hash c = (hash XOR ucast c) * 16777619"

definition fnv1a :: "bytes \<Rightarrow> u32" where
  "fnv1a name = foldl fnv_step 2166136261 name"

definition channel_id :: "bytes \<Rightarrow> u16" where
  "channel_id name =
     (let hash = fnv1a name;
          id = ucast (drop_bit 16 hash XOR (hash AND 0xFFFF)) :: u16
      in if id = 0 then 1 else id)"

subsection \<open>The router\<close>

record 'h router =
  by_channel :: "(u16 \<times> 'h) list"
  channel_names :: "(u16 \<times> bytes) list"
  by_type :: "byte \<Rightarrow> 'h option"

definition empty_router :: "'h router" where
  "empty_router = \<lparr>by_channel = [], channel_names = [], by_type = (\<lambda>_. None)\<rparr>"

definition collides :: "bytes \<Rightarrow> 'h router \<Rightarrow> bool" where
  "collides name r =
     (case map_of (channel_names r) (channel_id name) of
        None \<Rightarrow> False | Some old \<Rightarrow> old \<noteq> name)"

definition on_channel :: "bytes \<Rightarrow> 'h \<Rightarrow> 'h router \<Rightarrow> 'h router" where
  "on_channel name handler r =
     (let id = channel_id name in
      r\<lparr>channel_names := AList.update id name (channel_names r),
        by_channel := AList.update id handler (by_channel r)\<rparr>)"

definition on_type :: "message_type \<Rightarrow> 'h \<Rightarrow> 'h router \<Rightarrow> 'h router" where
  "on_type t handler r = r\<lparr>by_type := (by_type r)(t := Some handler)\<rparr>"

definition dispatch :: "'h router \<Rightarrow> frame \<Rightarrow> ('h \<times> bytes) option" where
  "dispatch r f =
     (if fh_type (fr_header f) = MT_App
      then (case map_of (by_channel r) (fh_channel (fr_header f)) of
              None \<Rightarrow> None | Some h \<Rightarrow> Some (h, fr_payload f))
      else (case by_type r (fh_type (fr_header f)) of
              None \<Rightarrow> None | Some h \<Rightarrow> Some (h, fr_payload f)))"

subsection \<open>Lemmas\<close>

lemma channel_id_nonzero [simp]: "channel_id name \<noteq> 0"
  by (simp add: channel_id_def Let_def)

lemma dispatch_on_channel:
  "dispatch (on_channel name h r) f =
     (if fh_type (fr_header f) = MT_App \<and> fh_channel (fr_header f) = channel_id name
      then Some (h, fr_payload f) else dispatch r f)"
  by (simp add: dispatch_def on_channel_def Let_def update_conv')

lemma dispatch_on_type:
  "dispatch (on_type t h r) f =
     (if fh_type (fr_header f) = t \<and> t \<noteq> MT_App
      then Some (h, fr_payload f) else dispatch r f)"
  by (simp add: dispatch_def on_type_def)

subsection \<open>Properties\<close>

text \<open>
  Routing by channel name. A frame sent on a channel reaches exactly the handler last
  registered for that name, provided no later registration collided with it: a registration
  under another name changes the answer only when both names hash to one identifier, which is
  what \<open>collides\<close> detects, and a per-type registration never changes where an application
  frame goes. The identifier is never the reserved value 0.
\<close>

lemma channel_routing:
  fixes r :: "'h router"
  assumes f: "fh_type (fr_header f) = MT_App" "fh_channel (fr_header f) = channel_id name"
  shows "channel_id name \<noteq> 0 \<and>
    dispatch (on_channel name h r) f = Some (h, fr_payload f) \<and>
    dispatch (on_type t h' (on_channel name h r)) f = Some (h, fr_payload f) \<and>
    (\<not> collides other (on_channel name h r) \<and> other \<noteq> name \<longrightarrow>
       dispatch (on_channel other h' (on_channel name h r)) f = Some (h, fr_payload f))"
proof -
  have "collides other (on_channel name h r)"
    if "channel_id other = channel_id name" "other \<noteq> name"
    using that by (simp add: collides_def on_channel_def Let_def update_conv')
  then show ?thesis
    using f by (auto simp: dispatch_on_channel dispatch_on_type)
qed

end
