(* ===== verification/Timer_Queue.thy ===== *)
theory Timer_Queue
  imports Prelude "HOL-Library.Multiset"
begin

text \<open>
  The deadline-ordered timer set of \<open>src/librats/core/timer_queue.h\<close>, and the task queue of
  \<open>mpsc_queue.h\<close>. The clock is read through \<open>std::chrono::steady_clock\<close>; its readings are
  arguments, in nanoseconds. A callback is opaque to the queue; what it does to the queue
  while it runs (it may schedule and cancel, as the reactor's maintenance timer does) is given
  by the parameter \<open>acts\<close>, and the clock it reads by \<open>clk\<close>. The binary heap of the standard
  library keeps an entry with the least deadline in front; the model keeps the entries sorted
  by deadline, so that among equal deadlines it fires in the order of scheduling, where the heap
  may take any of them: no theorem here says anything of that order. Since a callback may re-arm itself, the loop of \<open>run_due\<close> takes fuel.
\<close>

record 'cb timer =
  tm_when :: nat
  tm_id :: nat
  tm_cb :: 'cb

record 'cb timer_queue =
  tq_heap :: "'cb timer list"
  tq_cancelled :: "nat list"
  tq_last_id :: nat

datatype 'cb timer_action = Schedule nat 'cb | Cancel nat

definition kInvalidTimerId :: nat where "kInvalidTimerId = 0"
definition ns_per_ms :: nat where "ns_per_ms = 1000000"

definition tq_empty :: "'cb timer_queue" where
  "tq_empty = \<lparr>tq_heap = [], tq_cancelled = [], tq_last_id = kInvalidTimerId\<rparr>"

definition schedule :: "nat \<Rightarrow> nat \<Rightarrow> 'cb \<Rightarrow> 'cb timer_queue \<Rightarrow> nat \<times> 'cb timer_queue" where
  "schedule clock delay cb q =
     (let id = tq_last_id q + 1;
          e = \<lparr>tm_when = clock + delay, tm_id = id, tm_cb = cb\<rparr>
      in (id, q\<lparr>tq_last_id := id, tq_heap := insort_key tm_when e (tq_heap q)\<rparr>))"

definition cancel :: "nat \<Rightarrow> 'cb timer_queue \<Rightarrow> 'cb timer_queue" where
  "cancel tid q =
     (if tid \<noteq> kInvalidTimerId then q\<lparr>tq_cancelled := List.insert tid (tq_cancelled q)\<rparr> else q)"

definition next_timeout_ms :: "nat \<Rightarrow> nat \<Rightarrow> 'cb timer_queue \<Rightarrow> nat" where
  "next_timeout_ms max_ms now q =
     (case tq_heap q of
        [] \<Rightarrow> max_ms
      | e # _ \<Rightarrow>
          if tm_when e \<le> now then 0
          else min ((tm_when e - now + (ns_per_ms - 1)) div ns_per_ms) max_ms)"

definition tq_do :: "nat \<Rightarrow> 'cb timer_action \<Rightarrow> 'cb timer_queue \<Rightarrow> 'cb timer_queue" where
  "tq_do clock a q =
     (case a of Schedule d cb \<Rightarrow> snd (schedule clock d cb q) | Cancel i \<Rightarrow> cancel i q)"

definition tq_acts :: "nat \<Rightarrow> 'cb timer_action list \<Rightarrow> 'cb timer_queue \<Rightarrow> 'cb timer_queue" where
  "tq_acts clock as q = fold (tq_do clock) as q"

text \<open>
  One iteration pops the front entry; a cancelled one is dropped together with its tombstone,
  any other is fired. The result pairs the queue with the timers fired, in order.
\<close>

fun run_due ::
  "('cb timer \<Rightarrow> 'cb timer_action list) \<Rightarrow> ('cb timer \<Rightarrow> nat) \<Rightarrow> nat \<Rightarrow> nat \<Rightarrow> 'cb timer_queue \<Rightarrow>
   ('cb timer_queue \<times> 'cb timer list) option" where
  "run_due acts clk now 0 q = None"
| "run_due acts clk now (Suc fuel) q =
     (case tq_heap q of
        [] \<Rightarrow> Some (q, [])
      | e # rest \<Rightarrow>
          if tm_when e \<le> now
          then let q1 = q\<lparr>tq_heap := rest\<rparr> in
            if tm_id e \<in> set (tq_cancelled q1)
            then run_due acts clk now fuel (q1\<lparr>tq_cancelled := removeAll (tm_id e) (tq_cancelled q1)\<rparr>)
            else map_option (\<lambda>(q', fired). (q', e # fired))
                   (run_due acts clk now fuel (tq_acts (clk e) (acts e) q1))
          else Some (q, []))"

subsection \<open>The task queue\<close>

record 'a mpsc =
  mq_queue :: "'a list"

definition mq_push :: "'a \<Rightarrow> 'a mpsc \<Rightarrow> 'a mpsc" where
  "mq_push x q = q\<lparr>mq_queue := mq_queue q @ [x]\<rparr>"

definition mq_drain :: "'a mpsc \<Rightarrow> 'a list \<times> 'a mpsc" where
  "mq_drain q = (mq_queue q, q\<lparr>mq_queue := []\<rparr>)"

definition mq_empty :: "'a mpsc \<Rightarrow> bool" where
  "mq_empty q \<longleftrightarrow> mq_queue q = []"

lemma mq_drain_pushes:
  "mq_drain (fold mq_push xs \<lparr>mq_queue = []\<rparr>) = (xs, \<lparr>mq_queue = []\<rparr>)"
proof -
  have "mq_queue (fold mq_push xs q) = mq_queue q @ xs" for q :: "'a mpsc"
    by (induction xs arbitrary: q) (simp_all add: mq_push_def)
  then show ?thesis by (simp add: mq_drain_def)
qed

subsection \<open>Invariant\<close>

definition tq_inv :: "'cb timer_queue \<Rightarrow> bool" where
  "tq_inv q \<longleftrightarrow>
     sorted (map tm_when (tq_heap q)) \<and> distinct (map tm_id (tq_heap q)) \<and>
     (\<forall>e \<in> set (tq_heap q). 0 < tm_id e \<and> tm_id e \<le> tq_last_id q)"

lemma tq_inv_empty [inv_intro]: "tq_inv tq_empty"
  by (simp add: tq_inv_def tq_empty_def)

lemma distinct_insort_map:
  "distinct (map f (insort_key g e es)) \<longleftrightarrow> f e \<notin> f ` set es \<and> distinct (map f es)"
  by (induction es) (auto simp: set_insort_key)

lemma tq_inv_schedule [inv_intro]: "tq_inv q \<Longrightarrow> tq_inv (snd (schedule c d cb q))"
  by (fastforce simp: tq_inv_def schedule_def Let_def sorted_insort_key set_insort_key distinct_insort_map)

lemma tq_inv_cancel [inv_intro]: "tq_inv q \<Longrightarrow> tq_inv (cancel i q)"
  by (simp add: tq_inv_def cancel_def)

lemma tq_inv_acts [inv_intro]: "tq_inv q \<Longrightarrow> tq_inv (tq_acts c as q)"
  unfolding tq_acts_def
  by (induction as arbitrary: q)
    (auto simp: tq_do_def split: timer_action.splits intro: tq_inv_schedule tq_inv_cancel)

lemma tq_inv_pop: "tq_inv q \<Longrightarrow> tq_heap q = e # rest \<Longrightarrow> tq_inv (q\<lparr>tq_heap := rest\<rparr>)"
  by (simp add: tq_inv_def)

subsection \<open>Firing\<close>

text \<open>
  What a callback schedules is due after \<open>now\<close> when its delay is positive and the clock has
  not gone back: this is what bounds the loop.
\<close>

definition delays_positive :: "('cb timer \<Rightarrow> 'cb timer_action list) \<Rightarrow> bool" where
  "delays_positive acts \<longleftrightarrow> (\<forall>e d cb. Schedule d cb \<in> set (acts e) \<longrightarrow> 0 < d)"

definition due :: "nat \<Rightarrow> 'cb timer_queue \<Rightarrow> 'cb timer list" where
  "due now q = filter (\<lambda>e. tm_when e \<le> now) (tq_heap q)"

lemma filter_insort_out:
  "\<not> P e \<Longrightarrow> filter P (insort_key g e es) = filter P es"
  by (induction es) auto

lemma due_schedule: "now < c + d \<Longrightarrow> due now (snd (schedule c d cb q)) = due now q"
  by (simp add: due_def schedule_def Let_def filter_insort_out)

lemma due_tq_acts:
  assumes "now \<le> c" "\<forall>d cb. Schedule d cb \<in> set as \<longrightarrow> 0 < d"
  shows "due now (tq_acts c as q) = due now q"
  using assms(2) unfolding tq_acts_def
proof (induction as arbitrary: q)
  case (Cons a as)
  have "due now (tq_do c a q) = due now q"
  proof (cases a)
    case (Schedule d cb)
    with Cons.prems have "0 < d" by simp
    with Schedule assms(1) show ?thesis by (simp add: tq_do_def due_schedule)
  next
    case (Cancel i)
    then show ?thesis by (simp add: tq_do_def due_def cancel_def)
  qed
  moreover have "\<forall>d cb. Schedule d cb \<in> set as \<longrightarrow> 0 < d"
    using Cons.prems by simp
  ultimately show ?case using Cons.IH by simp
qed simp

lemma due_Cons:
  assumes "tq_inv q" "tq_heap q = e # rest"
  shows "due now q = (if tm_when e \<le> now then e # due now (q\<lparr>tq_heap := rest\<rparr>) else [])"
proof -
  have "\<forall>x \<in> set rest. tm_when e \<le> tm_when x"
    using assms by (simp add: tq_inv_def)
  then have "filter (\<lambda>x. tm_when x \<le> now) rest = []" if "\<not> tm_when e \<le> now"
    using that by (auto simp: filter_empty_conv)
  then show ?thesis
    using assms(2) by (simp add: due_def)
qed

definition cancels :: "'cb timer_action list \<Rightarrow> nat list" where
  "cancels as = concat (map (\<lambda>a. case a of Cancel i \<Rightarrow> [i] | _ \<Rightarrow> []) as)"

lemma tq_acts_cancelled:
  "set (tq_cancelled (tq_acts c as q)) \<subseteq> set (tq_cancelled q) \<union> set (cancels as)"
  unfolding tq_acts_def
proof (induction as arbitrary: q)
  case (Cons a as)
  show ?case
    using Cons.IH [of "tq_do c a q"]
    by (cases a) (auto simp: tq_do_def cancels_def schedule_def cancel_def Let_def split: if_splits)
qed simp

lemma tq_acts_keeps_cancelled: "set (tq_cancelled q) \<subseteq> set (tq_cancelled (tq_acts c as q))"
  unfolding tq_acts_def
proof (induction as arbitrary: q)
  case (Cons a as)
  have "set (tq_cancelled q) \<subseteq> set (tq_cancelled (tq_do c a q))"
    by (cases a) (auto simp: tq_do_def schedule_def cancel_def Let_def)
  with Cons show ?case by fastforce
qed simp

text \<open>The specification of one call, as a predicate on its outcome.\<close>

definition fires_due ::
  "('cb timer \<Rightarrow> 'cb timer_action list) \<Rightarrow> nat \<Rightarrow> 'cb timer_queue \<Rightarrow>
   'cb timer_queue \<times> 'cb timer list \<Rightarrow> bool" where
  "fires_due acts now q r = (case r of (q', fired) \<Rightarrow>
     tq_inv q' \<and> due now q' = [] \<and> distinct (map tm_id fired) \<and>
     sorted (map tm_when fired) \<and>
     (\<forall>e \<in> set fired. e \<in> set (due now q) \<and> tm_id e \<notin> set (tq_cancelled q)) \<and>
     (\<forall>e \<in> set (due now q). e \<in> set fired \<or> tm_id e \<in> set (tq_cancelled q) \<or>
        (\<exists>e' \<in> set fired. tm_id e \<in> set (cancels (acts e')))))"

lemma run_due_fires:
  assumes "delays_positive acts" "\<And>e. now \<le> clk e"
    and "tq_inv q" "length (due now q) < fuel"
  shows "\<exists>r. run_due acts clk now fuel q = Some r \<and> fires_due acts now q r"
  using assms(3,4)
proof (induction fuel arbitrary: q)
  case 0
  then show ?case by simp
next
  case (Suc fuel)
  show ?case
  proof (cases "tq_heap q")
    case Nil
    with Suc.prems show ?thesis by (simp add: fires_due_def due_def)
  next
    case (Cons e rest)
    let ?q1 = "q\<lparr>tq_heap := rest\<rparr>"
    note d = due_Cons [OF Suc.prems(1) Cons, of now]
    have inv1: "tq_inv ?q1" by (rule tq_inv_pop [OF Suc.prems(1) Cons])
    have eid: "\<forall>x \<in> set (due now ?q1). tm_id x \<noteq> tm_id e \<and> tm_when e \<le> tm_when x"
      using Suc.prems(1) Cons by (auto simp: tq_inv_def due_def image_iff)
    consider "\<not> tm_when e \<le> now" | "tm_when e \<le> now" "tm_id e \<in> set (tq_cancelled q)"
      | "tm_when e \<le> now" "tm_id e \<notin> set (tq_cancelled q)" by blast
    then show ?thesis
    proof cases
      case 1
      with Cons d Suc.prems(1) show ?thesis by (simp add: fires_due_def)
    next
      case 2
      let ?q2 = "?q1\<lparr>tq_cancelled := removeAll (tm_id e) (tq_cancelled ?q1)\<rparr>"
      have q2: "tq_inv ?q2" "due now ?q2 = due now ?q1" "length (due now ?q2) < fuel"
        using inv1 Suc.prems(2) d 2 by (simp_all add: tq_inv_def due_def)
      from Suc.IH [OF q2(1,3)] obtain r where r: "run_due acts clk now fuel ?q2 = Some r"
        "fires_due acts now ?q2 r" by blast
      obtain q' fired where r': "r = (q', fired)" by (cases r)
      have "fires_due acts now q r"
        using r(2) q2(2) d 2 eid unfolding fires_due_def r' by fastforce
      with r(1) Cons 2 show ?thesis by (simp add: Let_def)
    next
      case 3
      let ?q2 = "tq_acts (clk e) (acts e) ?q1"
      have q2: "tq_inv ?q2" "due now ?q2 = due now ?q1"
        using inv1 assms(1) due_tq_acts [OF assms(2), of "acts e" e ?q1]
        by (auto simp: delays_positive_def intro: tq_inv_acts)
      have "length (due now ?q2) < fuel"
        using Suc.prems(2) d 3 q2(2) by simp
      from Suc.IH [OF q2(1) this] obtain r where r: "run_due acts clk now fuel ?q2 = Some r"
        "fires_due acts now ?q2 r" by blast
      obtain q' fired where r': "r = (q', fired)" by (cases r)
      have canc: "set (tq_cancelled q) \<subseteq> set (tq_cancelled ?q2)"
        "set (tq_cancelled ?q2) \<subseteq> set (tq_cancelled q) \<union> set (cancels (acts e))"
        using tq_acts_keeps_cancelled [of ?q1] tq_acts_cancelled [of "clk e" "acts e" ?q1] by simp_all
      have "fires_due acts now q (q', e # fired)"
        using r(2) q2(2) d 3 eid canc unfolding fires_due_def r' by fastforce
      with r(1) Cons 3 r' show ?thesis by (simp add: Let_def)
    qed
  qed
qed

subsection \<open>What a call leaves\<close>

text \<open>
  What the callbacks schedule, as pairs of deadline and callback; and what is in the queue after
  the call: of the timers that were in it, those not yet due, in the order they were; besides
  them, one new timer for each one the fired callbacks scheduled, with an identifier above all
  the old ones; and of these timers, those are marked cancelled that were marked before or that
  a fired callback cancelled.
\<close>

definition tm_what :: "'cb timer \<Rightarrow> nat \<times> 'cb" where
  "tm_what e = (tm_when e, tm_cb e)"

definition scheduled :: "nat \<Rightarrow> 'cb timer_action list \<Rightarrow> (nat \<times> 'cb) list" where
  "scheduled c as = concat (map (\<lambda>a. case a of Schedule d cb \<Rightarrow> [(c + d, cb)] | Cancel i \<Rightarrow> []) as)"

definition leaves_rest ::
  "('cb timer \<Rightarrow> 'cb timer_action list) \<Rightarrow> ('cb timer \<Rightarrow> nat) \<Rightarrow> nat \<Rightarrow> 'cb timer_queue \<Rightarrow>
   'cb timer_queue \<times> 'cb timer list \<Rightarrow> bool" where
  "leaves_rest acts clk now q r = (case r of (q', fired) \<Rightarrow>
     filter (\<lambda>e. tm_id e \<le> tq_last_id q) (tq_heap q') = filter (\<lambda>e. now < tm_when e) (tq_heap q) \<and>
     mset (map tm_what (filter (\<lambda>e. tq_last_id q < tm_id e) (tq_heap q'))) =
       mset (concat (map (\<lambda>e. scheduled (clk e) (acts e)) fired)) \<and>
     (\<forall>e \<in> set (tq_heap q'). tm_id e \<in> set (tq_cancelled q') \<longleftrightarrow>
        tm_id e \<in> set (tq_cancelled q) \<or> (\<exists>e' \<in> set fired. tm_id e \<in> set (cancels (acts e')))))"

lemma mset_filter_insort:
  "mset (map f (filter P (insort_key g e es))) = mset (map f (filter P es)) + (if P e then {#f e#} else {#})"
  by (induction es) auto

lemma tq_acts_heap:
  assumes "n \<le> tq_last_id q" "now \<le> c" "\<forall>d cb. Schedule d cb \<in> set as \<longrightarrow> 0 < d"
  shows "filter (\<lambda>e. tm_id e \<le> n \<and> now < tm_when e) (tq_heap (tq_acts c as q)) =
      filter (\<lambda>e. tm_id e \<le> n \<and> now < tm_when e) (tq_heap q) \<and>
    mset (map tm_what (filter (\<lambda>e. n < tm_id e \<and> now < tm_when e) (tq_heap (tq_acts c as q)))) =
      mset (map tm_what (filter (\<lambda>e. n < tm_id e \<and> now < tm_when e) (tq_heap q))) + mset (scheduled c as) \<and>
    n \<le> tq_last_id (tq_acts c as q)"
  using assms(1,3) unfolding tq_acts_def
proof (induction as arbitrary: q)
  case (Cons a as)
  have "n \<le> tq_last_id (tq_do c a q)" "\<forall>d cb. Schedule d cb \<in> set as \<longrightarrow> 0 < d"
    using Cons.prems by (cases a; simp add: tq_do_def schedule_def cancel_def Let_def)+
  note ih = Cons.IH [OF this]
  show ?case
  proof (cases a)
    case (Schedule d cb)
    have "now < c + d" using Cons.prems(2) assms(2) Schedule by fastforce
    with ih Cons.prems Schedule show ?thesis
      by (simp add: tq_do_def schedule_def Let_def scheduled_def mset_filter_insort filter_insort_out tm_what_def)
  next
    case (Cancel i)
    with ih Cons.prems show ?thesis by (simp add: tq_do_def cancel_def scheduled_def)
  qed
qed (simp add: scheduled_def)

lemma run_due_heap:
  assumes "delays_positive acts" "\<And>e. now \<le> clk e" "tq_inv q"
    and "run_due acts clk now fuel q = Some (q', fired)" "n \<le> tq_last_id q"
  shows "filter (\<lambda>e. tm_id e \<le> n) (tq_heap q') = filter (\<lambda>e. tm_id e \<le> n \<and> now < tm_when e) (tq_heap q) \<and>
    mset (map tm_what (filter (\<lambda>e. n < tm_id e) (tq_heap q'))) =
      mset (map tm_what (filter (\<lambda>e. n < tm_id e \<and> now < tm_when e) (tq_heap q))) +
      mset (concat (map (\<lambda>e. scheduled (clk e) (acts e)) fired))"
  using assms(3-5)
proof (induction fuel arbitrary: q fired)
  case (Suc fuel)
  show ?case
  proof (cases "tq_heap q")
    case Nil
    with Suc.prems show ?thesis by simp
  next
    case (Cons e rest)
    let ?q1 = "q\<lparr>tq_heap := rest\<rparr>"
    have inv1: "tq_inv ?q1" by (rule tq_inv_pop [OF Suc.prems(1) Cons])
    have "tm_when e \<le> tm_when x" if "x \<in> set (tq_heap q)" for x
      using Suc.prems(1) Cons that by (auto simp: tq_inv_def)
    then have late: "now < tm_when x" if "\<not> tm_when e \<le> now" "x \<in> set (tq_heap q)" for x
      using that by fastforce
    consider "\<not> tm_when e \<le> now" | "tm_when e \<le> now" "tm_id e \<in> set (tq_cancelled q)"
      | "tm_when e \<le> now" "tm_id e \<notin> set (tq_cancelled q)" by blast
    then show ?thesis
    proof cases
      case 1
      with Suc.prems(2) Cons have "q' = q" "fired = []" by simp_all
      moreover have "filter (\<lambda>e. P e \<and> now < tm_when e) (tq_heap q) = filter P (tq_heap q)" for P
        using late [OF 1] by (intro filter_cong) auto
      ultimately show ?thesis by simp
    next
      case 2
      let ?q2 = "?q1\<lparr>tq_cancelled := removeAll (tm_id e) (tq_cancelled ?q1)\<rparr>"
      have "tq_inv ?q2" using inv1 by (simp add: tq_inv_def)
      from Suc.IH [OF this, of fired] Suc.prems(2,3) Cons 2 show ?thesis by (simp add: Let_def)
    next
      case 3
      let ?q2 = "tq_acts (clk e) (acts e) ?q1"
      have a: "n \<le> tq_last_id ?q1" "\<forall>d cb. Schedule d cb \<in> set (acts e) \<longrightarrow> 0 < d"
        using Suc.prems(3) assms(1) by (auto simp: delays_positive_def)
      note q2 = tq_acts_heap [OF a(1) assms(2) a(2)]
      obtain fired' where f: "run_due acts clk now fuel ?q2 = Some (q', fired')" "fired = e # fired'"
        using Suc.prems(2) Cons 3 by (auto simp: Let_def)
      from Suc.IH [OF tq_inv_acts [OF inv1] f(1)] q2 f(2) Cons 3 show ?thesis by simp
    qed
  qed
qed simp

lemma tq_acts_marks: "i \<noteq> 0 \<Longrightarrow>
  i \<in> set (tq_cancelled (tq_acts c as q)) \<longleftrightarrow> i \<in> set (tq_cancelled q) \<or> i \<in> set (cancels as)"
  unfolding tq_acts_def
proof (induction as arbitrary: q)
  case (Cons a as)
  from Cons.IH [OF Cons.prems, of "tq_do c a q"] Cons.prems show ?case
    by (cases a) (auto simp: tq_do_def cancels_def schedule_def cancel_def Let_def kInvalidTimerId_def)
qed (simp add: cancels_def)

lemma run_due_marks:
  assumes "delays_positive acts" "\<And>e. now \<le> clk e" "i \<noteq> 0"
    and "run_due acts clk now fuel q = Some (q', fired)" "i \<notin> tm_id ` set (due now q)"
  shows "i \<in> set (tq_cancelled q') \<longleftrightarrow>
    i \<in> set (tq_cancelled q) \<or> (\<exists>e' \<in> set fired. i \<in> set (cancels (acts e')))"
  using assms(4,5)
proof (induction fuel arbitrary: q fired)
  case (Suc fuel)
  show ?case
  proof (cases "tq_heap q")
    case Nil
    with Suc.prems show ?thesis by simp
  next
    case (Cons e rest)
    let ?q1 = "q\<lparr>tq_heap := rest\<rparr>"
    have i1: "i \<notin> tm_id ` set (due now ?q1)" "tm_when e \<le> now \<Longrightarrow> i \<noteq> tm_id e"
      using Suc.prems(2) Cons by (auto simp: due_def split: if_splits)
    consider "\<not> tm_when e \<le> now" | "tm_when e \<le> now" "tm_id e \<in> set (tq_cancelled q)"
      | "tm_when e \<le> now" "tm_id e \<notin> set (tq_cancelled q)" by blast
    then show ?thesis
    proof cases
      case 2
      let ?q2 = "?q1\<lparr>tq_cancelled := removeAll (tm_id e) (tq_cancelled ?q1)\<rparr>"
      have "i \<notin> tm_id ` set (due now ?q2)" using i1 by (simp add: due_def)
      from Suc.IH [OF _ this, of fired] Suc.prems(1) Cons 2 i1(2) show ?thesis by (simp add: Let_def)
    next
      case 3
      let ?q2 = "tq_acts (clk e) (acts e) ?q1"
      obtain fired' where f: "run_due acts clk now fuel ?q2 = Some (q', fired')" "fired = e # fired'"
        using Suc.prems(1) Cons 3 by (auto simp: Let_def)
      have "i \<notin> tm_id ` set (due now ?q2)"
        using i1(1) due_tq_acts [OF assms(2), of "acts e" e ?q1] assms(1) by (simp add: delays_positive_def)
      from Suc.IH [OF f(1) this] tq_acts_marks [OF assms(3), of "clk e" "acts e" ?q1] f(2) show ?thesis by auto
    qed (use Suc.prems Cons in simp)
  qed
qed simp

lemma run_due_leaves:
  assumes "delays_positive acts" "\<And>e. now \<le> clk e" "tq_inv q" "run_due acts clk now fuel q = Some (q', fired)"
  shows "leaves_rest acts clk now q (q', fired)"
proof -
  have ids: "0 < tm_id e" "tm_id e \<le> tq_last_id q" if "e \<in> set (tq_heap q)" for e
    using assms(3) that by (auto simp: tq_inv_def)
  have old: "filter (\<lambda>e. tm_id e \<le> tq_last_id q) (tq_heap q') = filter (\<lambda>e. now < tm_when e) (tq_heap q)"
    and new: "mset (map tm_what (filter (\<lambda>e. tq_last_id q < tm_id e) (tq_heap q'))) =
      mset (concat (map (\<lambda>e. scheduled (clk e) (acts e)) fired))"
  proof -
    have "filter (\<lambda>e. tm_id e \<le> tq_last_id q \<and> now < tm_when e) (tq_heap q) = filter (\<lambda>e. now < tm_when e) (tq_heap q)"
      using ids by (intro filter_cong) auto
    moreover have "filter (\<lambda>e. tq_last_id q < tm_id e \<and> now < tm_when e) (tq_heap q) = []"
      unfolding filter_empty_conv using ids(2) by (meson leD)
    ultimately show "filter (\<lambda>e. tm_id e \<le> tq_last_id q) (tq_heap q') = filter (\<lambda>e. now < tm_when e) (tq_heap q)"
      "mset (map tm_what (filter (\<lambda>e. tq_last_id q < tm_id e) (tq_heap q'))) =
      mset (concat (map (\<lambda>e. scheduled (clk e) (acts e)) fired))"
      using run_due_heap [OF assms order_refl] by simp_all
  qed
  have "tm_id e \<noteq> 0 \<and> tm_id e \<notin> tm_id ` set (due now q)" if e: "e \<in> set (tq_heap q')" for e
  proof (cases "tm_id e \<le> tq_last_id q")
    case True
    with e have "e \<in> set (filter (\<lambda>e. now < tm_when e) (tq_heap q))" unfolding old [symmetric] by simp
    then have h: "e \<in> set (tq_heap q)" "now < tm_when e" by simp_all
    have "inj_on tm_id (set (tq_heap q))" using assms(3) by (simp add: tq_inv_def distinct_map)
    then have "tm_id e \<noteq> tm_id x" if "x \<in> set (due now q)" for x
      using h that inj_onD [of tm_id "set (tq_heap q)" e x] by (auto simp: due_def)
    then have "tm_id e \<notin> tm_id ` set (due now q)" by blast
    with ids(1) [OF h(1)] show ?thesis by simp
  next
    case False
    then have "tm_id e \<noteq> tm_id x" if "x \<in> set (due now q)" for x
      using ids(2) [of x] that by (auto simp: due_def)
    with False show ?thesis by auto
  qed
  with old new run_due_marks [OF assms(1,2) _ assms(4)] show ?thesis by (simp add: leaves_rest_def)
qed

text \<open>Tombstones of timers that are no longer in the heap are never swept.\<close>

definition tombstone_stuck :: "nat \<Rightarrow> 'cb timer_queue \<Rightarrow> bool" where
  "tombstone_stuck i q \<longleftrightarrow>
     i \<in> set (tq_cancelled q) \<and> i \<notin> tm_id ` set (tq_heap q) \<and> i \<le> tq_last_id q"

lemma tombstone_stuck_acts: "tombstone_stuck i q \<Longrightarrow> tombstone_stuck i (tq_acts c as q)"
  unfolding tq_acts_def
proof (induction as arbitrary: q)
  case (Cons a as)
  have "tombstone_stuck i (tq_do c a q)"
    using Cons.prems
    by (cases a) (auto simp: tombstone_stuck_def tq_do_def schedule_def cancel_def Let_def set_insort_key)
  with Cons.IH show ?case by simp
qed simp

lemma tombstone_stuck_run:
  "tombstone_stuck i q \<Longrightarrow> run_due acts clk now fuel q = Some (q', fired) \<Longrightarrow> tombstone_stuck i q'"
proof (induction fuel arbitrary: q q' fired)
  case (Suc fuel)
  show ?case
  proof (cases "tq_heap q")
    case Nil
    with Suc.prems show ?thesis by simp
  next
    case (Cons e rest)
    let ?q1 = "q\<lparr>tq_heap := rest\<rparr>"
    have 1: "tombstone_stuck i ?q1" "tm_id e \<noteq> i"
      using Suc.prems(1) Cons by (auto simp: tombstone_stuck_def)
    then have "tombstone_stuck i (?q1\<lparr>tq_cancelled := removeAll (tm_id e) (tq_cancelled ?q1)\<rparr>)"
      by (simp add: tombstone_stuck_def)
    with Suc Cons 1 tombstone_stuck_acts [of i ?q1 "clk e" "acts e"] show ?thesis
      by (auto simp: Let_def split: if_splits)
  qed
qed simp

subsection \<open>Properties\<close>


text \<open>
  In the witness timers 1 to 4 are due at 7, 20, 8 and 9, timer 3 is cancelled, and the first
  callback re-arms itself and cancels timer 4.
\<close>

definition demo_timers :: "nat timer_queue" where
  "demo_timers = cancel 3 (snd (schedule 0 9 14 (snd (schedule 0 8 13 (snd (schedule 0 20 12 (snd (schedule 0 7 11 tq_empty))))))))"


text \<open>
  The poll timeout is safe in both directions. It is 0 exactly when a timer is already
  due, so the loop never busy-waits for a deadline; and sleeping for it never oversleeps the
  front deadline by a millisecond or more, nor wakes before it unless the cap was hit.
\<close>

lemma next_timeout_exact:
  assumes "tq_heap q = e # rest" and "0 < max_ms"
  shows "(next_timeout_ms max_ms now q = 0 \<longleftrightarrow> tm_when e \<le> now) \<and>
    next_timeout_ms max_ms now q \<le> max_ms \<and>
    (now < tm_when e \<and> next_timeout_ms max_ms now q < max_ms \<longrightarrow>
       tm_when e \<le> now + next_timeout_ms max_ms now q * ns_per_ms \<and>
       now + next_timeout_ms max_ms now q * ns_per_ms < tm_when e + ns_per_ms)"
proof -
  define t where "t = tm_when e - now"
  define m where "m = (t + (ns_per_ms - 1)) div ns_per_ms"
  have n: "next_timeout_ms max_ms now q = (if tm_when e \<le> now then 0 else min m max_ms)"
    by (simp add: next_timeout_ms_def assms(1) m_def t_def)
  have "t + (ns_per_ms - 1) = m * ns_per_ms + (t + (ns_per_ms - 1)) mod ns_per_ms"
    "(t + (ns_per_ms - 1)) mod ns_per_ms < ns_per_ms"
    by (simp_all add: m_def ns_per_ms_def)
  then have b: "t \<le> m * ns_per_ms" "m * ns_per_ms < t + ns_per_ms"
    by (simp_all add: ns_per_ms_def)
  have "now < tm_when e \<Longrightarrow> 0 < m"
    using b(1) by (cases m) (auto simp: t_def)
  with b assms(2) show ?thesis
    by (auto simp: n t_def min_def split: if_splits)
qed

text \<open>
  Cancelling a timer that has already fired leaves its tombstone in the set for ever:
  identifiers are not reused, so no later call of \<open>run_due\<close>, whatever the callbacks do, ever
  sweeps it. The reactor does this for every connection whose establishment timer fires.
\<close>

lemma cancel_after_fire_leaks:
  assumes "i \<notin> tm_id ` set (tq_heap q)" and "i \<noteq> kInvalidTimerId" and "i \<le> tq_last_id q"
    and "run_due acts clk now fuel (cancel i q) = Some (q', fired)"
  shows "i \<in> set (tq_cancelled q')"
proof -
  have "tombstone_stuck i (cancel i q)"
    using assms by (simp add: tombstone_stuck_def cancel_def)
  from tombstone_stuck_run [OF this assms(4)] show ?thesis
    by (simp add: tombstone_stuck_def)
qed

end
