(* ===== verification/Address.thy ===== *)
theory Address
  imports Peer_Id
begin

text \<open>
  Network endpoints: \<open>IpAddress\<close>, \<open>Address\<close> and \<open>HostEndpoint\<close> of
  \<open>src/librats/core/ip_address.*\<close>, \<open>address.*\<close>, \<open>host_endpoint.h\<close> and \<open>endpoint_parse.cpp\<close>.
  An IP is its sixteen stored bytes and its family, as in the class. The operating system's
  \<open>inet_pton\<close> and \<open>inet_ntop\<close> are the fields of a record; a socket address is its family and
  the bytes the code copies.
\<close>

subsection \<open>IP addresses\<close>

datatype ip_family = Fam_None | Fam_V4 | Fam_V6

record ip_address =
  ia_bytes :: bytes
  ia_family :: ip_family

definition ip_none :: ip_address where
  "ip_none = \<lparr>ia_bytes = replicate 16 0, ia_family = Fam_None\<rparr>"

definition from_v4 :: "bytes \<Rightarrow> ip_address" where
  "from_v4 b = \<lparr>ia_bytes = take 4 b @ replicate 12 0, ia_family = Fam_V4\<rparr>"

definition from_v6 :: "bytes \<Rightarrow> ip_address" where
  "from_v6 b = \<lparr>ia_bytes = take 16 b, ia_family = Fam_V6\<rparr>"

definition ip_from_bytes :: "bytes \<Rightarrow> ip_address option" where
  "ip_from_bytes b =
     (if length b = 4 then Some (from_v4 b) else if length b = 16 then Some (from_v6 b) else None)"

definition is_v6 :: "ip_address \<Rightarrow> bool" where
  "is_v6 a \<longleftrightarrow> ia_family a = Fam_V6"

definition is_unspecified :: "ip_address \<Rightarrow> bool" where
  "is_unspecified a \<longleftrightarrow> ia_family a = Fam_None"

definition ip_size :: "ip_address \<Rightarrow> nat" where
  "ip_size a = (case ia_family a of Fam_V6 \<Rightarrow> 16 | Fam_V4 \<Rightarrow> 4 | Fam_None \<Rightarrow> 0)"

definition ip_bytes :: "ip_address \<Rightarrow> bytes" where
  "ip_bytes a = take (ip_size a) (ia_bytes a)"

definition is_any :: "ip_address \<Rightarrow> bool" where
  "is_any a \<longleftrightarrow> ia_family a = Fam_None \<or> list_all (\<lambda>b. b = 0) (ip_bytes a)"

definition family_tag :: "ip_family \<Rightarrow> byte" where
  "family_tag f = (case f of Fam_None \<Rightarrow> 0 | Fam_V4 \<Rightarrow> 1 | Fam_V6 \<Rightarrow> 2)"

definition ip_less :: "ip_address \<Rightarrow> ip_address \<Rightarrow> bool" where
  "ip_less a b =
     (if ia_family a \<noteq> ia_family b then family_tag (ia_family a) < family_tag (ia_family b)
      else bytes_less (ia_bytes a) (ia_bytes b))"

definition hash_step :: "u64 \<Rightarrow> byte \<Rightarrow> u64" where
  "hash_step h b = (h XOR ucast b) * 1099511628211"

definition ip_hash :: "ip_address \<Rightarrow> u64" where
  "ip_hash a = foldl hash_step (hash_step 1469598103934665603 (family_tag (ia_family a))) (ia_bytes a)"

text \<open>The class invariant: sixteen bytes, the unused tail zero.\<close>

definition ip_wf :: "ip_address \<Rightarrow> bool" where
  "ip_wf a \<longleftrightarrow> length (ia_bytes a) = 16 \<and> drop (ip_size a) (ia_bytes a) = replicate (16 - ip_size a) 0"

subsection \<open>Socket addresses\<close>

datatype sockaddr = Sa_In u16 bytes | Sa_In6 u16 bytes | Sa_Other

definition v4_mapped_prefix :: bytes where
  "v4_mapped_prefix = replicate 10 0 @ [0xff, 0xff]"

definition from_sockaddr :: "sockaddr option \<Rightarrow> ip_address option" where
  "from_sockaddr sa =
     (case sa of
        None \<Rightarrow> None
      | Some (Sa_In port b) \<Rightarrow> Some (from_v4 b)
      | Some (Sa_In6 port raw) \<Rightarrow>
          if take 12 raw = v4_mapped_prefix then Some (from_v4 (take 4 (drop 12 raw)))
          else Some (from_v6 raw)
      | Some Sa_Other \<Rightarrow> None)"

definition to_sockaddr :: "ip_address \<Rightarrow> u16 \<Rightarrow> sockaddr option" where
  "to_sockaddr a port =
     (case ia_family a of
        Fam_V4 \<Rightarrow> Some (Sa_In port (take 4 (ia_bytes a)))
      | Fam_V6 \<Rightarrow> Some (Sa_In6 port (take 16 (ia_bytes a)))
      | Fam_None \<Rightarrow> None)"

subsection \<open>Textual endpoints\<close>

record inet_ops =
  pton4 :: "bytes \<Rightarrow> bytes option"
  pton6 :: "bytes \<Rightarrow> bytes option"
  ntop4 :: "bytes \<Rightarrow> bytes option"
  ntop6 :: "bytes \<Rightarrow> bytes option"

definition ip_parse :: "inet_ops \<Rightarrow> bytes \<Rightarrow> ip_address option" where
  "ip_parse os s =
     (case pton4 os s of
        Some v4 \<Rightarrow> Some (from_v4 v4)
      | None \<Rightarrow> (case pton6 os s of Some v6 \<Rightarrow> Some (from_v6 v6) | None \<Rightarrow> None))"

definition ip_to_string :: "inet_ops \<Rightarrow> ip_address \<Rightarrow> bytes" where
  "ip_to_string os a =
     (case ia_family a of
        Fam_V4 \<Rightarrow> (case ntop4 os (take 4 (ia_bytes a)) of Some s \<Rightarrow> s | None \<Rightarrow> [])
      | Fam_V6 \<Rightarrow> (case ntop6 os (take 16 (ia_bytes a)) of Some s \<Rightarrow> s | None \<Rightarrow> [])
      | Fam_None \<Rightarrow> [])"

record address =
  ad_ip :: ip_address
  ad_port :: u16

definition addr_none :: address where
  "addr_none = \<lparr>ad_ip = ip_none, ad_port = 0\<rparr>"

text \<open>The constructor from a literal: an invalid literal leaves the IP unspecified.\<close>

definition addr_of_literal :: "inet_ops \<Rightarrow> bytes \<Rightarrow> u16 \<Rightarrow> address" where
  "addr_of_literal os literal port =
     \<lparr>ad_ip = (case ip_parse os literal of Some a \<Rightarrow> a | None \<Rightarrow> ip_none), ad_port = port\<rparr>"

definition addr_is_valid :: "address \<Rightarrow> bool" where
  "addr_is_valid a \<longleftrightarrow> \<not> is_unspecified (ad_ip a) \<and> ad_port a \<noteq> 0"

definition addr_less :: "address \<Rightarrow> address \<Rightarrow> bool" where
  "addr_less a b = (if ad_ip a \<noteq> ad_ip b then ip_less (ad_ip a) (ad_ip b) else ad_port a < ad_port b)"

fun port_digits :: "nat \<Rightarrow> bytes \<Rightarrow> nat option" where
  "port_digits port [] = Some port"
| "port_digits port (c # cs) =
     (if c < 48 \<or> c > 57 then None
      else let p = port * 10 + unat (c - 48) in
        if p > 65535 then None else port_digits p cs)"

definition parse_port :: "bytes \<Rightarrow> u16 option" where
  "parse_port t =
     (if t = [] then None
      else case port_digits 0 t of
        None \<Rightarrow> None
      | Some p \<Rightarrow> if p = 0 then None else Some (of_nat p))"

fun find_byte :: "byte \<Rightarrow> bytes \<Rightarrow> nat option" where
  "find_byte c [] = None"
| "find_byte c (x # xs) = (if x = c then Some 0 else map_option Suc (find_byte c xs))"

definition rfind_byte :: "byte \<Rightarrow> bytes \<Rightarrow> nat option" where
  "rfind_byte c xs = map_option (\<lambda>i. length xs - 1 - i) (find_byte c (rev xs))"

definition split_host_port :: "bytes \<Rightarrow> (bytes \<times> u16) option" where
  "split_host_port t =
     (if t \<noteq> [] \<and> hd t = 91 then
        (case find_byte 93 t of
           None \<Rightarrow> None
         | Some close \<Rightarrow>
             if close + 1 \<ge> length t \<or> t ! (close + 1) \<noteq> 58 then None
             else
               let host = take (close - 1) (drop 1 t) in
               if host = [] then None
               else map_option (Pair host) (parse_port (drop (close + 2) t)))
      else
        (case rfind_byte 58 t of
           None \<Rightarrow> None
         | Some colon \<Rightarrow>
             if colon = 0 \<or> colon + 1 = length t then None
             else
               let host = take colon t in
               if find_byte 58 host \<noteq> None then None
               else map_option (Pair host) (parse_port (drop (colon + 1) t))))"

definition addr_parse :: "inet_ops \<Rightarrow> bytes \<Rightarrow> address option" where
  "addr_parse os t =
     (case split_host_port t of
        None \<Rightarrow> None
      | Some (host, port) \<Rightarrow>
          map_option (\<lambda>a. \<lparr>ad_ip = a, ad_port = port\<rparr>) (ip_parse os host))"

definition addr_to_string :: "inet_ops \<Rightarrow> address \<Rightarrow> bytes" where
  "addr_to_string os a =
     (let s = ip_to_string os (ad_ip a); p = decimal (unat (ad_port a)) in
      if is_v6 (ad_ip a) then [91] @ s @ [93, 58] @ p else s @ [58] @ p)"

record host_endpoint =
  he_host :: bytes
  he_port :: u16

definition host_parse :: "bytes \<Rightarrow> host_endpoint option" where
  "host_parse t = map_option (\<lambda>(h, p). \<lparr>he_host = h, he_port = p\<rparr>) (split_host_port t)"

definition host_to_string :: "host_endpoint \<Rightarrow> bytes" where
  "host_to_string e =
     (let p = decimal (unat (he_port e)) in
      if find_byte 58 (he_host e) \<noteq> None then [91] @ he_host e @ [93, 58] @ p
      else he_host e @ [58] @ p)"

subsection \<open>Lemmas\<close>

lemma ip_wf_from: "length b = 4 \<Longrightarrow> ip_wf (from_v4 b)" "length b = 16 \<Longrightarrow> ip_wf (from_v6 b)"
  by (simp_all add: ip_wf_def from_v4_def from_v6_def ip_size_def)

lemma ip_from_bytes_wf: "ip_from_bytes b = Some a \<Longrightarrow> ip_wf a \<and> \<not> is_unspecified a \<and> ip_bytes a = b"
  using ip_wf_from [of b]
  by (auto simp: ip_from_bytes_def is_unspecified_def ip_bytes_def ip_size_def from_v4_def from_v6_def
      split: if_splits)

lemma ip_bytes_roundtrip:
  assumes "ip_wf a" "\<not> is_unspecified a"
  shows "ip_from_bytes (ip_bytes a) = Some a"
proof (cases "ia_family a")
  case Fam_V4
  then have "drop 4 (ia_bytes a) = replicate 12 0" "length (ia_bytes a) = 16"
    using assms(1) by (simp_all add: ip_wf_def ip_size_def)
  then have "take 4 (ia_bytes a) @ replicate 12 0 = ia_bytes a"
    by (metis append_take_drop_id)
  with Fam_V4 \<open>length (ia_bytes a) = 16\<close> show ?thesis
    by (cases a) (simp add: ip_from_bytes_def ip_bytes_def ip_size_def from_v4_def)
qed (use assms in \<open>auto simp: ip_from_bytes_def ip_bytes_def ip_size_def from_v6_def ip_wf_def is_unspecified_def\<close>)

lemma length_ip_bytes: "ip_wf a \<Longrightarrow> length (ip_bytes a) = ip_size a"
  by (auto simp: ip_bytes_def ip_wf_def ip_size_def split: ip_family.split)

lemma find_byte_append_None: "c \<notin> set xs \<Longrightarrow> find_byte c (xs @ c # ys) = Some (length xs)"
  by (induction xs) auto

lemma find_byte_None [simp]: "find_byte c xs = None \<longleftrightarrow> c \<notin> set xs"
  by (induction xs) auto

lemma rfind_byte_last: "c \<notin> set ys \<Longrightarrow> rfind_byte c (xs @ c # ys) = Some (length xs)"
  using find_byte_append_None [of c "rev ys" "rev xs"] by (simp add: rfind_byte_def)

lemma split_plain:
  assumes "host \<noteq> []" "hd host \<noteq> 91" "58 \<notin> set host" "port \<noteq> []" "58 \<notin> set port"
  shows "split_host_port (host @ 58 # port) = map_option (Pair host) (parse_port port)"
  using assms rfind_byte_last [of 58 port host] by (simp add: split_host_port_def)

lemma split_bracketed:
  assumes "host \<noteq> []" "93 \<notin> set host" "port \<noteq> []"
  shows "split_host_port (91 # host @ 93 # 58 # port) = map_option (Pair host) (parse_port port)"
proof -
  have "find_byte 93 (91 # host @ 93 # 58 # port) = Some (Suc (length host))"
    using find_byte_append_None [of 93 "91 # host"] assms(2) by simp
  with assms show ?thesis
    by (simp add: split_host_port_def nth_append)
qed

lemma port_digits_append:
  "port_digits n (xs @ ys) = (case port_digits n xs of None \<Rightarrow> None | Some m \<Rightarrow> port_digits m ys)"
  by (induction n xs rule: port_digits.induct) (auto simp: Let_def)

lemma port_digits_decimal: "n \<le> 65535 \<Longrightarrow> port_digits 0 (decimal n) = Some n"
proof (induction n rule: decimal.induct)
  case (1 n)
  show ?case
  proof (cases "n < 10")
    case True
    then show ?thesis
      using digit_byte [OF True] by (simp add: decimal.simps [of n] Let_def)
  next
    case False
    have "n div 10 \<le> 65535" "n div 10 * 10 + n mod 10 \<le> 65535" "n mod 10 < 10"
      using "1.prems" by auto
    then show ?thesis
      using False "1.IH" digit_byte [of "n mod 10"]
      by (simp add: decimal.simps [of n] port_digits_append Let_def)
  qed
qed

lemma parse_port_decimal: "p \<noteq> 0 \<Longrightarrow> parse_port (decimal (unat p)) = Some p"
  using port_digits_decimal [of "unat p"] unsigned_less [of p, where ?'a = nat]
  by (simp add: parse_port_def unat_eq_zero)

text \<open>
  What the operating system documents of \<open>inet_ntop\<close> and \<open>inet_pton\<close>: printing succeeds, an
  IPv4 text has no colon or bracket and parses back, an IPv6 text has no closing bracket, is
  not an IPv4 text, and parses back.
\<close>

definition inet_ok :: "inet_ops \<Rightarrow> bool" where
  "inet_ok os \<longleftrightarrow>
     (\<forall>b. length b = 4 \<longrightarrow>
        (\<exists>s. ntop4 os b = Some s \<and> pton4 os s = Some b \<and> s \<noteq> [] \<and> 58 \<notin> set s \<and> 91 \<notin> set s)) \<and>
     (\<forall>b. length b = 16 \<longrightarrow>
        (\<exists>s. ntop6 os b = Some s \<and> pton4 os s = None \<and> pton6 os s = Some b \<and> s \<noteq> [] \<and> 93 \<notin> set s))"

lemma v4_text:
  assumes "inet_ok os" "ip_wf a" "ia_family a = Fam_V4"
  shows "\<exists>s. ip_to_string os a = s \<and> ip_parse os s = Some a \<and> s \<noteq> [] \<and> 58 \<notin> set s \<and> hd s \<noteq> 91"
proof -
  have a: "from_v4 (take 4 (ia_bytes a)) = a"
    using ip_bytes_roundtrip [OF assms(2)] assms(2,3)
    by (auto simp: is_unspecified_def ip_bytes_def ip_size_def ip_from_bytes_def ip_wf_def)
  have len: "length (take 4 (ia_bytes a)) = 4"
    using assms(2) by (simp add: ip_wf_def)
  obtain s where "ntop4 os (take 4 (ia_bytes a)) = Some s" "pton4 os s = Some (take 4 (ia_bytes a))"
    "s \<noteq> []" "58 \<notin> set s" "91 \<notin> set s"
    using assms(1) len unfolding inet_ok_def by blast
  moreover from this have "hd s \<noteq> 91"
    using hd_in_set by metis
  ultimately show ?thesis
    using a assms(3) by (auto simp: ip_to_string_def ip_parse_def)
qed

lemma v6_text:
  assumes "inet_ok os" "ip_wf a" "ia_family a = Fam_V6"
  shows "\<exists>s. ip_to_string os a = s \<and> ip_parse os s = Some a \<and> s \<noteq> [] \<and> 93 \<notin> set s"
proof -
  have a: "from_v6 (take 16 (ia_bytes a)) = a"
    using ip_bytes_roundtrip [OF assms(2)] assms(2,3)
    by (auto simp: is_unspecified_def ip_bytes_def ip_size_def ip_from_bytes_def ip_wf_def)
  have len: "length (take 16 (ia_bytes a)) = 16"
    using assms(2) by (simp add: ip_wf_def)
  obtain s where "ntop6 os (take 16 (ia_bytes a)) = Some s" "pton4 os s = None"
    "pton6 os s = Some (take 16 (ia_bytes a))" "s \<noteq> []" "93 \<notin> set s"
    using assms(1) len unfolding inet_ok_def by blast
  with a assms(3) show ?thesis
    by (auto simp: ip_to_string_def ip_parse_def)
qed

lemma split_unspecified: "split_host_port (58 # p) = None \<or> 58 \<in> set p"
  using rfind_byte_last [of 58 p "[]"] by (auto simp: split_host_port_def)

subsection \<open>Properties\<close>

text \<open>
  C15: the textual form of an endpoint is exact for every dialable address, IPv4 or bracketed
  IPv6: parsing the printed form returns the address. An address with no IP or with port zero
  prints to a text the parser rejects.
\<close>

theorem address_text_roundtrip:
  assumes "inet_ok os" "ip_wf (ad_ip a)"
  shows "addr_parse os (addr_to_string os a) = (if addr_is_valid a then Some a else None)"
proof -
  let ?p = "decimal (unat (ad_port a))"
  have port: "parse_port ?p = (if ad_port a = 0 then None else Some (ad_port a))"
    by (simp add: parse_port_decimal) (simp add: parse_port_def decimal.simps)
  show ?thesis
  proof (cases "ia_family (ad_ip a)")
    case Fam_None
    then show ?thesis
      using split_unspecified [of ?p] decimal_digits
      by (simp add: addr_to_string_def ip_to_string_def is_v6_def addr_parse_def addr_is_valid_def is_unspecified_def)
  next
    case Fam_V4
    obtain s where s: "ip_to_string os (ad_ip a) = s" "ip_parse os s = Some (ad_ip a)" "s \<noteq> []"
      "58 \<notin> set s" "hd s \<noteq> 91"
      using v4_text [OF assms Fam_V4] by blast
    then show ?thesis
      using split_plain [of s ?p] decimal_digits port Fam_V4
      by (simp add: addr_to_string_def is_v6_def addr_parse_def addr_is_valid_def is_unspecified_def)
  next
    case Fam_V6
    obtain s where s: "ip_to_string os (ad_ip a) = s" "ip_parse os s = Some (ad_ip a)" "s \<noteq> []"
      "93 \<notin> set s"
      using v6_text [OF assms Fam_V6] by blast
    then show ?thesis
      using split_bracketed [of s ?p] port Fam_V6
      by (simp add: addr_to_string_def is_v6_def addr_parse_def addr_is_valid_def is_unspecified_def)
  qed
qed

text \<open>A concrete pair of printers and parsers with the documented behaviour.\<close>

definition hex_inet :: inet_ops where
  "hex_inet =
     \<lparr>pton4 = (\<lambda>s. if length s = 8 then hex_pairs s else None),
      pton6 = (\<lambda>s. if length s = 32 then hex_pairs s else None),
      ntop4 = (\<lambda>b. Some (to_hex b)), ntop6 = (\<lambda>b. Some (to_hex b))\<rparr>"

lemma to_hex_chars: "set (to_hex p) \<subseteq> set hex_digits"
proof -
  have "unat (b AND 15) < 16" "unat (drop_bit 4 b) < 16" for b :: byte
    using word_and_le1 [of b 15] unsigned_less [of b, where ?'a = nat]
    by (simp_all add: word_le_nat_alt drop_bit_eq_div unat_div less_mult_imp_div_less)
  moreover have "length hex_digits = 16"
    by (simp add: hex_digits_nums)
  ultimately show ?thesis
    by (auto simp: to_hex_def hex_byte_def)
qed

lemma hex_inet_ok: "inet_ok hex_inet"
proof -
  have "58 \<notin> set (to_hex b)" "91 \<notin> set (to_hex b)" "93 \<notin> set (to_hex b)" for b
    using to_hex_chars [of b] by (auto simp: hex_digits_nums)
  moreover have "to_hex b \<noteq> []" if "length b = Suc n" for b n
    using that length_to_hex [of b] by fastforce
  ultimately show ?thesis
    by (simp add: inet_ok_def hex_inet_def hex_pairs_to_hex eval_nat_numeral)
qed

theorem address_text_roundtrip_witness:
  "inet_ok hex_inet \<and>
   addr_parse hex_inet (addr_to_string hex_inet \<lparr>ad_ip = from_v4 [127, 0, 0, 1], ad_port = 4001\<rparr>) =
     Some \<lparr>ad_ip = from_v4 [127, 0, 0, 1], ad_port = 4001\<rparr>"
proof -
  let ?a = "\<lparr>ad_ip = from_v4 [127, 0, 0, 1], ad_port = 4001\<rparr>"
  have "ip_wf (ad_ip ?a)"
    by (simp add: ip_wf_from)
  moreover have "addr_is_valid ?a"
    by (simp add: addr_is_valid_def is_unspecified_def from_v4_def)
  ultimately show ?thesis
    using address_text_roundtrip [OF hex_inet_ok, of ?a] by (simp add: hex_inet_ok)
qed

end
