(* ===== verification/Peer_Table.thy ===== *)
theory Peer_Table
  imports Address
begin

text \<open>
  The directory of connected peers (\<open>src/librats/peer/peer_table.h\<close> and \<open>.cpp\<close>). The hash map is
  an association list with distinct keys, each operation under its lock is one atomic step, and
  the atomic counter is kept beside the map as the source keeps it. The locale
  \<open>peer_directory\<close> is what the node relies on: one route per peer, a teardown that only evicts
  the route it names, and a size that follows.
\<close>

record peer_info =
  pi_id :: peer_id
  pi_addresses :: "address list"
  pi_direction :: conn_role
  pi_agent_version :: bytes

record peer_route =
  pr_reactor :: byte
  pr_conn :: u64

record pt_entry =
  pe_info :: peer_info
  pe_route :: peer_route

record peer_table =
  pt_peers :: "(peer_id \<times> pt_entry) list"
  pt_count :: nat

datatype add_result = NewPeer | Updated | Replaced | Rejected

definition kMaxAddressesPerPeer :: nat where "kMaxAddressesPerPeer = 32"

definition pt_empty :: peer_table where
  "pt_empty = \<lparr>pt_peers = [], pt_count = 0\<rparr>"

definition pt_add ::
  "peer_info \<Rightarrow> peer_route \<Rightarrow> bool \<Rightarrow> peer_table \<Rightarrow> (add_result \<times> peer_route option) \<times> peer_table" where
  "pt_add info rt prefer_outbound t =
     (case map_of (pt_peers t) (pi_id info) of
        None \<Rightarrow>
          ((NewPeer, None),
           t\<lparr>pt_peers := AList.update (pi_id info) \<lparr>pe_info = info, pe_route = rt\<rparr> (pt_peers t),
             pt_count := pt_count t + 1\<rparr>)
      | Some cur \<Rightarrow>
          if pe_route cur = rt
          then ((Updated, None),
                t\<lparr>pt_peers := AList.update (pi_id info) (cur\<lparr>pe_info := info\<rparr>) (pt_peers t)\<rparr>)
          else
            let keep_new =
              (if pi_direction (pe_info cur) \<noteq> pi_direction info
               then pi_direction info = (if prefer_outbound then Outbound else Inbound)
               else True) in
            if keep_new
            then ((Replaced, Some (pe_route cur)),
                  t\<lparr>pt_peers := AList.update (pi_id info) \<lparr>pe_info = info, pe_route = rt\<rparr> (pt_peers t)\<rparr>)
            else ((Rejected, Some rt), t))"

fun merge_addresses :: "address list \<Rightarrow> address list \<Rightarrow> address list \<times> address list" where
  "merge_addresses known [] = (known, [])"
| "merge_addresses known (a # as) =
     (if length known \<ge> kMaxAddressesPerPeer then (known, [])
      else if a \<in> set known then merge_addresses known as
      else let (k, added) = merge_addresses (known @ [a]) as in (k, a # added))"

definition pt_add_addresses ::
  "peer_id \<Rightarrow> peer_route \<Rightarrow> address list \<Rightarrow> peer_table \<Rightarrow> address list \<times> peer_table" where
  "pt_add_addresses pid rt addresses t =
     (case map_of (pt_peers t) pid of
        None \<Rightarrow> ([], t)
      | Some e \<Rightarrow>
          if pe_route e \<noteq> rt then ([], t)
          else
            let (known, added) = merge_addresses (pi_addresses (pe_info e)) addresses in
            (added,
             t\<lparr>pt_peers := AList.update pid (e\<lparr>pe_info := (pe_info e)\<lparr>pi_addresses := known\<rparr>\<rparr>) (pt_peers t)\<rparr>))"

definition pt_remove :: "peer_id \<Rightarrow> peer_route \<Rightarrow> peer_table \<Rightarrow> bool \<times> peer_table" where
  "pt_remove pid rt t =
     (case map_of (pt_peers t) pid of
        None \<Rightarrow> (False, t)
      | Some e \<Rightarrow>
          if pe_route e \<noteq> rt then (False, t)
          else (True, t\<lparr>pt_peers := AList.delete pid (pt_peers t), pt_count := pt_count t - 1\<rparr>))"

definition pt_route :: "peer_id \<Rightarrow> peer_table \<Rightarrow> peer_route option" where
  "pt_route pid t = map_option pe_route (map_of (pt_peers t) pid)"

definition pt_info :: "peer_id \<Rightarrow> peer_table \<Rightarrow> peer_info option" where
  "pt_info pid t = map_option pe_info (map_of (pt_peers t) pid)"

definition pt_contains :: "peer_id \<Rightarrow> peer_table \<Rightarrow> bool" where
  "pt_contains pid t \<longleftrightarrow> map_of (pt_peers t) pid \<noteq> None"

definition pt_snapshot :: "peer_table \<Rightarrow> peer_info list" where
  "pt_snapshot t = map (\<lambda>(_, e). pe_info e) (pt_peers t)"

definition pt_size :: "peer_table \<Rightarrow> nat" where
  "pt_size t = pt_count t"

subsection \<open>Invariant\<close>

definition entry_ok :: "peer_id \<Rightarrow> pt_entry \<Rightarrow> bool" where
  "entry_ok pid e \<longleftrightarrow> pi_id (pe_info e) = pid \<and> length (pi_addresses (pe_info e)) \<le> kMaxAddressesPerPeer"

definition pt_inv :: "peer_table \<Rightarrow> bool" where
  "pt_inv t \<longleftrightarrow>
     distinct (map fst (pt_peers t)) \<and> pt_count t = length (pt_peers t) \<and>
     list_all (\<lambda>(pid, e). entry_ok pid e) (pt_peers t)"

lemma pt_inv_empty [inv_intro]: "pt_inv pt_empty"
  by (simp add: pt_inv_def pt_empty_def)

lemma pt_inv_lookup: "pt_inv t \<Longrightarrow> map_of (pt_peers t) pid = Some e \<Longrightarrow> entry_ok pid e"
  by (auto simp: pt_inv_def list_all_iff dest!: map_of_SomeD)

lemma pt_inv_insert:
  assumes "pt_inv t" "entry_ok pid e" "map_of (pt_peers t) pid = None"
  shows "pt_inv (t\<lparr>pt_peers := AList.update pid e (pt_peers t), pt_count := Suc (pt_count t)\<rparr>)"
  using assms distinct_update [of "pt_peers t" pid e] update_all [of entry_ok "pt_peers t" pid e]
  by (simp add: pt_inv_def length_update map_of_eq_None_iff)

lemma pt_inv_replace:
  assumes "pt_inv t" "entry_ok pid e" "map_of (pt_peers t) pid = Some cur"
  shows "pt_inv (t\<lparr>pt_peers := AList.update pid e (pt_peers t)\<rparr>)"
proof -
  have "pid \<in> fst ` set (pt_peers t)"
    using assms(3) by (metis map_of_eq_None_iff option.distinct(1))
  with assms distinct_update [of "pt_peers t" pid e] update_all [of entry_ok "pt_peers t" pid e]
  show ?thesis
    by (simp add: pt_inv_def length_update)
qed

lemma merge_addresses_facts:
  "merge_addresses known as = (k, added) \<Longrightarrow>
     k = known @ added \<and> set added \<subseteq> set as \<and> set added \<inter> set known = {} \<and> distinct added \<and>
     (length known \<le> kMaxAddressesPerPeer \<longrightarrow> length k \<le> kMaxAddressesPerPeer)"
proof (induction known as arbitrary: k added rule: merge_addresses.induct)
  case (2 known a as)
  consider "kMaxAddressesPerPeer \<le> length known" | "length known < kMaxAddressesPerPeer" "a \<in> set known"
    | "length known < kMaxAddressesPerPeer" "a \<notin> set known"
    by linarith
  then show ?case
  proof cases
    case 1
    with 2 show ?thesis by simp
  next
    case 2
    with "2.IH"(1) [of k added] "2.prems" show ?thesis
      by auto
  next
    case 3
    obtain k' added' where r: "merge_addresses (known @ [a]) as = (k', added')"
      by (cases "merge_addresses (known @ [a]) as")
    with 3 "2.prems" have "k = k'" "added = a # added'"
      by simp_all
    with "2.IH"(2) [OF _ 3(2) r] 3 show ?thesis
      by auto
  qed
qed simp

text \<open>The four outcomes of registering a connection.\<close>

definition survives :: "conn_role \<Rightarrow> conn_role \<Rightarrow> bool \<Rightarrow> bool" where
  "survives old new pref \<longleftrightarrow> old \<noteq> new \<longrightarrow> new = (if pref then Outbound else Inbound)"

lemma pt_add_cases:
  obtains (fresh) "map_of (pt_peers t) (pi_id info) = None"
      "pt_add info rt pref t = ((NewPeer, None),
         t\<lparr>pt_peers := AList.update (pi_id info) \<lparr>pe_info = info, pe_route = rt\<rparr> (pt_peers t),
           pt_count := pt_count t + 1\<rparr>)"
  | (same) cur where "map_of (pt_peers t) (pi_id info) = Some cur" "pe_route cur = rt"
      "pt_add info rt pref t = ((Updated, None),
         t\<lparr>pt_peers := AList.update (pi_id info) (cur\<lparr>pe_info := info\<rparr>) (pt_peers t)\<rparr>)"
  | (wins) cur where "map_of (pt_peers t) (pi_id info) = Some cur" "pe_route cur \<noteq> rt"
      "survives (pi_direction (pe_info cur)) (pi_direction info) pref"
      "pt_add info rt pref t = ((Replaced, Some (pe_route cur)),
         t\<lparr>pt_peers := AList.update (pi_id info) \<lparr>pe_info = info, pe_route = rt\<rparr> (pt_peers t)\<rparr>)"
  | (loses) cur where "map_of (pt_peers t) (pi_id info) = Some cur" "pe_route cur \<noteq> rt"
      "\<not> survives (pi_direction (pe_info cur)) (pi_direction info) pref"
      "pt_add info rt pref t = ((Rejected, Some rt), t)"
proof (cases "map_of (pt_peers t) (pi_id info)")
  case None
  then show thesis
    by (intro fresh) (simp_all add: pt_add_def)
next
  case (Some cur)
  consider "pe_route cur = rt"
    | "pe_route cur \<noteq> rt" "survives (pi_direction (pe_info cur)) (pi_direction info) pref"
    | "pe_route cur \<noteq> rt" "\<not> survives (pi_direction (pe_info cur)) (pi_direction info) pref"
    by blast
  then show thesis
  proof cases
    case 1
    then show thesis
      using Some by (intro same [OF Some]) (simp_all add: pt_add_def)
  next
    case 2
    then show thesis
      using Some by (intro wins [OF Some 2]) (auto simp: pt_add_def survives_def Let_def split: if_splits)
  next
    case 3
    then show thesis
      using Some by (intro loses [OF Some 3]) (auto simp: pt_add_def survives_def Let_def split: if_splits)
  qed
qed

lemma pt_add_inv [inv_intro]:
  assumes "pt_inv t" "length (pi_addresses info) \<le> kMaxAddressesPerPeer"
  shows "pt_inv (snd (pt_add info rt pref t))"
proof -
  have fresh: "entry_ok (pi_id info) \<lparr>pe_info = info, pe_route = rt\<rparr>"
    using assms(2) by (simp add: entry_ok_def)
  have refreshed: "entry_ok (pi_id info) (cur\<lparr>pe_info := info\<rparr>)" for cur
    using assms(2) by (simp add: entry_ok_def)
  show ?thesis
    by (cases rule: pt_add_cases [of t info rt pref])
      (simp_all add: assms(1) pt_inv_insert [OF assms(1) fresh] pt_inv_replace [OF assms(1) fresh]
        pt_inv_replace [OF assms(1) refreshed])
qed

lemma pt_add_addresses_inv [inv_intro]:
  assumes "pt_inv t"
  shows "pt_inv (snd (pt_add_addresses pid rt as t))"
proof (cases "map_of (pt_peers t) pid")
  case (Some e)
  obtain k added where m: "merge_addresses (pi_addresses (pe_info e)) as = (k, added)"
    by (cases "merge_addresses (pi_addresses (pe_info e)) as")
  have "entry_ok pid (e\<lparr>pe_info := (pe_info e)\<lparr>pi_addresses := k\<rparr>\<rparr>)"
    using merge_addresses_facts [OF m] pt_inv_lookup [OF assms Some] by (auto simp: entry_ok_def)
  from pt_inv_replace [OF assms this Some] Some m assms show ?thesis
    by (simp add: pt_add_addresses_def)
qed (use assms in \<open>simp add: pt_add_addresses_def\<close>)

lemma pt_remove_inv [inv_intro]:
  assumes "pt_inv t"
  shows "pt_inv (snd (pt_remove pid rt t))"
proof (cases "map_of (pt_peers t) pid")
  case (Some e)
  then have "pid \<in> fst ` set (pt_peers t)"
    by (metis map_of_eq_None_iff option.distinct(1))
  then have "Suc (length (AList.delete pid (pt_peers t))) = length (pt_peers t)"
    using assms length_delete [of "pt_peers t" pid] by (simp add: pt_inv_def)
  moreover have "distinct (map fst (AList.delete pid (pt_peers t)))"
    using assms unfolding pt_inv_def by (intro distinct_delete) simp
  moreover have "list_all (\<lambda>(pid, e). entry_ok pid e) (AList.delete pid (pt_peers t))"
    using assms set_delete_subset by (fastforce simp: pt_inv_def list_all_iff)
  ultimately show ?thesis
    using Some assms by (auto simp: pt_remove_def pt_inv_def)
qed (use assms in \<open>simp add: pt_remove_def\<close>)

subsection \<open>The contract of the directory\<close>

datatype link_op = Link_Up peer_info peer_route bool | Link_Down peer_id peer_route

text \<open>
  What an owner of the directory reports: a peer as connected when its first link is
  registered, as disconnected when its current link is removed.
\<close>

definition link_step ::
  "(peer_info \<Rightarrow> peer_route \<Rightarrow> bool \<Rightarrow> 't \<Rightarrow> (add_result \<times> peer_route option) \<times> 't) \<Rightarrow>
   (peer_id \<Rightarrow> peer_route \<Rightarrow> 't \<Rightarrow> bool \<times> 't) \<Rightarrow>
   't \<times> (peer_id \<times> bool) list \<Rightarrow> link_op \<Rightarrow> 't \<times> (peer_id \<times> bool) list" where
  "link_step add remove s x =
     (case x of
        Link_Up info rt p \<Rightarrow>
          (case add info rt p (fst s) of
             ((res, _), t) \<Rightarrow> (t, if res = NewPeer then snd s @ [(pi_id info, True)] else snd s))
      | Link_Down pid rt \<Rightarrow>
          (case remove pid rt (fst s) of
             (gone, t) \<Rightarrow> (t, if gone then snd s @ [(pid, False)] else snd s)))"

fun alternating :: "bool \<Rightarrow> bool list \<Rightarrow> bool" where
  "alternating b [] = True"
| "alternating b (x # xs) = (x = b \<and> alternating (\<not> b) xs)"

definition history :: "peer_id \<Rightarrow> (peer_id \<times> bool) list \<Rightarrow> bool list" where
  "history pid log = map snd (filter (\<lambda>(q, _). q = pid) log)"

lemma alternating_snoc:
  "alternating b (xs @ [x]) \<longleftrightarrow> alternating b xs \<and> x = (if even (length xs) then b else \<not> b)"
  by (induction b xs rule: alternating.induct) auto

lemma history_snoc: "history pid (log @ [(q, b)]) = (if q = pid then history pid log @ [b] else history pid log)"
  by (simp add: history_def)

locale peer_directory =
  fixes inv :: "'t \<Rightarrow> bool" and empty :: 't
    and route :: "'t \<Rightarrow> peer_id \<Rightarrow> peer_route option"
    and add :: "peer_info \<Rightarrow> peer_route \<Rightarrow> bool \<Rightarrow> 't \<Rightarrow> (add_result \<times> peer_route option) \<times> 't"
    and remove :: "peer_id \<Rightarrow> peer_route \<Rightarrow> 't \<Rightarrow> bool \<times> 't"
  assumes inv_empty: "inv empty" and route_empty: "route empty pid = None"
    and inv_add: "inv t \<Longrightarrow> length (pi_addresses info) \<le> kMaxAddressesPerPeer \<Longrightarrow> inv (snd (add info rt p t))"
    and inv_remove: "inv t \<Longrightarrow> inv (snd (remove pid rt t))"
    and add_new: "route t (pi_id info) = None \<Longrightarrow>
      \<exists>t'. add info rt p t = ((NewPeer, None), t') \<and> route t' = (route t)(pi_id info \<mapsto> rt)"
    and add_known: "route t (pi_id info) = Some cur \<Longrightarrow>
      \<exists>res close t' w. add info rt p t = ((res, close), t') \<and> res \<noteq> NewPeer \<and>
        route t' = (route t)(pi_id info \<mapsto> w) \<and>
        (w = rt \<and> close = (if cur = rt then None else Some cur) \<or> w = cur \<and> close = Some rt)"
    and remove_current: "route t pid = Some rt \<Longrightarrow>
      \<exists>t'. remove pid rt t = (True, t') \<and> route t' = (route t)(pid := None)"
    and remove_stale: "route t pid \<noteq> Some rt \<Longrightarrow> remove pid rt t = (False, t)"
begin

definition reported :: "peer_id \<Rightarrow> 't \<times> (peer_id \<times> bool) list \<Rightarrow> bool" where
  "reported pid s \<longleftrightarrow> alternating True (history pid (snd s)) \<and>
     (route (fst s) pid \<noteq> None \<longleftrightarrow> odd (length (history pid (snd s))))"

lemma reported_empty: "reported pid (empty, [])"
  by (simp add: reported_def history_def route_empty)

lemma reported_step:
  assumes "reported pid s"
  shows "reported pid (link_step add remove s x)"
proof (cases x)
  case (Link_Up info rt p)
  show ?thesis
  proof (cases "route (fst s) (pi_id info)")
    case None
    with add_new [OF None, of rt p] assms Link_Up show ?thesis
      by (cases "pi_id info = pid") (auto simp: reported_def link_step_def history_snoc alternating_snoc)
  next
    case (Some cur)
    with add_known [OF Some, of rt p] assms Link_Up show ?thesis
      by (cases "pi_id info = pid") (auto simp: reported_def link_step_def)
  qed
next
  case (Link_Down q rt)
  show ?thesis
  proof (cases "route (fst s) q = Some rt")
    case True
    with remove_current [OF True] assms Link_Down show ?thesis
      by (cases "q = pid") (auto simp: reported_def link_step_def history_snoc alternating_snoc)
  next
    case False
    with remove_stale [OF False] assms Link_Down show ?thesis
      by (simp add: link_step_def)
  qed
qed

lemma reported_run: "reported pid s \<Longrightarrow> reported pid (foldl (link_step add remove) s xs)"
  by (induction xs arbitrary: s) (simp_all add: reported_step)

end

definition pt_lookup :: "peer_table \<Rightarrow> peer_id \<Rightarrow> peer_route option" where
  "pt_lookup t pid = pt_route pid t"

interpretation pt: peer_directory pt_inv pt_empty pt_lookup pt_add pt_remove
proof unfold_locales
  fix t :: peer_table and info :: peer_info and rt p
  assume "pt_lookup t (pi_id info) = None"
  then show "\<exists>t'. pt_add info rt p t = ((NewPeer, None), t') \<and>
      pt_lookup t' = (pt_lookup t)(pi_id info \<mapsto> rt)"
    by (cases rule: pt_add_cases [of t info rt p])
      (auto simp: pt_lookup_def pt_route_def fun_eq_iff update_conv')
next
  fix t :: peer_table and info :: peer_info and rt p cur
  assume "pt_lookup t (pi_id info) = Some cur"
  then show "\<exists>res close t' w. pt_add info rt p t = ((res, close), t') \<and> res \<noteq> NewPeer \<and>
      pt_lookup t' = (pt_lookup t)(pi_id info \<mapsto> w) \<and>
      (w = rt \<and> close = (if cur = rt then None else Some cur) \<or> w = cur \<and> close = Some rt)"
    by (cases rule: pt_add_cases [of t info rt p])
      (auto simp: pt_lookup_def pt_route_def fun_eq_iff update_conv')
next
  show "pt_inv pt_empty" "pt_lookup pt_empty pid = None" for pid
    by (rule pt_inv_empty) (simp add: pt_lookup_def pt_route_def pt_empty_def)
  show "pt_inv t \<Longrightarrow> pt_inv (snd (pt_remove pid rt t))" for t pid rt
    by (rule pt_remove_inv)
qed (auto simp: pt_lookup_def pt_route_def pt_remove_def fun_eq_iff delete_conv' pt_add_inv
    split: option.splits)

subsection \<open>Properties\<close>

text \<open>
  C11: simultaneous dials converge. When two nodes dial each other at once, each registers two
  links to the same peer, in whatever order the handshakes finish on its side; afterwards both
  nodes keep the same link, the one dialed by the node with the smaller identity, each has told
  its reactor to close its end of the other, and each counts one peer.
\<close>

theorem cross_connect_converges:
  fixes ida idb :: peer_id and ta tb :: peer_table and a_first b_first :: bool
  assumes "ida \<noteq> idb" "\<not> pt_contains idb ta" "\<not> pt_contains ida tb"
    and "xa \<noteq> ya" "xb \<noteq> yb"
  defines "link dir pid \<equiv> \<lparr>pi_id = pid, pi_addresses = [], pi_direction = dir, pi_agent_version = []\<rparr>"
  defines "a_out \<equiv> pt_add (link Outbound idb) xa (pid_less ida idb)"
    and "a_in \<equiv> pt_add (link Inbound idb) ya (pid_less ida idb)"
    and "b_in \<equiv> pt_add (link Inbound ida) xb (pid_less idb ida)"
    and "b_out \<equiv> pt_add (link Outbound ida) yb (pid_less idb ida)"
  shows "let ra = (if a_first then a_in (snd (a_out ta)) else a_out (snd (a_in ta)));
        rb = (if b_first then b_in (snd (b_out tb)) else b_out (snd (b_in tb)));
        x_wins = pid_less ida idb
    in pt_route idb (snd ra) = Some (if x_wins then xa else ya) \<and>
       pt_route ida (snd rb) = Some (if x_wins then xb else yb) \<and>
       snd (fst ra) = Some (if x_wins then ya else xa) \<and>
       snd (fst rb) = Some (if x_wins then yb else xb) \<and>
       pt_size (snd ra) = pt_size ta + 1 \<and> pt_size (snd rb) = pt_size tb + 1"
proof -
  have "pid_less idb ida \<longleftrightarrow> \<not> pid_less ida idb"
    using assms(1) pid_less_asym pid_less_total by blast
  with assms(2-5) show ?thesis
    by (auto simp: a_out_def a_in_def b_in_def b_out_def link_def pt_add_def pt_contains_def pt_route_def
        pt_size_def Let_def update_conv')
qed

theorem cross_connect_converges_witness:
  "let xa = \<lparr>pr_reactor = 0, pr_conn = 1\<rparr>; ya = \<lparr>pr_reactor = 0, pr_conn = 2\<rparr>;
       out = pt_add \<lparr>pi_id = [2], pi_addresses = [], pi_direction = Outbound, pi_agent_version = []\<rparr> xa True;
       inb = pt_add \<lparr>pi_id = [2], pi_addresses = [], pi_direction = Inbound, pi_agent_version = []\<rparr> ya True
   in pt_route [2] (snd (inb (snd (out pt_empty)))) = Some xa \<and>
      pt_route [2] (snd (out (snd (inb pt_empty)))) = Some xa"
proof -
  have "[1] \<noteq> ([2] :: peer_id)" "\<not> pt_contains [2] pt_empty" "\<not> pt_contains [1] pt_empty"
    "\<lparr>pr_reactor = 0, pr_conn = 1\<rparr> \<noteq> \<lparr>pr_reactor = 0, pr_conn = 2\<rparr>" "pid_less [1] [2]"
    by (simp_all add: pt_contains_def pt_empty_def pid_less_def)
  with cross_connect_converges [OF this(1-4) this(4), of True True]
    cross_connect_converges [OF this(1-4) this(4), of False True] show ?thesis
    by (simp add: Let_def)
qed

text \<open>
  The owner of the directory reports links faithfully. Over any sequence of registrations
  and teardowns, in any order and with stale teardowns anywhere, the reports about each peer
  alternate, connected first, and the last one says whether the peer is in the directory.
\<close>

lemma link_reports_alternate:
  fixes xs :: "link_op list" and pid :: peer_id
  defines "s \<equiv> foldl (link_step pt_add pt_remove) (pt_empty, []) xs"
  shows "alternating True (history pid (snd s)) \<and>
    (pt_contains pid (fst s) \<longleftrightarrow> odd (length (history pid (snd s))))"
  using pt.reported_run [OF pt.reported_empty, of pid xs]
  by (simp add: s_def pt.reported_def pt_lookup_def pt_route_def pt_contains_def)

text \<open>
  Whatever is registered, learned and torn down, the directory keeps one entry per peer,
  its lock-free counter equals the number of entries, every entry is stored under its own
  identity, and no peer is ever credited with more than 32 addresses.
\<close>

lemma peer_table_invariant:
  assumes "pt_inv t" "length (pi_addresses info) \<le> kMaxAddressesPerPeer"
  shows "pt_inv (snd (pt_add info rt p t)) \<and> pt_inv (snd (pt_add_addresses pid rt as t)) \<and>
    pt_inv (snd (pt_remove pid rt t))"
  using assms by (simp add: pt_add_inv pt_add_addresses_inv pt_remove_inv)

end
