(* ===== verification/Identify.thy ===== *)
theory Identify
  imports Address
begin

text \<open>
  The identify message (\<open>src/librats/node/identify.h\<close> and \<open>.cpp\<close>): the versioned, bounds-checked
  form in which a node tells a peer its listen port, its dialable addresses and the address it
  sees the peer at. The reader is the latching reader of the source: the first short read turns
  its flag off and every later read returns zero or nothing.
\<close>

record identify_message =
  im_listen_port :: u16
  im_addresses :: "address list"
  im_observed :: "address option"

definition kVersion :: byte where "kVersion = 1"
definition kMaxAddresses :: nat where "kMaxAddresses = 32"

subsection \<open>Encoding\<close>

definition put_u16 :: "bytes \<Rightarrow> u16 \<Rightarrow> bytes" where
  "put_u16 out v = out @ [ucast (drop_bit 8 v), ucast v]"

definition put_addr :: "bytes \<Rightarrow> address \<Rightarrow> bytes" where
  "put_addr out a = put_u16 (out @ [of_nat (ip_size (ad_ip a))] @ ip_bytes (ad_ip a)) (ad_port a)"

definition emittable :: "address \<Rightarrow> bool" where
  "emittable a \<longleftrightarrow> \<not> is_unspecified (ad_ip a)"

fun emit_addrs :: "address list \<Rightarrow> bytes \<Rightarrow> nat \<Rightarrow> bytes \<times> nat" where
  "emit_addrs [] blob emitted = (blob, emitted)"
| "emit_addrs (a # as) blob emitted =
     (if emitted \<ge> kMaxAddresses then (blob, emitted)
      else if \<not> emittable a \<or> ad_port a = 0 then emit_addrs as blob emitted
      else emit_addrs as (put_addr blob a) (emitted + 1))"

definition identify_encode :: "identify_message \<Rightarrow> bytes" where
  "identify_encode m =
     (let out = put_u16 [kVersion] (im_listen_port m);
          (blob, emitted) = emit_addrs (im_addresses m) [] 0;
          out = out @ [of_nat emitted] @ blob
      in case im_observed m of
           Some a \<Rightarrow> if emittable a then put_addr out a else out @ [0]
         | None \<Rightarrow> out @ [0])"

subsection \<open>Decoding\<close>

record reader =
  rd_p :: bytes
  rd_ok :: bool

definition rd_u8 :: "reader \<Rightarrow> byte \<times> reader" where
  "rd_u8 r = (case rd_p r of [] \<Rightarrow> (0, r\<lparr>rd_ok := False\<rparr>) | b # bs \<Rightarrow> (b, r\<lparr>rd_p := bs\<rparr>))"

definition rd_u16 :: "reader \<Rightarrow> u16 \<times> reader" where
  "rd_u16 r =
     (let (hi, r1) = rd_u8 r; (lo, r2) = rd_u8 r1 in (push_bit 8 (ucast hi) OR ucast lo, r2))"

definition rd_str :: "nat \<Rightarrow> reader \<Rightarrow> bytes \<times> reader" where
  "rd_str len r =
     (if length (rd_p r) < len then ([], r\<lparr>rd_ok := False\<rparr>)
      else (take len (rd_p r), r\<lparr>rd_p := drop len (rd_p r)\<rparr>))"

text \<open>The body of an address after its length byte, in both places the decoder reads one.\<close>

definition rd_addr_body :: "byte \<Rightarrow> reader \<Rightarrow> (address \<times> reader) option" where
  "rd_addr_body ip_len r =
     (if ip_len \<noteq> 4 \<and> ip_len \<noteq> 16 then None
      else
        let (ip, r1) = rd_str (unat ip_len) r; (port, r2) = rd_u16 r1 in
        if \<not> rd_ok r2 then None
        else case ip_from_bytes ip of
          None \<Rightarrow> None
        | Some a \<Rightarrow> Some (\<lparr>ad_ip = a, ad_port = port\<rparr>, r2))"

fun rd_addrs :: "nat \<Rightarrow> reader \<Rightarrow> (address list \<times> reader) option" where
  "rd_addrs 0 r = Some ([], r)"
| "rd_addrs (Suc n) r =
     (let (ip_len, r1) = rd_u8 r in
      if \<not> rd_ok r1 then None
      else case rd_addr_body ip_len r1 of
        None \<Rightarrow> None
      | Some (a, r2) \<Rightarrow>
          (case rd_addrs n r2 of None \<Rightarrow> None | Some (as, r3) \<Rightarrow> Some (a # as, r3)))"

definition identify_decode :: "bytes \<Rightarrow> identify_message option" where
  "identify_decode input =
     (let (version, r1) = rd_u8 \<lparr>rd_p = input, rd_ok = True\<rparr> in
      if \<not> rd_ok r1 \<or> version \<noteq> kVersion then None
      else
        let (port, r2) = rd_u16 r1; (count, r3) = rd_u8 r2 in
        if \<not> rd_ok r3 \<or> unat count > kMaxAddresses then None
        else case rd_addrs (unat count) r3 of
          None \<Rightarrow> None
        | Some (as, r4) \<Rightarrow>
            let (obs_len, r5) = rd_u8 r4 in
            if \<not> rd_ok r5 then None
            else if obs_len = 0
            then Some \<lparr>im_listen_port = port, im_addresses = as, im_observed = None\<rparr>
            else case rd_addr_body obs_len r5 of
              None \<Rightarrow> None
            | Some (a, _) \<Rightarrow>
                Some \<lparr>im_listen_port = port, im_addresses = as, im_observed = Some a\<rparr>)"

subsection \<open>Lemmas\<close>

definition addr_wf :: "address \<Rightarrow> bool" where
  "addr_wf a \<longleftrightarrow> ip_wf (ad_ip a)"

definition addr_wire :: "address \<Rightarrow> bytes" where
  "addr_wire a = put_addr [] a"

definition advertised :: "address list \<Rightarrow> address list" where
  "advertised as = take kMaxAddresses (filter (\<lambda>a. emittable a \<and> ad_port a \<noteq> 0) as)"

lemma put_addr_append: "put_addr out a = out @ addr_wire a"
  by (simp add: addr_wire_def put_addr_def put_u16_def)

lemma emit_addrs_eq:
  "n \<le> kMaxAddresses \<Longrightarrow> emit_addrs as blob n =
     (let es = take (kMaxAddresses - n) (filter (\<lambda>a. emittable a \<and> ad_port a \<noteq> 0) as) in
      (blob @ concat (map addr_wire es), n + length es))"
proof (induction as blob n rule: emit_addrs.induct)
  case (2 a as blob emitted)
  show ?case
  proof (cases "emitted = kMaxAddresses")
    case False
    then have "kMaxAddresses - emitted = Suc (kMaxAddresses - Suc emitted)"
      using "2.prems" by simp
    with False 2 show ?thesis
      by (simp add: Let_def put_addr_append)
  qed simp
qed simp

lemma rd_u8_Cons [simp]: "rd_u8 \<lparr>rd_p = b # bs, rd_ok = k\<rparr> = (b, \<lparr>rd_p = bs, rd_ok = k\<rparr>)"
  by (simp add: rd_u8_def)

lemma rd_u16_put [simp]:
  "rd_u16 \<lparr>rd_p = ucast (drop_bit 8 v) # ucast v # bs, rd_ok = k\<rparr> = (v, \<lparr>rd_p = bs, rd_ok = k\<rparr>)"
proof -
  have "push_bit 8 (ucast (ucast (drop_bit 8 v) :: byte)) OR ucast (ucast v :: byte) = (v :: u16)"
    by (rule bit_word_eqI) (auto simp: bit_simps)
  then show ?thesis
    by (simp add: rd_u16_def)
qed

lemma ip_size_cases: "\<not> is_unspecified a \<Longrightarrow> ip_size a = 4 \<or> ip_size a = 16"
  by (auto simp: is_unspecified_def ip_size_def split: ip_family.split)

lemma rd_addr_wire:
  assumes "addr_wf a" "emittable a"
  shows "\<exists>len rest. addr_wire a @ bs = len # rest \<and> len \<noteq> 0 \<and>
    rd_addr_body len \<lparr>rd_p = rest, rd_ok = True\<rparr> = Some (a, \<lparr>rd_p = bs, rd_ok = True\<rparr>)"
proof -
  have n: "ip_size (ad_ip a) = 4 \<or> ip_size (ad_ip a) = 16" "ip_from_bytes (ip_bytes (ad_ip a)) = Some (ad_ip a)"
    "length (ip_bytes (ad_ip a)) = ip_size (ad_ip a)"
    using assms ip_size_cases ip_bytes_roundtrip length_ip_bytes
    by (auto simp: addr_wf_def emittable_def)
  then show ?thesis
    by (auto simp: addr_wire_def put_addr_def put_u16_def rd_addr_body_def rd_str_def)
qed

lemma rd_addrs_wire:
  "list_all (\<lambda>a. addr_wf a \<and> emittable a) as \<Longrightarrow>
     rd_addrs (length as) \<lparr>rd_p = concat (map addr_wire as) @ bs, rd_ok = True\<rparr> =
       Some (as, \<lparr>rd_p = bs, rd_ok = True\<rparr>)"
proof (induction as)
  case (Cons a as)
  obtain len rest where a: "addr_wire a @ concat (map addr_wire as) @ bs = len # rest"
    "rd_addr_body len \<lparr>rd_p = rest, rd_ok = True\<rparr> =
       Some (a, \<lparr>rd_p = concat (map addr_wire as) @ bs, rd_ok = True\<rparr>)"
    using rd_addr_wire [of a "concat (map addr_wire as) @ bs"] Cons.prems by auto
  with Cons show ?case
    by simp
qed simp

lemma rd_addrs_wf:
  "rd_addrs n r = Some (as, r') \<Longrightarrow> length as = n \<and> list_all (\<lambda>a. addr_wf a \<and> emittable a) as"
proof (induction n arbitrary: r as)
  case (Suc n)
  then show ?case
    using ip_from_bytes_wf
    by (fastforce simp: rd_addr_body_def addr_wf_def emittable_def Let_def
        split: prod.splits if_splits option.splits)
qed simp

subsection \<open>Properties\<close>

text \<open>
  C14: identify messages survive the wire. Decoding an encoded message, whatever bytes a later
  version appends, returns its listen port, the first 32 of its dialable addresses and its
  observed address; the encoder's filtering and the count it writes agree. And whatever the
  bytes a peer sends, a decoded message has at most 32 addresses, every one a well-formed IPv4
  or IPv6 address.
\<close>

theorem identify_roundtrip:
  assumes "list_all addr_wf (im_addresses m)"
    and "case im_observed m of None \<Rightarrow> True | Some a \<Rightarrow> addr_wf a"
  shows "identify_decode (identify_encode m @ extra) =
      Some (m\<lparr>im_addresses := advertised (im_addresses m),
              im_observed := (case im_observed m of None \<Rightarrow> None | Some a \<Rightarrow> if emittable a then Some a else None)\<rparr>) \<and>
    (\<forall>input d. identify_decode input = Some d \<longrightarrow>
       length (im_addresses d) \<le> kMaxAddresses \<and> list_all (\<lambda>a. addr_wf a \<and> emittable a) (im_addresses d))"
proof
  let ?es = "advertised (im_addresses m)"
  have es: "emit_addrs (im_addresses m) [] 0 = (concat (map addr_wire ?es), length ?es)"
    using emit_addrs_eq [of 0 "im_addresses m" "[]"] by (simp add: advertised_def Let_def)
  have n: "length ?es \<le> 32"
    by (simp add: advertised_def kMaxAddresses_def)
  then have count: "unat (of_nat (length ?es) :: byte) = length ?es"
    by (simp add: unsigned_of_nat take_bit_eq_mod)
  have "list_all (\<lambda>a. addr_wf a \<and> emittable a) ?es"
    using assms(1) by (auto simp: advertised_def list_all_iff dest: in_set_takeD)
  note addrs = rd_addrs_wire [OF this]
  have head: "identify_decode ([kVersion, ucast (drop_bit 8 (im_listen_port m)), ucast (im_listen_port m),
      of_nat (length ?es)] @ concat (map addr_wire ?es) @ b # bs) =
      (if b = 0 then Some \<lparr>im_listen_port = im_listen_port m, im_addresses = ?es, im_observed = None\<rparr>
       else case rd_addr_body b \<lparr>rd_p = bs, rd_ok = True\<rparr> of
         None \<Rightarrow> None
       | Some (a, _) \<Rightarrow> Some \<lparr>im_listen_port = im_listen_port m, im_addresses = ?es, im_observed = Some a\<rparr>)" for b bs
    using n by (simp add: identify_decode_def count kMaxAddresses_def addrs)
  have enc: "identify_encode m = [kVersion, ucast (drop_bit 8 (im_listen_port m)), ucast (im_listen_port m),
      of_nat (length ?es)] @ concat (map addr_wire ?es) @
      (case im_observed m of Some a \<Rightarrow> if emittable a then addr_wire a else [0] | None \<Rightarrow> [0])"
    by (simp add: identify_encode_def es put_u16_def put_addr_append split: option.split)
  show "identify_decode (identify_encode m @ extra) =
      Some (m\<lparr>im_addresses := ?es,
        im_observed := (case im_observed m of None \<Rightarrow> None | Some a \<Rightarrow> if emittable a then Some a else None)\<rparr>)"
  proof (cases "\<exists>a. im_observed m = Some a \<and> emittable a")
    case True
    then obtain a where a: "im_observed m = Some a" "emittable a"
      by blast
    then obtain len rest where "addr_wire a @ extra = len # rest" "len \<noteq> 0"
      "rd_addr_body len \<lparr>rd_p = rest, rd_ok = True\<rparr> = Some (a, \<lparr>rd_p = extra, rd_ok = True\<rparr>)"
      using rd_addr_wire [of a extra] assms(2) by auto
    with a head [of len rest] show ?thesis
      by (simp add: enc)
  next
    case False
    then have "identify_encode m @ extra = [kVersion, ucast (drop_bit 8 (im_listen_port m)),
        ucast (im_listen_port m), of_nat (length ?es)] @ concat (map addr_wire ?es) @ 0 # extra"
      by (auto simp: enc split: option.split)
    with head [of 0 extra] False show ?thesis
      by (auto split: option.split)
  qed
  show "\<forall>input d. identify_decode input = Some d \<longrightarrow>
      length (im_addresses d) \<le> kMaxAddresses \<and> list_all (\<lambda>a. addr_wf a \<and> emittable a) (im_addresses d)"
    by (auto simp: identify_decode_def Let_def dest!: rd_addrs_wf split: prod.splits if_splits option.splits)
qed

theorem identify_roundtrip_witness:
  "identify_decode (identify_encode \<lparr>im_listen_port = 4001,
       im_addresses = [\<lparr>ad_ip = from_v4 [10, 0, 0, 1], ad_port = 4001\<rparr>], im_observed = None\<rparr>) =
     Some \<lparr>im_listen_port = 4001,
       im_addresses = [\<lparr>ad_ip = from_v4 [10, 0, 0, 1], ad_port = 4001\<rparr>], im_observed = None\<rparr>"
proof -
  let ?m = "\<lparr>im_listen_port = 4001, im_addresses = [\<lparr>ad_ip = from_v4 [10, 0, 0, 1], ad_port = 4001\<rparr>],
    im_observed = None\<rparr>"
  have "list_all addr_wf (im_addresses ?m)"
    "case im_observed ?m of None \<Rightarrow> True | Some a \<Rightarrow> addr_wf a"
    by (simp_all add: addr_wf_def ip_wf_from)
  moreover have "advertised (im_addresses ?m) = im_addresses ?m"
    by (simp add: advertised_def kMaxAddresses_def emittable_def is_unspecified_def from_v4_def)
  ultimately show ?thesis
    using identify_roundtrip [of ?m "[]"] by simp
qed

end
