(* ===== verification/Node.thy ===== *)
theory Node
  imports Peer_Table Identify Message_Router
begin

text \<open>
  The node as the delegate of its connections (\<open>src/librats/node/node.cpp\<close>, \<open>node.h\<close>):
  admission, registration of established peers, the identify exchange, routing of frames,
  teardown, and the addresses the node advertises and observes. The state is the part of
  \<open>Node\<close> these operations touch; callbacks, closes and sends asked of the reactors are
  appended to a log. A connection is seen through the accessors the node calls; the result of
  \<open>getpeername\<close> is one of them, and \<open>inet_pton\<close> is an argument.
\<close>

record conn_view =
  cv_reactor :: byte
  cv_conn :: u64
  cv_role :: conn_role
  cv_remote_id :: peer_id
  cv_dial_host :: bytes
  cv_dial_port :: u16
  cv_endpoint :: "address option"

datatype 'h node_event =
    N_Connected peer_id peer_route
  | N_Disconnected peer_id
  | N_Identified peer_id "address list"
  | N_Dial_Failed address
  | N_Close peer_route close_reason
  | N_Send peer_route frame_header bytes
  | N_Handler 'h peer_id bytes

record 'h node =
  nd_id :: peer_id
  nd_max_peers :: nat
  nd_peers :: peer_table
  nd_router :: "'h router"
  nd_listen_port :: u16
  nd_advertised :: "address list"
  nd_public :: "address option"
  nd_observed :: "address list"
  nd_log :: "'h node_event list"

definition kMaxObserved :: nat where "kMaxObserved = 16"

definition nd_emit :: "'h node_event list \<Rightarrow> 'h node \<Rightarrow> 'h node" where
  "nd_emit es n = n\<lparr>nd_log := nd_log n @ es\<rparr>"

definition cv_route :: "conn_view \<Rightarrow> peer_route" where
  "cv_route c = \<lparr>pr_reactor = cv_reactor c, pr_conn = cv_conn c\<rparr>"

definition cv_remote_ip :: "conn_view \<Rightarrow> ip_address" where
  "cv_remote_ip c = (case cv_endpoint c of Some ep \<Rightarrow> ad_ip ep | None \<Rightarrow> ip_none)"

subsection \<open>Sending\<close>

definition route_send :: "peer_route \<Rightarrow> frame_header \<Rightarrow> bytes \<Rightarrow> 'h node \<Rightarrow> 'h node" where
  "route_send rt h p n = nd_emit [N_Send rt h p] n"

definition route_close :: "peer_route \<Rightarrow> 'h node \<Rightarrow> 'h node" where
  "route_close rt n = nd_emit [N_Close rt LocalClose] n"

definition send_channel :: "peer_id \<Rightarrow> bytes \<Rightarrow> bytes \<Rightarrow> 'h node \<Rightarrow> 'h node" where
  "send_channel to channel payload n =
     (case pt_route to (nd_peers n) of
        None \<Rightarrow> n
      | Some rt \<Rightarrow>
          route_send rt \<lparr>fh_type = MT_App, fh_flags = 0, fh_channel = channel_id channel\<rparr> payload n)"

definition send_typed :: "peer_id \<Rightarrow> message_type \<Rightarrow> bytes \<Rightarrow> 'h node \<Rightarrow> 'h node" where
  "send_typed to t payload n =
     (case pt_route to (nd_peers n) of
        None \<Rightarrow> n
      | Some rt \<Rightarrow> route_send rt \<lparr>fh_type = t, fh_flags = 0, fh_channel = 0\<rparr> payload n)"

definition connected_peers :: "'h node \<Rightarrow> peer_id list" where
  "connected_peers n = map pi_id (pt_snapshot (nd_peers n))"

subsection \<open>Advertised and observed addresses\<close>

definition is_unspecified_ip :: "bytes \<Rightarrow> bool" where
  "is_unspecified_ip ip \<longleftrightarrow> ip = [] \<or> ip = str ''0.0.0.0'' \<or> ip = str ''::''"

fun fresh_addresses :: "inet_ops \<Rightarrow> u16 \<Rightarrow> bytes list \<Rightarrow> address list \<Rightarrow> address list" where
  "fresh_addresses os port [] fresh = fresh"
| "fresh_addresses os port (ip # ips) fresh =
     (if is_unspecified_ip ip then fresh_addresses os port ips fresh
      else
        let fresh1 = fresh @ [addr_of_literal os ip port] in
        if length fresh1 \<ge> kMaxAddresses then fresh1 else fresh_addresses os port ips fresh1)"

definition rebuild_advertised_addresses :: "inet_ops \<Rightarrow> bytes list \<Rightarrow> 'h node \<Rightarrow> 'h node" where
  "rebuild_advertised_addresses os local_ips n =
     (let fresh = (if nd_listen_port n \<noteq> 0 then fresh_addresses os (nd_listen_port n) local_ips [] else []) in
      case nd_public n of
        None \<Rightarrow> n\<lparr>nd_advertised := fresh\<rparr>
      | Some p \<Rightarrow>
          if nd_listen_port n \<noteq> 0 \<and> \<not> list_ex (\<lambda>a. ad_ip a = ad_ip p) fresh \<and> length fresh < kMaxAddresses
          then n\<lparr>nd_advertised := fresh @ [p]\<rparr>
          else n\<lparr>nd_advertised := fresh\<rparr>)"

definition add_public_address :: "inet_ops \<Rightarrow> bytes list \<Rightarrow> address \<Rightarrow> 'h node \<Rightarrow> 'h node" where
  "add_public_address os local_ips a n =
     rebuild_advertised_addresses os local_ips (n\<lparr>nd_public := Some a\<rparr>)"

definition record_observed_address :: "address \<Rightarrow> 'h node \<Rightarrow> 'h node" where
  "record_observed_address a n =
     (if a \<in> set (nd_observed n) then n
      else if length (nd_observed n) \<ge> kMaxObserved then n
      else n\<lparr>nd_observed := nd_observed n @ [a]\<rparr>)"

definition public_address :: "'h node \<Rightarrow> address option" where
  "public_address n = (case nd_observed n of [] \<Rightarrow> None | a # _ \<Rightarrow> Some a)"

subsection \<open>The delegate\<close>

definition admit_inbound :: "'h node \<Rightarrow> bool" where
  "admit_inbound n \<longleftrightarrow> nd_max_peers n = 0 \<or> pt_size (nd_peers n) < nd_max_peers n"

definition send_identify :: "conn_view \<Rightarrow> 'h node \<Rightarrow> 'h node" where
  "send_identify c n =
     (let observed =
        (case cv_endpoint c of
           None \<Rightarrow> None
         | Some ep \<Rightarrow> if \<not> is_any (ad_ip ep) \<and> ad_port ep \<noteq> 0 then Some ep else None);
        msg = \<lparr>im_listen_port = nd_listen_port n, im_addresses = nd_advertised n, im_observed = observed\<rparr>
      in nd_emit [N_Send (cv_route c) \<lparr>fh_type = MT_Control, fh_flags = 0, fh_channel = 0\<rparr>
                    (identify_encode msg)] n)"

definition on_established :: "inet_ops \<Rightarrow> conn_view \<Rightarrow> 'h node \<Rightarrow> 'h node" where
  "on_established os c n =
     (if cv_remote_id c = nd_id n then nd_emit [N_Close (cv_route c) LocalClose] n
      else if nd_max_peers n \<noteq> 0 \<and> cv_role c = Inbound \<and> pt_size (nd_peers n) \<ge> nd_max_peers n \<and>
              \<not> pt_contains (cv_remote_id c) (nd_peers n)
      then nd_emit [N_Close (cv_route c) PeerLimit] n
      else
        let addrs = (if cv_dial_port c \<noteq> 0
                     then (case ip_parse os (cv_dial_host c) of
                             None \<Rightarrow> [] | Some ip \<Rightarrow> [\<lparr>ad_ip = ip, ad_port = cv_dial_port c\<rparr>])
                     else []);
            info = \<lparr>pi_id = cv_remote_id c, pi_addresses = addrs, pi_direction = cv_role c,
                    pi_agent_version = []\<rparr>;
            ((res, close), t) = pt_add info (cv_route c) (pid_less (nd_id n) (cv_remote_id c)) (nd_peers n);
            n1 = nd_emit (case close of None \<Rightarrow> [] | Some loser \<Rightarrow> [N_Close loser DuplicateConn])
                   (n\<lparr>nd_peers := t\<rparr>);
            n2 = (if res = NewPeer then nd_emit [N_Connected (cv_remote_id c) (cv_route c)] n1 else n1)
        in if res \<noteq> Rejected then send_identify c n2 else n2)"

definition identify_candidates :: "conn_view \<Rightarrow> identify_message \<Rightarrow> address list" where
  "identify_candidates c msg =
     (let seen = cv_remote_ip c in
      (case cv_endpoint c of
         None \<Rightarrow> [] | Some ep \<Rightarrow> if ad_port ep \<noteq> 0 \<and> \<not> is_any (ad_ip ep) then [ep] else []) @
      (if im_listen_port msg \<noteq> 0 \<and> \<not> is_any seen
       then [\<lparr>ad_ip = seen, ad_port = im_listen_port msg\<rparr>] else []) @
      filter (\<lambda>a. ad_port a \<noteq> 0 \<and> \<not> is_any (ad_ip a)) (im_addresses msg))"

definition learn_addresses :: "conn_view \<Rightarrow> address list \<Rightarrow> 'h node \<Rightarrow> 'h node" where
  "learn_addresses c candidates n =
     (if candidates = [] then n
      else
        let (added, t) = pt_add_addresses (cv_remote_id c) (cv_route c) candidates (nd_peers n);
            n1 = n\<lparr>nd_peers := t\<rparr>
        in if added = [] then n1 else nd_emit [N_Identified (cv_remote_id c) added] n1)"

definition learn_observed :: "identify_message \<Rightarrow> 'h node \<Rightarrow> 'h node" where
  "learn_observed msg n =
     (case im_observed msg of
        None \<Rightarrow> n
      | Some obs \<Rightarrow>
          if is_any (ad_ip obs) then n
          else
            let public_port = (if ad_port obs \<noteq> 0 then ad_port obs else nd_listen_port n) in
            if public_port \<noteq> 0
            then record_observed_address \<lparr>ad_ip = ad_ip obs, ad_port = public_port\<rparr> n else n)"

definition handle_identify :: "conn_view \<Rightarrow> frame \<Rightarrow> 'h node \<Rightarrow> 'h node" where
  "handle_identify c f n =
     (case identify_decode (fr_payload f) of
        None \<Rightarrow> n
      | Some msg \<Rightarrow> learn_observed msg (learn_addresses c (identify_candidates c msg) n))"

definition on_frame :: "conn_view \<Rightarrow> frame \<Rightarrow> 'h node \<Rightarrow> 'h node" where
  "on_frame c f n =
     (if fh_type (fr_header f) = MT_Control then handle_identify c f n
      else case dispatch (nd_router n) f of
        None \<Rightarrow> n
      | Some (h, payload) \<Rightarrow> nd_emit [N_Handler h (cv_remote_id c) payload] n)"

definition on_closed :: "inet_ops \<Rightarrow> conn_view \<Rightarrow> 'h node \<Rightarrow> 'h node" where
  "on_closed os c n =
     (if is_zero (cv_remote_id c) then
        if cv_role c = Outbound \<and> cv_dial_port c \<noteq> 0
        then nd_emit [N_Dial_Failed (addr_of_literal os (cv_dial_host c) (cv_dial_port c))] n
        else n
      else
        case pt_remove (cv_remote_id c) (cv_route c) (nd_peers n) of
          (False, t) \<Rightarrow> n\<lparr>nd_peers := t\<rparr>
        | (True, t) \<Rightarrow> nd_emit [N_Disconnected (cv_remote_id c)] (n\<lparr>nd_peers := t\<rparr>))"

subsection \<open>Runs of a node\<close>

datatype node_op =
    Op_Established conn_view
  | Op_Frame conn_view frame
  | Op_Closed conn_view
  | Op_Network "bytes list"
  | Op_Public "bytes list" address

definition node_do :: "inet_ops \<Rightarrow> 'h node \<Rightarrow> node_op \<Rightarrow> 'h node" where
  "node_do os n x =
     (case x of
        Op_Established c \<Rightarrow> on_established os c n
      | Op_Frame c f \<Rightarrow> on_frame c f n
      | Op_Closed c \<Rightarrow> on_closed os c n
      | Op_Network ips \<Rightarrow> rebuild_advertised_addresses os ips n
      | Op_Public ips a \<Rightarrow> add_public_address os ips a n)"

definition new_node :: "peer_id \<Rightarrow> nat \<Rightarrow> u16 \<Rightarrow> 'h router \<Rightarrow> 'h node" where
  "new_node pid cap port r =
     \<lparr>nd_id = pid, nd_max_peers = cap, nd_peers = pt_empty, nd_router = r, nd_listen_port = port,
      nd_advertised = [], nd_public = None, nd_observed = [], nd_log = []\<rparr>"

definition report :: "'h node_event \<Rightarrow> (peer_id \<times> bool) list" where
  "report e = (case e of N_Connected p _ \<Rightarrow> [(p, True)] | N_Disconnected p \<Rightarrow> [(p, False)] | _ \<Rightarrow> [])"

definition reports :: "'h node \<Rightarrow> (peer_id \<times> bool) list" where
  "reports n = concat (map report (nd_log n))"

definition node_inv :: "'h node \<Rightarrow> bool" where
  "node_inv n \<longleftrightarrow>
     pt_inv (nd_peers n) \<and> \<not> pt_contains (nd_id n) (nd_peers n) \<and>
     length (nd_observed n) \<le> kMaxObserved \<and> distinct (nd_observed n) \<and>
     length (nd_advertised n) \<le> kMaxAddresses \<and>
     (\<forall>pid. pt.reported pid (nd_peers n, reports n))"

lemma nd_emit_fields [simp]:
  "nd_peers (nd_emit es n) = nd_peers n" "nd_id (nd_emit es n) = nd_id n"
  "nd_observed (nd_emit es n) = nd_observed n" "nd_advertised (nd_emit es n) = nd_advertised n"
  "nd_listen_port (nd_emit es n) = nd_listen_port n" "nd_max_peers (nd_emit es n) = nd_max_peers n"
  "nd_router (nd_emit es n) = nd_router n" "nd_log (nd_emit es n) = nd_log n @ es"
  "reports (nd_emit es n) = reports n @ concat (map report es)"
  by (simp_all add: nd_emit_def reports_def)

lemma report_simps [simp]:
  "report (N_Connected p r) = [(p, True)]" "report (N_Disconnected p) = [(p, False)]"
  "report (N_Close r c) = []" "report (N_Send r h p) = []" "report (N_Identified p as) = []"
  "report (N_Dial_Failed a) = []" "report (N_Handler k p b) = []"
  by (simp_all add: report_def)

lemma reports_peers [simp]: "reports (n\<lparr>nd_peers := t\<rparr>) = reports n"
  by (simp add: reports_def)

lemma send_identify_fields [simp]:
  "nd_peers (send_identify c n) = nd_peers n" "nd_id (send_identify c n) = nd_id n"
  "nd_observed (send_identify c n) = nd_observed n" "nd_advertised (send_identify c n) = nd_advertised n"
  "reports (send_identify c n) = reports n" "nd_max_peers (send_identify c n) = nd_max_peers n"
  by (simp_all add: send_identify_def Let_def)

lemma node_inv_new: "node_inv (new_node pid cap port r)"
  using pt.reported_empty
  by (simp add: node_inv_def new_node_def reports_def pt_contains_def pt_empty_def pt_inv_def)

lemma pt_contains_lookup: "pt_contains pid t \<longleftrightarrow> pt_lookup t pid \<noteq> None"
  by (simp add: pt_contains_def pt_lookup_def pt_route_def)

text \<open>Registering an established peer is one step of the directory's owner.\<close>

definition established_info :: "inet_ops \<Rightarrow> conn_view \<Rightarrow> peer_info" where
  "established_info os c =
     \<lparr>pi_id = cv_remote_id c,
      pi_addresses = (if cv_dial_port c \<noteq> 0
                      then (case ip_parse os (cv_dial_host c) of
                              None \<Rightarrow> [] | Some ip \<Rightarrow> [\<lparr>ad_ip = ip, ad_port = cv_dial_port c\<rparr>])
                      else []),
      pi_direction = cv_role c, pi_agent_version = []\<rparr>"

definition refused :: "conn_view \<Rightarrow> 'h node \<Rightarrow> bool" where
  "refused c n \<longleftrightarrow>
     cv_remote_id c = nd_id n \<or>
     nd_max_peers n \<noteq> 0 \<and> cv_role c = Inbound \<and> pt_size (nd_peers n) \<ge> nd_max_peers n \<and>
       \<not> pt_contains (cv_remote_id c) (nd_peers n)"

lemma on_established_refused:
  assumes "refused c n"
  shows "\<exists>r. on_established os c n = nd_emit [N_Close (cv_route c) r] n"
  using assms by (auto simp: refused_def on_established_def)

lemma on_established_admitted:
  fixes os :: inet_ops
  assumes "\<not> refused c n"
  defines "s \<equiv> link_step pt_add pt_remove (nd_peers n, reports n)
    (Link_Up (established_info os c) (cv_route c) (pid_less (nd_id n) (cv_remote_id c)))"
  shows "nd_peers (on_established os c n) = fst s" "reports (on_established os c n) = snd s"
    "nd_observed (on_established os c n) = nd_observed n" "nd_id (on_established os c n) = nd_id n"
    "nd_advertised (on_established os c n) = nd_advertised n"
    "nd_max_peers (on_established os c n) = nd_max_peers n"
proof -
  obtain res close t where a: "pt_add (established_info os c) (cv_route c)
      (pid_less (nd_id n) (cv_remote_id c)) (nd_peers n) = ((res, close), t)"
    by (metis prod.exhaust)
  have s: "s = (t, if res = NewPeer then reports n @ [(cv_remote_id c, True)] else reports n)"
    by (simp add: s_def link_step_def a) (simp add: established_info_def)
  define m where "m = nd_emit (case close of None \<Rightarrow> [] | Some loser \<Rightarrow> [N_Close loser DuplicateConn])
    (n\<lparr>nd_peers := t\<rparr>)"
  have m: "nd_peers m = t" "reports m = reports n" "nd_observed m = nd_observed n" "nd_id m = nd_id n"
    "nd_advertised m = nd_advertised n" "nd_max_peers m = nd_max_peers n"
    by (cases close; simp add: m_def)+
  have e: "on_established os c n =
      (let m2 = (if res = NewPeer then nd_emit [N_Connected (cv_remote_id c) (cv_route c)] m else m)
       in if res \<noteq> Rejected then send_identify c m2 else m2)"
    using assms(1) a by (auto simp: on_established_def refused_def established_info_def Let_def m_def)
  show "nd_peers (on_established os c n) = fst s" "reports (on_established os c n) = snd s"
    "nd_observed (on_established os c n) = nd_observed n" "nd_id (on_established os c n) = nd_id n"
    "nd_advertised (on_established os c n) = nd_advertised n"
    "nd_max_peers (on_established os c n) = nd_max_peers n"
    by (simp_all add: e s m Let_def)
qed

lemma pt_add_addresses_lookup: "pt_lookup (snd (pt_add_addresses pid rt as t)) = pt_lookup t"
  by (auto simp: pt_add_addresses_def pt_lookup_def pt_route_def fun_eq_iff update_conv' split: option.split prod.split)

lemma on_established_inv:
  assumes "node_inv n"
  shows "node_inv (on_established os c n)"
proof (cases "refused c n")
  case True
  then obtain r where "on_established os c n = nd_emit [N_Close (cv_route c) r] n"
    using on_established_refused by blast
  with assms show ?thesis
    by (simp add: node_inv_def)
next
  case False
  let ?i = "established_info os c"
  let ?x = "Link_Up ?i (cv_route c) (pid_less (nd_id n) (cv_remote_id c))"
  note e = on_established_admitted [OF False, of os]
  have i: "pi_id ?i = cv_remote_id c" "length (pi_addresses ?i) \<le> kMaxAddressesPerPeer"
    by (simp_all add: established_info_def kMaxAddressesPerPeer_def split: option.split)
  have t: "fst (link_step pt_add pt_remove (nd_peers n, reports n) ?x) =
      snd (pt_add ?i (cv_route c) (pid_less (nd_id n) (cv_remote_id c)) (nd_peers n))"
    by (simp add: link_step_def split: prod.split)
  have "pt_lookup (snd (pt_add ?i (cv_route c) p (nd_peers n))) (nd_id n) = None" for p
    using assms False pt.add_new [of "nd_peers n" ?i "cv_route c" p] pt.add_known [of "nd_peers n" ?i _ "cv_route c" p]
    by (cases "pt_lookup (nd_peers n) (cv_remote_id c)")
      (fastforce simp: node_inv_def refused_def i pt_contains_lookup)+
  with assms i pt_add_inv pt.reported_step show ?thesis
    by (simp add: node_inv_def e t pt_contains_lookup del: t) (simp add: t)
qed

lemma on_closed_inv:
  assumes "node_inv n"
  shows "node_inv (on_closed os c n)"
proof (cases "is_zero (cv_remote_id c)")
  case True
  with assms show ?thesis
    by (simp add: on_closed_def node_inv_def)
next
  case False
  obtain gone t where r: "pt_remove (cv_remote_id c) (cv_route c) (nd_peers n) = (gone, t)"
    by (cases "pt_remove (cv_remote_id c) (cv_route c) (nd_peers n)")
  have s: "link_step pt_add pt_remove (nd_peers n, reports n) (Link_Down (cv_remote_id c) (cv_route c)) =
      (t, if gone then reports n @ [(cv_remote_id c, False)] else reports n)"
    by (simp add: link_step_def r)
  have "pt_lookup t (nd_id n) = None"
    using assms pt.remove_current [of "nd_peers n" "cv_remote_id c" "cv_route c"]
      pt.remove_stale [of "nd_peers n" "cv_remote_id c" "cv_route c"] r
    by (cases "pt_lookup (nd_peers n) (cv_remote_id c) = Some (cv_route c)")
      (auto simp: node_inv_def pt_contains_lookup)
  moreover have "pt_inv t"
    using assms pt_remove_inv [of "nd_peers n" "cv_remote_id c" "cv_route c"] r by (simp add: node_inv_def)
  moreover have "pt.reported pid (t, if gone then reports n @ [(cv_remote_id c, False)] else reports n)" for pid
    using pt.reported_step [of pid "(nd_peers n, reports n)"] assms s by (metis node_inv_def)
  ultimately show ?thesis
    using assms False r by (cases gone) (simp_all add: on_closed_def node_inv_def pt_contains_lookup)
qed

lemma record_observed_inv: "node_inv n \<Longrightarrow> node_inv (record_observed_address a n)"
  by (auto simp: record_observed_address_def node_inv_def reports_def)

lemma learn_addresses_inv:
  fixes n :: "'h node"
  assumes "node_inv n"
  shows "node_inv (learn_addresses c as n)"
proof -
  have "node_inv (n\<lparr>nd_peers := snd (pt_add_addresses pid rt as (nd_peers n))\<rparr>)" for pid rt as
    using assms pt_add_addresses_lookup [of pid rt as "nd_peers n"]
    by (simp add: node_inv_def pt_add_addresses_inv pt_contains_lookup pt.reported_def)
  moreover have "node_inv (nd_emit [N_Identified pid as] m)" if "node_inv m" for pid as and m :: "'h node"
    using that by (simp add: node_inv_def)
  ultimately show ?thesis
    using assms by (simp add: learn_addresses_def Let_def split_beta)
qed

lemma handle_identify_inv: "node_inv n \<Longrightarrow> node_inv (handle_identify c f n)"
  by (simp add: handle_identify_def learn_observed_def Let_def record_observed_inv learn_addresses_inv
      split: option.split)

lemma fresh_addresses_bound:
  "length fresh < kMaxAddresses \<Longrightarrow> length (fresh_addresses os port ips fresh) \<le> kMaxAddresses"
  by (induction os port ips fresh rule: fresh_addresses.induct) (auto simp: Let_def)

lemma rebuild_inv: "node_inv n \<Longrightarrow> node_inv (rebuild_advertised_addresses os ips n)"
  using fresh_addresses_bound [of "[]" os "nd_listen_port n" ips]
  by (auto simp: rebuild_advertised_addresses_def node_inv_def reports_def Let_def kMaxAddresses_def
      split: option.split)

lemma node_do_inv:
  assumes "node_inv n"
  shows "node_inv (node_do os n x)"
proof (cases x)
  case (Op_Frame c f)
  then show ?thesis
    using handle_identify_inv [OF assms] assms
    by (simp add: node_do_def on_frame_def node_inv_def split: option.split)
next
  case (Op_Public ips a)
  have "node_inv (n\<lparr>nd_public := Some a\<rparr>)"
    using assms by (simp add: node_inv_def reports_def)
  with Op_Public rebuild_inv show ?thesis
    by (simp add: node_do_def add_public_address_def)
qed (use assms on_established_inv on_closed_inv rebuild_inv in \<open>simp_all add: node_do_def\<close>)

lemma node_run_inv: "node_inv n \<Longrightarrow> node_inv (foldl (node_do os) n xs)"
  by (induction xs arbitrary: n) (simp_all add: node_do_inv)

lemma on_established_size:
  assumes "nd_max_peers n \<noteq> 0" "cv_role c = Inbound"
  shows "pt_size (nd_peers (on_established os c n)) \<le> max (pt_size (nd_peers n)) (nd_max_peers n)"
proof (cases "refused c n")
  case True
  then obtain r where "on_established os c n = nd_emit [N_Close (cv_route c) r] n"
    using on_established_refused by blast
  then show ?thesis by simp
next
  case False
  let ?i = "established_info os c" and ?p = "pid_less (nd_id n) (cv_remote_id c)"
  have "nd_peers (on_established os c n) = snd (pt_add ?i (cv_route c) ?p (nd_peers n))"
    using on_established_admitted(1) [OF False] by (simp add: link_step_def split: prod.split)
  moreover have "pt_size (snd (pt_add ?i (cv_route c) ?p (nd_peers n))) =
      (if pt_contains (cv_remote_id c) (nd_peers n) then pt_size (nd_peers n) else pt_size (nd_peers n) + 1)"
    by (cases rule: pt_add_cases [of "nd_peers n" ?i "cv_route c" ?p])
      (auto simp: pt_size_def pt_contains_def established_info_def)
  ultimately show ?thesis
    using False assms by (auto simp: refused_def)
qed

subsection \<open>Properties\<close>

text \<open>
  C13: over any sequence of connections established, frames received, connections closed and
  network changes, whatever the peers send, the node reports each peer as connected and
  disconnected alternately, connected first, and lists it exactly while the last report was
  connected; it never lists itself; its directory stays consistent; it keeps at most 16
  observed addresses, without duplicates, and advertises at most 32.
\<close>

theorem node_run_safe:
  fixes os :: inet_ops and xs :: "node_op list" and self :: peer_id and cap :: nat and port :: u16
    and r :: "'h router" and pid :: peer_id
  defines "n \<equiv> foldl (node_do os) (new_node self cap port r) xs"
  shows "alternating True (history pid (reports n)) \<and>
    (pt_contains pid (nd_peers n) \<longleftrightarrow> odd (length (history pid (reports n)))) \<and>
    \<not> pt_contains (nd_id n) (nd_peers n) \<and> pt_inv (nd_peers n) \<and>
    length (nd_observed n) \<le> 16 \<and> distinct (nd_observed n) \<and> length (nd_advertised n) \<le> 32"
proof -
  have "node_inv n"
    unfolding n_def by (rule node_run_inv [OF node_inv_new])
  then show ?thesis
    by (auto simp: node_inv_def pt.reported_def pt_contains_lookup kMaxObserved_def kMaxAddresses_def)
qed

text \<open>
  The peer limit holds for inbound connections: establishing one never takes the directory
  above the configured limit, and one that would is refused with a close for that reason and no
  callback. A reconnection of a listed peer and a connection to the node itself do not grow the
  directory either.
\<close>

lemma inbound_peer_limit:
  fixes n :: "'h node"
  assumes "nd_max_peers n \<noteq> 0" "cv_role c = Inbound"
  shows "pt_size (nd_peers (on_established os c n)) \<le> max (pt_size (nd_peers n)) (nd_max_peers n) \<and>
    (if cv_remote_id c \<noteq> nd_id n \<and> nd_max_peers n \<le> pt_size (nd_peers n) \<and>
        \<not> pt_contains (cv_remote_id c) (nd_peers n)
     then on_established os c n = n\<lparr>nd_log := nd_log n @ [N_Close (cv_route c) PeerLimit]\<rparr>
     else True)"
  using on_established_size [OF assms] assms by (simp add: on_established_def nd_emit_def)

text \<open>
  A dial by host name that fails is reported with an address nobody can dial: the report
  carries the unspecified IP instead of the name, so a redial policy cannot match it.
\<close>

lemma hostname_dial_failure:
  fixes n :: "'h node"
  assumes "is_zero (cv_remote_id c)" "cv_role c = Outbound" "cv_dial_port c \<noteq> 0"
    and "ip_parse os (cv_dial_host c) = None"
  shows "\<exists>a. on_closed os c n = n\<lparr>nd_log := nd_log n @ [N_Dial_Failed a]\<rparr> \<and> \<not> addr_is_valid a"
  using assms
  by (intro exI [of _ "addr_of_literal os (cv_dial_host c) (cv_dial_port c)"])
    (simp add: on_closed_def nd_emit_def addr_of_literal_def addr_is_valid_def is_unspecified_def ip_none_def)

end
