(* ===== verification/Reactor.thy ===== *)
theory Reactor
  imports Connection_Safety Timer_Queue
begin

text \<open>
  One reactor (\<open>src/librats/transport/reactor.h\<close> and \<open>.cpp\<close>): the connections it owns, keyed by
  socket, the map from connection handles to sockets, deferred teardown, timers, and the order
  of one iteration of its loop. Sockets are the numbers the kernel returns, which it reuses once
  closed. The connections are those of the connection theory; what a call on a connection asks
  of the reactor is read off the end of its log. The delegate's reaction to what the reactor
  reports, on other connections of the same reactor, is any function of the reports so far.
\<close>

subsection \<open>State\<close>

datatype reactor_timer = Establish_Timer nat | Maintenance_Timer

datatype reactor_report = Report_Call nat conn_event | Report_Closed nat close_reason

datatype reactor_act = Act_Close nat close_reason | Act_Send nat frame_header bytes

record ('h, 's) slot =
  sl_id :: nat
  sl_conn :: "('h, 's) connection"

record ('h, 's) reactor =
  rt_conns :: "(nat \<times> ('h, 's) slot) list"
  rt_ids :: "(nat \<times> nat) list"
  rt_pending :: "(nat \<times> close_reason) list"
  rt_next_id :: nat
  rt_count :: nat
  rt_timers :: "reactor_timer timer_queue"
  rt_reports :: "reactor_report list"

record ('h, 's) reactor_env =
  re_conn :: "('h, 's) conn_env"
  re_react :: "reactor_report list \<Rightarrow> reactor_act list"

definition kMaxPollMs :: nat where "kMaxPollMs = 50"
definition kEstablishTimeout :: nat where "kEstablishTimeout = 15000 * ns_per_ms"
definition kMaintenanceInterval :: nat where "kMaintenanceInterval = 10000 * ns_per_ms"

definition new_reactor :: "nat \<Rightarrow> ('h, 's) reactor" where
  "new_reactor now =
     \<lparr>rt_conns = [], rt_ids = [], rt_pending = [], rt_next_id = 1, rt_count = 0,
      rt_timers = snd (schedule now kMaintenanceInterval Maintenance_Timer tq_empty), rt_reports = []\<rparr>"

definition rt_find :: "nat \<Rightarrow> ('h, 's) reactor \<Rightarrow> ('h, 's) slot option" where
  "rt_find cid r =
     (case map_of (rt_ids r) cid of
        None \<Rightarrow> None
      | Some sock \<Rightarrow> map_of (rt_conns r) sock)"

subsection \<open>Closing and calling connections\<close>

definition mark_for_close :: "nat \<Rightarrow> close_reason \<Rightarrow> ('h, 's) reactor \<Rightarrow> ('h, 's) reactor" where
  "mark_for_close sock reason r =
     (if map_of (rt_pending r) sock = None
      then r\<lparr>rt_pending := rt_pending r @ [(sock, reason)]\<rparr> else r)"

definition rt_close :: "nat \<Rightarrow> close_reason \<Rightarrow> ('h, 's) reactor \<Rightarrow> ('h, 's) reactor" where
  "rt_close cid reason r =
     (case map_of (rt_ids r) cid of
        None \<Rightarrow> r
      | Some sock \<Rightarrow> mark_for_close sock reason r)"

definition set_conn :: "nat \<Rightarrow> ('h, 's) connection \<Rightarrow> ('h, 's) reactor \<Rightarrow> ('h, 's) reactor" where
  "set_conn sock c r =
     (case map_of (rt_conns r) sock of
        None \<Rightarrow> r
      | Some s \<Rightarrow> r\<lparr>rt_conns := AList.update sock (s\<lparr>sl_conn := c\<rparr>) (rt_conns r)\<rparr>)"

text \<open>The reactor's side of the calls a connection made while it ran.\<close>

definition serve :: "nat \<Rightarrow> ('h, 's) reactor \<Rightarrow> conn_event \<Rightarrow> ('h, 's) reactor" where
  "serve sock r e =
     (case e of
        Close_Ev reason \<Rightarrow> mark_for_close sock reason r
      | Cancel_Ev t \<Rightarrow> r\<lparr>rt_timers := cancel t (rt_timers r)\<rparr>
      | _ \<Rightarrow> r)"

text \<open>Store a connection after a call on it, and serve what it asked for.\<close>

definition put_back :: "nat \<Rightarrow> ('h, 's) connection \<Rightarrow> ('h, 's) connection \<Rightarrow> ('h, 's) reactor \<Rightarrow> ('h, 's) reactor" where
  "put_back sock old new r =
     foldl (serve sock) (set_conn sock new r) (drop (length (cn_log old)) (cn_log new))"

definition send_to :: "('h, 's) reactor_env \<Rightarrow> nat \<Rightarrow> frame_header \<Rightarrow> bytes \<Rightarrow> ('h, 's) reactor \<Rightarrow> ('h, 's) reactor" where
  "send_to env cid h p r =
     (case map_of (rt_ids r) cid of
        None \<Rightarrow> r
      | Some sock \<Rightarrow>
          (case map_of (rt_conns r) sock of
             None \<Rightarrow> r
           | Some s \<Rightarrow> put_back sock (sl_conn s) (send (re_conn env) h p (sl_conn s)) r))"

definition rt_act :: "('h, 's) reactor_env \<Rightarrow> ('h, 's) reactor \<Rightarrow> reactor_act \<Rightarrow> ('h, 's) reactor" where
  "rt_act env r a =
     (case a of
        Act_Close cid reason \<Rightarrow> rt_close cid reason r
      | Act_Send cid h p \<Rightarrow> send_to env cid h p r)"

text \<open>Tell the delegate, and carry out what it does inline.\<close>

definition report_to :: "('h, 's) reactor_env \<Rightarrow> ('h, 's) reactor \<Rightarrow> reactor_report \<Rightarrow> ('h, 's) reactor" where
  "report_to env r e =
     (let r1 = r\<lparr>rt_reports := rt_reports r @ [e]\<rparr> in
      foldl (rt_act env) r1 (re_react env (rt_reports r1)))"

definition new_calls :: "nat \<Rightarrow> ('h, 's) connection \<Rightarrow> ('h, 's) connection \<Rightarrow> reactor_report list" where
  "new_calls cid old new =
     map (Report_Call cid) (filter is_call (drop (length (cn_log old)) (cn_log new)))"

definition after_call ::
  "('h, 's) reactor_env \<Rightarrow> nat \<Rightarrow> nat \<Rightarrow> ('h, 's) connection \<Rightarrow> ('h, 's) connection \<Rightarrow> ('h, 's) reactor \<Rightarrow> ('h, 's) reactor" where
  "after_call env sock cid old new r = foldl (report_to env) (put_back sock old new r) (new_calls cid old new)"

definition broadcast :: "('h, 's) reactor_env \<Rightarrow> frame_header \<Rightarrow> bytes \<Rightarrow> ('h, 's) reactor \<Rightarrow> ('h, 's) reactor" where
  "broadcast env h p r =
     foldl (\<lambda>r (sock, s).
         if cn_state (sl_conn s) = Established
         then put_back sock (sl_conn s) (send (re_conn env) h p (sl_conn s)) r else r)
       r (rt_conns r)"

subsection \<open>Adopting sockets\<close>

text \<open>
  The maps are filled with \<open>emplace\<close>, which keeps an entry that is already there. The kernel
  does not return a descriptor that is open, so on a run \<open>sock\<close> is not a key.
\<close>

definition emplace :: "'k \<Rightarrow> 'v \<Rightarrow> ('k \<times> 'v) list \<Rightarrow> ('k \<times> 'v) list" where
  "emplace k v xs = (if map_of xs k = None then xs @ [(k, v)] else xs)"

definition adopt :: "nat \<Rightarrow> conn_role \<Rightarrow> nat \<Rightarrow> ('h, 's) reactor \<Rightarrow> ('h, 's) reactor" where
  "adopt sock role now r =
     (let cid = rt_next_id r;
          (timer, q) = schedule now kEstablishTimeout (Establish_Timer sock) (rt_timers r);
          c = set_establish_timer timer (new_connection role)
      in r\<lparr>rt_next_id := cid + 1, rt_timers := q,
           rt_conns := emplace sock \<lparr>sl_id = cid, sl_conn = c\<rparr> (rt_conns r),
           rt_ids := emplace cid sock (rt_ids r),
           rt_count := rt_count r + 1\<rparr>)"

definition rt_connect :: "bytes \<Rightarrow> u16 \<Rightarrow> nat option \<Rightarrow> nat \<Rightarrow> ('h, 's) reactor \<Rightarrow> ('h, 's) reactor" where
  "rt_connect host port started now r =
     (case started of
        None \<Rightarrow> r
      | Some sock \<Rightarrow>
          let r1 = adopt sock Outbound now r in
          (case map_of (rt_conns r1) sock of
             None \<Rightarrow> r1
           | Some s \<Rightarrow> set_conn sock (set_dial_address host port (sl_conn s)) r1))"

definition accept_one :: "('h, 's) reactor_env \<Rightarrow> nat \<Rightarrow> ('h, 's) reactor \<Rightarrow> nat \<times> bool \<Rightarrow> ('h, 's) reactor" where
  "accept_one env now r x =
     (case x of (sock, admitted) \<Rightarrow>
        if \<not> admitted then r
        else
          let r1 = adopt sock Inbound now r in
          (case map_of (rt_conns r1) sock of
             None \<Rightarrow> r1
           | Some s \<Rightarrow>
               after_call env sock (sl_id s) (sl_conn s) (start_handshake (re_conn env) (sl_conn s)) r1))"

definition do_accept :: "('h, 's) reactor_env \<Rightarrow> nat \<Rightarrow> (nat \<times> bool) list \<Rightarrow> ('h, 's) reactor \<Rightarrow> ('h, 's) reactor" where
  "do_accept env now accepted r = foldl (accept_one env now) r accepted"

subsection \<open>Events, timers and teardown\<close>

text \<open>
  A poller event on a connection's socket, with the results of the socket calls the handler
  will make; an event on the listening socket, with the sockets accepted.
\<close>

datatype rt_event =
    Conn_Event nat bool bool bool int "recv_result list" "send_result list"
  | Accept_Event "(nat \<times> bool) list"
  | Wakeup_Event

definition handle_event :: "('h, 's) reactor_env \<Rightarrow> nat \<Rightarrow> ('h, 's) reactor \<Rightarrow> rt_event \<Rightarrow> ('h, 's) reactor" where
  "handle_event env now r ev =
     (case ev of
        Wakeup_Event \<Rightarrow> r
      | Accept_Event accepted \<Rightarrow> do_accept env now accepted r
      | Conn_Event sock err rd wr connect_result rs ws \<Rightarrow>
          (case map_of (rt_conns r) sock of
             None \<Rightarrow> r
           | Some s \<Rightarrow>
               let old = (sl_conn s)\<lparr>cn_rd := rs, cn_wr := ws\<rparr>;
                   (keep, new) = poll_event (re_conn env) err rd wr connect_result old;
                   r1 = after_call env sock (sl_id s) old new r
               in if keep then r1 else mark_for_close sock (cn_reason new) r1))"

definition maintain :: "('h, 's) reactor \<Rightarrow> ('h, 's) reactor" where
  "maintain r =
     r\<lparr>rt_conns := map (\<lambda>(sock, s). (sock, s\<lparr>sl_conn := on_maintenance_tick (sl_conn s)\<rparr>)) (rt_conns r)\<rparr>"

definition reap :: "nat \<Rightarrow> ('h, 's) reactor \<Rightarrow> ('h, 's) reactor" where
  "reap sock r =
     (case map_of (rt_conns r) sock of
        None \<Rightarrow> r
      | Some s \<Rightarrow>
          let st = cn_state (sl_conn s) in
          if st \<noteq> Established \<and> st \<noteq> Closing \<and> st \<noteq> Closed
          then mark_for_close sock (if st = Connecting then ConnectFailed else HandshakeFailed) r
          else r)"

definition fire :: "('h, 's) reactor \<Rightarrow> reactor_timer timer \<Rightarrow> ('h, 's) reactor" where
  "fire r t = (case tm_cb t of Establish_Timer sock \<Rightarrow> reap sock r | Maintenance_Timer \<Rightarrow> maintain r)"

definition timer_acts :: "reactor_timer timer \<Rightarrow> reactor_timer timer_action list" where
  "timer_acts t =
     (case tm_cb t of
        Establish_Timer _ \<Rightarrow> []
      | Maintenance_Timer \<Rightarrow> [Schedule kMaintenanceInterval Maintenance_Timer])"

definition run_timers :: "nat \<Rightarrow> ('h, 's) reactor \<Rightarrow> ('h, 's) reactor" where
  "run_timers now r =
     (case run_due timer_acts (\<lambda>_. now) now (Suc (length (tq_heap (rt_timers r)))) (rt_timers r) of
        None \<Rightarrow> r
      | Some (q, fired) \<Rightarrow> foldl fire (r\<lparr>rt_timers := q\<rparr>) fired)"

definition rt_remove :: "('h, 's) reactor_env \<Rightarrow> ('h, 's) reactor \<Rightarrow> nat \<times> close_reason \<Rightarrow> ('h, 's) reactor" where
  "rt_remove env r x =
     (case x of (sock, reason) \<Rightarrow>
       (case map_of (rt_conns r) sock of
          None \<Rightarrow> r
        | Some s \<Rightarrow>
            let t = cn_timer (sl_conn s);
                r1 = r\<lparr>rt_conns := AList.delete sock (rt_conns r),
                       rt_ids := AList.delete (sl_id s) (rt_ids r),
                       rt_timers := (if t \<noteq> kInvalidTimerId then cancel t (rt_timers r) else rt_timers r),
                       rt_count := rt_count r - 1\<rparr>
            in report_to env r1 (Report_Closed (sl_id s) reason)))"

definition process_pending_close :: "('h, 's) reactor_env \<Rightarrow> ('h, 's) reactor \<Rightarrow> ('h, 's) reactor" where
  "process_pending_close env r =
     (if rt_pending r = [] then r
      else foldl (rt_remove env) (r\<lparr>rt_pending := []\<rparr>) (rt_pending r))"

definition shutdown_connections :: "('h, 's) reactor_env \<Rightarrow> ('h, 's) reactor \<Rightarrow> ('h, 's) reactor" where
  "shutdown_connections env r =
     (let r1 = foldl (report_to env) r
                 (map (\<lambda>(sock, s). Report_Closed (sl_id s) ReactorShutdown) (rt_conns r))
      in r1\<lparr>rt_conns := [], rt_ids := [], rt_pending := [], rt_count := 0\<rparr>)"

subsection \<open>The loop\<close>

datatype rt_task =
    Task_Connect bytes u16 "nat option"
  | Task_Close nat close_reason
  | Task_Broadcast frame_header bytes
  | Task_Send nat frame_header bytes

definition run_task :: "('h, 's) reactor_env \<Rightarrow> nat \<Rightarrow> ('h, 's) reactor \<Rightarrow> rt_task \<Rightarrow> ('h, 's) reactor" where
  "run_task env now r t =
     (case t of
        Task_Connect host port started \<Rightarrow> rt_connect host port started now r
      | Task_Close cid reason \<Rightarrow> rt_close cid reason r
      | Task_Broadcast h p \<Rightarrow> broadcast env h p r
      | Task_Send cid h p \<Rightarrow> send_to env cid h p r)"

definition drain_tasks :: "('h, 's) reactor_env \<Rightarrow> nat \<Rightarrow> rt_task list \<Rightarrow> ('h, 's) reactor \<Rightarrow> ('h, 's) reactor" where
  "drain_tasks env now ts r = foldl (run_task env now) r ts"

text \<open>One iteration of \<open>Reactor::run\<close>: the tasks drained, the poller's events, the time.\<close>

definition iteration ::
  "('h, 's) reactor_env \<Rightarrow> ('h, 's) reactor \<Rightarrow> nat \<times> rt_task list \<times> rt_event list \<Rightarrow> ('h, 's) reactor" where
  "iteration env r x =
     (case x of (now, tasks, events) \<Rightarrow>
        process_pending_close env
          (run_timers now
            (foldl (handle_event env now) (drain_tasks env now tasks r) events)))"

definition stopped :: "('h, 's) reactor_env \<Rightarrow> nat \<Rightarrow> rt_task list \<Rightarrow> ('h, 's) reactor \<Rightarrow> ('h, 's) reactor" where
  "stopped env now tasks r =
     shutdown_connections env (process_pending_close env (drain_tasks env now tasks r))"

end
