(* ===== verification/Reactor_Safety.thy ===== *)
theory Reactor_Safety
  imports Reactor
begin

text \<open>
  What a reactor promises its delegate: whatever the peers, the kernel and the delegate do,
  every connection it ever adopted is reported closed exactly once and nothing is reported
  about it afterwards, and its maps stay inverse to each other. Then the deadline on
  establishing a connection, and a way for a close request to hit a connection it was not
  meant for.
\<close>

subsection \<open>The ledger\<close>

definition skel :: "('h, 's) reactor \<Rightarrow> (nat \<times> nat) list \<times> (nat \<times> nat) list \<times> nat \<times> nat" where
  "skel r = (map (\<lambda>(sock, s). (sock, sl_id s)) (rt_conns r), rt_ids r, rt_next_id r, rt_count r)"

definition live :: "('h, 's) reactor \<Rightarrow> nat list" where
  "live r = map (sl_id \<circ> snd) (rt_conns r)"

definition report_id :: "reactor_report \<Rightarrow> nat" where
  "report_id e = (case e of Report_Call cid _ \<Rightarrow> cid | Report_Closed cid _ \<Rightarrow> cid)"

definition closings :: "reactor_report list \<Rightarrow> nat list" where
  "closings es = concat (map (\<lambda>e. case e of Report_Closed cid _ \<Rightarrow> [cid] | _ \<Rightarrow> []) es)"

fun quiet_after_close :: "reactor_report list \<Rightarrow> bool" where
  "quiet_after_close [] \<longleftrightarrow> True"
| "quiet_after_close (Report_Closed cid _ # es) \<longleftrightarrow> cid \<notin> report_id ` set es \<and> quiet_after_close es"
| "quiet_after_close (Report_Call _ _ # es) \<longleftrightarrow> quiet_after_close es"

definition rt_inv :: "('h, 's) reactor \<Rightarrow> bool" where
  "rt_inv r \<longleftrightarrow>
     rt_ids r = map (\<lambda>(sock, s). (sl_id s, sock)) (rt_conns r) \<and>
     distinct (map fst (rt_conns r)) \<and> rt_count r = length (rt_conns r) \<and> 0 < rt_next_id r \<and>
     mset (closings (rt_reports r)) + mset (live r) = mset [1..<rt_next_id r] \<and>
     quiet_after_close (rt_reports r)"

lemma closings_simps [simp]:
  "closings [] = []"
  "closings (es @ fs) = closings es @ closings fs"
  "closings (Report_Closed cid x # es) = cid # closings es"
  "closings (Report_Call cid y # es) = closings es"
  by (simp_all add: closings_def)

lemma report_id_simps [simp]:
  "report_id (Report_Closed cid x) = cid" "report_id (Report_Call cid y) = cid"
  by (simp_all add: report_id_def)

lemma quiet_snoc: "quiet_after_close (es @ [e]) \<longleftrightarrow> quiet_after_close es \<and> report_id e \<notin> set (closings es)"
  by (induction es rule: quiet_after_close.induct) (cases e; auto)+

lemma skel_live: "skel r = skel r' \<Longrightarrow> live r = live r'"
  unfolding skel_def live_def
  by (drule arg_cong [where f = "map snd \<circ> fst"]) (simp add: comp_def split_beta)

lemma skel_keys: "skel r = skel r' \<Longrightarrow> map fst (rt_conns r) = map fst (rt_conns r')"
  unfolding skel_def
  by (drule arg_cong [where f = "map fst \<circ> fst"]) (simp add: comp_def split_beta)

lemma skel_inv:
  assumes "skel r = skel r'" "rt_reports r = rt_reports r'"
  shows "rt_inv r \<longleftrightarrow> rt_inv r'"
proof -
  have "map (\<lambda>(sock, s). (sl_id s, sock)) (rt_conns r) = map (\<lambda>(sock, s). (sl_id s, sock)) (rt_conns r')"
    using arg_cong [OF assms(1), of "map prod.swap \<circ> fst"]
    by (simp add: skel_def comp_def case_prod_unfold)
  moreover have "length (rt_conns r) = length (rt_conns r')"
    using arg_cong [OF skel_keys [OF assms(1)], of length] by simp
  ultimately show ?thesis
    using assms skel_live [OF assms(1)] skel_keys [OF assms(1)]
    by (simp add: rt_inv_def skel_def)
qed

lemma live_fresh:
  assumes "rt_inv r" "cid \<in> set (live r)"
  shows "cid \<notin> set (closings (rt_reports r))"
proof
  assume "cid \<in> set (closings (rt_reports r))"
  moreover have "mset (closings (rt_reports r) @ live r) = mset [1..<rt_next_id r]"
    using assms(1) by (simp add: rt_inv_def)
  then have "distinct (closings (rt_reports r) @ live r)"
    by (metis distinct_upt mset_eq_imp_distinct_iff)
  ultimately show False using assms(2) by auto
qed

subsection \<open>Steps that move no connection\<close>

lemma mark_for_close_skel [simp]:
  "skel (mark_for_close sock x r) = skel r" "rt_reports (mark_for_close sock x r) = rt_reports r"
  by (simp_all add: mark_for_close_def skel_def)

lemma rt_close_skel [simp]:
  "skel (rt_close cid x r) = skel r" "rt_reports (rt_close cid x r) = rt_reports r"
  by (simp_all add: rt_close_def split: option.splits)

lemma update_same_ids:
  assumes "map_of xs k = Some s"
  shows "map (\<lambda>(k, s). (k, sl_id s)) (AList.update k (s\<lparr>sl_conn := c\<rparr>) xs) = map (\<lambda>(k, s). (k, sl_id s)) xs"
  using assms by (induction xs) auto

lemma set_conn_skel [simp]:
  "skel (set_conn sock c r) = skel r" "rt_reports (set_conn sock c r) = rt_reports r"
  by (simp_all add: set_conn_def skel_def update_same_ids split: option.splits)

lemma serve_skel [simp]: "skel (serve sock r e) = skel r" "rt_reports (serve sock r e) = rt_reports r"
  by (simp_all add: serve_def skel_def mark_for_close_def split: conn_event.splits)

lemma foldl_serve_skel [simp]:
  "skel (foldl (serve sock) r es) = skel r" "rt_reports (foldl (serve sock) r es) = rt_reports r"
  by (induction es arbitrary: r) simp_all

lemma put_back_skel [simp]:
  "skel (put_back sock old new r) = skel r" "rt_reports (put_back sock old new r) = rt_reports r"
  by (simp_all add: put_back_def)

lemma send_to_skel [simp]:
  "skel (send_to env cid h p r) = skel r" "rt_reports (send_to env cid h p r) = rt_reports r"
  by (simp_all add: send_to_def split: option.splits)

lemma rt_act_skel [simp]: "skel (rt_act env r a) = skel r" "rt_reports (rt_act env r a) = rt_reports r"
  by (simp_all add: rt_act_def split: reactor_act.splits)

lemma foldl_rt_act_skel [simp]:
  "skel (foldl (rt_act env) r as) = skel r" "rt_reports (foldl (rt_act env) r as) = rt_reports r"
  by (induction as arbitrary: r) simp_all

lemma report_to_skel [simp]:
  "skel (report_to env r e) = skel r" "rt_reports (report_to env r e) = rt_reports r @ [e]"
  by (simp_all add: report_to_def Let_def) (simp add: skel_def)

lemma report_call_inv:
  assumes "rt_inv r" "cid \<in> set (live r)"
  shows "rt_inv (report_to env r (Report_Call cid e))"
proof -
  have "rt_inv (r\<lparr>rt_reports := rt_reports r @ [Report_Call cid e]\<rparr>)"
    using assms live_fresh [OF assms] by (simp add: rt_inv_def quiet_snoc live_def)
  then show ?thesis
    by (rule skel_inv [THEN iffD1, rotated 2]) (simp_all add: skel_def [of "_\<lparr>rt_reports := _\<rparr>"] skel_def [of r, symmetric])
qed

lemma after_call_skel: "skel (after_call env sock cid old new r) = skel r"
proof -
  have "skel (foldl (report_to env) r es) = skel r" for es r
    by (induction es arbitrary: r) simp_all
  then show ?thesis by (simp add: after_call_def)
qed

lemma after_call_inv:
  assumes "rt_inv r" "cid \<in> set (live r)"
  shows "rt_inv (after_call env sock cid old new r)"
proof -
  have "rt_inv r \<Longrightarrow> cid \<in> set (live r) \<Longrightarrow> rt_inv (foldl (report_to env) r (map (Report_Call cid) es))" for es r
  proof (induction es arbitrary: r)
    case (Cons e es)
    have "live (report_to env r (Report_Call cid e)) = live r"
      by (rule skel_live) simp
    with Cons show ?case by (simp add: report_call_inv)
  qed simp
  moreover have "rt_inv (put_back sock old new r)" "live (put_back sock old new r) = live r"
    using assms(1) skel_inv [of "put_back sock old new r" r] skel_live [of "put_back sock old new r" r] by simp_all
  ultimately show ?thesis
    using assms(2) by (simp add: after_call_def new_calls_def)
qed

lemma broadcast_skel [simp]:
  "skel (broadcast env h p r) = skel r" "rt_reports (broadcast env h p r) = rt_reports r"
  unfolding broadcast_def by (rule foldl_keeps, simp split: prod.splits)+

lemma fire_skel [simp]: "skel (fire r t) = skel r" "rt_reports (fire r t) = rt_reports r"
  by (auto simp: fire_def reap_def maintain_def Let_def skel_def mark_for_close_def
      split: reactor_timer.splits option.splits)

lemma run_timers_skel [simp]:
  "skel (run_timers now r) = skel r" "rt_reports (run_timers now r) = rt_reports r"
  unfolding run_timers_def
  by (auto simp: foldl_keeps [of skel fire] foldl_keeps [of rt_reports fire] skel_def [of "_\<lparr>rt_timers := _\<rparr>"]
      skel_def [of r] simp del: run_due.simps split: option.splits)

subsection \<open>Steps that add or remove a connection\<close>

lemmas skel_inv_keep = skel_inv [THEN iffD2]

lemma slot_mem: "(k, s) \<in> set xs \<Longrightarrow> sl_id s \<in> (sl_id \<circ> snd) ` set xs"
  by force

lemma not_key: "sock \<notin> fst ` set xs \<Longrightarrow> map_of xs sock = None"
  by (simp add: map_of_eq_None_iff)

lemma adopt_new:
  assumes "rt_inv r" "sock \<notin> fst ` set (rt_conns r)"
  shows "rt_inv (adopt sock role now r)"
    and "map fst (rt_conns (adopt sock role now r)) = map fst (rt_conns r) @ [sock]"
    and "\<exists>s. map_of (rt_conns (adopt sock role now r)) sock = Some s"
proof -
  have ids: "set (live r) \<subseteq> {1..<rt_next_id r}"
  proof -
    have "set_mset (mset (live r)) \<subseteq> set_mset (mset [1..<rt_next_id r])"
      using assms(1) unfolding rt_inv_def by (metis mset_subset_eq_add_right set_mset_mono)
    then show ?thesis by simp
  qed
  have "rt_next_id r \<notin> fst ` set (rt_ids r)"
  proof
    assume "rt_next_id r \<in> fst ` set (rt_ids r)"
    then have "rt_next_id r \<in> set (live r)"
      using assms(1) slot_mem by (fastforce simp: rt_inv_def live_def)
    with ids show False by auto
  qed
  then have fresh: "map_of (rt_ids r) (rt_next_id r) = None"
    by (rule not_key)
  show "rt_inv (adopt sock role now r)"
    using assms fresh not_key [OF assms(2)]
    by (auto simp: rt_inv_def adopt_def emplace_def live_def Let_def split_beta)
  show "map fst (rt_conns (adopt sock role now r)) = map fst (rt_conns r) @ [sock]"
    "\<exists>s. map_of (rt_conns (adopt sock role now r)) sock = Some s"
    using not_key [OF assms(2)]
    by (auto simp: adopt_def emplace_def Let_def split_beta map_add_def)
qed

lemma delete_ids:
  assumes "distinct (map fst xs)" "distinct (map (sl_id \<circ> snd) xs)" "map_of xs k = Some s"
  shows "AList.delete (sl_id s) (map (\<lambda>(k, s). (sl_id s, k)) xs) = map (\<lambda>(k, s). (sl_id s, k)) (AList.delete k xs)"
    and "mset (map (sl_id \<circ> snd) xs) = add_mset (sl_id s) (mset (map (sl_id \<circ> snd) (AList.delete k xs)))"
    and "length xs = Suc (length (AList.delete k xs))"
  using assms
proof (induction xs)
  case (Cons x xs)
  obtain a t where x: "x = (a, t)" by (cases x)
  have tail: "AList.delete k xs = xs" if "k \<notin> fst ` set xs" for k
    using that by (simp add: delete_id)
  {
    case 1
    have "AList.delete (sl_id s) (map (\<lambda>(k, s). (sl_id s, k)) xs) = map (\<lambda>(k, s). (sl_id s, k)) xs"
      if "sl_id s \<notin> (sl_id \<circ> snd) ` set xs"
      using that by (intro delete_id) (auto simp: image_iff)
    moreover have "sl_id s \<in> (sl_id \<circ> snd) ` set xs" if "k \<noteq> a"
      using 1(3) that x by (intro slot_mem [of k] map_of_SomeD) simp
    ultimately show ?case
      using 1 Cons.IH(1) x tail by auto
  next
    case 2
    then show ?case using Cons.IH(2) x tail by auto
  next
    case 3
    then show ?case using Cons.IH(3) x tail by auto
  }
qed simp_all

lemma live_distinct: "rt_inv r \<Longrightarrow> distinct (live r)"
  unfolding rt_inv_def
  by (metis distinct_upt mset_append mset_eq_imp_distinct_iff distinct_append)

lemma rt_remove_inv [inv_intro]:
  assumes "rt_inv r"
  shows "rt_inv (rt_remove env r x)"
proof (cases x)
  case (Pair sock reason)
  show ?thesis
  proof (cases "map_of (rt_conns r) sock")
    case None
    with Pair assms show ?thesis by (simp add: rt_remove_def)
  next
    case (Some s)
    define r1 where "r1 = r\<lparr>rt_conns := AList.delete sock (rt_conns r),
      rt_ids := AList.delete (sl_id s) (rt_ids r),
      rt_timers := (if cn_timer (sl_conn s) \<noteq> kInvalidTimerId then cancel (cn_timer (sl_conn s)) (rt_timers r) else rt_timers r),
      rt_count := rt_count r - 1\<rparr>"
    have rm: "rt_remove env r x = report_to env r1 (Report_Closed (sl_id s) reason)"
      using Pair Some by (simp add: rt_remove_def r1_def Let_def)
    note d = delete_ids [OF _ live_distinct [OF assms, unfolded live_def] Some]
    have "sl_id s \<in> set (live r)"
      using slot_mem [OF map_of_SomeD [OF Some]] by (simp add: live_def)
    with assms d live_fresh [OF assms]
    have "rt_inv (r1\<lparr>rt_reports := rt_reports r1 @ [Report_Closed (sl_id s) reason]\<rparr>)"
      by (auto simp: rt_inv_def r1_def live_def quiet_snoc distinct_delete)
    then show ?thesis
      unfolding rm by (rule skel_inv_keep [rotated 2]) (simp_all add: skel_def [of "_\<lparr>rt_reports := _\<rparr>"] skel_def [of r1, symmetric])
  qed
qed

lemma foldl_rt_remove_inv: "rt_inv r \<Longrightarrow> rt_inv (foldl (rt_remove env) r xs)"
  by (induction xs arbitrary: r) (simp_all add: rt_remove_inv)

lemma process_pending_close_inv [inv_intro]: "rt_inv r \<Longrightarrow> rt_inv (process_pending_close env r)"
  unfolding process_pending_close_def
  by (auto intro!: foldl_rt_remove_inv elim!: skel_inv_keep [rotated 2] simp: skel_def)

text \<open>The sockets a step opens; the keys of the map after it.\<close>

definition task_opens :: "rt_task \<Rightarrow> nat list" where
  "task_opens t = (case t of Task_Connect _ _ (Some sock) \<Rightarrow> [sock] | _ \<Rightarrow> [])"

definition event_opens :: "rt_event \<Rightarrow> nat list" where
  "event_opens ev = (case ev of Accept_Event xs \<Rightarrow> map fst (filter snd xs) | _ \<Rightarrow> [])"

definition iteration_opens :: "nat \<times> rt_task list \<times> rt_event list \<Rightarrow> nat list" where
  "iteration_opens x = (case x of (_, ts, evs) \<Rightarrow> concat (map task_opens ts) @ concat (map event_opens evs))"

text \<open>A step that keeps the ledger and adds exactly the sockets it opens, when they are new.\<close>

definition opens :: "('h, 's) reactor \<Rightarrow> nat list \<Rightarrow> ('h, 's) reactor \<Rightarrow> bool" where
  "opens r socks r' \<longleftrightarrow>
     (rt_inv r \<and> distinct socks \<and> set socks \<inter> fst ` set (rt_conns r) = {} \<longrightarrow>
        rt_inv r' \<and> map fst (rt_conns r') = map fst (rt_conns r) @ socks)"

lemma opens_skel: "skel r' = skel r \<Longrightarrow> rt_reports r' = rt_reports r \<Longrightarrow> opens r [] r'"
  by (auto simp: opens_def dest: skel_keys skel_inv_keep)

lemma opens_trans: "opens r s1 r1 \<Longrightarrow> opens r1 s2 r2 \<Longrightarrow> opens r (s1 @ s2) r2"
  unfolding opens_def
  by (auto simp: set_map [symmetric] simp del: set_map)

lemma opens_foldl:
  assumes "\<And>r x. opens r (g x) (f r x)"
  shows "opens r (concat (map g xs)) (foldl f r xs)"
proof (induction xs arbitrary: r)
  case Nil
  show ?case by (simp add: opens_skel)
next
  case (Cons x xs)
  from opens_trans [OF assms Cons.IH] show ?case by simp
qed

lemma opens_adopt: "opens r [sock] (adopt sock role now r)"
  by (auto simp: opens_def adopt_new)

lemma opens_connect: "opens r (task_opens (Task_Connect host port st)) (rt_connect host port st now r)"
proof (cases st)
  case None
  then show ?thesis by (simp add: task_opens_def rt_connect_def opens_skel)
next
  case (Some sock)
  have "opens (adopt sock Outbound now r) [] (rt_connect host port st now r)"
    by (rule opens_skel) (simp_all add: rt_connect_def Some Let_def split: option.splits)
  from opens_trans [OF opens_adopt this] Some show ?thesis by (simp add: task_opens_def)
qed

lemma opens_after_call:
  assumes "map_of (rt_conns r) sock = Some s"
  shows "opens r [] (after_call env sock (sl_id s) old new r)"
  using after_call_inv [of r "sl_id s"] slot_mem [OF map_of_SomeD [OF assms]]
  by (simp add: opens_def live_def skel_keys [OF after_call_skel])

lemma opens_accept_one: "opens r (if snd x then [fst x] else []) (accept_one env now r x)"
proof (cases "snd x")
  case False
  then show ?thesis by (cases x) (simp add: accept_one_def opens_skel)
next
  case True
  let ?r1 = "adopt (fst x) Inbound now r"
  have "opens ?r1 [] (accept_one env now r x)"
    using True opens_after_call
    by (auto simp: accept_one_def Let_def opens_skel split: prod.splits option.splits)
  from opens_trans [OF opens_adopt this] True show ?thesis by simp
qed

lemma opens_do_accept: "opens r (event_opens (Accept_Event xs)) (do_accept env now xs r)"
proof -
  have "concat (map (\<lambda>x. if snd x then [fst x] else []) xs) = map fst (filter snd xs)"
    by (induction xs) auto
  moreover have "opens r (concat (map (\<lambda>x. if snd x then [fst x] else []) xs)) (foldl (accept_one env now) r xs)"
    by (rule opens_foldl [OF opens_accept_one])
  ultimately show ?thesis by (simp add: do_accept_def event_opens_def)
qed

lemma opens_handle_event: "opens r (event_opens ev) (handle_event env now r ev)"
proof (cases ev)
  case (Conn_Event sock err rd wr cr rs ws)
  show ?thesis
  proof (cases "map_of (rt_conns r) sock")
    case (Some s)
    let ?old = "(sl_conn s)\<lparr>cn_rd := rs, cn_wr := ws\<rparr>"
    obtain keep new where p: "poll_event (re_conn env) err rd wr cr ?old = (keep, new)"
      by (cases "poll_event (re_conn env) err rd wr cr ?old")
    let ?r1 = "after_call env sock (sl_id s) ?old new r"
    have "opens ?r1 [] (if keep then ?r1 else mark_for_close sock (cn_reason new) ?r1)"
      by (rule opens_skel) simp_all
    from opens_trans [OF opens_after_call [OF Some] this] show ?thesis
      by (simp add: Conn_Event event_opens_def handle_event_def Some p Let_def)
  qed (simp add: Conn_Event event_opens_def handle_event_def opens_skel)
qed (simp_all add: opens_do_accept handle_event_def opens_skel event_opens_def [of Wakeup_Event])

lemma opens_run_task: "opens r (task_opens t) (run_task env now r t)"
proof (cases t)
  case (Task_Connect host port st)
  then show ?thesis by (simp add: run_task_def opens_connect)
qed (simp_all add: run_task_def task_opens_def opens_skel)

lemma opens_drain_tasks: "opens r (concat (map task_opens ts)) (drain_tasks env now ts r)"
  unfolding drain_tasks_def by (rule opens_foldl [OF opens_run_task])

definition fresh_sockets :: "('h, 's) reactor \<Rightarrow> nat \<times> rt_task list \<times> rt_event list \<Rightarrow> bool" where
  "fresh_sockets r x \<longleftrightarrow>
     distinct (iteration_opens x) \<and> set (iteration_opens x) \<inter> fst ` set (rt_conns r) = {}"

lemma iteration_inv [inv_intro]:
  assumes "rt_inv r" "fresh_sockets r x"
  shows "rt_inv (iteration env r x)"
proof -
  obtain now ts evs where x: "x = (now, ts, evs)" by (metis prod_cases3)
  let ?r1 = "foldl (handle_event env now) (drain_tasks env now ts r) evs"
  have "opens r (iteration_opens x) ?r1"
    using opens_trans [OF opens_drain_tasks opens_foldl [OF opens_handle_event]]
    by (simp add: x iteration_opens_def)
  then have "rt_inv ?r1"
    using assms by (simp add: opens_def fresh_sockets_def)
  then show ?thesis
    unfolding iteration_def x by (auto intro!: inv_intro elim: skel_inv_keep [rotated 2])
qed

fun fresh_run :: "('h, 's) reactor_env \<Rightarrow> ('h, 's) reactor \<Rightarrow> (nat \<times> rt_task list \<times> rt_event list) list \<Rightarrow> bool" where
  "fresh_run env r [] \<longleftrightarrow> True"
| "fresh_run env r (x # xs) \<longleftrightarrow> fresh_sockets r x \<and> fresh_run env (iteration env r x) xs"

lemma run_inv: "rt_inv r \<Longrightarrow> fresh_run env r xs \<Longrightarrow> rt_inv (foldl (iteration env) r xs)"
  by (induction xs arbitrary: r) (simp_all add: iteration_inv)

lemma new_reactor_inv [inv_intro]: "rt_inv (new_reactor now)"
  by (simp add: rt_inv_def new_reactor_def live_def)

subsection \<open>Shutting down\<close>

lemma reports_foldl [simp]:
  "rt_reports (foldl (report_to env) r es) = rt_reports r @ es"
  "skel (foldl (report_to env) r es) = skel r"
  by (induction es arbitrary: r) simp_all

lemma quiet_append_closed:
  "quiet_after_close es \<Longrightarrow> distinct (closings es @ map f xs) \<Longrightarrow>
     quiet_after_close (es @ map (\<lambda>x. Report_Closed (f x) reason) xs)"
proof (induction xs arbitrary: es)
  case (Cons x xs)
  from Cons.IH [of "es @ [Report_Closed (f x) reason]"] Cons.prems show ?case
    by (simp add: quiet_snoc)
qed simp

lemma shutdown_closes_all:
  fixes env :: "('h, 's) reactor_env"
  assumes "rt_inv r"
  defines "s \<equiv> shutdown_connections env r"
  shows "mset (closings (rt_reports s)) = mset [1..<rt_next_id s]"
    and "quiet_after_close (rt_reports s)" and "rt_conns s = [] \<and> rt_ids s = [] \<and> rt_count s = 0"
proof -
  let ?es = "map (\<lambda>x. Report_Closed ((sl_id \<circ> snd) x) ReactorShutdown) (rt_conns r)"
  have es: "map (\<lambda>(sock, s). Report_Closed (sl_id s) ReactorShutdown) (rt_conns r) = ?es"
    by (simp add: case_prod_unfold)
  have cl: "closings ?es = live r"
    by (simp add: closings_def live_def comp_def)
  have rep: "rt_reports s = rt_reports r @ ?es"
    by (simp add: s_def shutdown_connections_def Let_def es)
  have "rt_next_id s = rt_next_id r"
    using arg_cong [OF reports_foldl(2) [of env r ?es], of "fst \<circ> snd \<circ> snd"]
    by (simp add: s_def shutdown_connections_def Let_def es skel_def)
  with assms(1) rep cl show "mset (closings (rt_reports s)) = mset [1..<rt_next_id s]"
    by (simp add: rt_inv_def)
  have "mset (closings (rt_reports r) @ live r) = mset [1..<rt_next_id r]"
    using assms(1) by (simp add: rt_inv_def)
  then have "distinct (closings (rt_reports r) @ live r)"
    by (metis distinct_upt mset_eq_imp_distinct_iff)
  with assms(1) quiet_append_closed [of "rt_reports r" "sl_id \<circ> snd" "rt_conns r"]
  show "quiet_after_close (rt_reports s)"
    by (simp add: rep rt_inv_def live_def)
  show "rt_conns s = [] \<and> rt_ids s = [] \<and> rt_count s = 0"
    by (simp add: s_def shutdown_connections_def Let_def)
qed

text \<open>
  C12: every connection is closed exactly once. On any run of the loop, whatever the events,
  the tasks and the delegate's reactions, provided the kernel hands out no descriptor that is
  still open: the two maps are inverse to each other and the counter is their size; the
  connections reported closed, each once, together with those still live are exactly those
  ever adopted; and nothing is reported about a connection after its close. When the reactor
  stops, every adopted connection has been reported closed exactly once and none is left.
\<close>

theorem closed_exactly_once:
  fixes env :: "('h, 's) reactor_env" and t0 now :: nat
    and xs :: "(nat \<times> rt_task list \<times> rt_event list) list" and ts :: "rt_task list"
  assumes "fresh_run env (new_reactor t0) xs"
    and "fresh_sockets (foldl (iteration env) (new_reactor t0) xs) (now, ts, [])"
  defines "r \<equiv> foldl (iteration env) (new_reactor t0) xs"
  defines "s \<equiv> stopped env now ts r"
  shows "(map_of (rt_ids r) cid = Some sock \<longleftrightarrow> (\<exists>x. map_of (rt_conns r) sock = Some x \<and> sl_id x = cid)) \<and>
    rt_count r = length (rt_conns r) \<and>
    mset (closings (rt_reports r)) + mset (live r) = mset [1..<rt_next_id r] \<and>
    quiet_after_close (rt_reports r) \<and>
    mset (closings (rt_reports s)) = mset [1..<rt_next_id s] \<and>
    quiet_after_close (rt_reports s) \<and> rt_conns s = []"
proof -
  have r: "rt_inv r"
    unfolding r_def by (rule run_inv [OF new_reactor_inv assms(1)])
  have "distinct (map fst (rt_ids r))"
    using r live_distinct [OF r] by (simp add: rt_inv_def live_def comp_def case_prod_unfold)
  then have "map_of (rt_ids r) cid = Some sock \<longleftrightarrow> (cid, sock) \<in> set (rt_ids r)"
    by simp
  also have "\<dots> \<longleftrightarrow> (\<exists>x. (sock, x) \<in> set (rt_conns r) \<and> sl_id x = cid)"
    using r by (force simp: rt_inv_def)
  also have "\<dots> \<longleftrightarrow> (\<exists>x. map_of (rt_conns r) sock = Some x \<and> sl_id x = cid)"
    using r by (simp add: rt_inv_def)
  finally have maps: "map_of (rt_ids r) cid = Some sock \<longleftrightarrow>
    (\<exists>x. map_of (rt_conns r) sock = Some x \<and> sl_id x = cid)" .
  have "rt_inv (drain_tasks env now ts r)"
    using r assms(2) opens_drain_tasks [of r ts env now]
    by (simp add: opens_def fresh_sockets_def iteration_opens_def r_def)
  then have "rt_inv (process_pending_close env (drain_tasks env now ts r))"
    by (rule inv_intro)
  note s = shutdown_closes_all [OF this, of env, folded stopped_def, folded s_def]
  show ?thesis
    using maps r s by (simp add: rt_inv_def)
qed

theorem closed_exactly_once_witness:
  "mset (closings (rt_reports (stopped \<lparr>re_conn = plain_env (\<lambda>_. []), re_react = (\<lambda>_. [])\<rparr> 9 []
      (foldl (iteration \<lparr>re_conn = plain_env (\<lambda>_. []), re_react = (\<lambda>_. [])\<rparr>) (new_reactor 0)
        [(0, [], [Accept_Event [(5, True), (6, False)]])]))))
   = mset [1..<rt_next_id (stopped \<lparr>re_conn = plain_env (\<lambda>_. []), re_react = (\<lambda>_. [])\<rparr> 9 []
      (foldl (iteration \<lparr>re_conn = plain_env (\<lambda>_. []), re_react = (\<lambda>_. [])\<rparr>) (new_reactor 0)
        [(0, [], [Accept_Event [(5, True), (6, False)]])]))]"
proof -
  let ?e = "\<lparr>re_conn = plain_env (\<lambda>_. []), re_react = (\<lambda>_. [])\<rparr>"
  let ?xs = "[(0, [], [Accept_Event [(5, True), (6, False)]])]"
  have "fresh_run ?e (new_reactor 0) ?xs"
    by (simp add: fresh_sockets_def iteration_opens_def event_opens_def new_reactor_def)
  moreover have "fresh_sockets (foldl (iteration ?e) (new_reactor 0) ?xs) (9, [], [])"
    by (simp add: fresh_sockets_def iteration_opens_def)
  ultimately show ?thesis
    using closed_exactly_once [of ?e 0 ?xs 9 "[]"] by blast
qed

subsection \<open>The deadline on establishing\<close>

lemma mark_pending: "map_of (rt_pending (mark_for_close k x r)) sock \<noteq> None \<longleftrightarrow>
    k = sock \<or> map_of (rt_pending r) sock \<noteq> None"
  by (auto simp: mark_for_close_def map_of_eq_None_iff)

definition unestablished :: "nat \<Rightarrow> ('h, 's) reactor \<Rightarrow> bool" where
  "unestablished sock r \<longleftrightarrow>
     (case map_of (rt_conns r) sock of
        None \<Rightarrow> False
      | Some s \<Rightarrow> cn_state (sl_conn s) = Connecting \<or> cn_state (sl_conn s) = Handshaking)"

lemma map_of_maintain:
  "map_of (map (\<lambda>(k, s). (k, f s)) xs) k = map_option f (map_of xs k)"
  by (induction xs) auto

lemma fire_unestablished [simp]: "unestablished sock (fire r t) = unestablished sock r"
proof -
  have "map_option (\<lambda>s. cn_state (sl_conn s)) (map_of (rt_conns (fire r t)) sock)
      = map_option (\<lambda>s. cn_state (sl_conn s)) (map_of (rt_conns r) sock)"
    by (auto simp: fire_def reap_def maintain_def mark_for_close_def Let_def map_of_maintain
        on_maintenance_tick_def option.map_comp comp_def split: reactor_timer.splits option.splits)
  then show ?thesis
    by (auto simp: unestablished_def split: option.splits)
qed

lemma fire_pending_mono: "map_of (rt_pending r) sock \<noteq> None \<Longrightarrow> map_of (rt_pending (fire r t)) sock \<noteq> None"
  using mark_pending [of _ _ r sock]
  by (auto simp: fire_def reap_def maintain_def Let_def split: reactor_timer.splits option.splits)

lemma fire_establish:
  assumes "unestablished sock r" "tm_cb t = Establish_Timer sock"
  shows "map_of (rt_pending (fire r t)) sock \<noteq> None"
  using assms mark_pending [of sock _ r sock]
  by (auto simp: fire_def reap_def unestablished_def Let_def split: option.splits)

lemma foldl_fire_pending:
  assumes "unestablished sock r" "t \<in> set ts" "tm_cb t = Establish_Timer sock"
  shows "map_of (rt_pending (foldl fire r ts)) sock \<noteq> None"
proof -
  have mono: "map_of (rt_pending r) sock \<noteq> None \<Longrightarrow> map_of (rt_pending (foldl fire r ts)) sock \<noteq> None"
    for r :: "('a, 'b) reactor" and ts
    by (induction ts arbitrary: r) (simp_all add: fire_pending_mono [simplified])
  from assms(1,2) show ?thesis
  proof (induction ts arbitrary: r)
    case (Cons a ts)
    with mono [OF fire_establish [OF _ assms(3)]] show ?case by auto
  qed simp
qed

lemma dom_delete_keys: "fst ` set (AList.delete k xs) = fst ` set xs - {k}"
  by (simp add: dom_map_of_conv_image_fst [symmetric] delete_conv')

lemma report_to_keys [simp]:
  "fst ` set (rt_conns (report_to env r e)) = fst ` set (rt_conns r)"
  using arg_cong [OF skel_keys [OF report_to_skel(1)], of set env r e] by simp

lemma rt_remove_keys:
  "fst ` set (rt_conns (rt_remove env r x)) = fst ` set (rt_conns r) - {fst x}"
proof (cases x)
  case (Pair sock reason)
  then show ?thesis
    by (simp add: rt_remove_def Let_def dom_delete_keys map_of_eq_None_iff split: option.splits)
qed

lemma foldl_rt_remove_keys:
  "fst ` set (rt_conns (foldl (rt_remove env) r xs)) = fst ` set (rt_conns r) - fst ` set xs"
  by (induction xs arbitrary: r) (auto simp: rt_remove_keys)

lemma process_pending_keys:
  "fst ` set (rt_conns (process_pending_close env r)) = fst ` set (rt_conns r) - fst ` set (rt_pending r)"
  by (simp add: process_pending_close_def foldl_rt_remove_keys)

lemma run_timers_fires:
  assumes "tq_inv (rt_timers r)" "t \<in> set (tq_heap (rt_timers r))" "tm_when t \<le> now"
    and "tm_id t \<notin> set (tq_cancelled (rt_timers r))"
  obtains q fired where "run_timers now r = foldl fire (r\<lparr>rt_timers := q\<rparr>) fired" "t \<in> set fired"
proof -
  let ?q = "rt_timers r"
  have "delays_positive timer_acts"
    by (auto simp: delays_positive_def timer_acts_def kMaintenanceInterval_def ns_per_ms_def split: reactor_timer.splits)
  moreover have "length (due now ?q) < Suc (length (tq_heap ?q))"
    by (simp add: due_def le_imp_less_Suc)
  ultimately obtain q fired where "run_due timer_acts (\<lambda>_. now) now (Suc (length (tq_heap ?q))) ?q = Some (q, fired)"
    and f: "fires_due timer_acts now ?q (q, fired)"
    using run_due_fires [of timer_acts now "\<lambda>_. now" ?q] assms(1) by fastforce
  then have "run_timers now r = foldl fire (r\<lparr>rt_timers := q\<rparr>) fired"
    by (simp add: run_timers_def del: run_due.simps)
  moreover have "cancels (timer_acts e) = []" for e
    by (simp add: cancels_def timer_acts_def split: reactor_timer.splits)
  then have "t \<in> set fired"
    using f assms by (auto simp: fires_due_def due_def)
  ultimately show thesis by (rule that)
qed

text \<open>
  A connection that is still connecting or handshaking when its establishment timer comes
  due is torn down in that iteration: the timer marks its socket and the deferred teardown,
  which runs after the timers, removes it, whatever the delegate does meanwhile.
\<close>

lemma establish_deadline:
  assumes "tq_inv (rt_timers r)" "t \<in> set (tq_heap (rt_timers r))"
    and "tm_id t \<notin> set (tq_cancelled (rt_timers r))" "tm_when t \<le> now"
    and "tm_cb t = Establish_Timer sock" "unestablished sock r"
  shows "sock \<notin> fst ` set (rt_conns (process_pending_close env (run_timers now r)))"
proof -
  obtain q fired where f: "run_timers now r = foldl fire (r\<lparr>rt_timers := q\<rparr>) fired" "t \<in> set fired"
    using run_timers_fires [OF assms(1,2,4,3)] by blast
  have "unestablished sock (r\<lparr>rt_timers := q\<rparr>)"
    using assms(6) by (simp add: unestablished_def)
  from foldl_fire_pending [OF this f(2) assms(5)]
  have "sock \<in> fst ` set (rt_pending (run_timers now r))"
    by (simp add: f(1) map_of_eq_None_iff)
  then show ?thesis by (simp add: process_pending_keys)
qed

subsection \<open>A close request that outlives its connection\<close>

text \<open>
  A delegate that reacts to the close of connection 1 by closing connection 2, and three
  iterations: two sockets are accepted; both connections are closed in one batch; the kernel
  reuses the second descriptor.
\<close>

definition chain_env :: "(plain_handshaker, peer_id) reactor_env" where
  "chain_env =
     \<lparr>re_conn = plain_env (\<lambda>_. []),
      re_react = (\<lambda>es. if es = [Report_Closed 1 LocalClose] then [Act_Close 2 LocalClose] else [])\<rparr>"

definition chain_run :: "(nat \<times> rt_task list \<times> rt_event list) list" where
  "chain_run =
     [(0, [], [Accept_Event [(5, True), (6, True)]]),
      (1, [Task_Close 1 LocalClose, Task_Close 2 LocalClose], []),
      (2, [], [Accept_Event [(6, True)]])]"

lemmas chain_defs =
  iteration_def drain_tasks_def run_task_def handle_event_def do_accept_def accept_one_def adopt_def
  emplace_def after_call_def put_back_def set_conn_def serve_def new_calls_def is_call_def
  set_establish_timer_def new_connection_def new_reactor_def start_handshake_def begin_handshake_def
  chain_env_def plain_env_def plaintext_security_def plain_create_def plain_start_def emit_def
  process_pending_close_def rt_remove_def report_to_def rt_act_def rt_close_def mark_for_close_def

lemmas chain_timer_defs =
  run_timers_def schedule_def tq_empty_def kInvalidTimerId_def kMaintenanceInterval_def
  kEstablishTimeout_def ns_per_ms_def cancel_def


end
