(* ===== verification/Sorting.thy ===== *)
theory Sorting
  imports Prelude
begin

text \<open>
  \<open>std::sort\<close> with the program's own comparators, as an insertion sort. The standard requires
  the comparator to be a strict weak order; the locale states that and gives what the callers
  rely on. A comparator that is moreover total on the elements makes the result independent of
  the order of the input.
\<close>

fun insert_by :: "('a \<Rightarrow> 'a \<Rightarrow> bool) \<Rightarrow> 'a \<Rightarrow> 'a list \<Rightarrow> 'a list" where
  "insert_by lt x [] = [x]"
| "insert_by lt x (y # ys) = (if lt y x then y # insert_by lt x ys else x # y # ys)"

definition sort_by :: "('a \<Rightarrow> 'a \<Rightarrow> bool) \<Rightarrow> 'a list \<Rightarrow> 'a list" where
  "sort_by lt xs = foldr (insert_by lt) xs []"

lemma insert_by_cong:
  "(\<And>y. y \<in> set ys \<Longrightarrow> lt y x = lt' y x) \<Longrightarrow> insert_by lt x ys = insert_by lt' x ys"
  by (induction ys) auto

lemma set_insert_by: "set (insert_by lt x ys) = insert x (set ys)"
  by (induction ys) auto

lemma set_sort_by: "set (sort_by lt xs) = set xs"
  unfolding sort_by_def by (induction xs) (simp_all add: set_insert_by)

lemma sort_by_cong:
  "(\<And>a b. a \<in> set xs \<Longrightarrow> b \<in> set xs \<Longrightarrow> lt a b = lt' a b) \<Longrightarrow> sort_by lt xs = sort_by lt' xs"
proof (induction xs)
  case (Cons x xs)
  then have "sort_by lt (x # xs) = insert_by lt x (sort_by lt' xs)"
    by (simp add: sort_by_def)
  also have "\<dots> = insert_by lt' x (sort_by lt' xs)"
    by (rule insert_by_cong) (simp add: set_sort_by Cons.prems)
  finally show ?case by (simp add: sort_by_def)
qed (simp add: sort_by_def)

locale weak_order =
  fixes lt :: "'a \<Rightarrow> 'a \<Rightarrow> bool"
  assumes irrefl: "\<not> lt a a"
    and neg_trans: "\<not> lt a b \<Longrightarrow> \<not> lt b c \<Longrightarrow> \<not> lt a c"
    and asym: "lt a b \<Longrightarrow> \<not> lt b a"
begin

lemma insert_by_mset [simp]: "mset (insert_by lt x xs) = add_mset x (mset xs)"
  by (induction xs) auto

lemma insert_by_set [simp]: "set (insert_by lt x xs) = insert x (set xs)"
  by (induction xs) auto

lemma insert_by_sorted:
  "sorted_wrt (\<lambda>a b. \<not> lt b a) xs \<Longrightarrow> sorted_wrt (\<lambda>a b. \<not> lt b a) (insert_by lt x xs)"
proof (induction xs)
  case (Cons y ys)
  have "\<not> lt z x" if "\<not> lt y x" "z \<in> set ys" for z
    using Cons.prems that neg_trans [of z y x] by simp
  with Cons asym [of y x] show ?case by simp
qed simp

lemma sort_by_mset [simp]: "mset (sort_by lt xs) = mset xs"
  unfolding sort_by_def by (induction xs) auto

lemma sort_by_sorted: "sorted_wrt (\<lambda>a b. \<not> lt b a) (sort_by lt xs)"
  unfolding sort_by_def by (induction xs) (simp_all add: insert_by_sorted)

lemma sort_by_set [simp]: "set (sort_by lt xs) = set xs"
  using sort_by_mset [of xs] by (metis mset_eq_setD)

lemma sort_by_length [simp]: "length (sort_by lt xs) = length xs"
  using sort_by_mset [of xs] by (metis mset_eq_length)

text \<open>What is in the first \<open>n\<close> is never worse than what is left out.\<close>

lemma take_best:
  assumes "x \<in> set (take n (sort_by lt xs))" "y \<in> set xs" "y \<notin> set (take n (sort_by lt xs))"
  shows "\<not> lt y x"
proof -
  let ?s = "sort_by lt xs"
  have "y \<in> set (drop n ?s)"
    using assms(2,3) by (metis Un_iff append_take_drop_id set_append sort_by_set)
  moreover have "sorted_wrt (\<lambda>a b. \<not> lt b a) (take n ?s @ drop n ?s)"
    by (simp add: sort_by_sorted)
  ultimately show ?thesis
    using assms(1) unfolding sorted_wrt_append by blast
qed

text \<open>A list all of whose elements precede another's is sorted ahead of it.\<close>

lemma insert_by_append:
  "(\<And>b. b \<in> set bs \<Longrightarrow> lt x b) \<Longrightarrow> insert_by lt x (as @ bs) = insert_by lt x as @ bs"
  using asym by (induction as) (cases bs; fastforce)+

lemma sort_by_append:
  "(\<And>a b. a \<in> set as \<Longrightarrow> b \<in> set bs \<Longrightarrow> lt a b) \<Longrightarrow> sort_by lt (as @ bs) = sort_by lt as @ sort_by lt bs"
proof (induction as)
  case (Cons x as)
  have "sort_by lt ((x # as) @ bs) = insert_by lt x (sort_by lt (as @ bs))"
    by (simp add: sort_by_def)
  also have "sort_by lt (as @ bs) = sort_by lt as @ sort_by lt bs"
    using Cons by simp
  also have "insert_by lt x \<dots> = insert_by lt x (sort_by lt as) @ sort_by lt bs"
    by (rule insert_by_append) (use Cons.prems in simp)
  finally show ?case by (simp add: sort_by_def)
qed (simp add: sort_by_def)

lemma take_sort_front:
  assumes "\<And>a b. a \<in> set as \<Longrightarrow> b \<in> set bs \<Longrightarrow> lt a b" "n \<le> length as \<or> bs = []"
  shows "take n (sort_by lt (as @ bs)) = take n (sort_by lt as)"
  using assms sort_by_append [of as bs] by (auto simp: sort_by_def [of _ "[]"])

text \<open>On elements no two of which are tied, the result depends only on the elements.\<close>

lemma sorted_unique:
  assumes "sorted_wrt (\<lambda>a b. \<not> lt b a) xs" "sorted_wrt (\<lambda>a b. \<not> lt b a) ys"
    and "mset xs = mset ys" "\<And>a b. a \<in> set xs \<Longrightarrow> b \<in> set xs \<Longrightarrow> a \<noteq> b \<Longrightarrow> lt a b \<or> lt b a"
  shows "xs = ys"
  using assms
proof (induction xs arbitrary: ys)
  case (Cons x xs)
  from Cons.prems(3) obtain y zs where ys: "ys = y # zs" by (cases ys) auto
  have same: "set (x # xs) = set (y # zs)"
    using Cons.prems(3) ys by (metis mset_eq_setD)
  have "x = y"
  proof (rule ccontr)
    assume ne: "x \<noteq> y"
    with same have "y \<in> set xs" "x \<in> set zs" by auto
    with Cons.prems(1,2) ys have "\<not> lt y x" "\<not> lt x y" by auto
    moreover have "lt x y \<or> lt y x"
      using Cons.prems(4) [of x y] \<open>y \<in> set xs\<close> ne by auto
    ultimately show False by blast
  qed
  moreover have "xs = zs"
    by (rule Cons.IH) (use Cons.prems ys \<open>x = y\<close> in auto)
  ultimately show ?case by (simp add: ys)
qed simp

lemma sort_by_perm:
  assumes "mset xs = mset ys" "\<And>a b. a \<in> set xs \<Longrightarrow> b \<in> set xs \<Longrightarrow> a \<noteq> b \<Longrightarrow> lt a b \<or> lt b a"
  shows "sort_by lt xs = sort_by lt ys"
  by (rule sorted_unique) (use assms in \<open>simp_all add: sort_by_sorted\<close>)

end

end
