(* ===== verification/Peer_Book.thy ===== *)
theory Peer_Book
  imports Address Sorting "HOL-Library.Product_Lexorder"
begin

text \<open>
  The persistent history of peers (\<open>src/librats/peer/peer_book.h\<close> and \<open>.cpp\<close>): the records,
  how connections, failures and sightings update them, the ranking, and pruning. Timestamps
  and counters keep their machine widths. \<open>std::sort\<close> is an insertion sort with the code's
  comparator; the order it leaves tied records in is unspecified in C++ and no theorem uses it.
  Reading and writing the file is not modelled here.
\<close>

record peer_record =
  pb_address :: address
  pb_id :: peer_id
  pb_first_seen :: u64
  pb_last_seen :: u64
  pb_last_connected :: u64
  pb_connect_count :: u32
  pb_fail_streak :: u32

type_synonym peer_book = "(address \<times> peer_record) list"

definition pb_blank :: peer_record where
  "pb_blank = \<lparr>pb_address = addr_none, pb_id = pid_zero, pb_first_seen = 0, pb_last_seen = 0,
     pb_last_connected = 0, pb_connect_count = 0, pb_fail_streak = 0\<rparr>"

subsection \<open>Ranking\<close>

definition better :: "peer_record \<Rightarrow> peer_record \<Rightarrow> bool" where
  "better a b =
     (let ca = pb_last_connected a > 0; cb = pb_last_connected b > 0 in
      if ca \<noteq> cb then ca
      else if pb_last_connected a \<noteq> pb_last_connected b then pb_last_connected a > pb_last_connected b
      else if pb_connect_count a \<noteq> pb_connect_count b then pb_connect_count a > pb_connect_count b
      else if pb_fail_streak a \<noteq> pb_fail_streak b then pb_fail_streak a < pb_fail_streak b
      else pb_last_seen a > pb_last_seen b)"

definition is_stale :: "peer_record \<Rightarrow> u64 \<Rightarrow> u64 \<Rightarrow> bool" where
  "is_stale r now max_age \<longleftrightarrow>
     max_age > 0 \<and> pb_last_seen r > 0 \<and> now > pb_last_seen r \<and> now - pb_last_seen r > max_age"

subsection \<open>Operations\<close>

text \<open>\<open>records_[address]\<close>: the record, default-constructed when there is none.\<close>

definition record_at :: "address \<Rightarrow> peer_book \<Rightarrow> peer_record" where
  "record_at a b = (case map_of b a of Some r \<Rightarrow> r | None \<Rightarrow> pb_blank)"

definition note_connected :: "address \<Rightarrow> peer_id \<Rightarrow> u64 \<Rightarrow> peer_book \<Rightarrow> peer_book" where
  "note_connected a i now b =
     (let r = record_at a b in
      AList.update a
        (r\<lparr>pb_first_seen := (if pb_first_seen r = 0 then now else pb_first_seen r),
           pb_address := a,
           pb_id := (if \<not> is_zero i then i else pb_id r),
           pb_last_seen := now,
           pb_last_connected := now,
           pb_connect_count := pb_connect_count r + 1,
           pb_fail_streak := 0\<rparr>) b)"

definition note_failure :: "address \<Rightarrow> peer_book \<Rightarrow> peer_book" where
  "note_failure a b =
     (case map_of b a of
        None \<Rightarrow> b
      | Some r \<Rightarrow> AList.update a (r\<lparr>pb_fail_streak := pb_fail_streak r + 1\<rparr>) b)"

definition note_seen :: "address \<Rightarrow> u64 \<Rightarrow> peer_book \<Rightarrow> peer_book" where
  "note_seen a now b =
     (let r = record_at a b in
      AList.update a
        (r\<lparr>pb_first_seen := (if pb_first_seen r = 0 then now else pb_first_seen r),
           pb_address := a, pb_last_seen := now\<rparr>) b)"

definition pb_remove :: "address \<Rightarrow> peer_book \<Rightarrow> bool \<times> peer_book" where
  "pb_remove a b = (map_of b a \<noteq> None, AList.delete a b)"

definition best :: "nat \<Rightarrow> u64 \<Rightarrow> u64 \<Rightarrow> peer_book \<Rightarrow> address list" where
  "best n now max_age b =
     map pb_address (take n (sort_by better (filter (\<lambda>r. \<not> is_stale r now max_age) (map snd b))))"

definition drop_stale :: "u64 \<Rightarrow> u64 \<Rightarrow> peer_book \<Rightarrow> peer_book" where
  "drop_stale now max_age b =
     (if max_age > 0 then filter (\<lambda>(_, r). \<not> is_stale r now max_age) b else b)"

definition cap_book :: "nat \<Rightarrow> peer_book \<Rightarrow> peer_book" where
  "cap_book max_size b =
     (if max_size > 0 \<and> length b > max_size
      then let keep = map pb_address (take max_size (sort_by better (map snd b))) in
           filter (\<lambda>(a, _). a \<in> set keep) b
      else b)"

definition pb_prune :: "u64 \<Rightarrow> u64 \<Rightarrow> nat \<Rightarrow> peer_book \<Rightarrow> nat \<times> peer_book" where
  "pb_prune now max_age max_size b =
     (let b' = cap_book max_size (drop_stale now max_age b) in (length b - length b', b'))"

definition pb_all :: "peer_book \<Rightarrow> address list" where
  "pb_all b = map (pb_address \<circ> snd) b"

definition pb_records :: "peer_book \<Rightarrow> peer_record list" where
  "pb_records b = map snd b"

subsection \<open>The comparator is a strict weak order\<close>

text \<open>The comparator compares a key lexicographically, the larger key first.\<close>

definition rank_key :: "peer_record \<Rightarrow> int \<times> int \<times> int \<times> int" where
  "rank_key r =
     (uint (pb_last_connected r), uint (pb_connect_count r), - uint (pb_fail_streak r), uint (pb_last_seen r))"

lemma better_key: "better a b \<longleftrightarrow> rank_key b < rank_key a"
proof -
  have "0 \<le> uint (pb_last_connected a)" "0 \<le> uint (pb_last_connected b)" by simp_all
  then show ?thesis
    unfolding better_def Let_def rank_key_def less_prod_simp word_uint_eq_iff word_less_def uint_0_eq
    by (simp split: if_split) linarith
qed

interpretation ranked: weak_order better
  by unfold_locales (auto simp: better_key)

subsection \<open>Invariant\<close>

text \<open>Every record is stored under its own address.\<close>

definition pb_inv :: "peer_book \<Rightarrow> bool" where
  "pb_inv b \<longleftrightarrow> distinct (map fst b) \<and> (\<forall>(a, r) \<in> set b. pb_address r = a)"

lemma pb_inv_nil [inv_intro]: "pb_inv []"
  by (simp add: pb_inv_def)

lemma pb_inv_update: "pb_inv b \<Longrightarrow> pb_address r = a \<Longrightarrow> pb_inv (AList.update a r b)"
  using update_all [of "\<lambda>a r. pb_address r = a" b a r]
  by (simp add: pb_inv_def distinct_update list_all_iff)

lemma pb_inv_blank: "pb_inv b \<Longrightarrow> map_of b a = Some r \<Longrightarrow> pb_address r = a"
  by (auto simp: pb_inv_def dest: map_of_SomeD)

lemma pb_inv_notes [inv_intro]:
  assumes "pb_inv b"
  shows "pb_inv (note_connected a i now b)" "pb_inv (note_seen a now b)" "pb_inv (note_failure a b)"
    "pb_inv (snd (pb_remove a b))"
proof -
  show "pb_inv (note_connected a i now b)" "pb_inv (note_seen a now b)"
    using assms by (simp_all add: note_connected_def note_seen_def Let_def pb_inv_update)
  show "pb_inv (note_failure a b)"
    using assms by (auto simp: note_failure_def pb_inv_blank intro!: pb_inv_update split: option.splits)
  have "distinct (map fst (AList.delete a b))"
    using assms by (simp add: pb_inv_def distinct_delete)
  then show "pb_inv (snd (pb_remove a b))"
    using assms set_delete_subset [of a b] by (auto simp: pb_inv_def pb_remove_def)
qed

lemma pb_inv_filter: "pb_inv b \<Longrightarrow> pb_inv (filter P b)"
  by (auto simp: pb_inv_def distinct_map_filter)

lemma pb_inv_prune_steps [inv_intro]:
  "pb_inv b \<Longrightarrow> pb_inv (drop_stale now age b)" "pb_inv b \<Longrightarrow> pb_inv (cap_book n b)"
  by (simp_all add: drop_stale_def cap_book_def Let_def pb_inv_filter)

subsection \<open>Choosing the best\<close>

lemma drop_stale_set: "set (drop_stale now age b) = {x \<in> set b. \<not> is_stale (snd x) now age}"
  by (auto simp: drop_stale_def is_stale_def)

lemma book_records_distinct:
  assumes "pb_inv b"
  shows "distinct (map snd b)" "inj_on pb_address (snd ` set b)"
proof -
  have "map fst b = map pb_address (map snd b)"
    using assms by (auto simp: pb_inv_def)
  then have "distinct (map pb_address (map snd b))"
    using assms by (metis pb_inv_def)
  then show "distinct (map snd b)" "inj_on pb_address (snd ` set b)"
    unfolding distinct_map by simp_all
qed

text \<open>A record is kept by the cap exactly when it is among the first \<open>n\<close> of the ranking.\<close>

lemma cap_book_kept:
  assumes "pb_inv b" "0 < n" "n < length b"
  shows "snd ` set (cap_book n b) = set (take n (sort_by better (map snd b)))"
    and "length (cap_book n b) = n"
proof -
  let ?top = "take n (sort_by better (map snd b))"
  have sub: "set ?top \<subseteq> snd ` set b"
    using set_take_subset [of n "sort_by better (map snd b)"] by simp
  have mem: "a \<in> pb_address ` set ?top \<longleftrightarrow> r \<in> set ?top" if "(a, r) \<in> set b" for a r
  proof -
    have "pb_address r = a" "r \<in> snd ` set b"
      using that assms(1) by (force simp: pb_inv_def)+
    moreover have "r = x" if "pb_address r = pb_address x" "x \<in> set ?top" for x
      using inj_onD [OF book_records_distinct(2) [OF assms(1)] that(1)] \<open>r \<in> snd ` set b\<close> sub that(2) by blast
    ultimately show ?thesis by auto
  qed
  have cap: "cap_book n b = filter (\<lambda>x. snd x \<in> set ?top) b"
    using assms(2,3) by (simp add: cap_book_def Let_def) (rule filter_cong [OF refl], simp add: mem case_prod_unfold)
  with sub show "snd ` set (cap_book n b) = set ?top" by force
  have "distinct ?top"
    using book_records_distinct(1) [OF assms(1)] ranked.sort_by_mset [of "map snd b"]
    by (metis distinct_take mset_eq_imp_distinct_iff)
  then have "card (set ?top) = n"
    using assms(3) by (simp add: distinct_card)
  moreover have "length (cap_book n b) = card (snd ` set (cap_book n b))"
    using book_records_distinct(1) [OF pb_inv_prune_steps(2) [OF assms(1)], of n]
    by (metis distinct_card length_map set_map)
  ultimately show "length (cap_book n b) = n"
    by (simp add: \<open>snd ` set (cap_book n b) = set ?top\<close>)
qed

subsection \<open>Properties\<close>


definition demo_book :: peer_book where
  "demo_book =
     note_connected \<lparr>ad_ip = from_v4 [10, 0, 0, 1], ad_port = 7\<rparr> pid_zero 50
       (note_seen \<lparr>ad_ip = from_v4 [10, 0, 0, 2], ad_port = 7\<rparr> 60
         (note_seen \<lparr>ad_ip = from_v4 [10, 0, 0, 3], ad_port = 7\<rparr> 9 []))"


end
