(* ===== verification/Reconnection.thy ===== *)
theory Reconnection
  imports Peer_Book
begin

text \<open>
  The reconnection service (\<open>src/librats/subsystems/reconnection.h\<close> and \<open>.cpp\<close>): the targets
  it keeps connected, the events that update them, and one tick of its loop. The steady clock
  is in milliseconds and its readings are arguments, as is the wall clock of the peer book. The
  mutex makes each event and each pass over the targets atomic. The addresses of the live peers
  are an argument of the tick; the dials it asks for are returned and recorded.
\<close>

record rc_config =
  cf_persist_discovered :: bool
  cf_max_targets :: nat
  cf_max_attempts :: nat
  cf_startup_targets :: nat
  cf_archive_max_age :: u64
  cf_base_backoff :: nat
  cf_max_backoff :: nat
  cf_dial_timeout :: nat

record target =
  tg_address :: address
  tg_dialing :: bool
  tg_attempts :: nat
  tg_next_attempt :: nat
  tg_dial_deadline :: nat

record reconnection =
  rc_book :: "peer_book option"
  rc_targets :: "(address \<times> target) list"

definition rc_default :: rc_config where
  "rc_default = \<lparr>cf_persist_discovered = True, cf_max_targets = 1024, cf_max_attempts = 0,
     cf_startup_targets = 32, cf_archive_max_age = 2592000, cf_base_backoff = 1000,
     cf_max_backoff = 60000, cf_dial_timeout = 15000\<rparr>"

definition new_target :: "address \<Rightarrow> nat \<Rightarrow> target" where
  "new_target a now = \<lparr>tg_address = a, tg_dialing = False, tg_attempts = 0, tg_next_attempt = now,
     tg_dial_deadline = 0\<rparr>"

definition mark_connected :: "nat \<Rightarrow> target \<Rightarrow> target" where
  "mark_connected now t = t\<lparr>tg_dialing := False, tg_attempts := 0, tg_next_attempt := now\<rparr>"

subsection \<open>Backoff\<close>

function backoff_loop :: "nat \<Rightarrow> nat \<Rightarrow> nat \<Rightarrow> nat \<Rightarrow> nat" where
  "backoff_loop max_backoff attempts i delay =
     (if i < attempts \<and> delay < max_backoff
      then backoff_loop max_backoff attempts (i + 1) (delay * 2) else delay)"
  by pat_completeness auto
termination by (relation "measure (\<lambda>(_, attempts, i, _). attempts - i)") auto

declare backoff_loop.simps [simp del]

definition backoff_for :: "rc_config \<Rightarrow> nat \<Rightarrow> nat" where
  "backoff_for cfg attempts =
     min (backoff_loop (cf_max_backoff cfg) attempts 1 (cf_base_backoff cfg)) (cf_max_backoff cfg)"

subsection \<open>Events\<close>

definition rc_add :: "rc_config \<Rightarrow> nat \<Rightarrow> u64 \<Rightarrow> address \<Rightarrow> reconnection \<Rightarrow> reconnection" where
  "rc_add cfg now wall a s =
     (if map_of (rc_targets s) a \<noteq> None then s
      else if length (rc_targets s) \<ge> cf_max_targets cfg then s
      else s\<lparr>rc_targets := rc_targets s @ [(a, new_target a now)],
             rc_book := map_option (note_seen a wall) (rc_book s)\<rparr>)"

definition rc_remove :: "address \<Rightarrow> reconnection \<Rightarrow> reconnection" where
  "rc_remove a s =
     s\<lparr>rc_targets := AList.delete a (rc_targets s),
       rc_book := map_option (\<lambda>b. snd (pb_remove a b)) (rc_book s)\<rparr>"

definition known_peers :: "rc_config \<Rightarrow> u64 \<Rightarrow> nat \<Rightarrow> reconnection \<Rightarrow> address list" where
  "known_peers cfg wall n s =
     (case rc_book s of None \<Rightarrow> [] | Some b \<Rightarrow> best n wall (cf_archive_max_age cfg) b)"

fun seed_targets :: "rc_config \<Rightarrow> nat \<Rightarrow> address list \<Rightarrow> (address \<times> target) list \<Rightarrow> (address \<times> target) list" where
  "seed_targets cfg now [] ts = ts"
| "seed_targets cfg now (a # as) ts =
     (if length ts \<ge> cf_max_targets cfg then ts
      else seed_targets cfg now as (if map_of ts a = None then ts @ [(a, new_target a now)] else ts))"

definition rc_start :: "rc_config \<Rightarrow> nat \<Rightarrow> u64 \<Rightarrow> reconnection \<Rightarrow> reconnection" where
  "rc_start cfg now wall s =
     (case rc_book s of
        None \<Rightarrow> s
      | Some b \<Rightarrow>
          s\<lparr>rc_targets := seed_targets cfg now
               (best (cf_startup_targets cfg) wall (cf_archive_max_age cfg) b) (rc_targets s)\<rparr>)"

definition connect_address ::
  "rc_config \<Rightarrow> nat \<Rightarrow> u64 \<Rightarrow> peer_id \<Rightarrow> reconnection \<Rightarrow> address \<Rightarrow> reconnection" where
  "connect_address cfg now wall i s a =
     (let note = map_option (note_connected a i wall) (rc_book s) in
      case map_of (rc_targets s) a of
        Some t \<Rightarrow> s\<lparr>rc_targets := AList.update a (mark_connected now t) (rc_targets s), rc_book := note\<rparr>
      | None \<Rightarrow>
          if \<not> cf_persist_discovered cfg then s
          else if length (rc_targets s) \<ge> cf_max_targets cfg then s
          else s\<lparr>rc_targets := rc_targets s @ [(a, mark_connected now (new_target a 0))], rc_book := note\<rparr>)"

definition on_connected ::
  "rc_config \<Rightarrow> nat \<Rightarrow> u64 \<Rightarrow> peer_id \<Rightarrow> address list \<Rightarrow> reconnection \<Rightarrow> reconnection" where
  "on_connected cfg now wall i as s = foldl (connect_address cfg now wall i) s as"

definition on_dial_failed :: "address \<Rightarrow> reconnection \<Rightarrow> reconnection" where
  "on_dial_failed a s =
     (case map_of (rc_targets s) a of
        None \<Rightarrow> s
      | Some t \<Rightarrow> s\<lparr>rc_targets := AList.update a (t\<lparr>tg_dialing := False\<rparr>) (rc_targets s)\<rparr>)"

subsection \<open>One tick\<close>

datatype verdict = Keep target | Give_Up | Dial target

definition visit :: "rc_config \<Rightarrow> nat \<Rightarrow> bool \<Rightarrow> target \<Rightarrow> verdict" where
  "visit cfg now is_live t =
     (if is_live then Keep (mark_connected now t)
      else if tg_dialing t \<and> now < tg_dial_deadline t then Keep t
      else if tg_next_attempt t > now then Keep t
      else if cf_max_attempts cfg > 0 \<and> tg_attempts t \<ge> cf_max_attempts cfg then Give_Up
      else Dial (t\<lparr>tg_attempts := tg_attempts t + 1, tg_dialing := True,
                   tg_dial_deadline := now + cf_dial_timeout cfg,
                   tg_next_attempt := now + backoff_for cfg (tg_attempts t + 1)\<rparr>))"

fun sweep ::
  "rc_config \<Rightarrow> nat \<Rightarrow> address list \<Rightarrow> (address \<times> target) list \<Rightarrow>
   (address \<times> target) list \<times> address list \<times> address list" where
  "sweep cfg now live_addrs [] = ([], [], [])"
| "sweep cfg now live_addrs ((a, t) # ts) =
     (let (ts', to_dial, gave_up) = sweep cfg now live_addrs ts in
      case visit cfg now (a \<in> set live_addrs) t of
        Keep t' \<Rightarrow> ((a, t') # ts', to_dial, gave_up)
      | Give_Up \<Rightarrow> (ts', to_dial, tg_address t # gave_up)
      | Dial t' \<Rightarrow> ((a, t') # ts', tg_address t # to_dial, gave_up))"

definition tick :: "rc_config \<Rightarrow> nat \<Rightarrow> address list \<Rightarrow> reconnection \<Rightarrow> reconnection \<times> address list" where
  "tick cfg now live_addrs s =
     (case sweep cfg now live_addrs (rc_targets s) of (ts, to_dial, gave_up) \<Rightarrow>
        (s\<lparr>rc_targets := ts, rc_book := map_option (\<lambda>b. foldl (\<lambda>b a. note_failure a b) b gave_up) (rc_book s)\<rparr>,
         to_dial))"

subsection \<open>Runs\<close>

text \<open>
  The events of a run; the log records each dial with its time, its address and the number of
  dials since the target was last connected or added.
\<close>

datatype rc_event =
    Ev_Add nat u64 address
  | Ev_Remove address
  | Ev_Connected nat u64 peer_id "address list"
  | Ev_Dial_Failed address
  | Ev_Tick nat "address list"

type_synonym dial_log = "(nat \<times> address \<times> nat) list"

definition attempts_of :: "address \<Rightarrow> reconnection \<Rightarrow> nat" where
  "attempts_of a s = (case map_of (rc_targets s) a of None \<Rightarrow> 0 | Some t \<Rightarrow> tg_attempts t)"

definition rc_step :: "rc_config \<Rightarrow> reconnection \<times> dial_log \<Rightarrow> rc_event \<Rightarrow> reconnection \<times> dial_log" where
  "rc_step cfg x ev =
     (case x of (s, log) \<Rightarrow>
       (case ev of
          Ev_Add now wall a \<Rightarrow> (rc_add cfg now wall a s, log)
        | Ev_Remove a \<Rightarrow> (rc_remove a s, log)
        | Ev_Connected now wall i as \<Rightarrow> (on_connected cfg now wall i as s, log)
        | Ev_Dial_Failed a \<Rightarrow> (on_dial_failed a s, log)
        | Ev_Tick now live_addrs \<Rightarrow>
            (case tick cfg now live_addrs s of (s', ds) \<Rightarrow>
               (s', log @ map (\<lambda>a. (now, a, attempts_of a s')) ds))))"

definition dials_of :: "address \<Rightarrow> dial_log \<Rightarrow> (nat \<times> nat) list" where
  "dials_of a log = map (\<lambda>(t, _, k). (t, k)) (filter (\<lambda>(_, b, _). b = a) log)"

text \<open>
  How a dial may follow the previous one to the same address: as the first after a success,
  or as the next in the streak once the backoff of the previous one is over.
\<close>

definition spaced :: "rc_config \<Rightarrow> nat \<times> nat \<Rightarrow> nat \<times> nat \<Rightarrow> bool" where
  "spaced cfg x y \<longleftrightarrow> snd y = 1 \<or> snd y = snd x + 1 \<and> fst x + backoff_for cfg (snd x) \<le> fst y"

text \<open>What a target remembers of its last dial.\<close>

definition remembers :: "rc_config \<Rightarrow> (nat \<times> nat) list \<Rightarrow> target \<Rightarrow> bool" where
  "remembers cfg ds t \<longleftrightarrow>
     (tg_attempts t = 0 \<and> \<not> tg_dialing t \<or>
      ds \<noteq> [] \<and> snd (last ds) = tg_attempts t \<and>
      tg_next_attempt t = fst (last ds) + backoff_for cfg (tg_attempts t) \<and>
      tg_dial_deadline t = fst (last ds) + cf_dial_timeout cfg \<and> 0 < tg_attempts t) \<and>
     (0 < cf_max_attempts cfg \<longrightarrow> tg_attempts t \<le> cf_max_attempts cfg)"

definition log_ok :: "rc_config \<Rightarrow> dial_log \<Rightarrow> bool" where
  "log_ok cfg log \<longleftrightarrow>
     (\<forall>a. successively (spaced cfg) (dials_of a log)) \<and>
     (\<forall>(_, _, k) \<in> set log. 0 < k \<and> (0 < cf_max_attempts cfg \<longrightarrow> k \<le> cf_max_attempts cfg))"

definition targets_ok :: "rc_config \<Rightarrow> dial_log \<Rightarrow> (address \<times> target) list \<Rightarrow> bool" where
  "targets_ok cfg log ts \<longleftrightarrow>
     distinct (map fst ts) \<and>
     list_all (\<lambda>(a, t). tg_address t = a \<and> remembers cfg (dials_of a log) t) ts"

definition rc_inv :: "rc_config \<Rightarrow> reconnection \<times> dial_log \<Rightarrow> bool" where
  "rc_inv cfg x \<longleftrightarrow>
     (case x of (s, log) \<Rightarrow>
        targets_ok cfg log (rc_targets s) \<and> log_ok cfg log \<and> length (rc_targets s) \<le> cf_max_targets cfg)"

lemma targets_ok_update:
  assumes "targets_ok cfg log ts" "tg_address t = a" "remembers cfg (dials_of a log) t"
  shows "targets_ok cfg log (AList.update a t ts)"
  using assms update_all [of "\<lambda>a t. tg_address t = a \<and> remembers cfg (dials_of a log) t" ts a t]
  by (simp add: targets_ok_def distinct_update)

lemma targets_ok_get:
  assumes "targets_ok cfg log ts" "map_of ts a = Some t"
  shows "tg_address t = a" "remembers cfg (dials_of a log) t"
  using assms map_of_SomeD [OF assms(2)] by (auto simp: targets_ok_def list_all_iff)

lemma targets_ok_snoc:
  assumes "targets_ok cfg log ts" "map_of ts a = None" "tg_address t = a" "remembers cfg (dials_of a log) t"
  shows "targets_ok cfg log (ts @ [(a, t)])"
  using assms by (auto simp: targets_ok_def map_of_eq_None_iff)

lemma remembers_fresh [simp]:
  "remembers cfg ds (new_target a now)" "remembers cfg ds (mark_connected now t)"
  by (simp_all add: remembers_def new_target_def mark_connected_def)

lemma target_addresses [simp]:
  "tg_address (new_target a now) = a" "tg_address (mark_connected now t) = tg_address t"
  by (simp_all add: new_target_def mark_connected_def)

lemma length_update_some: "map_of xs k = Some v \<Longrightarrow> length (AList.update k w xs) = length xs"
  by (simp add: length_update) (metis domI dom_map_of_conv_image_fst)

lemma rc_add_inv: "rc_inv cfg (s, log) \<Longrightarrow> rc_inv cfg (rc_add cfg now wall a s, log)"
  by (auto simp: rc_inv_def rc_add_def intro: targets_ok_snoc)

lemma rc_remove_inv: "rc_inv cfg (s, log) \<Longrightarrow> rc_inv cfg (rc_remove a s, log)"
  using set_delete_subset [of a "rc_targets s"]
  by (auto simp: rc_inv_def rc_remove_def targets_ok_def list_all_iff distinct_delete
      intro: le_trans [OF length_delete_le])

lemma connect_address_inv:
  "rc_inv cfg (s, log) \<Longrightarrow> rc_inv cfg (connect_address cfg now wall i s a, log)"
  by (auto simp: rc_inv_def connect_address_def Let_def length_update_some
      intro!: targets_ok_update targets_ok_snoc dest: targets_ok_get split: option.splits)

lemma on_connected_inv:
  "rc_inv cfg (s, log) \<Longrightarrow> rc_inv cfg (on_connected cfg now wall i as s, log)"
  unfolding on_connected_def
  by (induction as arbitrary: s) (simp_all add: connect_address_inv)

lemma on_dial_failed_inv: "rc_inv cfg (s, log) \<Longrightarrow> rc_inv cfg (on_dial_failed a s, log)"
proof (cases "map_of (rc_targets s) a")
  case (Some t)
  assume inv: "rc_inv cfg (s, log)"
  then have "targets_ok cfg log (rc_targets s)" by (simp add: rc_inv_def)
  from targets_ok_get [OF this Some]
  have "tg_address (t\<lparr>tg_dialing := False\<rparr>) = a" "remembers cfg (dials_of a log) (t\<lparr>tg_dialing := False\<rparr>)"
    by (auto simp: remembers_def)
  with inv Some show ?thesis
    by (simp add: rc_inv_def on_dial_failed_def targets_ok_update length_update_some)
qed (simp add: on_dial_failed_def)

subsection \<open>The tick\<close>

definition kept :: "verdict \<Rightarrow> target option" where
  "kept v = (case v of Keep t \<Rightarrow> Some t | Dial t \<Rightarrow> Some t | Give_Up \<Rightarrow> None)"

definition is_dial :: "verdict \<Rightarrow> bool" where
  "is_dial v = (case v of Dial _ \<Rightarrow> True | _ \<Rightarrow> False)"

lemma kept_Some: "kept v = Some t \<longleftrightarrow> v = Keep t \<or> v = Dial t"
  by (auto simp: kept_def split: verdict.splits)

lemma is_dial_iff: "is_dial v \<longleftrightarrow> (\<exists>t. v = Dial t)"
  by (auto simp: is_dial_def split: verdict.splits)

lemma sweep_facts:
  assumes "distinct (map fst ts)" "list_all (\<lambda>(a, t). tg_address t = a) ts"
    and "sweep cfg now live_addrs ts = (ts', ds, gs)"
  shows "distinct (map fst ts')" "length ts' \<le> length ts"
    and "set ts' = {(a, t'). \<exists>t. (a, t) \<in> set ts \<and> kept (visit cfg now (a \<in> set live_addrs) t) = Some t'}"
    and "distinct ds"
    and "set ds = {a. \<exists>t. (a, t) \<in> set ts \<and> is_dial (visit cfg now (a \<in> set live_addrs) t)}"
proof -
  have "distinct (map fst ts') \<and> length ts' \<le> length ts \<and>
    set ts' = {(a, t'). \<exists>t. (a, t) \<in> set ts \<and> kept (visit cfg now (a \<in> set live_addrs) t) = Some t'} \<and>
    distinct ds \<and> set ds = {a. \<exists>t. (a, t) \<in> set ts \<and> is_dial (visit cfg now (a \<in> set live_addrs) t)}"
    using assms
  proof (induction ts arbitrary: ts' ds gs)
    case (Cons x ts)
    obtain a t where x: "x = (a, t)" by (cases x)
    obtain us es hs where r: "sweep cfg now live_addrs ts = (us, es, hs)"
      by (metis prod_cases3)
    have "distinct (map fst ts)" "list_all (\<lambda>(a, t). tg_address t = a) ts"
      and a: "a \<notin> fst ` set ts" "tg_address t = a"
      using Cons.prems(1,2) by (auto simp: x)
    note IH = Cons.IH [OF this(1,2) r]
    have out: "a \<notin> fst ` set us" "a \<notin> set es"
      using IH a(1) by force+
    from Cons.prems(3) have "(ts', ds, gs) = (case visit cfg now (a \<in> set live_addrs) t of
        Keep t' \<Rightarrow> ((a, t') # us, es, hs)
      | Give_Up \<Rightarrow> (us, es, a # hs)
      | Dial t' \<Rightarrow> ((a, t') # us, a # es, hs))"
      by (simp add: x r a(2) split: verdict.splits)
    with IH out show ?case
      by (cases "visit cfg now (a \<in> set live_addrs) t") (auto simp: x kept_def is_dial_def)
  qed simp
  then show "distinct (map fst ts')" "length ts' \<le> length ts"
    "set ts' = {(a, t'). \<exists>t. (a, t) \<in> set ts \<and> kept (visit cfg now (a \<in> set live_addrs) t) = Some t'}"
    "distinct ds" "set ds = {a. \<exists>t. (a, t) \<in> set ts \<and> is_dial (visit cfg now (a \<in> set live_addrs) t)}"
    by blast+
qed

lemma dials_of_append:
  "dials_of a (log @ map (\<lambda>b. (now, b, f b)) ds) =
     dials_of a log @ (if a \<in> set ds then [(now, f a)] else [])" if "distinct ds"
  using that by (induction ds arbitrary: log) (auto simp: dials_of_def filter_empty_conv)

text \<open>A dial is the next of the streak, and what the target then remembers is that dial.\<close>

lemma visit_dial:
  assumes "visit cfg now l t = Dial t'" "remembers cfg ds t"
  shows "tg_address t' = tg_address t" "\<not> l" "tg_attempts t' = tg_attempts t + 1"
    "remembers cfg (ds @ [(now, tg_attempts t')]) t'"
    "ds \<noteq> [] \<Longrightarrow> spaced cfg (last ds) (now, tg_attempts t')"
    "0 < cf_max_attempts cfg \<longrightarrow> tg_attempts t' \<le> cf_max_attempts cfg"
  using assms by (auto simp: visit_def remembers_def spaced_def split: if_splits)

lemma visit_keep:
  assumes "visit cfg now l t = Keep t'" "remembers cfg ds t"
  shows "tg_address t' = tg_address t" "remembers cfg ds t'"
  using assms by (auto simp: visit_def mark_connected_def remembers_def split: if_splits)

lemma tick_inv:
  assumes "rc_inv cfg (s, log)" "tick cfg now live_addrs s = (s', ds)"
  shows "rc_inv cfg (s', log @ map (\<lambda>a. (now, a, attempts_of a s')) ds)"
proof -
  let ?log = "log @ map (\<lambda>a. (now, a, attempts_of a s')) ds"
  obtain ts' gs where sw: "sweep cfg now live_addrs (rc_targets s) = (ts', ds, gs)" and ts': "rc_targets s' = ts'"
    using assms(2) by (auto simp: tick_def split: prod.splits)
  have ok: "targets_ok cfg log (rc_targets s)" and lo: "log_ok cfg log"
    using assms(1) by (simp_all add: rc_inv_def)
  have addr: "distinct (map fst (rc_targets s))" "list_all (\<lambda>(a, t). tg_address t = a) (rc_targets s)"
    using ok by (auto simp: targets_ok_def list_all_iff)
  note f = sweep_facts [OF addr sw]
  have was: "tg_address t = a" "remembers cfg (dials_of a log) t" if "(a, t) \<in> set (rc_targets s)" for a t
    using ok that by (auto simp: targets_ok_def list_all_iff)
  have att: "attempts_of a s' = tg_attempts t'" if "(a, t') \<in> set ts'" for a t'
    using that f(1) by (simp add: attempts_of_def ts')
  have dialled: "\<exists>t t'. (a, t) \<in> set (rc_targets s) \<and> visit cfg now (a \<in> set live_addrs) t = Dial t' \<and> (a, t') \<in> set ts'"
    if "a \<in> set ds" for a
    using that unfolding f(3,5) by (auto simp: is_dial_iff kept_Some)
  have "tg_address t' = a \<and> remembers cfg (dials_of a ?log) t'" if m: "(a, t') \<in> set ts'" for a t'
  proof -
    obtain t where t: "(a, t) \<in> set (rc_targets s)" "kept (visit cfg now (a \<in> set live_addrs) t) = Some t'"
      using m f(3) by auto
    have "a \<in> set ds \<longleftrightarrow> is_dial (visit cfg now (a \<in> set live_addrs) t)"
      using t(1) addr(1) unfolding f(5) by (auto dest: eq_key_imp_eq_value)
    with t(2) was [OF t(1)] visit_keep visit_dial(1,4) att [OF m] show ?thesis
      by (auto simp: kept_Some is_dial_iff dials_of_append [OF f(4)])
  qed
  then have "list_all (\<lambda>(a, t). tg_address t = a \<and> remembers cfg (dials_of a ?log) t) ts'"
    by (auto simp: list_all_iff)
  moreover have "successively (spaced cfg) (dials_of a ?log)" for a
  proof (cases "a \<in> set ds")
    case True
    with dialled was visit_dial(5) att lo show ?thesis
      by (fastforce simp: log_ok_def dials_of_append [OF f(4)] successively_append_iff)
  next
    case False
    with lo show ?thesis by (simp add: log_ok_def dials_of_append [OF f(4)])
  qed
  moreover have "0 < attempts_of a s' \<and> (0 < cf_max_attempts cfg \<longrightarrow> attempts_of a s' \<le> cf_max_attempts cfg)"
    if "a \<in> set ds" for a
    using dialled [OF that] was att visit_dial(3,6) by fastforce
  ultimately show ?thesis
    using assms(1) f(1,2) lo by (auto simp: rc_inv_def targets_ok_def ts' log_ok_def)
qed

lemma rc_step_inv: "rc_inv cfg x \<Longrightarrow> rc_inv cfg (rc_step cfg x ev)"
  by (cases x; cases ev)
    (simp_all add: rc_step_def rc_add_inv rc_remove_inv on_connected_inv on_dial_failed_inv tick_inv
      split: prod.split)

lemma rc_run_inv: "rc_inv cfg (foldl (rc_step cfg) (\<lparr>rc_book = b, rc_targets = []\<rparr>, []) evs)"
proof -
  have "rc_inv cfg x \<Longrightarrow> rc_inv cfg (foldl (rc_step cfg) x evs)" for x
    by (induction evs arbitrary: x) (simp_all add: rc_step_inv)
  then show ?thesis by (simp add: rc_inv_def targets_ok_def log_ok_def dials_of_def)
qed

subsection \<open>Backoff in closed form\<close>

lemma backoff_loop_min:
  "i \<le> attempts \<Longrightarrow>
     min (backoff_loop m attempts i d) m = min (d * 2 ^ (attempts - i)) m"
proof (induction m attempts i d rule: backoff_loop.induct)
  case (1 m attempts i d)
  show ?case
  proof (cases "i < attempts \<and> d < m")
    case True
    then have "attempts - i = Suc (attempts - (i + 1))" by arith
    with 1 True show ?thesis
      by (subst backoff_loop.simps) (simp add: mult.assoc)
  next
    case False
    have "i = attempts \<or> m \<le> d \<and> m \<le> d * 2 ^ (attempts - i)"
      using False 1(2) le_trans [of m d "d * 2 ^ (attempts - i)"] by auto
    with False show ?thesis
      by (subst backoff_loop.simps) (auto simp: min_absorb2)
  qed
qed

lemma backoff_closed:
  "0 < attempts \<Longrightarrow> backoff_for cfg attempts = min (cf_base_backoff cfg * 2 ^ (attempts - 1)) (cf_max_backoff cfg)"
  using backoff_loop_min [of 1 attempts "cf_max_backoff cfg"] by (simp add: backoff_for_def)

subsection \<open>Properties\<close>





end
