(* ===== verification/Dht_Id.thy ===== *)
theory Dht_Id
  imports Peer_Id
begin

text \<open>
  The 160-bit Kademlia identifiers of \<open>src/librats/dht/id.h\<close>: the XOR metric, the closeness
  comparator, the common prefix computed a 32-bit word at a time, the bits read out of an
  identifier, and the hexadecimal and wire forms. An identifier is its list of 20 bytes. The
  count of leading zeros is the portable loop of the source, of at most 32 rounds.
\<close>

type_synonym node_id = bytes

definition kIdSize :: nat where "kIdSize = 20"
definition kBucketSize :: nat where "kBucketSize = 8"
definition kBucketCount :: nat where "kBucketCount = kIdSize * 8"

definition id_wf :: "node_id \<Rightarrow> bool" where
  "id_wf i \<longleftrightarrow> length i = kIdSize"

definition xor_distance :: "node_id \<Rightarrow> node_id \<Rightarrow> node_id" where
  "xor_distance a b = map2 (XOR) a b"

fun closer_to :: "node_id \<Rightarrow> node_id \<Rightarrow> node_id \<Rightarrow> bool" where
  "closer_to (a # as) (b # bs) (t # ts) =
     (let da = a XOR t; db = b XOR t in if da \<noteq> db then da < db else closer_to as bs ts)"
| "closer_to _ _ _ = False"

fun clz_loop :: "nat \<Rightarrow> u32 \<Rightarrow> nat" where
  "clz_loop 0 x = 0"
| "clz_loop (Suc fuel) x = (if bit x 31 then 0 else Suc (clz_loop fuel (push_bit 1 x)))"

definition count_leading_zeros32 :: "u32 \<Rightarrow> nat" where
  "count_leading_zeros32 x = clz_loop 32 x"

fun shared_prefix_bits :: "node_id \<Rightarrow> node_id \<Rightarrow> nat" where
  "shared_prefix_bits (a0 # a1 # a2 # a3 # as) (b0 # b1 # b2 # b3 # bs) =
     (let d = push_bit 24 (ucast (a0 XOR b0)) OR push_bit 16 (ucast (a1 XOR b1))
            OR push_bit 8 (ucast (a2 XOR b2)) OR (ucast (a3 XOR b3) :: u32)
      in if d \<noteq> 0 then count_leading_zeros32 d else 32 + shared_prefix_bits as bs)"
| "shared_prefix_bits _ _ = 0"

definition id_bit :: "node_id \<Rightarrow> nat \<Rightarrow> bool" where
  "id_bit i k = bit (i ! (k div 8)) (7 - k mod 8)"

fun bits_loop :: "node_id \<Rightarrow> nat \<Rightarrow> nat \<Rightarrow> nat \<Rightarrow> nat" where
  "bits_loop i k 0 v = v"
| "bits_loop i k (Suc n) v =
     bits_loop i (k + 1) n (2 * v + (if k < kBucketCount \<and> id_bit i k then 1 else 0))"

definition bits_at :: "node_id \<Rightarrow> nat \<Rightarrow> nat \<Rightarrow> nat" where
  "bits_at i start n = bits_loop i start n 0"

definition id_to_hex :: "node_id \<Rightarrow> bytes" where
  "id_to_hex i = concat (map hex_byte i)"

definition id_from_hex :: "bytes \<Rightarrow> node_id" where
  "id_from_hex h =
     (if length h \<noteq> kIdSize * 2 then replicate kIdSize 0
      else case hex_pairs h of None \<Rightarrow> replicate kIdSize 0 | Some i \<Rightarrow> i)"

definition id_from_bytes :: "bytes \<Rightarrow> node_id" where
  "id_from_bytes b = (if length b \<noteq> kIdSize then replicate kIdSize 0 else b)"

subsection \<open>Identifiers as bits\<close>

text \<open>The bits of an identifier, most significant first, and the length of a common prefix.\<close>

definition byte_bits :: "byte \<Rightarrow> bool list" where
  "byte_bits b = map (\<lambda>k. bit b (7 - k)) [0..<8]"

definition id_bits :: "node_id \<Rightarrow> bool list" where
  "id_bits i = concat (map byte_bits i)"

fun lcp :: "'a list \<Rightarrow> 'a list \<Rightarrow> nat" where
  "lcp (x # xs) (y # ys) = (if x = y then Suc (lcp xs ys) else 0)"
| "lcp _ _ = 0"

lemma byte_bits_length [simp]: "length (byte_bits b) = 8"
  by (simp add: byte_bits_def)

lemma id_bits_length [simp]: "length (id_bits i) = 8 * length i"
  by (induction i) (simp_all add: id_bits_def)

lemma byte_bits_inj [simp]: "byte_bits a = byte_bits b \<longleftrightarrow> a = b"
proof
  assume eq: "byte_bits a = byte_bits b"
  show "a = b"
  proof (rule bit_word_eqI)
    fix n assume "n < LENGTH(8)"
    then have "7 - (7 - n) = n" "7 - n < 8" by simp_all
    with arg_cong [OF eq, of "\<lambda>l. l ! (7 - n)"] show "bit a n \<longleftrightarrow> bit b n"
      by (simp add: byte_bits_def)
  qed
qed simp

lemma lcp_le: "lcp xs ys \<le> length xs" "lcp xs ys \<le> length ys"
  by (induction xs ys rule: lcp.induct) auto

lemma lcp_sym: "lcp xs ys = lcp ys xs"
  by (induction xs ys rule: lcp.induct) auto

lemma lcp_agree: "k < lcp xs ys \<Longrightarrow> xs ! k = ys ! k"
  by (induction xs ys arbitrary: k rule: lcp.induct) (auto simp: nth_Cons split: if_splits nat.splits)

lemma lcp_differ: "lcp xs ys < length xs \<Longrightarrow> length xs = length ys \<Longrightarrow> xs ! lcp xs ys \<noteq> ys ! lcp xs ys"
  by (induction xs ys rule: lcp.induct) auto

lemma lcp_eq_length: "length xs = length ys \<Longrightarrow> lcp xs ys = length xs \<longleftrightarrow> xs = ys"
  by (induction xs ys rule: lcp.induct) auto

lemma lcp_ge: "n \<le> length xs \<Longrightarrow> n \<le> length ys \<Longrightarrow> (\<And>k. k < n \<Longrightarrow> xs ! k = ys ! k) \<Longrightarrow> n \<le> lcp xs ys"
proof (induction xs ys arbitrary: n rule: lcp.induct)
  case (1 x xs y ys)
  show ?case
  proof (cases n)
    case (Suc m)
    have "x = y" using 1(4) [of 0] Suc by simp
    moreover have "m \<le> lcp xs ys"
      using 1(1) [OF \<open>x = y\<close>, of m] 1(2,3) 1(4) [of "Suc _"] Suc by simp
    ultimately show ?thesis by (simp add: Suc)
  qed simp
qed auto

lemma lcp_append_same: "length xs = length ys \<Longrightarrow>
    lcp (xs @ us) (ys @ vs) = (if xs = ys then length xs + lcp us vs else lcp xs ys)"
  by (induction xs ys rule: list_induct2) auto

text \<open>Of two identifiers with different common prefixes with a third, one shares it with both.\<close>

lemma lcp_ultra:
  assumes "length s = length a" "length s = length b" "lcp s a < lcp s b"
  shows "lcp a b = lcp s a"
proof -
  let ?n = "lcp s a"
  have n: "?n < length s" using assms(3) lcp_le(1) [of s b] by simp
  have "?n \<le> lcp a b"
    using assms n lcp_agree [of _ s a] lcp_agree [of _ s b] by (intro lcp_ge) auto
  moreover have "a ! ?n \<noteq> b ! ?n"
    using lcp_differ [of s a] lcp_agree [OF assms(3)] n assms by simp
  ultimately show ?thesis
    using lcp_agree [of ?n a b] by (cases "?n < lcp a b") auto
qed

lemma lcpI:
  assumes "\<And>j. j < k \<Longrightarrow> xs ! j = ys ! j" "k < length xs" "k < length ys" "xs ! k \<noteq> ys ! k"
  shows "lcp xs ys = k"
  using lcp_ge [of k xs ys] lcp_agree [of k xs ys] assms by (cases "k < lcp xs ys") auto

lemma id_bits_nth: "k < 8 * length i \<Longrightarrow> id_bits i ! k = id_bit i k"
proof (induction i arbitrary: k)
  case (Cons b i)
  show ?case
  proof (cases "k < 8")
    case True
    then show ?thesis
      by (simp add: id_bits_def id_bit_def nth_append byte_bits_def)
  next
    case False
    then obtain j where j: "k = 8 + j" by (metis le_Suc_ex not_less)
    have "id_bits (b # i) ! k = id_bits i ! j"
      by (simp add: id_bits_def j nth_append)
    also have "\<dots> = id_bit i j" using Cons j by simp
    finally show ?thesis by (simp add: id_bit_def j div_add_self1)
  qed
qed simp

subsection \<open>The word-wise prefix is the bit-wise one\<close>

lemma clz_loop_spec:
  "n \<le> 32 \<Longrightarrow> clz_loop n x \<le> n \<and> (\<forall>j < clz_loop n x. \<not> bit x (31 - j)) \<and>
     (clz_loop n x < n \<longrightarrow> bit x (31 - clz_loop n x))"
proof (induction n arbitrary: x)
  case (Suc n)
  have sh: "bit (push_bit 1 x) (31 - j) \<longleftrightarrow> bit x (31 - Suc j)" if "j < 31" for j
  proof -
    have "bit (push_bit 1 x) (31 - j) \<longleftrightarrow> 1 \<le> 31 - j \<and> possible_bit TYPE(32 word) (31 - j) \<and> bit x (31 - j - 1)"
      by (rule bit_push_bit_iff)
    moreover have "1 \<le> 31 - j" "31 - j < 32" "31 - j - 1 = 31 - Suc j"
      using that by arith+
    ultimately show ?thesis by (simp only: possible_bit_word) simp
  qed
  show ?case
  proof (cases "bit x 31")
    case False
    let ?c = "clz_loop n (push_bit 1 x)"
    have IH: "?c \<le> n" "\<forall>j < ?c. \<not> bit (push_bit 1 x) (31 - j)" "?c < n \<longrightarrow> bit (push_bit 1 x) (31 - ?c)"
      using Suc by auto
    have "\<not> bit x (31 - j)" if "j < Suc ?c" for j
    proof (cases j)
      case (Suc i)
      with that IH(1) Suc.prems sh [of i] IH(2) show ?thesis by simp
    qed (use False in simp)
    with False IH(1,3) Suc.prems sh [of ?c] show ?thesis by auto
  qed simp
qed simp

lemma word_diff_bit:
  assumes "j < 32"
  shows "bit (push_bit 24 (ucast (a0 XOR b0)) OR push_bit 16 (ucast (a1 XOR b1))
            OR push_bit 8 (ucast (a2 XOR b2)) OR (ucast (a3 XOR b3) :: u32)) (31 - j) \<longleftrightarrow>
         id_bits [a0, a1, a2, a3] ! j \<noteq> id_bits [b0, b1, b2, b3] ! j"
proof -
  have nth: "id_bits [w, x, y, z] ! j = id_bit [w, x, y, z] j" for w x y z
    using assms by (intro id_bits_nth) simp
  define q k where "q = j div 8" and "k = j mod 8"
  have j: "j = 8 * q + k" "k < 8" by (simp_all add: q_def k_def)
  then have "q = 0 \<or> q = 1 \<or> q = 2 \<or> q = 3" using assms by linarith
  then show ?thesis
    unfolding nth id_bit_def q_def [symmetric] k_def [symmetric] using j
    by (elim disjE) (auto simp: bit_simps)
qed

lemma shared_prefix_lcp:
  "length a = length b \<Longrightarrow> 4 dvd length a \<Longrightarrow> shared_prefix_bits a b = lcp (id_bits a) (id_bits b)"
proof (induction a b rule: shared_prefix_bits.induct)
  case (1 a0 a1 a2 a3 as b0 b1 b2 b3 bs)
  define d :: u32 where "d = push_bit 24 (ucast (a0 XOR b0)) OR push_bit 16 (ucast (a1 XOR b1))
            OR push_bit 8 (ucast (a2 XOR b2)) OR ucast (a3 XOR b3)"
  let ?A = "id_bits [a0, a1, a2, a3]" and ?B = "id_bits [b0, b1, b2, b3]"
  note bits = word_diff_bit [of _ a0 b0 a1 b1 a2 b2 a3 b3, folded d_def]
  have split: "id_bits (x0 # x1 # x2 # x3 # xs) = id_bits [x0, x1, x2, x3] @ id_bits xs" for x0 x1 x2 x3 xs
    by (simp add: id_bits_def)
  have AB: "?A = ?B \<longleftrightarrow> d = 0"
  proof
    assume "?A = ?B"
    with bits have H: "\<not> bit d (31 - j)" if "j < 32" for j using that by simp
    have "\<not> bit d n" if "n < 32" for n
      using H [of "31 - n"] that by simp
    then show "d = 0" by (intro bit_word_eqI) simp
  qed (use bits in \<open>auto intro!: nth_equalityI\<close>)
  show ?case
  proof (cases "d = 0")
    case True
    have "shared_prefix_bits as bs = lcp (id_bits as) (id_bits bs)"
    proof (rule 1(1) [OF refl])
      show "\<not> (push_bit 24 (ucast (a0 XOR b0)) OR push_bit 16 (ucast (a1 XOR b1))
            OR push_bit 8 (ucast (a2 XOR b2)) OR ucast (a3 XOR b3)) \<noteq> (0 :: u32)"
        using True by (simp add: d_def)
      show "4 dvd length as" using 1(3) by simp presburger
    qed (use 1(2) in simp)
    with True AB show ?thesis
      by (simp add: d_def [symmetric] split [of _ _ _ _ as] split [of _ _ _ _ bs] lcp_append_same)
  next
    case False
    let ?c = "count_leading_zeros32 d"
    have c: "\<forall>j < ?c. \<not> bit d (31 - j)" "?c \<le> 32" "?c < 32 \<longrightarrow> bit d (31 - ?c)"
      using clz_loop_spec [of 32 d] by (auto simp: count_leading_zeros32_def)
    have "?c < 32"
    proof (rule ccontr)
      assume "\<not> ?c < 32"
      with c(1,2) bits have "?A = ?B" by (intro nth_equalityI) auto
      with AB False show False by simp
    qed
    then have "lcp ?A ?B = ?c"
      using c bits by (intro lcpI) auto
    with False AB show ?thesis
      by (simp add: d_def [symmetric] split [of _ _ _ _ as] split [of _ _ _ _ bs] lcp_append_same)
  qed
qed (auto simp: id_bits_def dest: dvd_imp_le)

subsection \<open>Identifiers as numbers\<close>

fun be_value :: "bytes \<Rightarrow> nat" where
  "be_value [] = 0"
| "be_value (b # bs) = unat b * 256 ^ length bs + be_value bs"

fun bits_value :: "bool list \<Rightarrow> nat" where
  "bits_value [] = 0"
| "bits_value (b # bs) = of_bool b * 2 ^ length bs + bits_value bs"

lemma be_value_less: "be_value bs < 256 ^ length bs"
proof (induction bs)
  case (Cons b bs)
  have "unat b + 1 \<le> 256" using unsigned_less [of b, where ?'a = nat] by simp
  have "be_value (b # bs) < (unat b + 1) * 256 ^ length bs" using Cons by simp
  also have "\<dots> \<le> 256 * 256 ^ length bs" by (rule mult_right_mono) (fact, simp)
  finally show ?case by simp
qed simp

lemma bits_value_append: "bits_value (xs @ ys) = bits_value xs * 2 ^ length ys + bits_value ys"
  by (induction xs) (simp_all add: algebra_simps power_add)

lemma horner_bits_value: "horner_sum of_bool 2 bs = bits_value (rev bs)"
  by (induction bs) (simp_all add: bits_value_append)

lemma unat_bits_value: "unat b = bits_value (byte_bits b)"
proof -
  have "unat b = take_bit 8 (unat b)"
    using unsigned_less [of b, where ?'a = nat] by (simp add: take_bit_nat_eq_self)
  also have "\<dots> = horner_sum of_bool 2 (map (bit (unat b)) [0..<8])"
    by (simp add: horner_sum_bit_eq_take_bit)
  also have "map (bit (unat b)) [0..<8] = rev (byte_bits b)"
  proof (rule nth_equalityI)
    fix i assume "i < length (map (bit (unat b)) [0..<8])"
    then have "i < 8" "7 - i < 8" "7 - (7 - i) = i" by simp_all
    then show "map (bit (unat b)) [0..<8] ! i = rev (byte_bits b) ! i"
      by (simp add: byte_bits_def rev_nth bit_unsigned_iff)
  qed simp
  finally show ?thesis by (simp add: horner_bits_value)
qed

lemma be_value_bits: "be_value i = bits_value (id_bits i)"
proof (induction i)
  case (Cons b i)
  have "(256 :: nat) ^ n = 2 ^ (8 * n)" for n
    by (simp add: power_mult)
  then show ?case
    using Cons by (simp add: id_bits_def bits_value_append unat_bits_value) (simp add: id_bits_def [symmetric])
qed (simp add: id_bits_def)

lemma id_bits_xor: "length a = length b \<Longrightarrow> id_bits (xor_distance a b) = map2 (\<noteq>) (id_bits a) (id_bits b)"
proof (induction a b rule: list_induct2)
  case (Cons x xs y ys)
  have "byte_bits (x XOR y) = map2 (\<noteq>) (byte_bits x) (byte_bits y)"
    by (simp add: byte_bits_def bit_simps map2_map_map)
  with Cons show ?case
    by (simp add: id_bits_def xor_distance_def zip_append)
qed (simp add: id_bits_def xor_distance_def)

lemma xor_value_bounds:
  "length xs = length ys \<Longrightarrow> bits_value (map2 (\<noteq>) xs ys) < 2 ^ (length xs - lcp xs ys) \<and>
     (lcp xs ys < length xs \<longrightarrow> 2 ^ (length xs - Suc (lcp xs ys)) \<le> bits_value (map2 (\<noteq>) xs ys))"
proof (induction xs ys rule: list_induct2)
  case (Cons x xs y ys)
  have "bits_value (map2 (\<noteq>) xs ys) < 2 ^ length xs"
    using Cons(2) by (meson le_less_trans less_le_trans diff_le_self one_le_numeral power_increasing le_refl)
  with Cons show ?case by auto
qed simp

lemma closer_to_value:
  "length a = length b \<Longrightarrow> length b = length t \<Longrightarrow>
     closer_to a b t \<longleftrightarrow> be_value (xor_distance a t) < be_value (xor_distance b t)"
proof (induction a b t rule: list_induct3)
  case (Cons x xs y ys z zs)
  let ?A = "be_value (xor_distance xs zs)" and ?B = "be_value (xor_distance ys zs)"
  let ?n = "length zs"
  have b: "?A < 256 ^ ?n" "?B < 256 ^ ?n"
    using be_value_less [of "xor_distance xs zs"] be_value_less [of "xor_distance ys zs"] Cons(1,2)
    by (simp_all add: xor_distance_def)
  have v: "be_value (xor_distance (x # xs) (z # zs)) = unat (x XOR z) * 256 ^ ?n + ?A"
    "be_value (xor_distance (y # ys) (z # zs)) = unat (y XOR z) * 256 ^ ?n + ?B"
    using Cons(1,2) by (simp_all add: xor_distance_def)
  have lex: "p * M + A < q * M + B" if "p < q" "A < M" for p q M A B :: nat
  proof -
    have "p * M + A < (p + 1) * M" using that(2) by simp
    also have "\<dots> \<le> q * M" using that(1) by (intro mult_right_mono) auto
    finally show ?thesis by simp
  qed
  consider "x XOR z = y XOR z" | "x XOR z < y XOR z" | "y XOR z < x XOR z"
    by fastforce
  then show ?case
  proof cases
    case 2
    then have "unat (x XOR z) < unat (y XOR z)" by (simp add: word_less_nat_alt)
    from lex [OF this b(1), of ?B] 2 show ?thesis unfolding v by (auto simp: Let_def)
  next
    case 3
    then have "unat (y XOR z) < unat (x XOR z)" by (simp add: word_less_nat_alt)
    from lex [OF this b(2), of ?A] 3 show ?thesis unfolding v by (auto simp: Let_def)
  qed (use Cons.IH v in \<open>simp add: Let_def\<close>)
qed (simp add: xor_distance_def)

text \<open>The facts the routing table uses, on identifiers of the right length.\<close>

lemma prefix_bits_lcp: "id_wf a \<Longrightarrow> id_wf b \<Longrightarrow> shared_prefix_bits a b = lcp (id_bits a) (id_bits b)"
  by (rule shared_prefix_lcp) (simp_all add: id_wf_def kIdSize_def)

lemma closer_to_total:
  "length a = length b \<Longrightarrow> length b = length t \<Longrightarrow> a \<noteq> b \<Longrightarrow> closer_to a b t \<or> closer_to b a t"
proof (induction a b t rule: list_induct3)
  case (Cons x xs y ys z zs)
  show ?case
  proof (cases "x XOR z = y XOR z")
    case True
    then have "(x XOR z) XOR z = (y XOR z) XOR z" by simp
    then have "x = y" by (simp add: xor.assoc)
    with Cons True show ?thesis by (auto simp: Let_def)
  qed (auto simp: Let_def)
qed simp

lemma distance_inj:
  assumes "id_wf a" "id_wf b" "id_wf t" "be_value (xor_distance a t) = be_value (xor_distance b t)"
  shows "a = b"
  using assms closer_to_total [of a b t] closer_to_value [of a b t] closer_to_value [of b a t]
  by (fastforce simp: id_wf_def)

lemma distance_prefix:
  assumes "id_wf a" "id_wf b" "a \<noteq> b"
  shows "shared_prefix_bits a b < kBucketCount"
    and "2 ^ (kBucketCount - Suc (shared_prefix_bits a b)) \<le> be_value (xor_distance a b)"
    and "be_value (xor_distance a b) < 2 ^ (kBucketCount - shared_prefix_bits a b)"
proof -
  have len: "length (id_bits a) = kBucketCount" "length (id_bits b) = kBucketCount" "length a = length b"
    using assms(1,2) by (simp_all add: id_wf_def kBucketCount_def)
  have "id_bits a \<noteq> id_bits b"
  proof
    assume "id_bits a = id_bits b"
    then have "be_value (xor_distance a b) = be_value (xor_distance b b)"
      using len(3) by (simp add: be_value_bits id_bits_xor)
    with distance_inj assms show False by blast
  qed
  then show p: "shared_prefix_bits a b < kBucketCount"
    using lcp_eq_length [of "id_bits a" "id_bits b"] lcp_le(1) [of "id_bits a" "id_bits b"] len assms(1,2)
    by (simp add: prefix_bits_lcp)
  show "2 ^ (kBucketCount - Suc (shared_prefix_bits a b)) \<le> be_value (xor_distance a b)"
    "be_value (xor_distance a b) < 2 ^ (kBucketCount - shared_prefix_bits a b)"
    using xor_value_bounds [of "id_bits a" "id_bits b"] len p assms(1,2)
    by (simp_all add: be_value_bits id_bits_xor prefix_bits_lcp)
qed

lemma shared_prefix_self: "id_wf a \<Longrightarrow> shared_prefix_bits a a = kBucketCount"
  using lcp_eq_length [of "id_bits a" "id_bits a"]
  by (simp add: prefix_bits_lcp id_wf_def kBucketCount_def)

text \<open>A longer common prefix with the target means strictly closer to it.\<close>

lemma longer_prefix_closer:
  assumes "id_wf a" "id_wf b" "id_wf t" "shared_prefix_bits b t < shared_prefix_bits a t"
  shows "closer_to a b t"
proof -
  have bt: "b \<noteq> t" and le: "shared_prefix_bits a t \<le> kBucketCount"
    using assms shared_prefix_self [of t] distance_prefix(1) [of a t] lcp_le(1) [of "id_bits a" "id_bits t"]
    by (auto simp: prefix_bits_lcp id_wf_def kBucketCount_def)
  have "be_value (xor_distance a t) < 2 ^ (kBucketCount - shared_prefix_bits a t)"
    using xor_value_bounds [of "id_bits a" "id_bits t"] assms
    by (simp add: be_value_bits id_bits_xor prefix_bits_lcp id_wf_def kBucketCount_def mult.commute)
  also have "\<dots> \<le> 2 ^ (kBucketCount - Suc (shared_prefix_bits b t))"
    using assms(4) by (intro power_increasing) auto
  also have "\<dots> \<le> be_value (xor_distance b t)"
    by (rule distance_prefix(2)) (use assms bt in auto)
  finally show ?thesis
    using closer_to_value [of a b t] assms by (simp add: id_wf_def)
qed

lemma prefix_ultra:
  assumes "id_wf s" "id_wf a" "id_wf b" "shared_prefix_bits s a < shared_prefix_bits s b"
  shows "shared_prefix_bits a b = shared_prefix_bits s a"
  using lcp_ultra [of "id_bits s" "id_bits a" "id_bits b"] assms
  by (simp add: prefix_bits_lcp) (simp add: id_wf_def)

text \<open>Two identifiers that leave a third at the same bit agree there: the bits are binary.\<close>

lemma prefix_same:
  assumes "id_wf s" "id_wf a" "id_wf b" "shared_prefix_bits s a = shared_prefix_bits s b" "a \<noteq> s"
  shows "shared_prefix_bits s a < shared_prefix_bits a b"
proof -
  let ?n = "lcp (id_bits s) (id_bits a)"
  have n: "?n < length (id_bits s)" "?n = lcp (id_bits s) (id_bits b)"
    using distance_prefix(1) [of s a] assms by (simp_all add: prefix_bits_lcp id_wf_def kBucketCount_def)
  have len: "length (id_bits s) = length (id_bits a)" "length (id_bits s) = length (id_bits b)"
    using assms by (simp_all add: id_wf_def)
  have "Suc ?n \<le> lcp (id_bits a) (id_bits b)"
  proof (rule lcp_ge)
    fix k assume "k < Suc ?n"
    then consider "k < ?n" | "k = ?n" by linarith
    then show "id_bits a ! k = id_bits b ! k"
    proof cases
      case 1
      with lcp_agree [of k "id_bits s" "id_bits a"] lcp_agree [of k "id_bits s" "id_bits b"] n(2)
      show ?thesis by simp
    next
      case 2
      with lcp_differ [of "id_bits s" "id_bits a"] lcp_differ [of "id_bits s" "id_bits b"] n len
      show ?thesis by auto
    qed
  qed (use n len in auto)
  with assms show ?thesis by (simp add: prefix_bits_lcp)
qed

subsection \<open>Properties\<close>

text \<open>
  C20: the metric primitives compute what the Kademlia metric prescribes. The comparator, which
  never materialises a distance, orders identifiers by the XOR distance to the target read as a
  160-bit big-endian number; the prefix, computed 32 bits at a time, is 160 exactly for equal
  identifiers and otherwise the position of the leading bit of the distance.
\<close>

theorem kademlia_metric:
  assumes "id_wf a" "id_wf b" "id_wf t"
  shows "(closer_to a b t \<longleftrightarrow> be_value (xor_distance a t) < be_value (xor_distance b t)) \<and>
    (shared_prefix_bits a b = 160 \<longleftrightarrow> a = b) \<and>
    (a \<noteq> b \<longrightarrow> 2 ^ (159 - shared_prefix_bits a b) \<le> be_value (xor_distance a b) \<and>
       be_value (xor_distance a b) < 2 ^ (160 - shared_prefix_bits a b))"
proof -
  have k: "kBucketCount = 160" by (simp add: kBucketCount_def kIdSize_def)
  have "shared_prefix_bits a b = 160 \<longleftrightarrow> a = b"
    using distance_prefix(1) [of a b] shared_prefix_self [of a] assms by (cases "a = b") (auto simp: k)
  moreover have "closer_to a b t \<longleftrightarrow> be_value (xor_distance a t) < be_value (xor_distance b t)"
    using assms by (simp add: closer_to_value id_wf_def)
  moreover have "2 ^ (159 - shared_prefix_bits a b) \<le> be_value (xor_distance a b)"
    "be_value (xor_distance a b) < 2 ^ (160 - shared_prefix_bits a b)" if "a \<noteq> b"
    using distance_prefix(2,3) [OF assms(1,2) that, unfolded k] by simp_all
  ultimately show ?thesis by blast
qed

theorem kademlia_metric_witness:
  "closer_to (1 # replicate 19 0) (2 # replicate 19 0) (0 # replicate 19 0) \<and>
   shared_prefix_bits (1 # replicate 19 0) (2 # replicate 19 0) \<noteq> 160"
proof -
  let ?a = "1 # replicate 19 0 :: bytes" and ?b = "2 # replicate 19 0 :: bytes" and ?t = "0 # replicate 19 0 :: bytes"
  have "id_wf ?a" "id_wf ?b" "id_wf ?t" by (simp_all add: id_wf_def kIdSize_def)
  from kademlia_metric [OF this] show ?thesis
    by (simp add: xor_distance_def del: shared_prefix_bits.simps)
qed

end
