(* ===== verification/Dht_Entry.thy ===== *)
theory Dht_Entry
  imports Dht_Id Address
begin

text \<open>
  What the DHT knows of one contact: the quality bookkeeping of \<open>src/librats/dht/node_entry.h\<close>,
  the address-derived identifiers of \<open>bep42.cpp\<close> with the public-address test of
  \<open>util/network_utils.cpp\<close>, and the per-address rate limiter of \<open>dos_blocker.cpp\<close>. Times are
  readings of the steady clock; the random bytes of a generated identifier are arguments.
\<close>

subsection \<open>Contacts\<close>

record node_entry =
  ne_id :: node_id
  ne_endpoint :: address
  ne_last_seen :: int
  ne_rtt :: u16
  ne_fail :: byte
  ne_verified :: bool

definition kRttUnknown :: u16 where "kRttUnknown = 0xffff"
definition kNeverPinged :: byte where "kNeverPinged = 0xff"
definition kClockMin :: int where "kClockMin = - (2 ^ 63)"

definition new_entry :: "node_id \<Rightarrow> address \<Rightarrow> node_entry" where
  "new_entry i ep = \<lparr>ne_id = i, ne_endpoint = ep, ne_last_seen = kClockMin, ne_rtt = kRttUnknown,
     ne_fail = kNeverPinged, ne_verified = False\<rparr>"

definition pinged :: "node_entry \<Rightarrow> bool" where
  "pinged n \<longleftrightarrow> ne_fail n \<noteq> kNeverPinged"

definition confirmed :: "node_entry \<Rightarrow> bool" where
  "confirmed n \<longleftrightarrow> ne_fail n = 0"

definition update_rtt :: "u16 \<Rightarrow> node_entry \<Rightarrow> node_entry" where
  "update_rtt sample n =
     (if sample = kRttUnknown then n
      else n\<lparr>ne_rtt := (if ne_rtt n = kRttUnknown then sample
                        else word_of_nat (unat (ne_rtt n) * 2 div 3 + unat sample div 3))\<rparr>)"

definition record_success :: "int \<Rightarrow> u16 \<Rightarrow> node_entry \<Rightarrow> node_entry" where
  "record_success now sample n = update_rtt sample (n\<lparr>ne_fail := 0, ne_last_seen := now\<rparr>)"

definition record_failure :: "node_entry \<Rightarrow> node_entry" where
  "record_failure n =
     (if pinged n \<and> ne_fail n < kNeverPinged - 1 then n\<lparr>ne_fail := ne_fail n + 1\<rparr> else n)"

definition is_worse_than :: "node_entry \<Rightarrow> node_entry \<Rightarrow> bool" where
  "is_worse_than n other =
     (if ne_fail n \<noteq> ne_fail other then ne_fail n > ne_fail other
      else if ne_verified n \<noteq> ne_verified other then \<not> ne_verified n
      else ne_rtt n > ne_rtt other)"

text \<open>A failure never turns a contact that replied into one never pinged; an average never reads as unknown.\<close>

lemma record_failure_pinged: "pinged (record_failure n) = pinged n"
proof -
  have "ne_fail n + 1 \<noteq> kNeverPinged" if "ne_fail n < kNeverPinged - 1"
    using that by (auto simp: kNeverPinged_def)
  then show ?thesis by (auto simp: record_failure_def pinged_def)
qed

lemma update_rtt_known:
  assumes "sample \<noteq> kRttUnknown" shows "ne_rtt (update_rtt sample n) \<noteq> kRttUnknown"
proof -
  have small: "unat r \<le> 65534" if "r \<noteq> kRttUnknown" for r :: u16
  proof -
    have "unat r < 65536" using unsigned_less [of r, where ?'a = nat] by simp
    moreover have "unat r \<noteq> 65535"
      using that by (simp add: word_unat_eq_iff kRttUnknown_def)
    ultimately show ?thesis by linarith
  qed
  have "word_of_nat (unat r * 2 div 3 + unat sample div 3) \<noteq> kRttUnknown" if "r \<noteq> kRttUnknown" for r :: u16
  proof
    define m where "m = unat r * 2 div 3 + unat sample div 3"
    assume "word_of_nat (unat r * 2 div 3 + unat sample div 3) = kRttUnknown"
    then have "unat (word_of_nat m :: u16) = 65535" by (simp add: m_def kRttUnknown_def)
    moreover have "m < 65535" unfolding m_def using small [OF that] small [OF assms] by linarith
    ultimately show False by (simp add: unat_of_nat)
  qed
  with assms show ?thesis by (simp add: update_rtt_def)
qed

subsection \<open>Addresses\<close>

definition is_public_ip :: "ip_address \<Rightarrow> bool" where
  "is_public_ip ip =
     (let b = ip_bytes ip in
      if is_v6 ip then
        (if list_all (\<lambda>x. x = 0) b then False
         else if b ! 15 = 1 \<and> list_all (\<lambda>x. x = 0) (take 15 b) then False
         else if b ! 0 AND 0xfe = 0xfc then False
         else if b ! 0 = 0xfe \<and> b ! 1 AND 0xc0 = 0x80 then False
         else b ! 0 \<noteq> 0xff)
      else if ia_family ip = Fam_V4 then
        (let o1 = b ! 0; o2 = b ! 1 in
         if o1 = 0 then False
         else if o1 = 127 then False
         else if o1 = 10 then False
         else if o1 = 172 \<and> o2 \<ge> 16 \<and> o2 \<le> 31 then False
         else if o1 = 192 \<and> o2 = 168 then False
         else if o1 = 169 \<and> o2 = 254 then False
         else if o1 = 100 \<and> o2 \<ge> 64 \<and> o2 \<le> 127 then False
         else \<not> o1 \<ge> 224)
      else False)"

definition ip_too_close :: "ip_address \<Rightarrow> ip_address \<Rightarrow> bool" where
  "ip_too_close a b =
     (if ia_family a \<noteq> ia_family b then False
      else let n = (if is_v6 a then 8 else if ia_family a = Fam_V4 then 3 else 0) in
           if n = 0 then False else take n (ip_bytes a) = take n (ip_bytes b))"

subsection \<open>Identifiers derived from addresses\<close>

fun crc_bits :: "nat \<Rightarrow> u32 \<Rightarrow> u32" where
  "crc_bits 0 crc = crc"
| "crc_bits (Suc k) crc =
     crc_bits k (if crc AND 1 \<noteq> 0 then drop_bit 1 crc XOR 0x82F63B78 else drop_bit 1 crc)"

definition crc32c :: "bytes \<Rightarrow> u32" where
  "crc32c data = foldl (\<lambda>crc b. crc_bits 8 (crc XOR ucast b)) 0xFFFFFFFF data XOR 0xFFFFFFFF"

definition v4_mask :: bytes where "v4_mask = [0x03, 0x0f, 0x3f, 0xff]"
definition v6_mask :: bytes where "v6_mask = [0x01, 0x03, 0x07, 0x0f, 0x1f, 0x3f, 0x7f, 0xff]"

definition masked_octets :: "ip_address \<Rightarrow> bytes" where
  "masked_octets ip =
     (if is_v6 ip then map2 (AND) (take 8 (ip_bytes ip)) v6_mask
      else if ia_family ip = Fam_V4 then map2 (AND) (take 4 (ip_bytes ip)) v4_mask
      else [])"

definition bep42_prefix :: "ip_address \<Rightarrow> byte \<Rightarrow> (byte \<times> byte \<times> byte) option" where
  "bep42_prefix ip seed =
     (case masked_octets ip of
        [] \<Rightarrow> None
      | o0 # os \<Rightarrow>
          let c = crc32c ((o0 OR push_bit 5 (seed AND 7)) # os) in
          Some (ucast (drop_bit 24 c AND 0xff), ucast (drop_bit 16 c AND 0xff), ucast (drop_bit 8 c AND 0xf8)))"

definition generate_node_id_from_ip :: "ip_address \<Rightarrow> byte \<Rightarrow> byte \<Rightarrow> bytes \<Rightarrow> node_id option" where
  "generate_node_id_from_ip ip seed r2 tail =
     (case bep42_prefix ip seed of
        None \<Rightarrow> None
      | Some (p0, p1, p2) \<Rightarrow> Some ([p0, p1, p2 OR (r2 AND 7)] @ take 16 tail @ [seed]))"

definition verify_node_id_for_ip :: "node_id \<Rightarrow> ip_address \<Rightarrow> bool" where
  "verify_node_id_for_ip i ip =
     (if \<not> is_public_ip ip then True
      else case bep42_prefix ip (i ! 19) of
        None \<Rightarrow> True
      | Some (p0, p1, p2) \<Rightarrow> i ! 0 = p0 \<and> i ! 1 = p1 \<and> i ! 2 AND 0xf8 = p2)"

subsection \<open>Rate limiting\<close>

record dos_entry =
  de_count :: nat
  de_window_start :: int
  de_banned_until :: int

definition kMaxPerWindow :: nat where "kMaxPerWindow = 50"
definition kWindow :: int where "kWindow = 10000"
definition kBanDuration :: int where "kBanDuration = 300000"
definition kMaxTracked :: nat where "kMaxTracked = 2000"

definition dos_prune :: "int \<Rightarrow> (ip_address \<times> dos_entry) list \<Rightarrow> (ip_address \<times> dos_entry) list" where
  "dos_prune now t = filter (\<lambda>(_, e). \<not> (de_banned_until e \<le> now \<and> now - de_window_start e \<ge> kWindow)) t"

definition dos_allow :: "ip_address \<Rightarrow> int \<Rightarrow> (ip_address \<times> dos_entry) list \<Rightarrow> bool \<times> (ip_address \<times> dos_entry) list" where
  "dos_allow ip now t =
     (let e0 = (case map_of t ip of Some e \<Rightarrow> e
                | None \<Rightarrow> \<lparr>de_count = 0, de_window_start = 0, de_banned_until = 0\<rparr>) in
      if de_banned_until e0 > now then (False, AList.update ip e0 t)
      else
        let e1 = (if now - de_window_start e0 \<ge> kWindow then e0\<lparr>de_window_start := now, de_count := 0\<rparr> else e0);
            e2 = e1\<lparr>de_count := de_count e1 + 1\<rparr> in
        if de_count e2 > kMaxPerWindow
        then (False, AList.update ip (e2\<lparr>de_banned_until := now + kBanDuration\<rparr>) t)
        else let t1 = AList.update ip e2 t in
             (True, if length t1 > kMaxTracked then dos_prune now t1 else t1))"

subsection \<open>Lemmas\<close>

lemma prefix_low_bits: "bep42_prefix ip seed = Some (p0, p1, p2) \<Longrightarrow> p2 AND 0xf8 = p2"
proof -
  have "(ucast (x AND 0xf8) :: byte) AND 0xf8 = ucast (x AND 0xf8)" for x :: u32
    by (rule bit_word_eqI) (auto simp: bit_simps)
  then show "bep42_prefix ip seed = Some (p0, p1, p2) \<Longrightarrow> p2 AND 0xf8 = p2"
    by (auto simp: bep42_prefix_def Let_def split: list.splits)
qed

lemma generated_id_verifies:
  assumes "generate_node_id_from_ip ip seed r2 tail = Some i" "length tail = 16"
  shows "id_wf i" "verify_node_id_for_ip i ip"
proof -
  obtain p0 p1 p2 where p: "bep42_prefix ip seed = Some (p0, p1, p2)"
    and i: "i = [p0, p1, p2 OR (r2 AND 7)] @ tail @ [seed]"
    using assms by (auto simp: generate_node_id_from_ip_def split: option.splits)
  have "(p2 OR (r2 AND 7)) AND 0xf8 = (p2 AND 0xf8) OR (r2 AND (7 AND 0xf8))"
    by (simp only: bit.conj_disj_distrib2 and.assoc)
  then have "(p2 OR (r2 AND 7)) AND 0xf8 = p2"
    using prefix_low_bits [OF p] by simp
  moreover have "i ! 19 = seed" using assms(2) by (simp add: i nth_Cons' nth_append)
  ultimately show "verify_node_id_for_ip i ip"
    by (simp add: verify_node_id_for_ip_def p) (simp add: i)
  show "id_wf i" using assms(2) by (simp add: i id_wf_def kIdSize_def)
qed

end
