(* ===== verification/Routing_Table.thy ===== *)
theory Routing_Table
  imports Dht_Entry Sorting
begin

text \<open>
  The Kademlia routing table of \<open>src/librats/dht/routing_table.h\<close> and \<open>.cpp\<close>: buckets that split,
  live contacts and standbys, eviction that preserves the spread of sub-prefixes, and the
  limits on contacts per address with their reference-counted index. A reference into a vector
  is the index it stands for. The one access the code makes with an index that may be out of
  range, in \<open>fill_from_replacements\<close> after a split, has the value None there. The clock is read
  when a reply is recorded; its reading is the argument \<open>now\<close>.
\<close>

subsection \<open>Vectors\<close>

fun find_index :: "('a \<Rightarrow> bool) \<Rightarrow> 'a list \<Rightarrow> nat option" where
  "find_index P [] = None"
| "find_index P (x # xs) = (if P x then Some 0 else map_option Suc (find_index P xs))"

definition erase :: "nat \<Rightarrow> 'a list \<Rightarrow> 'a list" where
  "erase i xs = take i xs @ drop (Suc i) xs"

text \<open>Scan the indices in order and keep the first, then each one that beats the one kept.\<close>

definition scan_over :: "nat list \<Rightarrow> ('a \<Rightarrow> 'a \<Rightarrow> bool) \<Rightarrow> 'a list \<Rightarrow> nat option" where
  "scan_over order beats xs =
     foldl (\<lambda>v i. case v of None \<Rightarrow> Some i | Some j \<Rightarrow> if beats (xs ! i) (xs ! j) then Some i else v) None order"

definition find_by_id :: "node_id \<Rightarrow> node_entry list \<Rightarrow> nat option" where
  "find_by_id i v = find_index (\<lambda>n. ne_id n = i) v"

definition worst_of :: "node_entry list \<Rightarrow> nat option" where
  "worst_of v = scan_over [0..<length v] is_worse_than v"

definition best_of :: "node_entry list \<Rightarrow> nat option" where
  "best_of v = scan_over [0..<length v] (\<lambda>n b. is_worse_than b n) v"

subsection \<open>State\<close>

record bucket =
  bk_live :: "node_entry list"
  bk_repl :: "node_entry list"

record kad_table =
  kt_self :: node_id
  kt_extended :: bool
  kt_buckets :: "bucket list"
  kt_ips :: "(ip_address \<times> nat) list"

definition bk_empty :: bucket where "bk_empty = \<lparr>bk_live = [], bk_repl = []\<rparr>"

definition new_table :: "node_id \<Rightarrow> bool \<Rightarrow> kad_table" where
  "new_table self extended = \<lparr>kt_self = self, kt_extended = extended, kt_buckets = [bk_empty], kt_ips = []\<rparr>"

definition kMaxFailCount :: byte where "kMaxFailCount = 5"

definition bucket_index :: "kad_table \<Rightarrow> node_id \<Rightarrow> nat" where
  "bucket_index t i =
     (let prefix = shared_prefix_bits (kt_self t) i; last = length (kt_buckets t) - 1 in
      if prefix < last then prefix else last)"

definition bucket_limit :: "kad_table \<Rightarrow> nat \<Rightarrow> nat" where
  "bucket_limit t index =
     (if \<not> kt_extended t then kBucketSize
      else kBucketSize * (if index < 4 then [16, 8, 4, 2] ! index else 1))"

definition upd_bucket :: "nat \<Rightarrow> bucket \<Rightarrow> kad_table \<Rightarrow> kad_table" where
  "upd_bucket i b t = t\<lparr>kt_buckets := (kt_buckets t)[i := b]\<rparr>"

definition ip_track :: "ip_address \<Rightarrow> kad_table \<Rightarrow> kad_table" where
  "ip_track ip t =
     (if is_public_ip ip
      then t\<lparr>kt_ips := AList.update ip (case map_of (kt_ips t) ip of None \<Rightarrow> 1 | Some c \<Rightarrow> c + 1) (kt_ips t)\<rparr>
      else t)"

definition ip_untrack :: "ip_address \<Rightarrow> kad_table \<Rightarrow> kad_table" where
  "ip_untrack ip t =
     (if \<not> is_public_ip ip then t
      else case map_of (kt_ips t) ip of
        None \<Rightarrow> t
      | Some c \<Rightarrow>
          if c - 1 = 0 then t\<lparr>kt_ips := AList.delete ip (kt_ips t)\<rparr>
          else t\<lparr>kt_ips := AList.update ip (c - 1) (kt_ips t)\<rparr>)"

abbreviation ne_ip :: "node_entry \<Rightarrow> ip_address" where
  "ne_ip n \<equiv> ad_ip (ne_endpoint n)"

text \<open>Overwrite a live or a standby slot of bucket \<open>i\<close>, keeping the index in step.\<close>

definition assign_live :: "nat \<Rightarrow> nat \<Rightarrow> node_entry \<Rightarrow> kad_table \<Rightarrow> kad_table" where
  "assign_live i j e t =
     (let b = kt_buckets t ! i in
      ip_track (ne_ip e) (upd_bucket i (b\<lparr>bk_live := (bk_live b)[j := e]\<rparr>) (ip_untrack (ne_ip (bk_live b ! j)) t)))"

definition assign_repl :: "nat \<Rightarrow> nat \<Rightarrow> node_entry \<Rightarrow> kad_table \<Rightarrow> kad_table" where
  "assign_repl i j e t =
     (let b = kt_buckets t ! i in
      ip_track (ne_ip e) (upd_bucket i (b\<lparr>bk_repl := (bk_repl b)[j := e]\<rparr>) (ip_untrack (ne_ip (bk_repl b ! j)) t)))"

definition push_live :: "nat \<Rightarrow> node_entry \<Rightarrow> kad_table \<Rightarrow> kad_table" where
  "push_live i e t =
     (let b = kt_buckets t ! i in ip_track (ne_ip e) (upd_bucket i (b\<lparr>bk_live := bk_live b @ [e]\<rparr>) t))"

definition push_repl :: "nat \<Rightarrow> node_entry \<Rightarrow> kad_table \<Rightarrow> kad_table" where
  "push_repl i e t =
     (let b = kt_buckets t ! i in ip_track (ne_ip e) (upd_bucket i (b\<lparr>bk_repl := bk_repl b @ [e]\<rparr>) t))"

definition drop_live :: "nat \<Rightarrow> nat \<Rightarrow> kad_table \<Rightarrow> kad_table" where
  "drop_live i j t =
     (let b = kt_buckets t ! i in
      upd_bucket i (b\<lparr>bk_live := erase j (bk_live b)\<rparr>) (ip_untrack (ne_ip (bk_live b ! j)) t))"

definition drop_repl :: "nat \<Rightarrow> nat \<Rightarrow> kad_table \<Rightarrow> kad_table" where
  "drop_repl i j t =
     (let b = kt_buckets t ! i in
      upd_bucket i (b\<lparr>bk_repl := erase j (bk_repl b)\<rparr>) (ip_untrack (ne_ip (bk_repl b ! j)) t))"

subsection \<open>Standbys\<close>

definition stash_replacement :: "nat \<Rightarrow> node_entry \<Rightarrow> kad_table \<Rightarrow> kad_table" where
  "stash_replacement i e t =
     (let r = bk_repl (kt_buckets t ! i) in
      case find_by_id (ne_id e) r of
        Some j \<Rightarrow> assign_repl i j e t
      | None \<Rightarrow>
          if length r < kBucketSize then push_repl i e t
          else case worst_of r of
            None \<Rightarrow> t
          | Some w \<Rightarrow> if is_worse_than (r ! w) e then assign_repl i w e t else t)"

lemma scan_over_mem: "scan_over order f xs = Some i \<Longrightarrow> i \<in> set order"
proof -
  have "foldl (\<lambda>v i. case v of None \<Rightarrow> Some i | Some j \<Rightarrow> if f (xs ! i) (xs ! j) then Some i else v) v order = Some i
      \<Longrightarrow> i \<in> set order \<or> v = Some i" for v
    by (induction order arbitrary: v) (fastforce split: option.splits if_splits)+
  then show "scan_over order f xs = Some i \<Longrightarrow> i \<in> set order"
    by (auto simp: scan_over_def)
qed

lemma scan_over_None: "scan_over order f xs = None \<longleftrightarrow> order = []"
proof -
  have "foldl (\<lambda>v i. case v of None \<Rightarrow> Some i | Some j \<Rightarrow> if f (xs ! i) (xs ! j) then Some i else v) (Some k) order \<noteq> None" for k order
    by (induction order arbitrary: k) auto
  then show ?thesis by (cases order) (auto simp: scan_over_def)
qed

lemma best_of_less: "best_of v = Some i \<Longrightarrow> i < length v"
  using scan_over_mem by (fastforce simp: best_of_def)

lemma worst_of_less: "worst_of v = Some i \<Longrightarrow> i < length v"
  using scan_over_mem by (fastforce simp: worst_of_def)

lemma length_erase: "i < length xs \<Longrightarrow> length (erase i xs) = length xs - 1"
  by (simp add: erase_def)

function fill_bucket :: "nat \<Rightarrow> bucket \<Rightarrow> bucket" where
  "fill_bucket limit b =
     (if length (bk_live b) < limit
      then case best_of (bk_repl b) of
        None \<Rightarrow> b
      | Some i \<Rightarrow> fill_bucket limit
          (b\<lparr>bk_live := bk_live b @ [bk_repl b ! i], bk_repl := erase i (bk_repl b)\<rparr>)
      else b)"
  by pat_completeness auto
termination
  by (relation "measure (\<lambda>(_, b). length (bk_repl b))")
    (auto dest!: best_of_less simp: length_erase)

declare fill_bucket.simps [simp del]

definition fill_at :: "nat \<Rightarrow> kad_table \<Rightarrow> kad_table" where
  "fill_at i t = upd_bucket i (fill_bucket (bucket_limit t i) (kt_buckets t ! i)) t"

definition fill_from_replacements :: "nat \<Rightarrow> kad_table \<Rightarrow> kad_table option" where
  "fill_from_replacements i t = (if i < length (kt_buckets t) then Some (fill_at i t) else None)"

fun prune_rev :: "bucket list \<Rightarrow> bucket list" where
  "prune_rev (b # c # bs) = (if bk_live b = [] \<and> bk_repl b = [] then prune_rev (c # bs) else b # c # bs)"
| "prune_rev bs = bs"

definition prune_empty_back :: "kad_table \<Rightarrow> kad_table" where
  "prune_empty_back t = t\<lparr>kt_buckets := rev (prune_rev (rev (kt_buckets t)))\<rparr>"

subsection \<open>Spread\<close>

fun bits_needed :: "nat \<Rightarrow> nat \<Rightarrow> nat \<Rightarrow> nat" where
  "bits_needed 0 m bits = bits"
| "bits_needed (Suc fuel) m bits = (if 2 ^ bits < m then bits_needed fuel m (bits + 1) else bits)"

text \<open>The loop of \<open>prefix_bits_for\<close>; a bucket holds at most 128 contacts, so 8 rounds are enough.\<close>

definition prefix_bits_for :: "nat \<Rightarrow> nat" where
  "prefix_bits_for bucket_size = bits_needed 8 bucket_size 0"

definition kMaxBucketLimit :: nat where "kMaxBucketLimit = kBucketSize * 16"
definition kMaxSlots :: nat where "kMaxSlots = 2 ^ prefix_bits_for kMaxBucketLimit"

definition classify_prefix :: "nat \<Rightarrow> bool \<Rightarrow> nat \<Rightarrow> node_id \<Rightarrow> nat" where
  "classify_prefix bucket_idx last_bucket bucket_size i =
     bits_at i (bucket_idx + (if last_bucket then 0 else 1)) (prefix_bits_for bucket_size) mod 256"

definition all_on_same_side :: "node_entry list \<Rightarrow> node_id \<Rightarrow> nat \<Rightarrow> bool" where
  "all_on_same_side live i idx =
     (let sides = id_bit i idx # map (\<lambda>n. id_bit (ne_id n) idx) live in
      list_all (\<lambda>b. b) sides \<or> list_all Not sides)"

definition replace_for_spread :: "nat \<Rightarrow> nat \<Rightarrow> node_entry \<Rightarrow> kad_table \<Rightarrow> kad_table option" where
  "replace_for_spread index limit e t =
     (let live = bk_live (kt_buckets t ! index);
          idxs = [0..<length live];
          last = (index + 1 = length (kt_buckets t));
          cls = (\<lambda>n. classify_prefix index last limit (ne_id n));
          stale = scan_over (filter (\<lambda>j. pinged (live ! j) \<and> ne_fail (live ! j) > 0) idxs)
                    (\<lambda>n m. ne_fail n > ne_fail m) live
      in case stale of
           Some j \<Rightarrow> Some (assign_live index j e t)
         | None \<Rightarrow>
             let in_slot = (\<lambda>s. filter (\<lambda>j. cls (live ! j) = s) idxs) in
             case scan_over (in_slot (cls e)) is_worse_than live of
               Some w \<Rightarrow> if is_worse_than (live ! w) e then Some (assign_live index w e t) else None
             | None \<Rightarrow>
                 (case scan_over (concat (map (\<lambda>s. if length (in_slot s) > 1 then in_slot s else []) [0..<kMaxSlots]))
                         is_worse_than live of
                    Some v \<Rightarrow> Some (assign_live index v e t)
                  | None \<Rightarrow> None))"

subsection \<open>Splitting\<close>

definition can_split :: "kad_table \<Rightarrow> nat \<Rightarrow> node_entry \<Rightarrow> bool" where
  "can_split t index e \<longleftrightarrow>
     index + 1 = length (kt_buckets t) \<and>
     length (kt_buckets t) < kBucketCount - 1 \<and>
     confirmed e \<and>
     (index = 0 \<or> length (bk_live (kt_buckets t ! (index - 1))) > 1) \<and>
     \<not> all_on_same_side (bk_live (kt_buckets t ! index)) (ne_id e) index"

function spill_live :: "nat \<Rightarrow> bucket \<Rightarrow> bucket" where
  "spill_live limit b =
     (if length (bk_live b) > limit
      then case worst_of (bk_live b) of
        None \<Rightarrow> b
      | Some w \<Rightarrow> spill_live limit
          (b\<lparr>bk_repl := bk_repl b @ [bk_live b ! w], bk_live := erase w (bk_live b)\<rparr>)
      else b)"
  by pat_completeness auto
termination
  by (relation "measure (\<lambda>(_, b). length (bk_live b))")
    (auto dest!: worst_of_less simp: length_erase)

declare spill_live.simps [simp del]

fun trim_repl :: "nat \<Rightarrow> nat \<Rightarrow> kad_table \<Rightarrow> kad_table" where
  "trim_repl 0 i t = t"
| "trim_repl (Suc excess) i t =
     (case worst_of (bk_repl (kt_buckets t ! i)) of
        None \<Rightarrow> t
      | Some w \<Rightarrow> trim_repl excess i (drop_repl i w t))"

definition trim_to_limit :: "nat \<Rightarrow> kad_table \<Rightarrow> kad_table" where
  "trim_to_limit i t =
     (let t1 = upd_bucket i (spill_live (bucket_limit t i) (kt_buckets t ! i)) t in
      trim_repl (length (bk_repl (kt_buckets t1 ! i)) - kBucketSize) i t1)"

definition split_place :: "kad_table \<Rightarrow> kad_table" where
  "split_place t =
     (let last = length (kt_buckets t) - 1;
          moved = kt_buckets t ! last;
          stays = (\<lambda>n. shared_prefix_bits (kt_self t) (ne_id n) \<le> last)
      in t\<lparr>kt_buckets := take last (kt_buckets t) @
            [\<lparr>bk_live = filter stays (bk_live moved), bk_repl = filter stays (bk_repl moved)\<rparr>,
             \<lparr>bk_live = filter (\<lambda>n. \<not> stays n) (bk_live moved), bk_repl = filter (\<lambda>n. \<not> stays n) (bk_repl moved)\<rparr>]\<rparr>)"

definition split_bucket :: "kad_table \<Rightarrow> kad_table" where
  "split_bucket t =
     (let last = length (kt_buckets t) - 1 in trim_to_limit (last + 1) (trim_to_limit last (split_place t)))"

subsection \<open>Limits per address\<close>

fun locate :: "address \<Rightarrow> nat \<Rightarrow> bucket list \<Rightarrow> (nat \<times> bool \<times> nat) option" where
  "locate ep i [] = None"
| "locate ep i (b # bs) =
     (case find_index (\<lambda>n. ne_endpoint n = ep) (bk_live b) of
        Some j \<Rightarrow> Some (i, True, j)
      | None \<Rightarrow>
          (case find_index (\<lambda>n. ne_endpoint n = ep) (bk_repl b) of
             Some j \<Rightarrow> Some (i, False, j)
           | None \<Rightarrow> locate ep (i + 1) bs))"

definition find_by_endpoint :: "address \<Rightarrow> kad_table \<Rightarrow> (nat \<times> bool \<times> nat) option" where
  "find_by_endpoint ep t = locate ep 0 (kt_buckets t)"

definition passes_ip_diversity :: "nat \<Rightarrow> node_entry \<Rightarrow> kad_table \<Rightarrow> bool \<times> kad_table" where
  "passes_ip_diversity idx e t =
     (let ip = ne_ip e; b = kt_buckets t ! idx in
      if \<not> is_public_ip ip then (True, t)
      else if map_of (kt_ips t) ip \<noteq> None then
        (case find_by_endpoint (ne_endpoint e) t of
           None \<Rightarrow> (False, t)
         | Some (i, in_live, j) \<Rightarrow>
             if \<not> pinged e then (False, t)
             else if in_live then (False, prune_empty_back (fill_at i (drop_live i j t)))
             else (False, prune_empty_back (drop_repl i j t)))
      else (list_all (\<lambda>n. \<not> ip_too_close (ne_ip n) ip) (bk_live b @ bk_repl b), t))"

subsection \<open>Insertion\<close>

text \<open>Refresh live contact \<open>j\<close> of bucket \<open>i\<close> with a sighting of the same identifier.\<close>

definition refresh_live :: "int \<Rightarrow> nat \<Rightarrow> nat \<Rightarrow> node_entry \<Rightarrow> kad_table \<Rightarrow> kad_table" where
  "refresh_live now i j e t =
     (let b = kt_buckets t ! i;
          n0 = bk_live b ! j;
          n1 = n0\<lparr>ne_verified := ne_verified n0 \<or> ne_verified e\<rparr>
      in if pinged e
         then let t1 = (if ne_ip n1 \<noteq> ne_ip e then ip_track (ne_ip e) (ip_untrack (ne_ip n1) t) else t);
                  n2 = record_success now (ne_rtt e) (n1\<lparr>ne_endpoint := ne_endpoint e\<rparr>)
              in upd_bucket i (b\<lparr>bk_live := (bk_live b)[j := n2]\<rparr>) t1
         else upd_bucket i (b\<lparr>bk_live := (bk_live b)[j := n1]\<rparr>) t)"

text \<open>The part of \<open>add_node\<close> before a slot is looked for: settled, or the entry to place.\<close>

datatype admission = Settled bool kad_table | Place node_entry kad_table

definition admit :: "int \<Rightarrow> node_entry \<Rightarrow> kad_table \<Rightarrow> admission" where
  "admit now e t =
     (if ne_id e = kt_self t then Settled False t
      else
        let idx = bucket_index t (ne_id e); b = kt_buckets t ! idx in
        case find_by_id (ne_id e) (bk_live b) of
          Some j \<Rightarrow> Settled True (refresh_live now idx j e t)
        | None \<Rightarrow>
            (case find_by_id (ne_id e) (bk_repl b) of
               Some j \<Rightarrow>
                 if \<not> pinged e then Settled False t
                 else
                   let c = bk_repl b ! j;
                       carried = record_success now (ne_rtt e)
                         (c\<lparr>ne_endpoint := ne_endpoint e, ne_verified := ne_verified c \<or> ne_verified e\<rparr>)
                   in Place carried (drop_repl idx j t)
             | None \<Rightarrow>
                 (case passes_ip_diversity idx e t of
                    (False, t1) \<Rightarrow> Settled False t1
                  | (True, t1) \<Rightarrow> Place e t1)))"

lemma length_buckets [simp]:
  "length (kt_buckets (upd_bucket i b t)) = length (kt_buckets t)"
  "kt_buckets (ip_track ip t) = kt_buckets t" "kt_buckets (ip_untrack ip t) = kt_buckets t"
  by (simp_all add: upd_bucket_def ip_track_def ip_untrack_def split: option.splits)

lemma length_drop_repl [simp]: "length (kt_buckets (drop_repl i j t)) = length (kt_buckets t)"
  by (simp add: drop_repl_def Let_def)

lemma length_trim_to_limit [simp]: "length (kt_buckets (trim_to_limit i t)) = length (kt_buckets t)"
proof -
  have "length (kt_buckets (trim_repl k i t)) = length (kt_buckets t)" for k t
    by (induction k arbitrary: t) (auto split: option.splits)
  then show ?thesis by (simp add: trim_to_limit_def Let_def)
qed

lemma length_split_bucket:
  "kt_buckets t \<noteq> [] \<Longrightarrow> length (kt_buckets (split_bucket t)) = Suc (length (kt_buckets t))"
  by (simp add: split_bucket_def split_place_def Let_def)

lemma passes_same: "passes_ip_diversity idx e t = (True, t1) \<Longrightarrow> t1 = t"
  by (auto simp: passes_ip_diversity_def Let_def split: if_splits option.splits)

lemma admit_length: "admit now e t = Place e1 t1 \<Longrightarrow> length (kt_buckets t1) = length (kt_buckets t)"
  by (auto simp: admit_def Let_def dest: passes_same split: if_splits option.splits prod.splits bool.splits)

function add_node :: "int \<Rightarrow> node_entry \<Rightarrow> kad_table \<Rightarrow> (bool \<times> kad_table) option" where
  "add_node now e t =
     (case admit now e t of
        Settled r t1 \<Rightarrow> Some (r, t1)
      | Place e1 t1 \<Rightarrow>
          let idx = bucket_index t (ne_id e1);
              limit = bucket_limit t1 idx
          in if length (bk_live (kt_buckets t1 ! idx)) < limit then Some (True, push_live idx e1 t1)
             else if confirmed e1 \<and> can_split t1 idx e1 then
               (case add_node now e1 (split_bucket t1) of
                  None \<Rightarrow> None
                | Some (added, t2) \<Rightarrow>
                    (case fill_from_replacements idx t2 of
                       None \<Rightarrow> None
                     | Some t3 \<Rightarrow>
                         (case fill_from_replacements (idx + 1) t3 of
                            None \<Rightarrow> None
                          | Some t4 \<Rightarrow> Some (added, t4))))
             else
               (case (if confirmed e1 then replace_for_spread idx limit e1 t1 else None) of
                  Some t2 \<Rightarrow> Some (True, t2)
                | None \<Rightarrow> Some (False, stash_replacement idx e1 t1)))"
  by pat_completeness auto
termination
proof (relation "measure (\<lambda>(_, _, t). kBucketCount - length (kt_buckets t))", goal_cases)
  case (2 now e t e1 t1)
  then have l: "length (kt_buckets t1) = length (kt_buckets t)" and c: "can_split t1 (bucket_index t (ne_id e1)) e1"
    by (simp_all add: admit_length)
  from c have "length (kt_buckets t1) < kBucketCount - 1" "0 < length (kt_buckets t1)"
    unfolding can_split_def by linarith+
  moreover from this(2) have "length (kt_buckets (split_bucket t1)) = Suc (length (kt_buckets t1))"
    by (intro length_split_bucket) simp
  ultimately show ?case using l by simp
qed simp

declare add_node.simps [simp del]

definition heard_about :: "int \<Rightarrow> node_id \<Rightarrow> address \<Rightarrow> bool \<Rightarrow> kad_table \<Rightarrow> kad_table option" where
  "heard_about now i ep verified t =
     (if i = kt_self t then Some t
      else map_option snd (add_node now ((new_entry i ep)\<lparr>ne_verified := verified\<rparr>) t))"

definition node_seen :: "int \<Rightarrow> node_id \<Rightarrow> address \<Rightarrow> u16 \<Rightarrow> bool \<Rightarrow> kad_table \<Rightarrow> (bool \<times> kad_table) option" where
  "node_seen now i ep rtt verified t =
     (if i = kt_self t then Some (False, t)
      else add_node now (record_success now rtt ((new_entry i ep)\<lparr>ne_verified := verified\<rparr>)) t)"

definition node_failed :: "node_id \<Rightarrow> address \<Rightarrow> kad_table \<Rightarrow> kad_table" where
  "node_failed i ep t =
     (let idx = bucket_index t i; b = kt_buckets t ! idx in
      case find_by_id i (bk_live b) of
        None \<Rightarrow>
          (case find_by_id i (bk_repl b) of
             None \<Rightarrow> t
           | Some j \<Rightarrow>
               let r = record_failure (bk_repl b ! j) in
               if ne_endpoint (bk_repl b ! j) \<noteq> ep then t
               else if \<not> pinged r \<or> ne_fail r \<ge> kMaxFailCount then drop_repl idx j t
               else upd_bucket idx (b\<lparr>bk_repl := (bk_repl b)[j := r]\<rparr>) t)
      | Some j \<Rightarrow>
          let n = record_failure (bk_live b ! j) in
          if ne_endpoint (bk_live b ! j) \<noteq> ep then t
          else if bk_repl b \<noteq> [] then prune_empty_back (fill_at idx (drop_live idx j t))
          else if \<not> pinged n \<or> ne_fail n \<ge> kMaxFailCount then prune_empty_back (drop_live idx j t)
          else prune_empty_back (upd_bucket idx (b\<lparr>bk_live := (bk_live b)[j := n]\<rparr>) t))"

subsection \<open>Queries\<close>

definition eligible :: "bool \<Rightarrow> bucket \<Rightarrow> node_entry list" where
  "eligible include_unconfirmed b = filter (\<lambda>n. include_unconfirmed \<or> confirmed n) (bk_live b)"

text \<open>The shallower buckets, the nearest first, with the early stop.\<close>

fun take_shallow :: "bool \<Rightarrow> nat \<Rightarrow> bucket list \<Rightarrow> node_entry list \<Rightarrow> node_entry list" where
  "take_shallow incl k [] result = result"
| "take_shallow incl k (b # bs) result =
     (if length result < k then take_shallow incl k bs (result @ eligible incl b) else result)"

definition find_closest :: "node_id \<Rightarrow> nat \<Rightarrow> bool \<Rightarrow> kad_table \<Rightarrow> node_entry list" where
  "find_closest target k incl t =
     (if k = 0 then []
      else
        let start = bucket_index t target;
            r0 = eligible incl (kt_buckets t ! start);
            r1 = (if length r0 < k
                  then r0 @ concat (map (eligible incl) (drop (start + 1) (kt_buckets t))) else r0);
            r2 = take_shallow incl k (rev (take start (kt_buckets t))) r1
        in take k (sort_by (\<lambda>a c. closer_to (ne_id a) (ne_id c) target) r2))"

definition table_size :: "kad_table \<Rightarrow> nat" where
  "table_size t = sum_list (map (\<lambda>b. length (bk_live b)) (kt_buckets t))"

fun oldest_live :: "nat \<Rightarrow> bucket list \<Rightarrow> (nat \<times> nat \<times> node_entry) option \<Rightarrow> (nat \<times> nat \<times> node_entry) option" where
  "oldest_live i [] v = v"
| "oldest_live i (b # bs) v =
     oldest_live (i + 1) bs
       (foldl (\<lambda>v j. let n = bk_live b ! j in
            case v of None \<Rightarrow> Some (i, j, n)
            | Some (_, _, m) \<Rightarrow> if ne_last_seen n < ne_last_seen m then Some (i, j, n) else v)
         v [0..<length (bk_live b)])"

definition next_to_refresh :: "int \<Rightarrow> kad_table \<Rightarrow> node_entry option \<times> kad_table" where
  "next_to_refresh now t =
     (case oldest_live 0 (kt_buckets t) None of
        None \<Rightarrow> (None, t)
      | Some (i, j, n) \<Rightarrow>
          let b = kt_buckets t ! i; n1 = n\<lparr>ne_last_seen := now\<rparr> in
          (Some n1, upd_bucket i (b\<lparr>bk_live := (bk_live b)[j := n1]\<rparr>) t))"

definition good_contacts :: "kad_table \<Rightarrow> node_entry list" where
  "good_contacts t = concat (map (\<lambda>b. filter confirmed (bk_live b)) (kt_buckets t))"

fun load_contacts :: "int \<Rightarrow> node_entry list \<Rightarrow> kad_table \<Rightarrow> kad_table option" where
  "load_contacts now [] t = Some t"
| "load_contacts now (n # ns) t =
     (case add_node now n t of None \<Rightarrow> None | Some (_, t1) \<Rightarrow> load_contacts now ns t1)"

definition all_contacts :: "kad_table \<Rightarrow> node_entry list" where
  "all_contacts t = concat (map (\<lambda>b. bk_live b @ bk_repl b) (kt_buckets t))"

definition set_self :: "int \<Rightarrow> node_id \<Rightarrow> kad_table \<Rightarrow> kad_table option" where
  "set_self now i t =
     (if i = kt_self t then Some t
      else load_contacts now (all_contacts t) (t\<lparr>kt_self := i, kt_buckets := [bk_empty], kt_ips := []\<rparr>))"

definition count_ip :: "ip_address \<Rightarrow> node_entry list \<Rightarrow> nat" where
  "count_ip ip ns = length (filter (\<lambda>n. ne_ip n = ip \<and> is_public_ip ip) ns)"

definition ip_index_consistent :: "kad_table \<Rightarrow> bool" where
  "ip_index_consistent t \<longleftrightarrow>
     list_all (\<lambda>ip. map_of (kt_ips t) ip =
         (if count_ip ip (all_contacts t) = 0 then None else Some (count_ip ip (all_contacts t))))
       (map fst (kt_ips t) @ map ne_ip (all_contacts t))"

end
