(* ===== verification/Routing_Safety.thy ===== *)
theory Routing_Safety
  imports Routing_Table
begin

text \<open>
  The invariant of the routing table and its preservation: every contact sits in the bucket
  its identifier belongs to and no identifier twice, live sets and standby caches stay within
  their limits, and the per-address counts are exact. Then the lookup by distance tiers
  against the closest contacts of the whole table, and the insertion that reads past the end
  of the buckets.
\<close>

subsection \<open>The index of addresses\<close>

definition public_ips :: "node_entry list \<Rightarrow> ip_address multiset" where
  "public_ips ns = filter_mset is_public_ip (image_mset ne_ip (mset ns))"

definition tracked :: "(ip_address \<times> nat) list \<Rightarrow> ip_address \<Rightarrow> nat" where
  "tracked ips ip = (case map_of ips ip of None \<Rightarrow> 0 | Some c \<Rightarrow> c)"

definition ips_match :: "ip_address multiset \<Rightarrow> (ip_address \<times> nat) list \<Rightarrow> bool" where
  "ips_match m ips \<longleftrightarrow> (\<forall>ip. tracked ips ip = count m ip \<and> map_of ips ip \<noteq> Some 0)"

definition ip_part :: "ip_address \<Rightarrow> ip_address multiset" where
  "ip_part ip = (if is_public_ip ip then {#ip#} else {#})"

lemma public_ips_simps [simp]:
  "public_ips [] = {#}" "public_ips (n # ns) = ip_part (ne_ip n) + public_ips ns"
  "public_ips (ns @ ms) = public_ips ns + public_ips ms"
  by (simp_all add: public_ips_def ip_part_def)

lemma tracked_update: "tracked (AList.update k c ips) ip = (if ip = k then c else tracked ips ip)"
  by (simp add: tracked_def update_conv')

lemma tracked_delete: "tracked (AList.delete k ips) ip = (if ip = k then 0 else tracked ips ip)"
  by (simp add: tracked_def delete_conv')

lemma ips_match_track:
  "ips_match m (kt_ips t) \<Longrightarrow> ips_match (m + ip_part ip) (kt_ips (ip_track ip t))"
proof -
  have "(case map_of (kt_ips t) ip of None \<Rightarrow> 1 | Some c \<Rightarrow> c + 1) = tracked (kt_ips t) ip + 1"
    by (simp add: tracked_def split: option.splits)
  then show "ips_match m (kt_ips t) \<Longrightarrow> ips_match (m + ip_part ip) (kt_ips (ip_track ip t))"
    by (simp add: ips_match_def ip_track_def ip_part_def tracked_update update_conv')
qed

lemma ips_match_untrack:
  assumes "ips_match (m + ip_part ip) (kt_ips t)"
  shows "ips_match m (kt_ips (ip_untrack ip t))"
proof (cases "is_public_ip ip")
  case True
  with assms have c: "tracked (kt_ips t) ip = Suc (count m ip)"
    by (simp add: ips_match_def ip_part_def)
  then have "map_of (kt_ips t) ip = Some (Suc (count m ip))"
    by (simp add: tracked_def split: option.splits)
  with True assms show ?thesis
    by (auto simp: ips_match_def ip_untrack_def ip_part_def tracked_update tracked_delete
        update_conv' delete_conv' simp del: count_eq_zero_iff)
qed (use assms in \<open>simp add: ip_untrack_def ip_part_def\<close>)

lemma ips_track_eq:
  "ips_match m (kt_ips t) \<Longrightarrow> m' = m + ip_part ip \<Longrightarrow> ips_match m' (kt_ips (ip_track ip t))"
  by (simp add: ips_match_track)

lemma ips_untrack_eq:
  "ips_match m (kt_ips t) \<Longrightarrow> m = m' + ip_part ip \<Longrightarrow> ips_match m' (kt_ips (ip_untrack ip t))"
  by (simp add: ips_match_untrack)

lemma public_ips_mset: "mset ns = mset ms \<Longrightarrow> public_ips ns = public_ips ms"
  by (simp add: public_ips_def)

lemma erase_mset: "j < length xs \<Longrightarrow> mset xs = add_mset (xs ! j) (mset (erase j xs))"
proof -
  assume "j < length xs"
  then have "xs = take j xs @ xs ! j # drop (Suc j) xs" by (rule id_take_nth_drop)
  then have "mset xs = mset (take j xs @ xs ! j # drop (Suc j) xs)" by simp
  then show ?thesis by (simp add: erase_def)
qed

lemma public_ips_erase: "j < length xs \<Longrightarrow> public_ips xs = public_ips (erase j xs) + ip_part (ne_ip (xs ! j))"
  using public_ips_mset [of xs "xs ! j # erase j xs"] erase_mset [of j xs] by simp

lemma list_update_mset_split: "j < length xs \<Longrightarrow> mset (xs[j := e]) = add_mset e (mset (erase j xs))"
  by (simp add: upd_conv_take_nth_drop erase_def)

lemma public_ips_update:
  "j < length xs \<Longrightarrow> public_ips (xs[j := e]) = public_ips (erase j xs) + ip_part (ne_ip e)"
  using public_ips_mset [of "xs[j := e]" "e # erase j xs"] list_update_mset_split [of j xs e] by simp

subsection \<open>The invariant\<close>

definition entries :: "bucket \<Rightarrow> node_entry list" where
  "entries b = bk_live b @ bk_repl b"

definition home :: "node_id \<Rightarrow> nat \<Rightarrow> node_id \<Rightarrow> nat" where
  "home self n i = (let p = shared_prefix_bits self i in if p < n - 1 then p else n - 1)"

definition bucket_ok :: "kad_table \<Rightarrow> nat \<Rightarrow> bucket \<Rightarrow> bool" where
  "bucket_ok t i b \<longleftrightarrow>
     length (bk_live b) \<le> bucket_limit t i \<and> length (bk_repl b) \<le> kBucketSize \<and>
     distinct (map ne_id (entries b)) \<and>
     (\<forall>n \<in> set (entries b). id_wf (ne_id n) \<and> ne_id n \<noteq> kt_self t \<and>
        home (kt_self t) (length (kt_buckets t)) (ne_id n) = i)"

definition kt_shape :: "kad_table \<Rightarrow> bool" where
  "kt_shape t \<longleftrightarrow>
     id_wf (kt_self t) \<and> kt_buckets t \<noteq> [] \<and> length (kt_buckets t) < kBucketCount \<and>
     (\<forall>i < length (kt_buckets t). bucket_ok t i (kt_buckets t ! i))"

definition kt_inv :: "kad_table \<Rightarrow> bool" where
  "kt_inv t \<longleftrightarrow> kt_shape t \<and> ips_match (public_ips (all_contacts t)) (kt_ips t)"

lemma bucket_index_home: "bucket_index t i = home (kt_self t) (length (kt_buckets t)) i"
  by (simp add: bucket_index_def home_def Let_def)

lemma bucket_index_less: "kt_buckets t \<noteq> [] \<Longrightarrow> bucket_index t i < length (kt_buckets t)"
  by (simp add: bucket_index_def Let_def) linarith

lemma all_contacts_entries: "all_contacts t = concat (map entries (kt_buckets t))"
  by (simp add: all_contacts_def entries_def [abs_def])

text \<open>Changing one bucket changes the contacts by the difference.\<close>

lemma public_ips_bucket:
  assumes "i < length bs"
  shows "public_ips (concat (map entries (bs[i := b]))) + public_ips (entries (bs ! i)) =
    public_ips (concat (map entries bs)) + public_ips (entries b)"
  using assms
proof (induction bs arbitrary: i)
  case (Cons c bs)
  then show ?case by (cases i) (simp_all add: ac_simps)
qed simp

text \<open>
  A step on one bucket keeps the invariant when the new contents are fit for that bucket and
  the index was moved from the old contents to the new.
\<close>

definition ip_ok :: "kad_table \<Rightarrow> bool" where
  "ip_ok t \<longleftrightarrow> ips_match (public_ips (all_contacts t)) (kt_ips t)"

lemma ip_ok_upd:
  assumes "ip_ok t" "i < length (kt_buckets t)" "kt_buckets t' = (kt_buckets t)[i := b]"
    and "\<And>rest. ips_match (rest + public_ips (entries (kt_buckets t ! i))) (kt_ips t) \<Longrightarrow>
           ips_match (rest + public_ips (entries b)) (kt_ips t')"
  shows "ip_ok t'"
proof -
  let ?bs = "kt_buckets t"
  let ?old = "public_ips (entries (?bs ! i))"
  have "?bs = take i ?bs @ ?bs ! i # drop (Suc i) ?bs"
    using assms(2) by (rule id_take_nth_drop)
  then have "map entries ?bs = map entries (take i ?bs @ ?bs ! i # drop (Suc i) ?bs)" by simp
  then have "all_contacts t = concat (map entries (take i ?bs)) @ entries (?bs ! i) @ concat (map entries (drop (Suc i) ?bs))"
    unfolding all_contacts_entries by simp
  then obtain rest where rest: "public_ips (all_contacts t) = rest + ?old"
    by (metis add.assoc add.commute public_ips_simps(3))
  have "public_ips (all_contacts t') + ?old = rest + ?old + public_ips (entries b)"
    using public_ips_bucket [OF assms(2), of b] rest by (simp add: all_contacts_entries assms(3))
  then have "public_ips (all_contacts t') = rest + public_ips (entries b)"
    by (metis add.assoc add.commute add_left_cancel)
  moreover have "ips_match (rest + ?old) (kt_ips t)"
    using assms(1) rest by (simp add: ip_ok_def)
  ultimately show ?thesis
    using assms(4) [of rest] by (simp add: ip_ok_def)
qed

lemma kt_inv_upd:
  assumes "kt_inv t" "i < length (kt_buckets t)"
    and "kt_self t' = kt_self t" "kt_extended t' = kt_extended t" "kt_buckets t' = (kt_buckets t)[i := b]"
    and "bucket_ok t i b"
    and "\<And>rest. ips_match (rest + public_ips (entries (kt_buckets t ! i))) (kt_ips t) \<Longrightarrow>
           ips_match (rest + public_ips (entries b)) (kt_ips t')"
  shows "kt_inv t'"
proof -
  have "bucket_limit t' j = bucket_limit t j" for j by (simp add: bucket_limit_def assms(4))
  then have ok: "bucket_ok t' j c = bucket_ok t j c" for j c
    by (simp add: bucket_ok_def assms(3,5))
  have "ip_ok t" using assms(1) by (simp add: kt_inv_def ip_ok_def)
  from ip_ok_upd [OF this assms(2,5,7)] have "ip_ok t'" by blast
  moreover have "kt_shape t'"
    using assms(1,2,6) by (auto simp: kt_inv_def kt_shape_def ok assms(3,5) nth_list_update)
  ultimately show ?thesis by (simp add: kt_inv_def ip_ok_def)
qed

subsection \<open>Steps on one bucket\<close>

definition fits :: "kad_table \<Rightarrow> nat \<Rightarrow> node_entry \<Rightarrow> bool" where
  "fits t i e \<longleftrightarrow>
     id_wf (ne_id e) \<and> ne_id e \<noteq> kt_self t \<and> home (kt_self t) (length (kt_buckets t)) (ne_id e) = i"

lemma distinct_mset_map:
  assumes "distinct (map f ys)" "mset xs \<subseteq># mset ys" shows "distinct (map f xs)"
proof -
  obtain zs where "mset ys = mset (xs @ zs)"
    using assms(2) by (metis ex_mset mset_append subset_mset.le_iff_add)
  then have "mset (map f ys) = mset (map f (xs @ zs))" by (metis mset_map)
  with assms(1) have "distinct (map f (xs @ zs))" by (metis mset_eq_imp_distinct_iff)
  then show ?thesis by simp
qed

lemma bucket_ok_sub:
  assumes "bucket_ok t i b" "mset (entries b') \<subseteq># mset (entries b)"
    and "length (bk_live b') \<le> bucket_limit t i" "length (bk_repl b') \<le> kBucketSize"
  shows "bucket_ok t i b'"
  using assms distinct_mset_map [of ne_id "entries b" "entries b'"] mset_subset_eqD [OF assms(2)]
  by (auto simp: bucket_ok_def)

lemma bucket_ok_add:
  assumes "bucket_ok t i b" "mset (entries b') = add_mset e m" "m \<subseteq># mset (entries b)"
    and "fits t i e" "ne_id e \<notin> ne_id ` set_mset m"
    and "length (bk_live b') \<le> bucket_limit t i" "length (bk_repl b') \<le> kBucketSize"
  shows "bucket_ok t i b'"
proof -
  obtain ns where m: "m = mset ns" by (metis ex_mset)
  have "distinct (map ne_id ns)"
    using assms(1,3) distinct_mset_map [of ne_id "entries b" ns] by (simp add: bucket_ok_def m)
  moreover have "mset (map ne_id (entries b')) = mset (map ne_id (e # ns))"
    using assms(2) by (metis m mset.simps(2) mset_map)
  ultimately have "distinct (map ne_id (entries b'))"
    using assms(5) by (metis (no_types, lifting) distinct.simps(2) list.simps(9) list.set_map m mset_eq_imp_distinct_iff set_mset_mset)
  moreover have "set (entries b') = insert e (set ns)"
    using arg_cong [OF assms(2), of set_mset] by (simp add: m)
  moreover have "set ns \<subseteq> set (entries b)"
    using mset_subset_eqD [OF assms(3)] by (auto simp: m)
  ultimately show ?thesis
    using assms(1,4,6,7) by (auto simp: bucket_ok_def fits_def)
qed

lemma kt_inv_bucket:
  assumes "kt_inv t" "i < length (kt_buckets t)" shows "bucket_ok t i (kt_buckets t ! i)"
  using assms by (simp add: kt_inv_def kt_shape_def)

lemma kt_track_same [simp]:
  "kt_self (ip_track ip t) = kt_self t" "kt_extended (ip_track ip t) = kt_extended t"
  "kt_self (ip_untrack ip t) = kt_self t" "kt_extended (ip_untrack ip t) = kt_extended t"
  "kt_self (upd_bucket i b t) = kt_self t" "kt_extended (upd_bucket i b t) = kt_extended t"
  "kt_ips (upd_bucket i b t) = kt_ips t" "kt_buckets (upd_bucket i b t) = (kt_buckets t)[i := b]"
  by (simp_all add: ip_track_def ip_untrack_def upd_bucket_def split: option.splits)

lemma kt_ips_upd_track [simp]:
  "kt_ips (ip_track ip (upd_bucket i b t)) = kt_ips (ip_track ip t)"
  "kt_ips (upd_bucket i b (ip_untrack ip t)) = kt_ips (ip_untrack ip t)"
  by (simp_all add: ip_track_def upd_bucket_def)

lemma kt_inv_put:
  assumes "kt_inv t" "i < length (kt_buckets t)" "bucket_ok t i b"
    and "public_ips (entries b) = public_ips (entries (kt_buckets t ! i))"
  shows "kt_inv (upd_bucket i b t)"
  by (rule kt_inv_upd [OF assms(1,2), where b = b]) (use assms in simp_all)

lemma kt_inv_push:
  assumes "kt_inv t" "i < length (kt_buckets t)" "fits t i e"
    and "ne_id e \<notin> ne_id ` set (entries (kt_buckets t ! i))"
  shows "length (bk_live (kt_buckets t ! i)) < bucket_limit t i \<Longrightarrow> kt_inv (push_live i e t)"
    and "length (bk_repl (kt_buckets t ! i)) < kBucketSize \<Longrightarrow> kt_inv (push_repl i e t)"
proof -
  let ?b = "kt_buckets t ! i"
  note ok = kt_inv_bucket [OF assms(1,2)]
  show "kt_inv (push_live i e t)" if "length (bk_live ?b) < bucket_limit t i"
    unfolding push_live_def Let_def
  proof (rule kt_inv_upd [OF assms(1,2)])
    show "bucket_ok t i (?b\<lparr>bk_live := bk_live ?b @ [e]\<rparr>)"
      by (rule bucket_ok_add [OF ok, of _ e "mset (entries ?b)"])
        (use assms that ok in \<open>auto simp: entries_def bucket_ok_def\<close>)
  qed (auto elim!: ips_track_eq simp: entries_def ac_simps)
  show "kt_inv (push_repl i e t)" if "length (bk_repl ?b) < kBucketSize"
    unfolding push_repl_def Let_def
  proof (rule kt_inv_upd [OF assms(1,2)])
    show "bucket_ok t i (?b\<lparr>bk_repl := bk_repl ?b @ [e]\<rparr>)"
      by (rule bucket_ok_add [OF ok, of _ e "mset (entries ?b)"])
        (use assms that ok in \<open>auto simp: entries_def bucket_ok_def\<close>)
  qed (auto elim!: ips_track_eq simp: entries_def ac_simps)
qed

lemma entries_live_upd:
  assumes "j < length (bk_live b)"
  shows "mset (entries (b\<lparr>bk_live := (bk_live b)[j := e]\<rparr>)) = add_mset e (mset (erase j (bk_live b)) + mset (bk_repl b))"
    and "mset (entries (b\<lparr>bk_live := erase j (bk_live b)\<rparr>)) = mset (erase j (bk_live b)) + mset (bk_repl b)"
    and "mset (entries b) = add_mset (bk_live b ! j) (mset (erase j (bk_live b)) + mset (bk_repl b))"
  using erase_mset [OF assms] list_update_mset_split [OF assms, of e] by (simp_all add: entries_def)

lemma entries_repl_upd:
  assumes "j < length (bk_repl b)"
  shows "mset (entries (b\<lparr>bk_repl := (bk_repl b)[j := e]\<rparr>)) = add_mset e (mset (bk_live b) + mset (erase j (bk_repl b)))"
    and "mset (entries (b\<lparr>bk_repl := erase j (bk_repl b)\<rparr>)) = mset (bk_live b) + mset (erase j (bk_repl b))"
    and "mset (entries b) = add_mset (bk_repl b ! j) (mset (bk_live b) + mset (erase j (bk_repl b)))"
  using erase_mset [OF assms] list_update_mset_split [OF assms, of e] by (simp_all add: entries_def)

lemma public_ips_of_mset: "mset ns = m \<Longrightarrow> public_ips ns = filter_mset is_public_ip (image_mset ne_ip m)"
  by (auto simp: public_ips_def)

lemma ip_part_filter: "filter_mset is_public_ip (image_mset ne_ip (add_mset e m)) =
    ip_part (ne_ip e) + filter_mset is_public_ip (image_mset ne_ip m)"
  by (simp add: ip_part_def)

text \<open>Removing a contact, and putting a new one in the place of an old one.\<close>

lemma kt_inv_drop:
  assumes "kt_inv t" "i < length (kt_buckets t)"
  shows "j < length (bk_live (kt_buckets t ! i)) \<Longrightarrow> kt_inv (drop_live i j t)"
    and "j < length (bk_repl (kt_buckets t ! i)) \<Longrightarrow> kt_inv (drop_repl i j t)"
proof -
  let ?b = "kt_buckets t ! i"
  note ok = kt_inv_bucket [OF assms(1,2)]
  show "kt_inv (drop_live i j t)" if j: "j < length (bk_live ?b)"
    unfolding drop_live_def Let_def
  proof (rule kt_inv_upd [OF assms(1,2)])
    show "bucket_ok t i (?b\<lparr>bk_live := erase j (bk_live ?b)\<rparr>)"
      by (rule bucket_ok_sub [OF ok]) (use ok entries_live_upd [OF j] j in \<open>auto simp: bucket_ok_def length_erase\<close>)
    fix rest assume "ips_match (rest + public_ips (entries ?b)) (kt_ips t)"
    then show "ips_match (rest + public_ips (entries (?b\<lparr>bk_live := erase j (bk_live ?b)\<rparr>)))
        (kt_ips (upd_bucket i (?b\<lparr>bk_live := erase j (bk_live ?b)\<rparr>) (ip_untrack (ne_ip (bk_live ?b ! j)) t)))"
      unfolding kt_ips_upd_track
      by (rule ips_untrack_eq) (simp add: public_ips_of_mset [OF entries_live_upd(2) [OF j]]
          public_ips_of_mset [OF entries_live_upd(3) [OF j]] ip_part_filter ac_simps del: image_mset_add_mset image_mset_union)
  qed simp_all
  show "kt_inv (drop_repl i j t)" if j: "j < length (bk_repl ?b)"
    unfolding drop_repl_def Let_def
  proof (rule kt_inv_upd [OF assms(1,2)])
    show "bucket_ok t i (?b\<lparr>bk_repl := erase j (bk_repl ?b)\<rparr>)"
      by (rule bucket_ok_sub [OF ok]) (use ok entries_repl_upd [OF j] j in \<open>auto simp: bucket_ok_def length_erase\<close>)
    fix rest assume "ips_match (rest + public_ips (entries ?b)) (kt_ips t)"
    then show "ips_match (rest + public_ips (entries (?b\<lparr>bk_repl := erase j (bk_repl ?b)\<rparr>)))
        (kt_ips (upd_bucket i (?b\<lparr>bk_repl := erase j (bk_repl ?b)\<rparr>) (ip_untrack (ne_ip (bk_repl ?b ! j)) t)))"
      unfolding kt_ips_upd_track
      by (rule ips_untrack_eq) (simp add: public_ips_of_mset [OF entries_repl_upd(2) [OF j]]
          public_ips_of_mset [OF entries_repl_upd(3) [OF j]] ip_part_filter ac_simps del: image_mset_add_mset image_mset_union)
  qed simp_all
qed

text \<open>A slot overwritten, with the index moved from the old address to the new one.\<close>

definition moved_ip :: "ip_address \<Rightarrow> ip_address \<Rightarrow> kad_table \<Rightarrow> (ip_address \<times> nat) list \<Rightarrow> bool" where
  "moved_ip old new t ips \<longleftrightarrow> ips = kt_ips (ip_track new (ip_untrack old t)) \<or> old = new \<and> ips = kt_ips t"

lemma moved_ip_match:
  "moved_ip old new t ips \<Longrightarrow> ips_match (m + ip_part old) (kt_ips t) \<Longrightarrow> ips_match (m + ip_part new) ips"
  using ips_match_track [OF ips_match_untrack] by (auto simp: moved_ip_def)

lemma kt_inv_overwrite_live:
  assumes "kt_inv t" "i < length (kt_buckets t)" "j < length (bk_live (kt_buckets t ! i))" "fits t i e"
    and "ne_id e \<notin> ne_id ` set_mset (mset (erase j (bk_live (kt_buckets t ! i))) + mset (bk_repl (kt_buckets t ! i)))"
    and "kt_self t' = kt_self t" "kt_extended t' = kt_extended t"
    and "kt_buckets t' = (kt_buckets t)[i := (kt_buckets t ! i)\<lparr>bk_live := (bk_live (kt_buckets t ! i))[j := e]\<rparr>]"
    and "moved_ip (ne_ip (bk_live (kt_buckets t ! i) ! j)) (ne_ip e) t (kt_ips t')"
  shows "kt_inv t'"
proof (rule kt_inv_upd [OF assms(1,2,6,7,8)])
  let ?b = "kt_buckets t ! i"
  note ok = kt_inv_bucket [OF assms(1,2)] and m = entries_live_upd [OF assms(3)]
  show "bucket_ok t i (?b\<lparr>bk_live := (bk_live ?b)[j := e]\<rparr>)"
    by (rule bucket_ok_add [OF ok m(1) _ assms(4,5)]) (use ok m(3) in \<open>auto simp: bucket_ok_def\<close>)
  fix rest assume "ips_match (rest + public_ips (entries ?b)) (kt_ips t)"
  then have "ips_match (rest + filter_mset is_public_ip (image_mset ne_ip (mset (erase j (bk_live ?b)) + mset (bk_repl ?b)))
      + ip_part (ne_ip (bk_live ?b ! j))) (kt_ips t)"
    unfolding public_ips_of_mset [OF m(3)] ip_part_filter by (simp only: ac_simps)
  from moved_ip_match [OF assms(9) this]
  show "ips_match (rest + public_ips (entries (?b\<lparr>bk_live := (bk_live ?b)[j := e]\<rparr>))) (kt_ips t')"
    unfolding public_ips_of_mset [OF m(1)] ip_part_filter by (simp only: ac_simps)
qed

lemma kt_inv_overwrite_repl:
  assumes "kt_inv t" "i < length (kt_buckets t)" "j < length (bk_repl (kt_buckets t ! i))" "fits t i e"
    and "ne_id e \<notin> ne_id ` set_mset (mset (bk_live (kt_buckets t ! i)) + mset (erase j (bk_repl (kt_buckets t ! i))))"
    and "kt_self t' = kt_self t" "kt_extended t' = kt_extended t"
    and "kt_buckets t' = (kt_buckets t)[i := (kt_buckets t ! i)\<lparr>bk_repl := (bk_repl (kt_buckets t ! i))[j := e]\<rparr>]"
    and "moved_ip (ne_ip (bk_repl (kt_buckets t ! i) ! j)) (ne_ip e) t (kt_ips t')"
  shows "kt_inv t'"
proof (rule kt_inv_upd [OF assms(1,2,6,7,8)])
  let ?b = "kt_buckets t ! i"
  note ok = kt_inv_bucket [OF assms(1,2)] and m = entries_repl_upd [OF assms(3)]
  show "bucket_ok t i (?b\<lparr>bk_repl := (bk_repl ?b)[j := e]\<rparr>)"
    by (rule bucket_ok_add [OF ok m(1) _ assms(4,5)]) (use ok m(3) in \<open>auto simp: bucket_ok_def\<close>)
  fix rest assume "ips_match (rest + public_ips (entries ?b)) (kt_ips t)"
  then have "ips_match (rest + filter_mset is_public_ip (image_mset ne_ip (mset (bk_live ?b) + mset (erase j (bk_repl ?b))))
      + ip_part (ne_ip (bk_repl ?b ! j))) (kt_ips t)"
    unfolding public_ips_of_mset [OF m(3)] ip_part_filter by (simp only: ac_simps)
  from moved_ip_match [OF assms(9) this]
  show "ips_match (rest + public_ips (entries (?b\<lparr>bk_repl := (bk_repl ?b)[j := e]\<rparr>))) (kt_ips t')"
    unfolding public_ips_of_mset [OF m(1)] ip_part_filter by (simp only: ac_simps)
qed

text \<open>The identifier of the contact in a slot is nowhere else in its bucket.\<close>

lemma slot_id_unique:
  assumes "kt_inv t" "i < length (kt_buckets t)"
  shows "j < length (bk_live (kt_buckets t ! i)) \<Longrightarrow> ne_id (bk_live (kt_buckets t ! i) ! j) \<notin>
      ne_id ` set_mset (mset (erase j (bk_live (kt_buckets t ! i))) + mset (bk_repl (kt_buckets t ! i)))"
    and "j < length (bk_repl (kt_buckets t ! i)) \<Longrightarrow> ne_id (bk_repl (kt_buckets t ! i) ! j) \<notin>
      ne_id ` set_mset (mset (bk_live (kt_buckets t ! i)) + mset (erase j (bk_repl (kt_buckets t ! i))))"
    and "n \<in> set (entries (kt_buckets t ! i)) \<Longrightarrow> fits t i n"
proof -
  let ?b = "kt_buckets t ! i"
  note ok = kt_inv_bucket [OF assms]
  have split: "f n \<notin> f ` set_mset m" if "distinct (map f (entries ?b))" "mset (entries ?b) = add_mset n m"
    for f :: "node_entry \<Rightarrow> node_id" and n m
  proof -
    obtain ns where m: "m = mset ns" by (metis ex_mset)
    then have "mset (map f (entries ?b)) = mset (map f (n # ns))"
      using that(2) by (metis mset.simps(2) mset_map)
    with that(1) have "distinct (map f (n # ns))" by (metis mset_eq_imp_distinct_iff)
    then show ?thesis by (auto simp: m)
  qed
  show "j < length (bk_live ?b) \<Longrightarrow> ne_id (bk_live ?b ! j) \<notin>
      ne_id ` set_mset (mset (erase j (bk_live ?b)) + mset (bk_repl ?b))"
    by (rule split [OF _ entries_live_upd(3)]) (use ok in \<open>simp_all add: bucket_ok_def\<close>)
  show "j < length (bk_repl ?b) \<Longrightarrow> ne_id (bk_repl ?b ! j) \<notin>
      ne_id ` set_mset (mset (bk_live ?b) + mset (erase j (bk_repl ?b)))"
    by (rule split [OF _ entries_repl_upd(3)]) (use ok in \<open>simp_all add: bucket_ok_def\<close>)
  show "n \<in> set (entries ?b) \<Longrightarrow> fits t i n"
    using ok by (simp add: bucket_ok_def fits_def)
qed

subsection \<open>The operations on standbys and live sets\<close>

lemma find_index_Some: "find_index P xs = Some j \<Longrightarrow> j < length xs \<and> P (xs ! j)"
  by (induction xs arbitrary: j) (auto split: if_splits)

lemma find_index_None: "find_index P xs = None \<longleftrightarrow> (\<forall>x \<in> set xs. \<not> P x)"
  by (induction xs) auto

lemma find_by_id_Some: "find_by_id i v = Some j \<Longrightarrow> j < length v \<and> ne_id (v ! j) = i"
  unfolding find_by_id_def by (rule find_index_Some)

lemma find_by_id_None: "find_by_id i v = None \<longleftrightarrow> i \<notin> ne_id ` set v"
  unfolding find_by_id_def find_index_None by auto

text \<open>A contact that belongs to bucket \<open>i\<close> and is not in it yet.\<close>

definition newcomer :: "kad_table \<Rightarrow> nat \<Rightarrow> node_entry \<Rightarrow> bool" where
  "newcomer t i e \<longleftrightarrow>
     kt_inv t \<and> i < length (kt_buckets t) \<and> fits t i e \<and> ne_id e \<notin> ne_id ` set (entries (kt_buckets t ! i))"

lemma newcomerD:
  assumes "newcomer t i e"
  shows "kt_inv t" "i < length (kt_buckets t)" "fits t i e" "ne_id e \<notin> ne_id ` set (entries (kt_buckets t ! i))"
  using assms by (simp_all add: newcomer_def)

lemma assign_live_inv:
  assumes "newcomer t i e" "j < length (bk_live (kt_buckets t ! i))"
  shows "kt_inv (assign_live i j e t)"
proof (rule kt_inv_overwrite_live [OF newcomerD(1,2) [OF assms(1)] assms(2) newcomerD(3) [OF assms(1)]])
  show "ne_id e \<notin> ne_id ` set_mset (mset (erase j (bk_live (kt_buckets t ! i))) + mset (bk_repl (kt_buckets t ! i)))"
    using newcomerD(4) [OF assms(1)] entries_live_upd(3) [OF assms(2), THEN arg_cong, of set_mset] by auto
qed (auto simp: assign_live_def Let_def moved_ip_def)

lemma assign_repl_inv:
  assumes "newcomer t i e" "j < length (bk_repl (kt_buckets t ! i))"
  shows "kt_inv (assign_repl i j e t)"
proof (rule kt_inv_overwrite_repl [OF newcomerD(1,2) [OF assms(1)] assms(2) newcomerD(3) [OF assms(1)]])
  show "ne_id e \<notin> ne_id ` set_mset (mset (bk_live (kt_buckets t ! i)) + mset (erase j (bk_repl (kt_buckets t ! i))))"
    using newcomerD(4) [OF assms(1)] entries_repl_upd(3) [OF assms(2), THEN arg_cong, of set_mset] by auto
qed (auto simp: assign_repl_def Let_def moved_ip_def)

lemma stash_replacement_inv: "newcomer t i e \<Longrightarrow> kt_inv (stash_replacement i e t)"
proof -
  assume new: "newcomer t i e"
  then have "find_by_id (ne_id e) (bk_repl (kt_buckets t ! i)) = None"
    by (auto simp: newcomer_def find_by_id_None entries_def)
  with new show ?thesis
    by (auto simp: stash_replacement_def Let_def kt_inv_push(2) newcomerD assign_repl_inv
        dest: worst_of_less split: option.splits)
qed

lemma replace_for_spread_inv:
  "newcomer t i e \<Longrightarrow> replace_for_spread i limit e t = Some t' \<Longrightarrow> kt_inv t'"
  unfolding replace_for_spread_def Let_def
  by (auto intro!: assign_live_inv dest!: scan_over_mem split: option.splits if_splits)

lemma refresh_live_inv:
  assumes "kt_inv t" "i < length (kt_buckets t)" "j < length (bk_live (kt_buckets t ! i))"
  shows "kt_inv (refresh_live now i j e t)"
proof -
  let ?b = "kt_buckets t ! i" let ?n = "bk_live ?b ! j"
  have "?n \<in> set (entries ?b)" using assms(3) by (simp add: entries_def)
  then have "fits t i ?n" by (rule slot_id_unique(3) [OF assms(1,2)])
  then have same: "fits t i m" if "ne_id m = ne_id ?n" for m using that by (simp add: fits_def)
  have rs: "ne_id (record_success now r m) = ne_id m" "ne_ip (record_success now r m) = ne_ip m" for r m
    by (simp_all add: record_success_def update_rtt_def)
  show ?thesis
  proof (cases "pinged e")
    case True
    show ?thesis
      by (rule kt_inv_overwrite_live [OF assms, of "record_success now (ne_rtt e)
            (?n\<lparr>ne_verified := ne_verified ?n \<or> ne_verified e, ne_endpoint := ne_endpoint e\<rparr>)"])
        (use True same slot_id_unique(1) [OF assms] in \<open>auto simp: rs refresh_live_def Let_def moved_ip_def\<close>)
  next
    case False
    show ?thesis
      by (rule kt_inv_overwrite_live [OF assms, of "?n\<lparr>ne_verified := ne_verified ?n \<or> ne_verified e\<rparr>"])
        (use False same slot_id_unique(1) [OF assms] in \<open>auto simp: refresh_live_def Let_def moved_ip_def\<close>)
  qed
qed

subsection \<open>Promotion\<close>

lemma fill_bucket_facts:
  "mset (entries (fill_bucket limit b)) = mset (entries b) \<and>
   length (bk_repl (fill_bucket limit b)) \<le> length (bk_repl b) \<and>
   (length (bk_live b) \<le> limit \<longrightarrow> length (bk_live (fill_bucket limit b)) \<le> limit)"
proof (induction limit b rule: fill_bucket.induct)
  case (1 limit b)
  show ?case
  proof (cases "length (bk_live b) < limit")
    case True
    show ?thesis
    proof (cases "best_of (bk_repl b)")
      case None
      with True show ?thesis by (simp add: fill_bucket.simps)
    next
      case (Some i)
      note j = best_of_less [OF Some]
      from 1 [OF True Some] True Some erase_mset [OF j] j show ?thesis
        by (subst (1 2 3) fill_bucket.simps) (auto simp: entries_def length_erase)
    qed
  qed (simp add: fill_bucket.simps)
qed

lemma fill_at_inv: "kt_inv t \<Longrightarrow> i < length (kt_buckets t) \<Longrightarrow> kt_inv (fill_at i t)"
  unfolding fill_at_def
proof (rule kt_inv_put)
  assume a: "kt_inv t" "i < length (kt_buckets t)"
  let ?b = "kt_buckets t ! i" let ?f = "fill_bucket (bucket_limit t i) ?b"
  note ok = kt_inv_bucket [OF a] and f = fill_bucket_facts [of "bucket_limit t i" ?b]
  show "bucket_ok t i ?f"
    by (rule bucket_ok_sub [OF ok]) (use ok f in \<open>auto simp: bucket_ok_def\<close>)
  show "public_ips (entries ?f) = public_ips (entries ?b)"
    using f by (intro public_ips_mset) blast
qed

subsection \<open>Pruning\<close>

lemma prune_rev_drop:
  "bs \<noteq> [] \<Longrightarrow> \<exists>k < length bs. prune_rev bs = drop k bs \<and> (\<forall>b \<in> set (take k bs). entries b = [])"
proof (induction bs rule: prune_rev.induct)
  case (1 b c bs)
  show ?case
  proof (cases "bk_live b = [] \<and> bk_repl b = []")
    case True
    from 1(1) [OF True] obtain k where "k < length (c # bs)" "prune_rev (c # bs) = drop k (c # bs)"
      "\<forall>x \<in> set (take k (c # bs)). entries x = []" by auto
    with True show ?thesis by (intro exI [of _ "Suc k"]) (auto simp: entries_def)
  qed auto
qed auto

lemma prune_take:
  assumes "kt_buckets t \<noteq> []"
  obtains m where "0 < m" "m \<le> length (kt_buckets t)" "kt_buckets (prune_empty_back t) = take m (kt_buckets t)"
    "\<forall>b \<in> set (drop m (kt_buckets t)). entries b = []"
proof -
  let ?bs = "kt_buckets t"
  obtain k where k: "k < length ?bs" "prune_rev (rev ?bs) = drop k (rev ?bs)" "\<forall>b \<in> set (take k (rev ?bs)). entries b = []"
    using prune_rev_drop [of "rev ?bs"] assms by auto
  show thesis
  proof (rule that [of "length ?bs - k"])
    show "kt_buckets (prune_empty_back t) = take (length ?bs - k) ?bs"
      using k(2) by (simp add: prune_empty_back_def drop_rev)
    show "\<forall>b \<in> set (drop (length ?bs - k) ?bs). entries b = []"
      using k(3) by (simp add: take_rev)
  qed (use k(1) in simp_all)
qed

lemma home_shorter: "home s n i = k \<Longrightarrow> k < m \<Longrightarrow> m \<le> n \<Longrightarrow> home s m i = k"
  by (auto simp: home_def Let_def split: if_splits)

lemma concat_map_nil: "\<forall>b \<in> set bs. f b = [] \<Longrightarrow> concat (map f bs) = []"
  by (induction bs) auto

lemma prune_empty_back_inv: "kt_inv t \<Longrightarrow> kt_inv (prune_empty_back t)"
proof -
  assume inv: "kt_inv t"
  then have sh: "kt_shape t" "kt_buckets t \<noteq> []" by (simp_all add: kt_inv_def kt_shape_def)
  obtain m where m: "0 < m" "m \<le> length (kt_buckets t)" "kt_buckets (prune_empty_back t) = take m (kt_buckets t)"
    "\<forall>b \<in> set (drop m (kt_buckets t)). entries b = []"
    using prune_take [OF sh(2)] .
  have same: "kt_self (prune_empty_back t) = kt_self t" "kt_extended (prune_empty_back t) = kt_extended t"
    "kt_ips (prune_empty_back t) = kt_ips t"
    by (simp_all add: prune_empty_back_def)
  have "all_contacts t = concat (map entries (take m (kt_buckets t) @ drop m (kt_buckets t)))"
    by (simp add: all_contacts_entries)
  also have "\<dots> = all_contacts (prune_empty_back t)"
    using concat_map_nil [OF m(4)] by (simp only: map_append concat_append all_contacts_entries m(3)) simp
  finally have ac: "all_contacts (prune_empty_back t) = all_contacts t" ..
  have "bucket_ok (prune_empty_back t) i (kt_buckets t ! i)" if "i < m" for i
  proof -
    have "bucket_ok t i (kt_buckets t ! i)" using sh(1) that m(2) by (simp add: kt_shape_def)
    with that m show ?thesis
      by (auto simp: bucket_ok_def same bucket_limit_def intro: home_shorter)
  qed
  then have "kt_shape (prune_empty_back t)"
    using sh m by (auto simp: kt_shape_def same)
  with inv ac show ?thesis by (simp add: kt_inv_def same)
qed

lemma locate_some:
  "locate ep k bs = Some (i, l, j) \<Longrightarrow> k \<le> i \<and> i - k < length bs \<and>
     j < length ((if l then bk_live else bk_repl) (bs ! (i - k)))"
proof (induction bs arbitrary: k)
  case (Cons b bs)
  show ?case
  proof (cases "locate ep (k + 1) bs = Some (i, l, j)")
    case True
    from Cons.IH [OF True] show ?thesis
      using Cons.prems by (auto split: option.splits dest: find_index_Some simp: Suc_diff_le)
  next
    case False
    with Cons.prems show ?thesis by (auto split: option.splits dest: find_index_Some)
  qed
qed simp

lemma find_by_endpoint_some:
  "find_by_endpoint ep t = Some (i, l, j) \<Longrightarrow> i < length (kt_buckets t) \<and>
     j < length ((if l then bk_live else bk_repl) (kt_buckets t ! i))"
  using locate_some [of ep 0 "kt_buckets t"] by (simp add: find_by_endpoint_def)

lemma length_drop_live [simp]: "length (kt_buckets (drop_live i j t)) = length (kt_buckets t)"
  by (simp add: drop_live_def Let_def)

lemma passes_ip_diversity_inv: "kt_inv t \<Longrightarrow> passes_ip_diversity idx e t = (r, t') \<Longrightarrow> kt_inv t'"
  unfolding passes_ip_diversity_def Let_def
  by (auto intro!: prune_empty_back_inv fill_at_inv kt_inv_drop dest!: find_by_endpoint_some split: if_splits option.splits)

subsection \<open>Splitting\<close>

lemma drop_repl_ip_ok:
  assumes "ip_ok t" "i < length (kt_buckets t)" "j < length (bk_repl (kt_buckets t ! i))"
  shows "ip_ok (drop_repl i j t)"
  unfolding drop_repl_def Let_def
proof (rule ip_ok_upd [OF assms(1,2)])
  let ?b = "kt_buckets t ! i"
  fix rest assume "ips_match (rest + public_ips (entries ?b)) (kt_ips t)"
  then show "ips_match (rest + public_ips (entries (?b\<lparr>bk_repl := erase j (bk_repl ?b)\<rparr>)))
      (kt_ips (upd_bucket i (?b\<lparr>bk_repl := erase j (bk_repl ?b)\<rparr>) (ip_untrack (ne_ip (bk_repl ?b ! j)) t)))"
    unfolding kt_ips_upd_track
    by (rule ips_untrack_eq) (simp add: public_ips_of_mset [OF entries_repl_upd(2) [OF assms(3)]]
        public_ips_of_mset [OF entries_repl_upd(3) [OF assms(3)]] ip_part_filter ac_simps del: image_mset_add_mset image_mset_union)
qed simp

lemma spill_live_facts:
  "mset (entries (spill_live limit b)) = mset (entries b) \<and> length (bk_live (spill_live limit b)) \<le> limit"
proof (induction limit b rule: spill_live.induct)
  case (1 limit b)
  show ?case
  proof (cases "length (bk_live b) > limit")
    case True
    show ?thesis
    proof (cases "worst_of (bk_live b)")
      case None
      with True show ?thesis by (auto simp: worst_of_def scan_over_None)
    next
      case (Some w)
      note j = worst_of_less [OF Some]
      from 1 [OF True Some] True Some erase_mset [OF j] show ?thesis
        by (subst (1 2) spill_live.simps) (simp add: entries_def)
    qed
  qed (simp add: spill_live.simps)
qed

definition trimmed :: "nat \<Rightarrow> kad_table \<Rightarrow> kad_table \<Rightarrow> bool" where
  "trimmed i t t' \<longleftrightarrow>
     ip_ok t' \<and> kt_self t' = kt_self t \<and> kt_extended t' = kt_extended t \<and>
     (\<exists>b. kt_buckets t' = (kt_buckets t)[i := b] \<and> mset (entries b) \<subseteq># mset (entries (kt_buckets t ! i)) \<and>
        length (bk_live b) \<le> length (bk_live (kt_buckets t ! i)) \<and>
        length (bk_repl b) \<le> length (bk_repl (kt_buckets t ! i)))"

lemma trimmed_trans:
  assumes "trimmed i t t1" "trimmed i t1 t2" "i < length (kt_buckets t)"
  shows "trimmed i t t2"
proof -
  from assms(1) obtain b where b: "kt_buckets t1 = (kt_buckets t)[i := b]" "mset (entries b) \<subseteq># mset (entries (kt_buckets t ! i))"
    "length (bk_live b) \<le> length (bk_live (kt_buckets t ! i))" "length (bk_repl b) \<le> length (bk_repl (kt_buckets t ! i))"
    by (auto simp: trimmed_def)
  with assms(3) have n: "kt_buckets t1 ! i = b" by simp
  from assms(2) n obtain c where c: "kt_buckets t2 = (kt_buckets t1)[i := c]" "mset (entries c) \<subseteq># mset (entries b)"
    "length (bk_live c) \<le> length (bk_live b)" "length (bk_repl c) \<le> length (bk_repl b)"
    by (auto simp: trimmed_def)
  have "kt_buckets t2 = (kt_buckets t)[i := c]" using b(1) c(1) by simp
  moreover have "mset (entries c) \<subseteq># mset (entries (kt_buckets t ! i))"
    using b(2) c(2) by (rule subset_mset.order_trans [rotated])
  moreover have "length (bk_live c) \<le> length (bk_live (kt_buckets t ! i))"
    "length (bk_repl c) \<le> length (bk_repl (kt_buckets t ! i))" using b(3,4) c(3,4) by simp_all
  moreover have "ip_ok t2 \<and> kt_self t2 = kt_self t \<and> kt_extended t2 = kt_extended t"
    using assms(1,2) by (simp add: trimmed_def)
  ultimately show ?thesis unfolding trimmed_def by blast
qed

lemma trim_repl_facts:
  assumes "ip_ok t" "i < length (kt_buckets t)" "k \<le> length (bk_repl (kt_buckets t ! i))"
  shows "trimmed i t (trim_repl k i t) \<and>
    length (bk_repl (kt_buckets (trim_repl k i t) ! i)) = length (bk_repl (kt_buckets t ! i)) - k"
  using assms
proof (induction k arbitrary: t)
  case 0
  then show ?case by (auto simp: trimmed_def intro!: exI [of _ "kt_buckets t ! i"])
next
  case (Suc k)
  let ?r = "bk_repl (kt_buckets t ! i)"
  obtain w where w: "worst_of ?r = Some w"
    using Suc.prems(3) by (cases "worst_of ?r") (auto simp: worst_of_def scan_over_None)
  note j = worst_of_less [OF w]
  let ?t = "drop_repl i w t"
  have d: "kt_buckets ?t = (kt_buckets t)[i := (kt_buckets t ! i)\<lparr>bk_repl := erase w ?r\<rparr>]"
    "kt_self ?t = kt_self t" "kt_extended ?t = kt_extended t"
    by (simp_all add: drop_repl_def Let_def)
  have nth: "kt_buckets ?t ! i = (kt_buckets t ! i)\<lparr>bk_repl := erase w ?r\<rparr>"
    using Suc.prems(2) by (simp add: d)
  have "trimmed i ?t (trim_repl k i ?t) \<and>
      length (bk_repl (kt_buckets (trim_repl k i ?t) ! i)) = length (bk_repl (kt_buckets ?t ! i)) - k"
    by (rule Suc.IH) (use Suc.prems j drop_repl_ip_ok in \<open>simp_all add: nth length_erase\<close>)
  moreover have "trimmed i t ?t"
    unfolding trimmed_def d
    using drop_repl_ip_ok [OF Suc.prems(1,2) j] entries_repl_upd(2,3) [OF j]
    by (intro conjI exI [of _ "(kt_buckets t ! i)\<lparr>bk_repl := erase w ?r\<rparr>"]) (auto simp: length_erase j)
  ultimately show ?case
    using w j trimmed_trans [OF _ _ Suc.prems(2)] by (simp add: nth length_erase)
qed

lemma trim_to_limit_facts:
  assumes "ip_ok t" "i < length (kt_buckets t)"
  shows "\<exists>b. kt_buckets (trim_to_limit i t) = (kt_buckets t)[i := b] \<and>
      mset (entries b) \<subseteq># mset (entries (kt_buckets t ! i)) \<and>
      length (bk_live b) \<le> bucket_limit t i \<and> length (bk_repl b) \<le> kBucketSize"
    and "ip_ok (trim_to_limit i t)" "kt_self (trim_to_limit i t) = kt_self t"
    "kt_extended (trim_to_limit i t) = kt_extended t"
proof -
  let ?s = "spill_live (bucket_limit t i) (kt_buckets t ! i)"
  let ?t1 = "upd_bucket i ?s t"
  let ?k = "length (bk_repl ?s) - kBucketSize"
  note s = spill_live_facts [of "bucket_limit t i" "kt_buckets t ! i"]
  have "ip_ok ?t1"
    by (rule ip_ok_upd [OF assms, of _ ?s]) (use s in \<open>auto simp: public_ips_mset [of "entries ?s"]\<close>)
  then have t: "trimmed i ?t1 (trim_repl ?k i ?t1)"
    "length (bk_repl (kt_buckets (trim_repl ?k i ?t1) ! i)) \<le> kBucketSize"
    using trim_repl_facts [of ?t1 i ?k] assms(2) by auto
  have e: "trim_to_limit i t = trim_repl ?k i ?t1"
    using assms(2) by (simp add: trim_to_limit_def Let_def)
  show "\<exists>b. kt_buckets (trim_to_limit i t) = (kt_buckets t)[i := b] \<and>
      mset (entries b) \<subseteq># mset (entries (kt_buckets t ! i)) \<and>
      length (bk_live b) \<le> bucket_limit t i \<and> length (bk_repl b) \<le> kBucketSize"
    "ip_ok (trim_to_limit i t)" "kt_self (trim_to_limit i t) = kt_self t"
    "kt_extended (trim_to_limit i t) = kt_extended t"
    using t s assms(2) unfolding e trimmed_def by (auto dest: order_trans)
qed

text \<open>What placement asks of a bucket, whatever its size.\<close>

definition members_ok :: "kad_table \<Rightarrow> nat \<Rightarrow> bucket \<Rightarrow> bool" where
  "members_ok t i b \<longleftrightarrow> distinct (map ne_id (entries b)) \<and> (\<forall>n \<in> set (entries b). fits t i n)"

lemma bucket_ok_members:
  "bucket_ok t i b \<longleftrightarrow>
     length (bk_live b) \<le> bucket_limit t i \<and> length (bk_repl b) \<le> kBucketSize \<and> members_ok t i b"
  by (simp add: bucket_ok_def members_ok_def fits_def)

lemma members_ok_sub:
  "members_ok t i b \<Longrightarrow> mset (entries b') \<subseteq># mset (entries b) \<Longrightarrow> members_ok t i b'"
  using distinct_mset_map [of ne_id "entries b" "entries b'"] mset_subset_eqD [of "mset (entries b')" "mset (entries b)"]
  by (auto simp: members_ok_def)

lemma filter_entries_sub:
  "mset (entries \<lparr>bk_live = filter P (bk_live b), bk_repl = filter P (bk_repl b)\<rparr>) \<subseteq># mset (entries b)"
  by (simp add: entries_def subset_mset.add_mono multiset_filter_subset)

lemma filter_entries_split:
  "mset (entries \<lparr>bk_live = filter P (bk_live b), bk_repl = filter P (bk_repl b)\<rparr>) +
   mset (entries \<lparr>bk_live = filter (\<lambda>n. \<not> P n) (bk_live b), bk_repl = filter (\<lambda>n. \<not> P n) (bk_repl b)\<rparr>) =
   mset (entries b)"
proof -
  have part: "mset xs = mset (filter P xs) + mset (filter (\<lambda>n. \<not> P n) xs)" for xs
    by (induction xs) auto
  show ?thesis
    unfolding entries_def bucket.simps mset_append part [of "bk_live b"] part [of "bk_repl b"] by (simp only: ac_simps)
qed

lemma split_place_facts:
  assumes "kt_inv t"
  defines "t' \<equiv> split_place t" and "z \<equiv> length (kt_buckets t) - 1"
  shows "ip_ok t'" "kt_self t' = kt_self t" "kt_extended t' = kt_extended t"
    "length (kt_buckets t') = Suc (Suc z)" "\<And>i. i < z \<Longrightarrow> bucket_ok t' i (kt_buckets t' ! i)"
    "members_ok t' z (kt_buckets t' ! z)" "members_ok t' (Suc z) (kt_buckets t' ! Suc z)"
proof -
  let ?bs = "kt_buckets t" let ?m = "?bs ! z"
  let ?st = "\<lambda>n. shared_prefix_bits (kt_self t) (ne_id n) \<le> z"
  let ?f = "\<lambda>P. \<lparr>bk_live = filter P (bk_live ?m), bk_repl = filter P (bk_repl ?m)\<rparr>"
  have n: "length ?bs = Suc z" using assms(1) by (cases "?bs") (auto simp: z_def kt_inv_def kt_shape_def)
  have bs: "kt_buckets t' = take z ?bs @ [?f ?st, ?f (\<lambda>n. \<not> ?st n)]"
    by (simp add: t'_def split_place_def Let_def z_def)
  show self: "kt_self t' = kt_self t" "kt_extended t' = kt_extended t"
    by (simp_all add: t'_def split_place_def Let_def)
  show len: "length (kt_buckets t') = Suc (Suc z)" using n by (simp add: bs)
  have ok: "bucket_ok t i (?bs ! i)" if "i < Suc z" for i
    using assms(1) that n by (simp add: kt_inv_def kt_shape_def)
  have "mset (entries (?f ?st)) + mset (entries (?f (\<lambda>n. \<not> ?st n))) = mset (entries ?m)"
    by (rule filter_entries_split)
  moreover have "?bs = take z ?bs @ [?m]"
    using n take_Suc_conv_app_nth [of z ?bs] by simp
  then have "map entries ?bs = map entries (take z ?bs @ [?m])" by simp
  ultimately have "mset (all_contacts t') = mset (all_contacts t)"
    by (simp add: all_contacts_entries bs)
  then show "ip_ok t'"
    using assms(1) public_ips_mset [of "all_contacts t'" "all_contacts t"]
    by (simp add: ip_ok_def kt_inv_def) (simp add: t'_def split_place_def Let_def)
  have pre: "shared_prefix_bits (kt_self t) (ne_id x) \<ge> z" if "x \<in> set (entries ?m)" for x
    using ok [of z] that by (auto simp: bucket_ok_def home_def Let_def n split: if_splits)
  have fit: "?st x \<Longrightarrow> fits t' z x" "\<not> ?st x \<Longrightarrow> fits t' (Suc z) x" if "x \<in> set (entries ?m)" for x
    using ok [of z] that pre [OF that] by (auto simp: bucket_ok_def fits_def self len home_def Let_def)
  have sub: "distinct (map ne_id (entries (?f P)))" for P
    by (rule distinct_mset_map [OF _ filter_entries_sub]) (use ok [of z] in \<open>simp add: bucket_ok_def\<close>)
  show "members_ok t' z (kt_buckets t' ! z)" "members_ok t' (Suc z) (kt_buckets t' ! Suc z)"
    using sub n fit by (auto simp: members_ok_def bs nth_append entries_def)
  show "bucket_ok t' i (kt_buckets t' ! i)" if "i < z" for i
  proof -
    have "kt_buckets t' ! i = ?bs ! i" using that n by (simp add: bs nth_append)
    with ok [of i] that n show ?thesis
      by (auto simp: bucket_ok_def self len bucket_limit_def home_def Let_def split: if_splits)
  qed
qed

lemma split_bucket_inv:
  assumes "kt_inv t" "length (kt_buckets t) < kBucketCount - 1"
  shows "kt_inv (split_bucket t)"
proof -
  define z where "z = length (kt_buckets t) - 1"
  define t1 where "t1 = split_place t"
  define t2 where "t2 = trim_to_limit z t1"
  have sp: "split_bucket t = trim_to_limit (Suc z) t2"
    by (simp add: split_bucket_def t1_def t2_def z_def Let_def)
  note p = split_place_facts [OF assms(1), folded t1_def z_def]
  obtain b where b: "kt_buckets t2 = (kt_buckets t1)[z := b]" "mset (entries b) \<subseteq># mset (entries (kt_buckets t1 ! z))"
    "length (bk_live b) \<le> bucket_limit t1 z" "length (bk_repl b) \<le> kBucketSize"
    and t2: "ip_ok t2" "kt_self t2 = kt_self t1" "kt_extended t2 = kt_extended t1"
    using trim_to_limit_facts [OF p(1), of z] p(4) by (auto simp: t2_def)
  obtain c where c: "kt_buckets (split_bucket t) = (kt_buckets t2)[Suc z := c]"
    "mset (entries c) \<subseteq># mset (entries (kt_buckets t2 ! Suc z))"
    "length (bk_live c) \<le> bucket_limit t2 (Suc z)" "length (bk_repl c) \<le> kBucketSize"
    and t3: "ip_ok (split_bucket t)" "kt_self (split_bucket t) = kt_self t2" "kt_extended (split_bucket t) = kt_extended t2"
    using trim_to_limit_facts [OF t2(1), of "Suc z"] p(4) b(1) by (auto simp: sp)
  have lim: "bucket_limit (split_bucket t) i = bucket_limit t1 i" "bucket_limit t2 i = bucket_limit t1 i" for i
    by (simp_all add: bucket_limit_def t2 t3)
  have fits: "fits (split_bucket t) i n = fits t1 i n" for i n
    by (simp add: fits_def t2 t3 b(1) c(1))
  have same: "bucket_ok (split_bucket t) i x = bucket_ok t1 i x" for i x
    by (simp add: bucket_ok_members members_ok_def lim fits)
  have "members_ok t1 z b" "members_ok t1 (Suc z) c"
    using members_ok_sub [OF p(6) b(2)] members_ok_sub [OF p(7)] c(2) b(1) by simp_all
  then have "bucket_ok t1 z b" "bucket_ok t1 (Suc z) c"
    using b(3,4) c(3,4) by (simp_all add: bucket_ok_members lim)
  then have "bucket_ok t1 i (kt_buckets (split_bucket t) ! i)" if "i < Suc (Suc z)" for i
    using that p(4) p(5) [of i] by (cases "i < z") (auto simp: c(1) b(1) nth_list_update less_Suc_eq)
  moreover have "length (kt_buckets (split_bucket t)) = Suc (Suc z)" using p(4) by (simp add: b(1) c(1))
  moreover have "kt_shape t" "Suc z = length (kt_buckets t)"
    using assms(1) by (auto simp: kt_inv_def kt_shape_def z_def)
  ultimately have "kt_shape (split_bucket t)"
    using assms(2) by (auto simp: kt_shape_def same t2 t3 p(2))
  with t3(1) show ?thesis by (simp add: kt_inv_def ip_ok_def)
qed

subsection \<open>Insertion\<close>

lemma index_of_entry:
  "kt_inv t \<Longrightarrow> bucket_index t i < length (kt_buckets t)"
  by (rule bucket_index_less) (simp add: kt_inv_def kt_shape_def)

lemma fits_own: "id_wf (ne_id e) \<Longrightarrow> ne_id e \<noteq> kt_self t \<Longrightarrow> fits t (bucket_index t (ne_id e)) e"
  by (simp add: fits_def bucket_index_home)

lemma admit_settled: "kt_inv t \<Longrightarrow> admit now e t = Settled r t1 \<Longrightarrow> kt_inv t1"
  by (auto simp: admit_def Let_def index_of_entry
      intro!: refresh_live_inv dest: find_by_id_Some passes_ip_diversity_inv
      split: if_splits option.splits prod.splits bool.splits)

lemma record_success_id [simp]: "ne_id (record_success now r m) = ne_id m"
  by (simp add: record_success_def update_rtt_def)

lemma admit_place:
  assumes "kt_inv t" "id_wf (ne_id e)" "admit now e t = Place e1 t1"
  shows "ne_id e1 = ne_id e" "newcomer t1 (bucket_index t (ne_id e)) e1"
proof -
  let ?i = "bucket_index t (ne_id e)" let ?b = "kt_buckets t ! ?i"
  have i: "?i < length (kt_buckets t)" by (rule index_of_entry [OF assms(1)])
  have ne: "ne_id e \<noteq> kt_self t" "find_by_id (ne_id e) (bk_live ?b) = None"
    using assms(3) by (auto simp: admit_def Let_def split: if_splits option.splits)
  note fit = fits_own [OF assms(2) ne(1)]
  show "ne_id e1 = ne_id e" "newcomer t1 ?i e1"
  proof (atomize (full), cases "find_by_id (ne_id e) (bk_repl ?b)")
    case None
    with ne assms(3) have "e1 = e" "t1 = t"
      by (auto simp: admit_def Let_def dest: passes_same split: if_splits prod.splits bool.splits)
    with None ne assms(1) i fit show "ne_id e1 = ne_id e \<and> newcomer t1 ?i e1"
      by (auto simp: newcomer_def find_by_id_None entries_def)
  next
    case (Some j)
    with ne assms(3) have e1: "ne_id e1 = ne_id e" "t1 = drop_repl ?i j t"
      by (auto simp: admit_def Let_def dest: find_by_id_Some split: if_splits)
    have j: "j < length (bk_repl ?b)" "ne_id (bk_repl ?b ! j) = ne_id e"
      using find_by_id_Some [OF Some] by simp_all
    have nth: "kt_buckets t1 ! ?i = ?b\<lparr>bk_repl := erase j (bk_repl ?b)\<rparr>" "kt_self t1 = kt_self t"
      using i by (simp_all add: e1(2) drop_repl_def Let_def)
    have "ne_id e \<notin> ne_id ` set (entries (kt_buckets t1 ! ?i))"
      using slot_id_unique(2) [OF assms(1) i j(1)] j(2) by (simp add: nth entries_def)
    moreover have "fits t1 ?i e1"
      using fit e1 nth(2) by (simp add: fits_def)
    ultimately show "ne_id e1 = ne_id e \<and> newcomer t1 ?i e1"
      using e1 i kt_inv_drop(2) [OF assms(1) i j(1)] by (simp add: newcomer_def)
  qed
qed

lemma fill_from_replacements_inv: "kt_inv t \<Longrightarrow> fill_from_replacements i t = Some t' \<Longrightarrow> kt_inv t'"
  by (auto simp: fill_from_replacements_def fill_at_inv split: if_splits)

lemma add_node_inv:
  "kt_inv t \<Longrightarrow> id_wf (ne_id e) \<Longrightarrow> add_node now e t = Some (r, t') \<Longrightarrow> kt_inv t'"
proof (induction now e t arbitrary: r t' rule: add_node.induct)
  case (1 now e t)
  show ?case
  proof (cases "admit now e t")
    case (Settled r1 t1)
    with 1(2,4) show ?thesis by (auto simp: add_node.simps [of now e t] dest: admit_settled)
  next
    case (Place e1 t1)
    let ?i = "bucket_index t (ne_id e1)"
    note p = admit_place [OF 1(2,3) Place]
    have new: "newcomer t1 ?i e1" and wf: "id_wf (ne_id e1)" using p 1(3) by simp_all
    note inv = newcomerD [OF new]
    show ?thesis
    proof (cases "length (bk_live (kt_buckets t1 ! ?i)) < bucket_limit t1 ?i")
      case True
      with 1(4) Place inv show ?thesis
        by (auto simp: add_node.simps [of now e t] kt_inv_push(1))
    next
      case full: False
      show ?thesis
      proof (cases "confirmed e1 \<and> can_split t1 ?i e1")
        case True
        then have "kt_inv (split_bucket t1)"
          using inv(1) by (intro split_bucket_inv) (simp_all add: can_split_def)
        note IH = 1(1) [OF Place refl refl full True this wf]
        from 1(4) Place full True show ?thesis
          by (auto simp: add_node.simps [of now e t] Let_def split: option.splits
              dest!: IH) (blast intro: fill_from_replacements_inv)
      next
        case False
        with 1(4) Place full show ?thesis
          by (auto simp: add_node.simps [of now e t] Let_def stash_replacement_inv [OF new]
              dest: replace_for_spread_inv [OF new] split: option.splits if_splits)
      qed
    qed
  qed
qed

subsection \<open>The remaining operations\<close>

lemma heard_about_inv:
  "kt_inv t \<Longrightarrow> id_wf i \<Longrightarrow> heard_about now i ep v t = Some t' \<Longrightarrow> kt_inv t'"
  by (cases "i = kt_self t") (auto simp: heard_about_def new_entry_def elim: add_node_inv [rotated 2])

lemma node_seen_inv:
  "kt_inv t \<Longrightarrow> id_wf i \<Longrightarrow> node_seen now i ep rtt v t = Some (r, t') \<Longrightarrow> kt_inv t'"
  by (cases "i = kt_self t") (auto simp: node_seen_def new_entry_def elim: add_node_inv [rotated 2])

text \<open>Changing the bookkeeping of a contact, neither its identifier nor its endpoint.\<close>

lemma touch_live_inv:
  assumes "kt_inv t" "i < length (kt_buckets t)" "j < length (bk_live (kt_buckets t ! i))"
    and "ne_id n = ne_id (bk_live (kt_buckets t ! i) ! j)" "ne_endpoint n = ne_endpoint (bk_live (kt_buckets t ! i) ! j)"
  shows "kt_inv (upd_bucket i ((kt_buckets t ! i)\<lparr>bk_live := (bk_live (kt_buckets t ! i))[j := n]\<rparr>) t)"
proof (rule kt_inv_overwrite_live [OF assms(1-3), of n])
  have "bk_live (kt_buckets t ! i) ! j \<in> set (entries (kt_buckets t ! i))"
    using assms(3) by (simp add: entries_def)
  then show "fits t i n" using slot_id_unique(3) [OF assms(1,2)] assms(4) by (force simp: fits_def)
qed (use slot_id_unique(1) [OF assms(1-3)] assms(4,5) in \<open>simp_all add: moved_ip_def\<close>)

lemma touch_repl_inv:
  assumes "kt_inv t" "i < length (kt_buckets t)" "j < length (bk_repl (kt_buckets t ! i))"
    and "ne_id n = ne_id (bk_repl (kt_buckets t ! i) ! j)" "ne_endpoint n = ne_endpoint (bk_repl (kt_buckets t ! i) ! j)"
  shows "kt_inv (upd_bucket i ((kt_buckets t ! i)\<lparr>bk_repl := (bk_repl (kt_buckets t ! i))[j := n]\<rparr>) t)"
proof (rule kt_inv_overwrite_repl [OF assms(1-3), of n])
  have "bk_repl (kt_buckets t ! i) ! j \<in> set (entries (kt_buckets t ! i))"
    using assms(3) by (simp add: entries_def)
  then show "fits t i n" using slot_id_unique(3) [OF assms(1,2)] assms(4) by (force simp: fits_def)
qed (use slot_id_unique(2) [OF assms(1-3)] assms(4,5) in \<open>simp_all add: moved_ip_def\<close>)

lemma record_failure_same [simp]:
  "ne_id (record_failure n) = ne_id n" "ne_endpoint (record_failure n) = ne_endpoint n"
  by (simp_all add: record_failure_def)

lemma node_failed_inv:
  assumes "kt_inv t" shows "kt_inv (node_failed i ep t)"
proof -
  let ?k = "bucket_index t i" let ?b = "kt_buckets t ! ?k"
  have k: "?k < length (kt_buckets t)" by (rule index_of_entry [OF assms])
  show ?thesis
  proof (cases "find_by_id i (bk_live ?b)")
    case None
    show ?thesis
    proof (cases "find_by_id i (bk_repl ?b)")
      case (Some j)
      then have j: "j < length (bk_repl ?b)" using find_by_id_Some by blast
      from None Some show ?thesis
        using kt_inv_drop(2) [OF assms k j] touch_repl_inv [OF assms k j, of "record_failure (bk_repl ?b ! j)"] assms
        by (simp add: node_failed_def Let_def)
    qed (use None assms in \<open>simp add: node_failed_def Let_def\<close>)
  next
    case (Some j)
    then have j: "j < length (bk_live ?b)" using find_by_id_Some by blast
    have d: "kt_inv (drop_live ?k j t)" by (rule kt_inv_drop(1) [OF assms k j])
    have "kt_inv (fill_at ?k (drop_live ?k j t))" by (rule fill_at_inv [OF d]) (simp add: k)
    with Some d show ?thesis
      using touch_live_inv [OF assms k j, of "record_failure (bk_live ?b ! j)"] assms
      by (simp add: node_failed_def Let_def prune_empty_back_inv)
  qed
qed

lemma oldest_scan:
  "foldl (\<lambda>v j. let n = f j in
      case v of None \<Rightarrow> Some (k, j, n) | Some (_, _, m) \<Rightarrow> if ne_last_seen n < ne_last_seen m then Some (k, j, n) else v) v js
     = Some (i, j, n) \<Longrightarrow> v = Some (i, j, n) \<or> i = k \<and> j \<in> set js \<and> n = f j"
proof (induction js arbitrary: v)
  case (Cons x js)
  from Cons.IH [OF Cons.prems [unfolded foldl_Cons]] show ?case
    by (auto simp: Let_def split: option.splits if_splits)
qed simp

lemma oldest_live_located:
  assumes "oldest_live k bs v = Some (i, j, n)"
  shows "v = Some (i, j, n) \<or> k \<le> i \<and> i - k < length bs \<and> j < length (bk_live (bs ! (i - k))) \<and> n = bk_live (bs ! (i - k)) ! j"
  using assms
proof (induction bs arbitrary: k v)
  case (Cons b bs)
  from Cons.IH [OF Cons.prems [unfolded oldest_live.simps]] show ?case
  proof (elim disjE)
    assume "foldl (\<lambda>v j. let n = bk_live b ! j in
            case v of None \<Rightarrow> Some (k, j, n)
            | Some (_, _, m) \<Rightarrow> if ne_last_seen n < ne_last_seen m then Some (k, j, n) else v)
         v [0..<length (bk_live b)] = Some (i, j, n)"
    from oldest_scan [OF this] show ?thesis by auto
  next
    assume "k + 1 \<le> i \<and> i - (k + 1) < length bs \<and> j < length (bk_live (bs ! (i - (k + 1)))) \<and> n = bk_live (bs ! (i - (k + 1))) ! j"
    moreover from this have "i - k = Suc (i - (k + 1))" by linarith
    ultimately show ?thesis by simp
  qed
qed simp

lemma next_to_refresh_inv: "kt_inv t \<Longrightarrow> kt_inv (snd (next_to_refresh now t))"
  using oldest_live_located [of 0 "kt_buckets t" None]
  by (auto simp: next_to_refresh_def Let_def intro!: touch_live_inv split: option.splits)

lemma load_contacts_inv:
  "kt_inv t \<Longrightarrow> list_all (\<lambda>n. id_wf (ne_id n)) ns \<Longrightarrow> load_contacts now ns t = Some t' \<Longrightarrow> kt_inv t'"
proof (induction ns arbitrary: t)
  case (Cons n ns)
  from Cons.prems obtain r t1 where "add_node now n t = Some (r, t1)" "load_contacts now ns t1 = Some t'"
    by (auto split: option.splits)
  with Cons.prems add_node_inv [OF Cons.prems(1)] show ?case by (auto intro: Cons.IH [of t1])
qed simp

lemma empty_table_inv:
  "id_wf (kt_self t) \<Longrightarrow> kt_buckets t = [bk_empty] \<Longrightarrow> kt_ips t = [] \<Longrightarrow> kt_inv t"
  by (simp add: kt_inv_def kt_shape_def bucket_ok_def bk_empty_def entries_def all_contacts_def ips_match_def
      tracked_def kBucketCount_def kIdSize_def)

lemma contact_ids_wf: "kt_inv t \<Longrightarrow> list_all (\<lambda>n. id_wf (ne_id n)) (all_contacts t)"
  by (auto simp: list_all_iff all_contacts_entries kt_inv_def kt_shape_def bucket_ok_def in_set_conv_nth [of _ "kt_buckets t"])

lemma set_self_inv:
  assumes "kt_inv t" "id_wf i" "set_self now i t = Some t'" shows "kt_inv t'"
proof (cases "i = kt_self t")
  case False
  have "kt_inv (t\<lparr>kt_self := i, kt_buckets := [bk_empty], kt_ips := []\<rparr>)"
    by (rule empty_table_inv) (use assms(2) in simp_all)
  from load_contacts_inv [OF this contact_ids_wf [OF assms(1)]] assms(3) False
  show ?thesis by (simp add: set_self_def)
qed (use assms in \<open>simp add: set_self_def\<close>)

end
