(* ===== verification/Routing_Lookup.thy ===== *)
theory Routing_Lookup
  imports Routing_Safety
begin

text \<open>
  Runs of the routing table's operations and what they guarantee: the invariant in the terms of
  the interface, the lookup by distance tiers against a sort of the whole table, and the run
  whose last insertion reads past the end of the buckets.
\<close>

subsection \<open>Runs\<close>

datatype kt_op =
    HeardAbout int node_id address bool
  | NodeSeen int node_id address u16 bool
  | NodeFailed node_id address
  | NextToRefresh int
  | SetSelf int node_id
  | LoadContacts int "node_entry list"

fun kt_step :: "kt_op \<Rightarrow> kad_table \<Rightarrow> kad_table option" where
  "kt_step (HeardAbout now i ep v) t = heard_about now i ep v t"
| "kt_step (NodeSeen now i ep rtt v) t = map_option snd (node_seen now i ep rtt v t)"
| "kt_step (NodeFailed i ep) t = Some (node_failed i ep t)"
| "kt_step (NextToRefresh now) t = Some (snd (next_to_refresh now t))"
| "kt_step (SetSelf now i) t = set_self now i t"
| "kt_step (LoadContacts now ns) t = load_contacts now ns t"

fun kt_run :: "kt_op list \<Rightarrow> kad_table \<Rightarrow> kad_table option" where
  "kt_run [] t = Some t"
| "kt_run (op # ops) t = (case kt_step op t of None \<Rightarrow> None | Some t1 \<Rightarrow> kt_run ops t1)"

text \<open>The identifiers of the program are arrays of 20 bytes.\<close>

fun op_wf :: "kt_op \<Rightarrow> bool" where
  "op_wf (HeardAbout now i ep v) = id_wf i"
| "op_wf (NodeSeen now i ep rtt v) = id_wf i"
| "op_wf (SetSelf now i) = id_wf i"
| "op_wf (LoadContacts now ns) = list_all (\<lambda>n. id_wf (ne_id n)) ns"
| "op_wf _ = True"

lemma kt_step_inv:
  "kt_inv t \<Longrightarrow> op_wf op \<Longrightarrow> kt_step op t = Some t' \<Longrightarrow> kt_inv t'"
  by (cases op) (auto simp: node_failed_inv next_to_refresh_inv
      intro: heard_about_inv node_seen_inv set_self_inv load_contacts_inv)

lemma kt_run_inv:
  "kt_inv t \<Longrightarrow> list_all op_wf ops \<Longrightarrow> kt_run ops t = Some t' \<Longrightarrow> kt_inv t'"
  by (induction ops arbitrary: t) (auto split: option.splits dest: kt_step_inv)

lemma new_table_inv: "id_wf self \<Longrightarrow> kt_inv (new_table self ext)"
  by (rule empty_table_inv) (simp_all add: new_table_def)

lemmas reachable_inv = kt_run_inv [OF new_table_inv]

subsection \<open>The contacts of a table\<close>

lemma bucket_fits:
  "kt_inv t \<Longrightarrow> i < length (kt_buckets t) \<Longrightarrow> n \<in> set (entries (kt_buckets t ! i)) \<Longrightarrow> fits t i n"
  by (rule slot_id_unique(3))

lemma distinct_concat_parts:
  assumes "\<And>i. i < length bs \<Longrightarrow> distinct (map f (g (bs ! i)))"
    and "\<And>i x. i < length bs \<Longrightarrow> x \<in> set (g (bs ! i)) \<Longrightarrow> h (f x) = k + i"
  shows "distinct (map f (concat (map g bs)))"
  using assms
proof (induction bs arbitrary: k)
  case (Cons b bs)
  have "distinct (map f (concat (map g bs)))"
    using Cons.prems by (intro Cons.IH [of "k + 1"]) force+
  moreover have "f x \<noteq> f y" if "x \<in> set (g b)" "y \<in> set (concat (map g bs))" for x y
  proof -
    from that(2) obtain i where "i < length bs" "y \<in> set (g (bs ! i))"
      by (auto simp: in_set_conv_nth [of _ bs])
    with Cons.prems(2) [of "Suc i" y] Cons.prems(2) [of 0 x] that(1) show ?thesis by auto
  qed
  ultimately show ?case using Cons.prems(1) [of 0] by fastforce
qed simp

lemma contact_ids_distinct:
  assumes "kt_inv t" shows "distinct (map ne_id (all_contacts t))"
  unfolding all_contacts_entries
proof (rule distinct_concat_parts)
  fix i assume i: "i < length (kt_buckets t)"
  then show "distinct (map ne_id (entries (kt_buckets t ! i)))"
    using kt_inv_bucket [OF assms i] by (simp add: bucket_ok_def)
  show "home (kt_self t) (length (kt_buckets t)) (ne_id x) = 0 + i" if "x \<in> set (entries (kt_buckets t ! i))" for x
    using bucket_fits [OF assms i that] by (simp add: fits_def)
qed

lemma count_ip_public: "count_ip ip ns = count (public_ips ns) ip"
  by (induction ns) (auto simp: count_ip_def public_ips_def)

lemma tracked_exactly:
  "ips_match m ips \<Longrightarrow> map_of ips ip = (if count m ip = 0 then None else Some (count m ip))"
  unfolding ips_match_def tracked_def by (cases "map_of ips ip") (metis option.simps(4,5))+

lemma inv_ip_index: "kt_inv t \<Longrightarrow> ip_index_consistent t"
  unfolding kt_inv_def ip_index_consistent_def list_all_iff count_ip_public
  by (blast intro: tracked_exactly)

subsection \<open>Distance tiers\<close>

definition nearer :: "node_id \<Rightarrow> node_entry \<Rightarrow> node_entry \<Rightarrow> bool" where
  "nearer target a c \<longleftrightarrow> be_value (xor_distance (ne_id a) target) < be_value (xor_distance (ne_id c) target)"

interpretation by_distance: weak_order "nearer target" for target
  by unfold_locales (auto simp: nearer_def)

lemma nearer_closer:
  "id_wf (ne_id a) \<Longrightarrow> id_wf (ne_id c) \<Longrightarrow> id_wf target \<Longrightarrow>
     closer_to (ne_id a) (ne_id c) target = nearer target a c"
  using closer_to_value [of "ne_id a" "ne_id c" target] by (simp add: nearer_def id_wf_def)

lemma prefix_sym: "id_wf a \<Longrightarrow> id_wf b \<Longrightarrow> shared_prefix_bits a b = shared_prefix_bits b a"
  by (simp add: prefix_bits_lcp lcp_sym)

lemma prefix_above:
  assumes "id_wf s" "id_wf a" "id_wf b" "k < shared_prefix_bits s a" "k < shared_prefix_bits s b"
  shows "k < shared_prefix_bits a b"
proof (cases "shared_prefix_bits s a = shared_prefix_bits s b")
  case True
  show ?thesis
  proof (cases "a = s")
    case False
    then show ?thesis using prefix_same [OF assms(1-3) True] assms(4) by linarith
  qed (use assms in simp)
next
  case False
  then show ?thesis
    using prefix_ultra [OF assms(1-3)] prefix_ultra [OF assms(1,3,2)] assms prefix_sym [of a b]
    by (metis linorder_neqE_nat)
qed

text \<open>The bucket of the target is closer than the deeper ones, and each shallower bucket is
  farther than everything deeper than itself.\<close>

lemma start_before_deeper:
  assumes "fits t (bucket_index t target) a" "fits t j c" "bucket_index t target < j"
    and "id_wf target" "id_wf (kt_self t)" "j < length (kt_buckets t)"
  shows "nearer target a c"
proof -
  let ?p = "shared_prefix_bits (kt_self t)" let ?s = "bucket_index t target"
  have p: "?p (ne_id a) = ?s" "?p target = ?s" "?s < ?p (ne_id c)"
    using assms by (auto simp: fits_def home_def bucket_index_def Let_def split: if_splits)
  have wf: "id_wf (ne_id a)" "id_wf (ne_id c)" "ne_id a \<noteq> kt_self t" using assms by (simp_all add: fits_def)
  have "shared_prefix_bits target (ne_id c) = ?s"
    using prefix_ultra [of "kt_self t" target "ne_id c"] p assms wf by simp
  moreover have "?s < shared_prefix_bits (ne_id a) target"
    using prefix_same [of "kt_self t" "ne_id a" target] p assms wf by simp
  ultimately have "closer_to (ne_id a) (ne_id c) target"
    using longer_prefix_closer [of "ne_id a" "ne_id c" target] assms wf prefix_sym by simp
  with wf assms show ?thesis by (simp add: nearer_closer)
qed

lemma deeper_before_shallow:
  assumes "fits t i a" "fits t j c" "j < i" "j < bucket_index t target"
    and "id_wf target" "id_wf (kt_self t)" "i < length (kt_buckets t)"
  shows "nearer target a c"
proof -
  let ?p = "shared_prefix_bits (kt_self t)"
  have p: "?p (ne_id c) = j" "j < ?p target" "j < ?p (ne_id a)"
    using assms by (auto simp: fits_def home_def bucket_index_def Let_def split: if_splits)
  have wf: "id_wf (ne_id a)" "id_wf (ne_id c)" using assms by (simp_all add: fits_def)
  have "shared_prefix_bits (ne_id c) target = j"
    using prefix_ultra [of "kt_self t" "ne_id c" target] p assms wf by simp
  moreover have "j < shared_prefix_bits (ne_id a) target"
    using prefix_above [of "kt_self t" "ne_id a" target j] p assms wf by simp
  ultimately have "closer_to (ne_id a) (ne_id c) target"
    using longer_prefix_closer [of "ne_id a" "ne_id c" target] assms wf by simp
  with wf assms show ?thesis by (simp add: nearer_closer)
qed

subsection \<open>The lookup\<close>

lemma take_shallow_stop: "k \<le> length r \<Longrightarrow> take_shallow incl k bs r = r"
  by (cases bs) simp_all

lemma take_shallow_prefix:
  "\<exists>m. take_shallow incl k bs r = r @ concat (map (eligible incl) (take m bs)) \<and>
     (k \<le> length (take_shallow incl k bs r) \<or> m = length bs)"
proof (induction bs arbitrary: r)
  case (Cons b bs)
  show ?case
  proof (cases "length r < k")
    case True
    obtain m where "take_shallow incl k bs (r @ eligible incl b) = (r @ eligible incl b) @ concat (map (eligible incl) (take m bs))"
      "k \<le> length (take_shallow incl k bs (r @ eligible incl b)) \<or> m = length bs"
      using Cons by blast
    with True show ?thesis by (intro exI [of _ "Suc m"]) auto
  qed (auto intro!: exI [of _ 0])
qed simp

lemma eligible_fits:
  "kt_inv t \<Longrightarrow> i < length (kt_buckets t) \<Longrightarrow> n \<in> set (eligible incl (kt_buckets t ! i)) \<Longrightarrow> fits t i n"
  by (rule bucket_fits) (auto simp: eligible_def entries_def)

definition live_contacts :: "bool \<Rightarrow> kad_table \<Rightarrow> node_entry list" where
  "live_contacts incl t = concat (map (eligible incl) (kt_buckets t))"

lemma deeper_fits:
  assumes "kt_inv t" "n \<in> set (concat (map (eligible incl) (drop (s + 1) (kt_buckets t))))"
  obtains j where "s < j" "j < length (kt_buckets t)" "fits t j n"
proof -
  from assms(2) obtain i where i: "i < length (drop (s + 1) (kt_buckets t))"
    "n \<in> set (eligible incl (drop (s + 1) (kt_buckets t) ! i))"
    by (auto simp: in_set_conv_nth [of _ "drop _ _"])
  then show ?thesis
    using that [of "s + 1 + i"] eligible_fits [OF assms(1), of "s + 1 + i" n incl] by simp
qed

lemma shallow_fits:
  assumes "kt_inv t" "s < length (kt_buckets t)" "i < s" "n \<in> set (eligible incl (rev (take s (kt_buckets t)) ! i))"
  shows "fits t (s - 1 - i) n"
  using assms eligible_fits [OF assms(1), of "s - 1 - i" n incl] by (simp add: rev_nth)

lemma shallow_order:
  assumes inv: "kt_inv t" and target: "id_wf target" and s: "s = bucket_index t target"
    and a: "a \<in> set (eligible incl (kt_buckets t ! s) @ concat (map (eligible incl) (drop (s + 1) (kt_buckets t)))
              @ concat (map (eligible incl) (take m (rev (take s (kt_buckets t))))))"
    and c: "c \<in> set (concat (map (eligible incl) (drop m (rev (take s (kt_buckets t))))))"
  shows "nearer target a c"
proof -
  let ?bs = "kt_buckets t" let ?S = "rev (take s ?bs)"
  have len: "s < length ?bs" using inv s by (simp add: index_of_entry)
  have self: "id_wf (kt_self t)" using inv by (simp add: kt_inv_def kt_shape_def)
  from c obtain i where i: "m + i < s" "c \<in> set (eligible incl (?S ! (m + i)))"
    using len by (auto simp: in_set_conv_nth [of _ "drop m ?S"] less_diff_conv add.commute)
  let ?j = "s - 1 - (m + i)"
  have cf: "fits t ?j c" by (rule shallow_fits [OF inv len i])
  have "\<exists>l. ?j < l \<and> l < length ?bs \<and> fits t l a"
    using a unfolding set_append
  proof (elim UnE)
    assume "a \<in> set (eligible incl (?bs ! s))"
    then show ?thesis using eligible_fits [OF inv len] i(1) len by (intro exI [of _ s]) auto
  next
    assume "a \<in> set (concat (map (eligible incl) (drop (s + 1) ?bs)))"
    then obtain l where "s < l" "l < length ?bs" "fits t l a" by (rule deeper_fits [OF inv])
    then show ?thesis by (intro exI [of _ l]) auto
  next
    assume "a \<in> set (concat (map (eligible incl) (take m ?S)))"
    then obtain l where l: "l < m" "l < s" "a \<in> set (eligible incl (?S ! l))"
      using len by (auto simp: in_set_conv_nth [of _ "take m ?S"])
    have "fits t (s - 1 - l) a" by (rule shallow_fits [OF inv len l(2,3)])
    then show ?thesis using l i(1) len by (intro exI [of _ "s - 1 - l"]) auto
  qed
  then obtain l where "?j < l" "l < length ?bs" "fits t l a" by blast
  then show ?thesis
    using deeper_before_shallow [OF _ cf, of l a target] i(1) s target self by simp
qed

lemma start_order:
  assumes inv: "kt_inv t" and target: "id_wf target" and s: "s = bucket_index t target"
    and a: "a \<in> set (eligible incl (kt_buckets t ! s))"
    and c: "c \<in> set (concat (map (eligible incl) (drop (s + 1) (kt_buckets t))) @
              concat (map (eligible incl) (rev (take s (kt_buckets t)))))"
  shows "nearer target a c"
proof -
  have len: "s < length (kt_buckets t)" using inv s by (simp add: index_of_entry)
  have self: "id_wf (kt_self t)" using inv by (simp add: kt_inv_def kt_shape_def)
  from c consider "c \<in> set (concat (map (eligible incl) (drop (s + 1) (kt_buckets t))))"
    | "c \<in> set (concat (map (eligible incl) (drop 0 (rev (take s (kt_buckets t))))))" by auto
  then show ?thesis
  proof cases
    case 1
    then obtain j where "s < j" "j < length (kt_buckets t)" "fits t j c" by (rule deeper_fits [OF inv])
    then show ?thesis
      using start_before_deeper [OF _ _ _ target self] eligible_fits [OF inv len a] s by blast
  next
    case 2
    show ?thesis by (rule shallow_order [OF inv target s _ 2]) (use a in simp)
  qed
qed

lemma live_contacts_tiers:
  assumes "s < length (kt_buckets t)"
  shows "mset (live_contacts incl t) = mset (eligible incl (kt_buckets t ! s) @
    concat (map (eligible incl) (drop (s + 1) (kt_buckets t))) @ concat (map (eligible incl) (rev (take s (kt_buckets t)))))"
proof -
  have "live_contacts incl t = concat (map (eligible incl) (take s (kt_buckets t) @ kt_buckets t ! s # drop (Suc s) (kt_buckets t)))"
    using id_take_nth_drop [OF assms] by (simp add: live_contacts_def)
  moreover have "mset (concat (map f (rev xs))) = mset (concat (map f xs))" for f :: "bucket \<Rightarrow> node_entry list" and xs
    by (induction xs) (simp_all add: union_commute)
  ultimately show ?thesis by (simp add: ac_simps)
qed

lemma live_contacts_untied:
  assumes "kt_inv t" "a \<in> set (live_contacts incl t)" "c \<in> set (live_contacts incl t)" "a \<noteq> c" "id_wf target"
  shows "nearer target a c \<or> nearer target c a"
proof -
  have all: "set (live_contacts incl t) \<subseteq> set (all_contacts t)"
    by (auto simp: live_contacts_def all_contacts_def eligible_def)
  then have ids: "ne_id a \<noteq> ne_id c"
    using contact_ids_distinct [OF assms(1)] assms(2-4) by (auto simp: distinct_map dest: inj_onD)
  have "id_wf (ne_id a)" "id_wf (ne_id c)"
    using contact_ids_wf [OF assms(1)] all assms(2,3) by (auto simp: list_all_iff)
  with ids assms(5) show ?thesis
    using closer_to_total [of "ne_id a" "ne_id c" target] nearer_closer by (auto simp: id_wf_def)
qed

text \<open>Stopping the collection at \<open>k\<close> contacts loses none of the \<open>k\<close> nearest.\<close>

lemma tiers_suffice:
  fixes t target incl defines "bs \<equiv> kt_buckets t" and "s \<equiv> bucket_index t target"
  defines "A \<equiv> eligible incl (bs ! s)" and "D \<equiv> concat (map (eligible incl) (drop (s + 1) bs))" and "S \<equiv> rev (take s bs)"
  assumes inv: "kt_inv t" and target: "id_wf target"
  shows "take k (sort_by (nearer target) (take_shallow incl k S (if length A < k then A @ D else A))) =
    take k (sort_by (nearer target) (A @ D @ concat (map (eligible incl) S)))"
proof (cases "length A < k")
  case False
  have "take k (sort_by (nearer target) (A @ D @ concat (map (eligible incl) S))) = take k (sort_by (nearer target) A)"
    unfolding A_def D_def S_def bs_def s_def
    by (rule by_distance.take_sort_front [OF start_order [OF inv target refl]])
      (use False in \<open>auto simp: A_def bs_def s_def\<close>)
  with False show ?thesis by (simp add: take_shallow_stop)
next
  case True
  obtain m where m: "take_shallow incl k S (A @ D) = (A @ D) @ concat (map (eligible incl) (take m S))"
    "k \<le> length (take_shallow incl k S (A @ D)) \<or> m = length S"
    using take_shallow_prefix by blast
  have rest: "concat (map (eligible incl) S) = concat (map (eligible incl) (take m S)) @ concat (map (eligible incl) (drop m S))"
    by (simp flip: concat_append map_append)
  have "take k (sort_by (nearer target) ((A @ D @ concat (map (eligible incl) (take m S))) @ concat (map (eligible incl) (drop m S)))) =
      take k (sort_by (nearer target) (A @ D @ concat (map (eligible incl) (take m S))))"
    unfolding A_def D_def S_def bs_def s_def
    by (rule by_distance.take_sort_front [OF shallow_order [OF inv target refl]])
      (use m in \<open>auto simp: A_def D_def S_def bs_def s_def\<close>)
  with True m(1) rest show ?thesis by simp
qed

lemma closer_sort:
  assumes "kt_inv t" "id_wf target" "set ns \<subseteq> set (live_contacts incl t)"
  shows "sort_by (\<lambda>a c. closer_to (ne_id a) (ne_id c) target) ns = sort_by (nearer target) ns"
proof (rule sort_by_cong)
  have "id_wf (ne_id n)" if "n \<in> set (live_contacts incl t)" for n
    using contact_ids_wf [OF assms(1)] that
    by (auto simp: list_all_iff live_contacts_def all_contacts_def eligible_def)
  then show "closer_to (ne_id a) (ne_id b) target = nearer target a b" if "a \<in> set ns" "b \<in> set ns" for a b
    using nearer_closer [OF _ _ assms(2)] that assms(3) by blast
qed

lemma find_closest_nearest:
  assumes "kt_inv t" "id_wf target"
  shows "find_closest target k incl t = take k (sort_by (\<lambda>a c. closer_to (ne_id a) (ne_id c) target) (live_contacts incl t))"
proof (cases "k = 0")
  case False
  let ?s = "bucket_index t target" let ?lt = "nearer target"
  let ?A = "eligible incl (kt_buckets t ! ?s)" and ?D = "concat (map (eligible incl) (drop (?s + 1) (kt_buckets t)))"
    and ?S = "rev (take ?s (kt_buckets t))"
  let ?r2 = "take_shallow incl k ?S (if length ?A < k then ?A @ ?D else ?A)"
  have s: "?s < length (kt_buckets t)" using assms(1) by (simp add: index_of_entry)
  note perm = live_contacts_tiers [OF s, of incl]
  obtain m where "?r2 = (if length ?A < k then ?A @ ?D else ?A) @ concat (map (eligible incl) (take m ?S))"
    using take_shallow_prefix by blast
  then have "set ?r2 \<subseteq> set (?A @ ?D @ concat (map (eligible incl) ?S))"
    using set_take_subset [of m ?S] by auto
  then have sub: "set ?r2 \<subseteq> set (live_contacts incl t)" using mset_eq_setD [OF perm] by simp
  have "find_closest target k incl t = take k (sort_by ?lt ?r2)"
    using False closer_sort [OF assms sub] by (simp add: find_closest_def Let_def)
  also have "\<dots> = take k (sort_by ?lt (?A @ ?D @ concat (map (eligible incl) ?S)))"
    by (rule tiers_suffice [OF assms])
  also have "sort_by ?lt (?A @ ?D @ concat (map (eligible incl) ?S)) = sort_by ?lt (live_contacts incl t)"
    by (rule by_distance.sort_by_perm [OF perm, symmetric]) (rule live_contacts_untied [OF assms(1) _ _ _ assms(2)])
  finally show ?thesis by (simp add: closer_sort [OF assms order_refl])
qed (simp add: find_closest_def)

subsection \<open>Properties\<close>

text \<open>
  C21: whatever sequence of operations a routing table has been through, each bucket is within
  its limit of live contacts and standbys, every contact sits in the bucket its identifier
  belongs to, no identifier occurs twice in the table and our own never does, and the reference
  counts of the address index equal the contacts they count.
\<close>

theorem routing_table_invariant:
  assumes "id_wf self" "list_all op_wf ops" "kt_run ops (new_table self ext) = Some t"
  shows "length (kt_buckets t) < kBucketCount \<and> distinct (map ne_id (all_contacts t)) \<and> ip_index_consistent t \<and>
    (\<forall>i < length (kt_buckets t). let b = kt_buckets t ! i in
       length (bk_live b) \<le> bucket_limit t i \<and> length (bk_repl b) \<le> kBucketSize \<and>
       list_all (\<lambda>n. bucket_index t (ne_id n) = i \<and> ne_id n \<noteq> kt_self t) (bk_live b @ bk_repl b))"
proof -
  have inv: "kt_inv t" using assms by (rule reachable_inv)
  have "length (kt_buckets t) < kBucketCount" using inv by (simp add: kt_inv_def kt_shape_def)
  with contact_ids_distinct [OF inv] inv_ip_index [OF inv] kt_inv_bucket [OF inv] show ?thesis
    by (auto simp: Let_def bucket_ok_def list_all_iff entries_def bucket_index_home)
qed

text \<open>Identifiers and endpoints for the concrete runs: our own identifier is zero.\<close>

definition node_at :: "byte \<Rightarrow> byte \<Rightarrow> node_id" where
  "node_at b c = b # c # replicate 18 0"

definition endpoint_at :: "byte \<Rightarrow> address" where
  "endpoint_at b = \<lparr>ad_ip = from_v4 [8, b, 0, 1], ad_port = 6881\<rparr>"

definition far_side :: "kt_op list" where
  "far_side = map (\<lambda>b. NodeSeen 0 (node_at 128 b) (endpoint_at b) 10 True) [1, 2, 3, 4, 5, 6, 7, 8]"

definition own_zero :: kad_table where "own_zero = new_table (replicate 20 0) False"

theorem routing_table_invariant_witness:
  "(let ops = far_side @ [NodeSeen 0 (node_at 1 0) (endpoint_at 9) 10 True]; t = the (kt_run ops own_zero) in
     kt_run ops own_zero \<noteq> None \<and> map (\<lambda>b. length (bk_live b)) (kt_buckets t) = [8, 1] \<and> ip_index_consistent t)"
proof -
  let ?ops = "far_side @ [NodeSeen 0 (node_at 1 0) (endpoint_at 9) 10 True]"
  have "list_all op_wf ?ops" "id_wf (replicate 20 0)" by code_simp+
  moreover have run: "map_option (\<lambda>t. map (\<lambda>b. length (bk_live b)) (kt_buckets t)) (kt_run ?ops own_zero) = Some [8, 1]"
    by code_simp
  then obtain t where t: "kt_run ?ops own_zero = Some t" "map (\<lambda>b. length (bk_live b)) (kt_buckets t) = [8, 1]" by auto
  ultimately have "ip_index_consistent t"
    using routing_table_invariant [of "replicate 20 0" ?ops False t] by (simp add: own_zero_def)
  with t show ?thesis by (simp add: Let_def)
qed

text \<open>
  C22: the lookup, which visits the buckets in distance tiers and stops as soon as it has
  collected enough, returns exactly the first \<open>k\<close> contacts of the whole table ordered by XOR
  distance to the target: stopping early never costs a nearer contact. The table is any one
  the operations can produce; the target is arbitrary.
\<close>

theorem find_closest_exact:
  assumes "id_wf self" "list_all op_wf ops" "kt_run ops (new_table self ext) = Some t" "id_wf target"
  shows "find_closest target k incl t =
    take k (sort_by (\<lambda>a c. closer_to (ne_id a) (ne_id c) target)
      (filter (\<lambda>n. incl \<or> confirmed n) (concat (map bk_live (kt_buckets t)))))"
proof -
  have "kt_inv t" using assms(1-3) by (rule reachable_inv)
  from find_closest_nearest [OF this assms(4)] show ?thesis
    by (simp add: live_contacts_def eligible_def [abs_def] filter_concat comp_def)
qed

theorem find_closest_exact_witness:
  "(let ops = far_side @ [NodeSeen 0 (node_at 1 0) (endpoint_at 9) 10 True]; t = the (kt_run ops own_zero) in
     map ne_id (find_closest (node_at 128 3) 2 False t) = [node_at 128 3, node_at 128 2] \<and>
     find_closest (node_at 128 3) 2 False t =
       take 2 (sort_by (\<lambda>a c. closer_to (ne_id a) (ne_id c) (node_at 128 3))
         (filter (\<lambda>n. False \<or> confirmed n) (concat (map bk_live (kt_buckets t))))))"
proof -
  let ?ops = "far_side @ [NodeSeen 0 (node_at 1 0) (endpoint_at 9) 10 True]"
  have wf: "list_all op_wf ?ops" "id_wf (replicate 20 0)" "id_wf (node_at 128 3)" by code_simp+
  have run: "map_option (\<lambda>t. map ne_id (find_closest (node_at 128 3) 2 False t)) (kt_run ?ops own_zero) =
      Some [node_at 128 3, node_at 128 2]" by code_simp
  then obtain t where t: "kt_run ?ops own_zero = Some t"
    "map ne_id (find_closest (node_at 128 3) 2 False t) = [node_at 128 3, node_at 128 2]" by auto
  with find_closest_exact [OF wf(2,1) _ wf(3), of False t 2 False] show ?thesis
    by (simp add: Let_def own_zero_def)
qed


end
