(* ===== verification/Storage_Entry.thy ===== *)
theory Storage_Entry
  imports Prelude "HOL-Library.Monad_Syntax"
begin

text \<open>
  The replicated record of \<open>src/librats/storage/storage.cpp\<close>: its checksum
  (\<open>src/librats/crypto/crc32.cpp\<close>), its binary form and the last-write-wins comparison.
  Buffer positions are natural numbers; lengths on the wire are 32-bit and wrap as the casts
  of the code do.
\<close>

subsection \<open>CRC-32\<close>

definition POLYNOMIAL :: u32 where "POLYNOMIAL = 0xEDB88320"

definition crc_round :: "u32 \<Rightarrow> u32" where
  "crc_round crc = (if crc AND 1 \<noteq> 0 then drop_bit 1 crc XOR POLYNOMIAL else drop_bit 1 crc)"

text \<open>Entry \<open>i\<close> of the lookup table \<open>init_table\<close> fills.\<close>

definition crc_table :: "u32 \<Rightarrow> u32" where
  "crc_table i = (crc_round ^^ 8) i"

definition crc_update_byte :: "u32 \<Rightarrow> byte \<Rightarrow> u32" where
  "crc_update_byte crc b = drop_bit 8 crc XOR crc_table ((crc XOR ucast b) AND 0xFF)"

definition crc_update :: "u32 \<Rightarrow> bytes \<Rightarrow> u32" where
  "crc_update crc data = foldl crc_update_byte crc data"

definition crc_finalize :: "u32 \<Rightarrow> u32" where
  "crc_finalize crc = crc XOR 0xFFFFFFFF"

definition storage_calculate_crc32 :: "bytes \<Rightarrow> u32" where
  "storage_calculate_crc32 data = crc_finalize (crc_update 0xFFFFFFFF data)"

text \<open>The definition of the checksum, one bit of the message at a time.\<close>

fun crc_bitwise :: "u32 \<Rightarrow> bytes \<Rightarrow> u32" where
  "crc_bitwise crc [] = crc"
| "crc_bitwise crc (b # bs) = crc_bitwise ((crc_round ^^ 8) (crc XOR ucast b)) bs"

lemma crc_round_xor: "crc_round (a XOR b) = crc_round a XOR crc_round b"
proof (rule bit_word_eqI)
  fix n assume "n < LENGTH(32)"
  have odd: "x AND 1 \<noteq> 0 \<longleftrightarrow> bit x 0" for x :: u32
    by (simp add: bit_0 and_one_eq odd_iff_mod_2_eq_one)
  show "bit (crc_round (a XOR b)) n = bit (crc_round a XOR crc_round b) n"
    by (auto simp: crc_round_def odd bit_simps)
qed

lemma crc_rounds_xor: "(crc_round ^^ n) (a XOR b) = (crc_round ^^ n) a XOR (crc_round ^^ n) b"
  by (induction n) (simp_all add: crc_round_xor)

text \<open>While the low bits are clear a round is a plain shift.\<close>

lemma crc_rounds_shift: "(\<And>k. k < n \<Longrightarrow> \<not> bit a k) \<Longrightarrow> (crc_round ^^ n) a = drop_bit n a"
proof (induction n)
  case (Suc n)
  then have "(crc_round ^^ n) a = drop_bit n a" by simp
  moreover have "drop_bit n a AND 1 = 0"
    using Suc.prems [of n] by (simp add: and_one_eq bit_iff_odd_drop_bit even_iff_mod_2_eq_zero [symmetric])
  ultimately show ?case by (simp add: crc_round_def [of "drop_bit n a"])
qed simp

lemma crc_update_byte_rounds: "crc_update_byte crc b = (crc_round ^^ 8) (crc XOR ucast b)"
proof -
  let ?x = "crc XOR ucast b"
  let ?lo = "?x AND 0xFF" and ?hi = "?x AND NOT 0xFF"
  have mask: "(0xFF :: u32) = mask 8" by (simp add: mask_eq_exp_minus_1)
  have "?x = ?hi XOR ?lo" by (rule bit_word_eqI) (auto simp: bit_simps)
  then have "(crc_round ^^ 8) ?x = (crc_round ^^ 8) ?hi XOR crc_table ?lo"
    by (metis crc_rounds_xor crc_table_def)
  also have "(crc_round ^^ 8) ?hi = drop_bit 8 ?hi"
    by (rule crc_rounds_shift) (simp add: mask bit_simps)
  also have "drop_bit 8 ?hi = drop_bit 8 crc"
    by (rule bit_word_eqI) (auto simp: mask bit_simps dest: bit_imp_le_length)
  finally show ?thesis by (simp add: crc_update_byte_def)
qed

lemma crc_update_bitwise: "crc_update crc data = crc_bitwise crc data"
  by (induction data arbitrary: crc) (simp_all add: crc_update_def crc_update_byte_rounds)

subsection \<open>Entries\<close>

definition TYPE_BINARY :: byte where "TYPE_BINARY = 1"
definition TYPE_STRING :: byte where "TYPE_STRING = 2"
definition TYPE_INT64 :: byte where "TYPE_INT64 = 3"
definition TYPE_DOUBLE :: byte where "TYPE_DOUBLE = 4"
definition TYPE_JSON :: byte where "TYPE_JSON = 5"

text \<open>The enumeration is read from the wire by a cast, so the type is any byte.\<close>

record storage_entry =
  se_key :: bytes
  se_type :: byte
  se_data :: bytes
  se_timestamp :: u64
  se_origin :: bytes
  se_checksum :: u32
  se_deleted :: bool

definition u64_be :: "u64 \<Rightarrow> bytes" where
  "u64_be w = map (\<lambda>i. ucast (drop_bit (8 * i) w)) [7, 6, 5, 4, 3, 2, 1, 0]"

definition be_u64 :: "bytes \<Rightarrow> u64" where
  "be_u64 bs = foldl (\<lambda>v b. push_bit 8 v OR ucast b) 0 bs"

definition flag :: "bool \<Rightarrow> byte" where
  "flag b = (if b then 1 else 0)"

definition entry_crc :: "storage_entry \<Rightarrow> u32" where
  "entry_crc e = storage_calculate_crc32
     (se_key e @ [se_type e] @ se_data e @ u64_be (se_timestamp e) @ se_origin e @ [flag (se_deleted e)])"

definition calculate_checksum :: "storage_entry \<Rightarrow> storage_entry" where
  "calculate_checksum e = e\<lparr>se_checksum := entry_crc e\<rparr>"

definition verify_checksum :: "storage_entry \<Rightarrow> bool" where
  "verify_checksum e \<longleftrightarrow> se_checksum (calculate_checksum e) = se_checksum e"

definition new_storage_entry :: "bytes \<Rightarrow> byte \<Rightarrow> bytes \<Rightarrow> u64 \<Rightarrow> bytes \<Rightarrow> storage_entry" where
  "new_storage_entry k t d ts origin =
     calculate_checksum \<lparr>se_key = k, se_type = t, se_data = d, se_timestamp = ts, se_origin = origin,
       se_checksum = 0, se_deleted = False\<rparr>"

definition serialize :: "storage_entry \<Rightarrow> bytes" where
  "serialize e =
     (let key_len = of_nat (length (se_key e)) :: u32;
          peer_id_len = of_nat (length (se_origin e)) :: u32;
          data_len = of_nat (length (se_data e)) :: u32;
          total_len = 4 + key_len + 1 + 1 + 8 + 4 + peer_id_len + 4 + data_len + 4
      in u32_be total_len @ u32_be key_len @ se_key e @ [se_type e] @ [flag (se_deleted e)] @
         u64_be (se_timestamp e) @ u32_be peer_id_len @ se_origin e @ u32_be data_len @ se_data e @
         u32_be (se_checksum e))"

text \<open>The bounds-checked reads, each returning the next position.\<close>

definition get_u32 :: "bytes \<Rightarrow> nat \<Rightarrow> (u32 \<times> nat) option" where
  "get_u32 buffer pos =
     (if pos + 4 > length buffer then None
      else Some (be_u32 (buffer ! pos) (buffer ! (pos + 1)) (buffer ! (pos + 2)) (buffer ! (pos + 3)), pos + 4))"

definition get_bytes :: "nat \<Rightarrow> bytes \<Rightarrow> nat \<Rightarrow> (bytes \<times> nat) option" where
  "get_bytes n buffer pos =
     (if pos + n > length buffer then None else Some (take n (drop pos buffer), pos + n))"

definition get_u8 :: "bytes \<Rightarrow> nat \<Rightarrow> (byte \<times> nat) option" where
  "get_u8 buffer pos = (if pos + 1 > length buffer then None else Some (buffer ! pos, pos + 1))"

definition deserialize :: "bytes \<Rightarrow> nat \<Rightarrow> (storage_entry \<times> nat) option" where
  "deserialize buffer offset = do {
     (total_len, pos) \<leftarrow> get_u32 buffer offset;
     if offset + 4 + unat total_len > length buffer then None else do {
     (key_len, pos) \<leftarrow> get_u32 buffer pos;
     (key, pos) \<leftarrow> get_bytes (unat key_len) buffer pos;
     (type, pos) \<leftarrow> get_u8 buffer pos;
     (deleted, pos) \<leftarrow> get_u8 buffer pos;
     (ts, pos) \<leftarrow> get_bytes 8 buffer pos;
     (peer_id_len, pos) \<leftarrow> get_u32 buffer pos;
     (origin, pos) \<leftarrow> get_bytes (unat peer_id_len) buffer pos;
     (data_len, pos) \<leftarrow> get_u32 buffer pos;
     (data, pos) \<leftarrow> get_bytes (unat data_len) buffer pos;
     (checksum, pos) \<leftarrow> get_u32 buffer pos;
     Some (\<lparr>se_key = key, se_type = type, se_data = data, se_timestamp = be_u64 ts, se_origin = origin,
             se_checksum = checksum, se_deleted = (deleted \<noteq> 0)\<rparr>, pos - offset) } }"

definition wins_over :: "storage_entry \<Rightarrow> storage_entry \<Rightarrow> bool" where
  "wins_over a b =
     (if se_timestamp a \<noteq> se_timestamp b then se_timestamp a > se_timestamp b
      else bytes_less (se_origin b) (se_origin a))"

subsection \<open>Round trip\<close>

lemma octet_step:
  "push_bit 8 (drop_bit (m + 8) w) OR ucast (ucast (drop_bit m w) :: byte) = drop_bit m (w :: u64)"
proof (rule bit_word_eqI)
  fix n
  show "bit (push_bit 8 (drop_bit (m + 8) w) OR ucast (ucast (drop_bit m w) :: byte)) n = bit (drop_bit m w) n"
    by (cases "n < 8") (auto simp: bit_simps dest: bit_imp_le_length)
qed

lemma octet_top: "ucast (ucast (drop_bit 56 w) :: byte) = drop_bit 56 (w :: u64)"
  by (rule bit_word_eqI) (auto simp: bit_simps dest: bit_imp_le_length)

lemma be_u64_u64_be [simp]: "be_u64 (u64_be w) = w"
  using octet_step [of 48 w] octet_step [of 40 w] octet_step [of 32 w] octet_step [of 24 w]
    octet_step [of 16 w] octet_step [of 8 w] octet_step [of 0 w]
  by (simp add: be_u64_def u64_be_def octet_top)

lemma length_u64_be [simp]: "length (u64_be w) = 8"
  by (simp add: u64_be_def)

text \<open>What a read returns when the buffer continues as written.\<close>

lemma get_u32_at:
  assumes "drop pos buf = u32_be w @ rest"
  shows "get_u32 buf pos = Some (w, pos + 4) \<and> drop (pos + 4) buf = rest"
proof -
  have len: "length buf = pos + (4 + length rest)"
    using arg_cong [OF assms, of length] by simp
  have "buf ! (pos + k) = (u32_be w @ rest) ! k" if "k < 4" for k
    using that len by (simp flip: assms add: nth_drop)
  from this [of 0] this [of 1] this [of 2] this [of 3] have "get_u32 buf pos = Some (w, pos + 4)"
    using len by (simp add: get_u32_def u32_be_def numeral_2_eq_2 numeral_3_eq_3)
  moreover have "drop (pos + 4) buf = drop 4 (u32_be w @ rest)"
    by (simp flip: assms add: add.commute)
  ultimately show ?thesis by simp
qed

lemma get_bytes_at:
  assumes "drop pos buf = xs @ rest" "length xs = n"
  shows "0 < n \<or> pos \<le> length buf \<Longrightarrow> get_bytes n buf pos = Some (xs, pos + n)" "drop (pos + n) buf = rest"
proof -
  have len: "length buf - pos = n + length rest"
    using arg_cong [OF assms(1), of length] assms(2) by simp
  then show "0 < n \<or> pos \<le> length buf \<Longrightarrow> get_bytes n buf pos = Some (xs, pos + n)"
    using assms by (auto simp: get_bytes_def)
  have "drop (pos + n) buf = drop n (xs @ rest)" by (simp flip: assms(1) add: add.commute)
  then show "drop (pos + n) buf = rest" using assms(2) by simp
qed

lemma get_u8_at:
  assumes "drop pos buf = [b] @ rest"
  shows "get_u8 buf pos = Some (b, pos + 1) \<and> drop (pos + 1) buf = rest"
proof -
  have "length buf - pos = 1 + length rest" using arg_cong [OF assms, of length] by simp
  moreover have "buf ! pos = b" using assms nth_drop [of pos buf 0] calculation by simp
  moreover have "drop (pos + 1) buf = drop 1 (drop pos buf)" by simp
  then have "drop (pos + 1) buf = rest" by (simp only: assms) simp
  ultimately show ?thesis by (simp add: get_u8_def)
qed

definition entry_fits :: "storage_entry \<Rightarrow> bool" where
  "entry_fits e \<longleftrightarrow> length (se_key e) + length (se_origin e) + length (se_data e) + 26 < 2 ^ 32"

lemma unat_len: "n < 2 ^ 32 \<Longrightarrow> unat (of_nat n :: u32) = n"
  by (simp add: unat_of_nat take_bit_nat_eq_self)

lemma length_serialize [simp]:
  "length (serialize e) = 30 + length (se_key e) + length (se_origin e) + length (se_data e)"
  by (simp add: serialize_def Let_def)

lemma total_len_unat:
  assumes "entry_fits e"
  shows "unat (4 + of_nat (length (se_key e)) + 1 + 1 + 8 + 4 + of_nat (length (se_origin e)) + 4 +
      of_nat (length (se_data e)) + 4 :: u32) = length (serialize e) - 4"
proof -
  have "4 + of_nat (length (se_key e)) + 1 + 1 + 8 + 4 + of_nat (length (se_origin e)) + 4 +
      of_nat (length (se_data e)) + 4 = (of_nat (length (serialize e) - 4) :: u32)"
    by simp
  moreover have "length (serialize e) - 4 < 2 ^ 32" using assms by (simp add: entry_fits_def)
  ultimately show ?thesis by (simp only: unat_len)
qed

lemma flag_iff [simp]: "flag b \<noteq> 0 \<longleftrightarrow> b"
  by (simp add: flag_def)

lemma deserialize_at:
  assumes "drop offset buf = serialize e @ rest" "entry_fits e"
  shows "deserialize buf offset = Some (e, length (serialize e))"
proof -
  define k o' d where "k = length (se_key e)" and "o' = length (se_origin e)" and "d = length (se_data e)"
  define total :: u32 where "total = 4 + of_nat k + 1 + 1 + 8 + 4 + of_nat o' + 4 + of_nat d + 4"
  have len: "length buf = offset + (30 + k + o' + d + length rest)"
    using arg_cong [OF assms(1), of length] by (simp add: k_def o'_def d_def)
  have u: "unat (of_nat k :: u32) = k" "unat (of_nat o' :: u32) = o'" "unat (of_nat d :: u32) = d"
    "unat total = 26 + k + o' + d"
    using assms(2) total_len_unat [OF assms(2)] by (simp_all add: entry_fits_def unat_len total_def k_def o'_def d_def)
  have "drop offset buf = u32_be total @ u32_be (of_nat k) @ se_key e @ [se_type e] @ [flag (se_deleted e)] @
      u64_be (se_timestamp e) @ u32_be (of_nat o') @ se_origin e @ u32_be (of_nat d) @ se_data e @
      u32_be (se_checksum e) @ rest"
    using assms(1) by (simp add: serialize_def Let_def k_def o'_def d_def total_def)
  note r1 = get_u32_at [OF this]
  note r2 = get_u32_at [OF r1 [THEN conjunct2]]
  note r3 = get_bytes_at [OF r2 [THEN conjunct2] k_def [symmetric]]
  note r4 = get_u8_at [OF r3(2)]
  note r5 = get_u8_at [OF r4 [THEN conjunct2]]
  note r6 = get_bytes_at [OF r5 [THEN conjunct2] length_u64_be]
  note r7 = get_u32_at [OF r6(2)]
  note r8 = get_bytes_at [OF r7 [THEN conjunct2] o'_def [symmetric]]
  note r9 = get_u32_at [OF r8(2)]
  note r10 = get_bytes_at [OF r9 [THEN conjunct2] d_def [symmetric]]
  note r11 = get_u32_at [OF r10(2)]
  show ?thesis
    unfolding deserialize_def
    using r1 r2 r3(1) r4 r5 r6(1) r7 r8(1) r9 r10(1) r11 len
    by (simp add: u) (simp add: k_def o'_def d_def)
qed

text \<open>The comparison is a strict order, total on entries with different stamps.\<close>

definition stamp_eq :: "storage_entry \<Rightarrow> storage_entry \<Rightarrow> bool" where
  "stamp_eq a b \<longleftrightarrow> se_timestamp a = se_timestamp b \<and> se_origin a = se_origin b"

lemma wins_irrefl [simp]: "\<not> wins_over a a"
  by (simp add: wins_over_def)

lemma wins_trans: "wins_over a b \<Longrightarrow> wins_over b c \<Longrightarrow> wins_over a c"
  by (auto simp: wins_over_def intro: bytes_less_trans split: if_splits)

lemma wins_total: "\<not> stamp_eq a b \<Longrightarrow> wins_over a b \<or> wins_over b a"
  using bytes_less_total [of "se_origin a" "se_origin b"] by (auto simp: wins_over_def stamp_eq_def)

lemma wins_not_stamp: "wins_over a b \<Longrightarrow> \<not> stamp_eq a b"
  by (auto simp: wins_over_def stamp_eq_def)

subsection \<open>Properties\<close>

text \<open>
  The checksum computed a byte at a time through the lookup table is the CRC-32 of the
  message, computed one bit at a time.
\<close>

lemma crc32_table_exact: "storage_calculate_crc32 data = crc_bitwise 0xFFFFFFFF data XOR 0xFFFFFFFF"
  by (simp add: storage_calculate_crc32_def crc_finalize_def crc_update_bitwise)

end
