(* ===== verification/Storage.thy ===== *)
theory Storage
  imports Storage_Entry Peer_Id
begin

text \<open>
  The replicated key-value store of \<open>src/librats/storage/storage.h\<close> and \<open>.cpp\<close>. The state is
  the record \<open>storage\<close>; each operation returns its result, the new state and what it hands to
  the outside, in order: messages to one peer or to all, change notifications, the completion
  callback. Clock readings, the set of connected peers and the contents of the data file are
  arguments. Locks are the atomicity of the operations. A store that is not attached has no
  identity; the code's null network pointer.
\<close>

subsection \<open>State\<close>

record storage_config =
  sc_enable_sync :: bool
  sc_max_value_size :: nat
  sc_persist :: bool

datatype sync_status = Not_Started | In_Progress | Completed | Sync_Failed

datatype storage_operation = OP_PUT | OP_DELETE

text \<open>The event's type is a field the deletion path never assigns: None there.\<close>

record change_event =
  ev_operation :: storage_operation
  ev_key :: bytes
  ev_type :: "byte option"
  ev_old_data :: bytes
  ev_new_data :: bytes
  ev_timestamp :: u64
  ev_origin :: bytes
  ev_remote :: bool

datatype storage_out =
    Out_Send peer_id bytes
  | Out_Broadcast bytes
  | Out_Change change_event
  | Out_Sync_Complete

record storage =
  sm_config :: storage_config
  sm_self :: "peer_id option"
  sm_entries :: "(bytes \<times> storage_entry) list"
  sm_status :: sync_status
  sm_initial_sync :: bool
  sm_dirty :: bool
  sm_synced :: nat
  sm_sent :: nat
  sm_requests_received :: nat
  sm_requests_sent :: nat

definition new_storage :: "storage_config \<Rightarrow> storage" where
  "new_storage cfg =
     \<lparr>sm_config = cfg, sm_self = None, sm_entries = [], sm_status = Not_Started, sm_initial_sync = False,
      sm_dirty = False, sm_synced = 0, sm_sent = 0, sm_requests_received = 0, sm_requests_sent = 0\<rparr>"

definition sm_attach :: "peer_id \<Rightarrow> storage \<Rightarrow> storage" where
  "sm_attach self s = s\<lparr>sm_self := Some self\<rparr>"

definition OP_ENTRY :: byte where "OP_ENTRY = 1"
definition OP_SYNC_REQUEST :: byte where "OP_SYNC_REQUEST = 2"
definition OP_SYNC_RESPONSE :: byte where "OP_SYNC_RESPONSE = 3"

definition get_our_peer_id :: "storage \<Rightarrow> bytes" where
  "get_our_peer_id s = (case sm_self s of None \<Rightarrow> [] | Some p \<Rightarrow> to_hex p)"

definition mark_dirty :: "storage \<Rightarrow> storage" where
  "mark_dirty s = s\<lparr>sm_dirty := True\<rparr>"

definition set_entry :: "storage_entry \<Rightarrow> storage \<Rightarrow> storage" where
  "set_entry e s = s\<lparr>sm_entries := AList.update (se_key e) e (sm_entries s)\<rparr>"

definition lookup :: "storage \<Rightarrow> bytes \<Rightarrow> storage_entry option" where
  "lookup s k = map_of (sm_entries s) k"

subsection \<open>Messages\<close>

definition entry_message :: "storage_entry \<Rightarrow> bytes" where
  "entry_message e = OP_ENTRY # serialize e"

definition broadcast_entry :: "storage_entry \<Rightarrow> storage \<Rightarrow> storage \<times> storage_out list" where
  "broadcast_entry e s =
     (if sm_self s = None then (s, [])
      else (s\<lparr>sm_sent := sm_sent s + 1\<rparr>, [Out_Broadcast (entry_message e)]))"

definition forward_entry :: "storage_entry \<Rightarrow> peer_id \<Rightarrow> peer_id list \<Rightarrow> storage \<Rightarrow> storage_out list" where
  "forward_entry e except peers s =
     (if sm_self s = None then []
      else map (\<lambda>p. Out_Send p (entry_message e)) (filter (\<lambda>p. p \<noteq> except) peers))"

definition send_sync_request :: "peer_id \<Rightarrow> storage \<Rightarrow> storage \<times> storage_out list" where
  "send_sync_request p s =
     (if sm_self s = None then (s, [])
      else (s\<lparr>sm_requests_sent := sm_requests_sent s + 1\<rparr>, [Out_Send p [OP_SYNC_REQUEST]]))"

definition entries_blob :: "(bytes \<times> storage_entry) list \<Rightarrow> bytes" where
  "entries_blob es = concat (map (\<lambda>(k, e). serialize e) es)"

definition sync_response :: "storage \<Rightarrow> bytes" where
  "sync_response s =
     OP_SYNC_RESPONSE # u32_be (of_nat (length (sm_entries s))) @ entries_blob (sm_entries s)"

definition send_sync_response :: "peer_id \<Rightarrow> storage \<Rightarrow> storage_out list" where
  "send_sync_response p s = (if sm_self s = None then [] else [Out_Send p (sync_response s)])"

subsection \<open>Local writes\<close>

definition put_internal ::
  "u64 \<Rightarrow> bytes \<Rightarrow> byte \<Rightarrow> bytes \<Rightarrow> u64 \<Rightarrow> bytes \<Rightarrow> bool \<Rightarrow> storage \<Rightarrow> bool \<times> storage \<times> storage_out list" where
  "put_internal clock key type data timestamp_ms origin broadcast s =
     (if key = [] then (False, s, [])
      else if length data > sc_max_value_size (sm_config s) then (False, s, [])
      else
        let ts = (if timestamp_ms = 0 then clock else timestamp_ms);
            peer = (if origin = [] then get_our_peer_id s else origin);
            e = new_storage_entry key type data ts peer;
            old = map_of (sm_entries s) key
        in if (case old of None \<Rightarrow> False | Some cur \<Rightarrow> \<not> wins_over e cur) then (False, s, [])
           else
             let ev = \<lparr>ev_operation = OP_PUT, ev_key = key, ev_type = Some type,
                        ev_old_data = (case old of None \<Rightarrow> [] | Some cur \<Rightarrow> se_data cur), ev_new_data = data,
                        ev_timestamp = ts, ev_origin = peer,
                        ev_remote = (origin \<noteq> [] \<and> origin \<noteq> get_our_peer_id s)\<rparr>;
                 s1 = mark_dirty (set_entry e s);
                 (s2, out) = (if broadcast \<and> sc_enable_sync (sm_config s) then broadcast_entry e s1 else (s1, []))
             in (True, s2, out @ [Out_Change ev]))"

definition put_string :: "u64 \<Rightarrow> bytes \<Rightarrow> bytes \<Rightarrow> storage \<Rightarrow> bool \<times> storage \<times> storage_out list" where
  "put_string clock key v s = put_internal clock key TYPE_STRING v 0 [] True s"

definition put_int :: "u64 \<Rightarrow> bytes \<Rightarrow> u64 \<Rightarrow> storage \<Rightarrow> bool \<times> storage \<times> storage_out list" where
  "put_int clock key v s = put_internal clock key TYPE_INT64 (u64_be v) 0 [] True s"

text \<open>A double is given by its bit pattern.\<close>

definition put_double :: "u64 \<Rightarrow> bytes \<Rightarrow> u64 \<Rightarrow> storage \<Rightarrow> bool \<times> storage \<times> storage_out list" where
  "put_double clock key bits s = put_internal clock key TYPE_DOUBLE (u64_be bits) 0 [] True s"

definition put_binary :: "u64 \<Rightarrow> bytes \<Rightarrow> bytes \<Rightarrow> storage \<Rightarrow> bool \<times> storage \<times> storage_out list" where
  "put_binary clock key v s = put_internal clock key TYPE_BINARY v 0 [] True s"

definition put_json :: "('j \<Rightarrow> bytes) \<Rightarrow> u64 \<Rightarrow> bytes \<Rightarrow> 'j \<Rightarrow> storage \<Rightarrow> bool \<times> storage \<times> storage_out list" where
  "put_json dump clock key v s = put_internal clock key TYPE_JSON (dump v) 0 [] True s"

definition tombstone :: "u64 \<Rightarrow> bytes \<Rightarrow> storage_entry \<Rightarrow> storage_entry" where
  "tombstone clock origin e =
     calculate_checksum (e\<lparr>se_deleted := True, se_timestamp := clock, se_origin := origin, se_data := []\<rparr>)"

definition sm_remove :: "u64 \<Rightarrow> bytes \<Rightarrow> storage \<Rightarrow> bool \<times> storage \<times> storage_out list" where
  "sm_remove clock key s =
     (case map_of (sm_entries s) key of
        None \<Rightarrow> (False, s, [])
      | Some cur \<Rightarrow>
          if se_deleted cur then (False, s, [])
          else
            let t = tombstone clock (get_our_peer_id s) cur;
                ev = \<lparr>ev_operation = OP_DELETE, ev_key = key, ev_type = None, ev_old_data = se_data cur,
                      ev_new_data = [], ev_timestamp = clock, ev_origin = get_our_peer_id s, ev_remote = False\<rparr>;
                s1 = mark_dirty (s\<lparr>sm_entries := AList.update key t (sm_entries s)\<rparr>);
                (s2, out) = (if sc_enable_sync (sm_config s) then broadcast_entry t s1 else (s1, []))
            in (True, s2, out @ [Out_Change ev]))"

subsection \<open>Reads\<close>

definition get_typed :: "byte \<Rightarrow> bytes \<Rightarrow> storage \<Rightarrow> bytes option" where
  "get_typed type key s =
     (case map_of (sm_entries s) key of
        None \<Rightarrow> None
      | Some e \<Rightarrow> if se_deleted e then None else if se_type e \<noteq> type then None else Some (se_data e))"

definition get_string :: "bytes \<Rightarrow> storage \<Rightarrow> bytes option" where
  "get_string key s = get_typed TYPE_STRING key s"

definition deserialize_int64 :: "bytes \<Rightarrow> u64" where
  "deserialize_int64 data = (if length data < 8 then 0 else be_u64 (take 8 data))"

definition get_int :: "bytes \<Rightarrow> storage \<Rightarrow> u64 option" where
  "get_int key s = map_option deserialize_int64 (get_typed TYPE_INT64 key s)"

definition get_double :: "bytes \<Rightarrow> storage \<Rightarrow> u64 option" where
  "get_double key s = map_option deserialize_int64 (get_typed TYPE_DOUBLE key s)"

definition get_binary :: "bytes \<Rightarrow> storage \<Rightarrow> bytes option" where
  "get_binary key s = get_typed TYPE_BINARY key s"

definition get_json :: "(bytes \<Rightarrow> 'j option) \<Rightarrow> bytes \<Rightarrow> storage \<Rightarrow> 'j option" where
  "get_json parse key s = Option.bind (get_typed TYPE_JSON key s) parse"

definition get_type :: "bytes \<Rightarrow> storage \<Rightarrow> byte option" where
  "get_type key s =
     (case map_of (sm_entries s) key of
        None \<Rightarrow> None | Some e \<Rightarrow> if se_deleted e then None else Some (se_type e))"

definition sm_has :: "bytes \<Rightarrow> storage \<Rightarrow> bool" where
  "sm_has key s = (case map_of (sm_entries s) key of None \<Rightarrow> False | Some e \<Rightarrow> \<not> se_deleted e)"

definition sm_keys :: "storage \<Rightarrow> bytes list" where
  "sm_keys s = map fst (filter (\<lambda>(k, e). \<not> se_deleted e) (sm_entries s))"

definition keys_with_prefix :: "bytes \<Rightarrow> storage \<Rightarrow> bytes list" where
  "keys_with_prefix p s =
     map fst (filter (\<lambda>(k, e). \<not> se_deleted e \<and> length k \<ge> length p \<and> take (length p) k = p) (sm_entries s))"

definition sm_size :: "storage \<Rightarrow> nat" where
  "sm_size s = length (filter (\<lambda>(k, e). \<not> se_deleted e) (sm_entries s))"

text \<open>Each key to delete reads the clock anew.\<close>

fun remove_all :: "(bytes \<times> u64) list \<Rightarrow> storage \<Rightarrow> storage \<times> storage_out list" where
  "remove_all [] s = (s, [])"
| "remove_all ((k, clock) # ks) s =
     (let (_, s1, out) = sm_remove clock k s; (s2, out2) = remove_all ks s1 in (s2, out @ out2))"

definition sm_clear :: "(bytes \<Rightarrow> u64) \<Rightarrow> storage \<Rightarrow> storage \<times> storage_out list" where
  "sm_clear clock s = remove_all (map (\<lambda>k. (k, clock k)) (sm_keys s)) s"

definition sm_compact :: "storage \<Rightarrow> nat \<times> storage" where
  "sm_compact s =
     (let live = filter (\<lambda>(k, e). \<not> se_deleted e) (sm_entries s);
          removed = length (sm_entries s) - length live;
          s1 = s\<lparr>sm_entries := live\<rparr>
      in (removed, if removed > 0 then mark_dirty s1 else s1))"

subsection \<open>Remote entries\<close>

definition apply_remote_entry :: "storage_entry \<Rightarrow> storage \<Rightarrow> (change_event \<times> storage) option" where
  "apply_remote_entry e s =
     (let ev = \<lparr>ev_operation = (if se_deleted e then OP_DELETE else OP_PUT), ev_key = se_key e,
                ev_type = Some (se_type e), ev_old_data = [], ev_new_data = se_data e,
                ev_timestamp = se_timestamp e, ev_origin = se_origin e, ev_remote = True\<rparr>
      in case map_of (sm_entries s) (se_key e) of
           None \<Rightarrow> Some (ev, set_entry e s)
         | Some cur \<Rightarrow>
             if \<not> wins_over e cur then None
             else Some (ev\<lparr>ev_old_data := se_data cur\<rparr>, set_entry e s))"

text \<open>The entries of a snapshot, at most \<open>count\<close> of them; the number applied and the events.\<close>

fun sync_loop :: "nat \<Rightarrow> bytes \<Rightarrow> nat \<Rightarrow> storage \<Rightarrow> nat \<times> storage \<times> storage_out list" where
  "sync_loop 0 buf offset s = (0, s, [])"
| "sync_loop (Suc i) buf offset s =
     (if offset \<ge> length buf then (0, s, [])
      else case deserialize buf offset of
        None \<Rightarrow> (0, s, [])
      | Some (e, bytes_read) \<Rightarrow>
          if \<not> verify_checksum e then sync_loop i buf (offset + bytes_read) s
          else case apply_remote_entry e s of
            None \<Rightarrow> sync_loop i buf (offset + bytes_read) s
          | Some (ev, s1) \<Rightarrow>
              (let (n, s2, out) = sync_loop i buf (offset + bytes_read) s1 in (n + 1, s2, Out_Change ev # out)))"

definition on_sync_response :: "bytes \<Rightarrow> storage \<Rightarrow> storage \<times> storage_out list" where
  "on_sync_response payload s =
     (if length payload < 5 then (s, [])
      else
        let n = unat (be_u32 (payload ! 1) (payload ! 2) (payload ! 3) (payload ! 4));
            (applied, s1, out) = sync_loop n (drop 5 payload) 0 s;
            s2 = s1\<lparr>sm_status := Completed, sm_initial_sync := True, sm_synced := sm_synced s1 + applied\<rparr>
        in (if applied > 0 then mark_dirty s2 else s2, out @ [Out_Sync_Complete]))"

definition on_storage_message :: "peer_id \<Rightarrow> bytes \<Rightarrow> peer_id list \<Rightarrow> storage \<Rightarrow> storage \<times> storage_out list" where
  "on_storage_message from payload peers s =
     (if payload = [] then (s, [])
      else if hd payload = OP_ENTRY then
        (case deserialize (tl payload) 0 of
           None \<Rightarrow> (s, [])
         | Some (e, _) \<Rightarrow>
             if \<not> verify_checksum e then (s, [])
             else case apply_remote_entry e s of
               None \<Rightarrow> (s, [])
             | Some (ev, s1) \<Rightarrow>
                 (let s2 = mark_dirty (s1\<lparr>sm_synced := sm_synced s1 + 1\<rparr>)
                  in (s2, Out_Change ev # forward_entry e from peers s2)))
      else if hd payload = OP_SYNC_REQUEST then
        (s\<lparr>sm_requests_received := sm_requests_received s + 1\<rparr>, send_sync_response from s)
      else if hd payload = OP_SYNC_RESPONSE then on_sync_response payload s
      else (s, []))"

definition on_peer_connected :: "peer_id \<Rightarrow> storage \<Rightarrow> storage \<times> storage_out list" where
  "on_peer_connected p s =
     (if \<not> sc_enable_sync (sm_config s) then (s, [])
      else send_sync_request p (if sm_status s = Not_Started then s\<lparr>sm_status := In_Progress\<rparr> else s))"

definition request_sync :: "peer_id list \<Rightarrow> storage \<Rightarrow> bool \<times> storage \<times> storage_out list" where
  "request_sync peers s =
     (if \<not> sc_enable_sync (sm_config s) \<or> sm_self s = None then (False, s, [])
      else if peers = [] then (False, s, [])
      else let (s1, out) = send_sync_request (hd peers) (s\<lparr>sm_status := In_Progress\<rparr>) in (True, s1, out))"

subsection \<open>The data file\<close>

definition file_magic :: bytes where "file_magic = str ''RATS''"

definition data_file :: "storage \<Rightarrow> bytes" where
  "data_file s = file_magic @ u32_be 1 @ u32_be (of_nat (length (sm_entries s))) @ entries_blob (sm_entries s)"

text \<open>Writing may fail; \<open>ok\<close> is whether it did not.\<close>

definition sm_save :: "bool \<Rightarrow> storage \<Rightarrow> bool \<times> storage \<times> bytes option" where
  "sm_save ok s =
     (if \<not> sc_persist (sm_config s) then (True, s, None)
      else if ok then (True, s\<lparr>sm_dirty := False\<rparr>, Some (data_file s)) else (False, s, None))"

fun read_loop :: "nat \<Rightarrow> bytes \<Rightarrow> nat \<Rightarrow> storage \<Rightarrow> bool \<times> storage" where
  "read_loop 0 buf offset s = (True, s)"
| "read_loop (Suc i) buf offset s =
     (if offset \<ge> length buf then (True, s)
      else case deserialize buf offset of
        None \<Rightarrow> (False, s)
      | Some (e, bytes_read) \<Rightarrow>
          read_loop i buf (offset + bytes_read) (if verify_checksum e then set_entry e s else s))"

definition read_data_file :: "bytes \<Rightarrow> storage \<Rightarrow> bool \<times> storage" where
  "read_data_file buf s =
     (if length buf < 12 then (False, s)
      else if take 4 buf \<noteq> file_magic then (False, s)
      else if be_u32 (buf ! 4) (buf ! 5) (buf ! 6) (buf ! 7) \<noteq> 1 then (False, s)
      else read_loop (unat (be_u32 (buf ! 8) (buf ! 9) (buf ! 10) (buf ! 11))) buf 12 (s\<lparr>sm_entries := []\<rparr>))"

datatype disk = No_File | Unreadable | Contents bytes

definition sm_load :: "disk \<Rightarrow> storage \<Rightarrow> bool \<times> storage" where
  "sm_load d s =
     (if \<not> sc_persist (sm_config s) then (True, s)
      else case d of No_File \<Rightarrow> (True, s) | Unreadable \<Rightarrow> (False, s) | Contents buf \<Rightarrow> read_data_file buf s)"

record storage_statistics =
  ss_total :: nat
  ss_deleted :: nat
  ss_data_bytes :: nat

definition get_statistics :: "storage \<Rightarrow> storage_statistics" where
  "get_statistics s =
     foldl (\<lambda>r (k, e). if se_deleted e then r\<lparr>ss_deleted := ss_deleted r + 1\<rparr>
                      else r\<lparr>ss_total := ss_total r + 1, ss_data_bytes := ss_data_bytes r + length (se_data e)\<rparr>)
       \<lparr>ss_total = 0, ss_deleted = 0, ss_data_bytes = 0\<rparr> (sm_entries s)"

end
