(* ===== verification/Last_Writer.thy ===== *)
theory Last_Writer
  imports Prelude
begin

text \<open>
  The contract of a last-writer-wins map: merging an entry keeps it unless the entry already
  held for its key is at least as new. From the contract alone, what a replica holds after
  merging any entries in any order is the newest entry of each key, so replicas that have
  merged the same entries agree. The store of \<open>Storage\<close> implements it.
\<close>

locale lww_map =
  fixes get :: "'s \<Rightarrow> 'k \<Rightarrow> 'e option"
    and merge :: "'e \<Rightarrow> 's \<Rightarrow> 's"
    and key :: "'e \<Rightarrow> 'k"
    and newer :: "'e \<Rightarrow> 'e \<Rightarrow> bool"
  assumes get_merge: "get (merge e s) k =
      (if k = key e then Some (case get s k of None \<Rightarrow> e | Some c \<Rightarrow> if newer e c then e else c) else get s k)"
    and newer_irrefl: "\<not> newer a a"
    and newer_trans: "newer a b \<Longrightarrow> newer b c \<Longrightarrow> newer a c"
begin

definition covers :: "'s \<Rightarrow> 'e \<Rightarrow> bool" where
  "covers s e \<longleftrightarrow> (\<exists>c. get s (key e) = Some c \<and> (c = e \<or> newer c e))"

definition tie_free :: "'e set \<Rightarrow> bool" where
  "tie_free E \<longleftrightarrow> (\<forall>a \<in> E. \<forall>b \<in> E. key a = key b \<longrightarrow> a = b \<or> newer a b \<or> newer b a)"

lemma covers_merge: "covers s x \<Longrightarrow> covers (merge e s) x"
proof -
  assume "covers s x"
  then obtain c where c: "get s (key x) = Some c" "c = x \<or> newer c x" by (auto simp: covers_def)
  have "newer e c \<Longrightarrow> newer e x" using c(2) by (auto intro: newer_trans)
  with c show ?thesis by (auto simp: covers_def get_merge)
qed

lemma covers_merges: "covers s x \<Longrightarrow> covers (foldl (\<lambda>s e. merge e s) s es) x"
  by (induction es arbitrary: s) (simp_all add: covers_merge)

lemma merge_covers:
  assumes "\<And>c. get s (key e) = Some c \<Longrightarrow> c = e \<or> newer c e \<or> newer e c"
  shows "covers (merge e s) e"
  using assms by (auto simp: covers_def get_merge split: option.splits)

lemma covers_trans: "covers s a \<Longrightarrow> key a = key b \<Longrightarrow> newer a b \<Longrightarrow> covers s b"
  by (auto simp: covers_def intro: newer_trans)

text \<open>What a replica holds came from where it started or from what it merged.\<close>

lemma merges_from:
  "get (foldl (\<lambda>s e. merge e s) s es) k = Some x \<Longrightarrow> get s k = Some x \<or> x \<in> set es \<and> key x = k"
proof (induction es arbitrary: s)
  case (Cons e es)
  from Cons.IH [of "merge e s"] Cons.prems show ?case
    by (auto simp: get_merge split: if_splits option.splits)
qed simp

lemma merges_cover:
  assumes "tie_free E" "set es \<subseteq> E" "\<And>k x. get s k = Some x \<Longrightarrow> x \<in> E \<and> key x = k" "e \<in> set es"
  shows "covers (foldl (\<lambda>s e. merge e s) s es) e"
  using assms(2-)
proof (induction es arbitrary: s)
  case (Cons a es)
  have dom: "x \<in> E \<and> key x = k" if "get (merge a s) k = Some x" for k x
    using that Cons.prems(1,2) by (auto simp: get_merge split: if_splits option.splits)
  show ?case
  proof (cases "e \<in> set es")
    case True
    with Cons.IH [of "merge a s"] Cons.prems(1) dom show ?thesis by simp
  next
    case False
    with Cons.prems(3) have "e = a" by simp
    moreover have "covers (merge a s) a"
    proof (rule merge_covers)
      fix c assume "get s (key a) = Some c"
      with Cons.prems(2) have "c \<in> E" "key c = key a" by blast+
      with assms(1) Cons.prems(1) show "c = a \<or> newer c a \<or> newer a c" by (auto simp: tie_free_def)
    qed
    ultimately show ?thesis by (simp add: covers_merges)
  qed
qed simp

lemma held_covers: "get s k = Some x \<Longrightarrow> key x = k \<Longrightarrow> covers s x"
  by (auto simp: covers_def)

text \<open>Replicas that cover each other agree.\<close>

lemma mutual_cover_agree:
  assumes "\<And>k x. get a k = Some x \<Longrightarrow> key x = k \<and> covers b x" "\<And>k x. get b k = Some x \<Longrightarrow> key x = k \<and> covers a x"
  shows "get a = get b"
proof
  fix k
  show "get a k = get b k"
  proof (cases "get a k")
    case None
    show ?thesis
    proof (cases "get b k")
      case (Some y)
      with assms(2) [OF Some] None show ?thesis by (auto simp: covers_def)
    qed (use None in simp)
  next
    case (Some x)
    then obtain y where y: "get b k = Some y" "y = x \<or> newer y x" using assms(1) [OF Some] by (auto simp: covers_def)
    with assms(2) [OF y(1)] Some have "x = y \<or> newer x y" by (auto simp: covers_def)
    with y newer_irrefl newer_trans have "x = y" by blast
    with Some y show ?thesis by simp
  qed
qed

lemma merge_order_irrelevant:
  assumes "tie_free E" "set es \<subseteq> E" "set es = set fs" "\<And>k x. get s k = Some x \<Longrightarrow> x \<in> E \<and> key x = k"
  shows "get (foldl (\<lambda>s e. merge e s) s es) = get (foldl (\<lambda>s e. merge e s) s fs)"
proof -
  have half: "key x = k \<and> covers (foldl (\<lambda>s e. merge e s) s gs) x"
    if "get (foldl (\<lambda>s e. merge e s) s hs) k = Some x" "set hs = set gs" "set gs \<subseteq> E" for hs gs k x
  proof -
    from merges_from [OF that(1)] show ?thesis
    proof
      assume "get s k = Some x"
      with assms(4) held_covers covers_merges show ?thesis by blast
    next
      assume "x \<in> set hs \<and> key x = k"
      with merges_cover [OF assms(1) that(3) assms(4)] that(2) show ?thesis by blast
    qed
  qed
  show ?thesis
    by (rule mutual_cover_agree) (use half assms(2,3) in blast)+
qed

end

end
