(* ===== verification/Storage_Safety.thy ===== *)
theory Storage_Safety
  imports Storage Last_Writer
begin

text \<open>
  Correctness of one replica: the store is a last-writer-wins map, every operation keeps it
  well formed, a snapshot brings over exactly the entries of its sender, and the data file
  restores the entries it was written from.
\<close>

subsection \<open>The store as a last-writer-wins map\<close>

definition merge_entry :: "storage_entry \<Rightarrow> storage \<Rightarrow> storage" where
  "merge_entry e s = (case apply_remote_entry e s of None \<Rightarrow> s | Some (_, s1) \<Rightarrow> s1)"

lemma lookup_set_entry: "lookup (set_entry e s) k = (if k = se_key e then Some e else lookup s k)"
  by (simp add: lookup_def set_entry_def update_conv')

lemma lookup_merge:
  "lookup (merge_entry e s) k =
     (if k = se_key e then Some (case lookup s k of None \<Rightarrow> e | Some c \<Rightarrow> if wins_over e c then e else c)
      else lookup s k)"
  by (auto simp: merge_entry_def apply_remote_entry_def Let_def lookup_set_entry split: option.splits)
    (auto simp: lookup_def)

interpretation lww: lww_map lookup merge_entry se_key wins_over
  by unfold_locales (auto simp: lookup_merge intro: wins_trans)

subsection \<open>Well-formed stores\<close>

definition entry_ok :: "storage_entry \<Rightarrow> bool" where
  "entry_ok e \<longleftrightarrow> verify_checksum e \<and> entry_fits e"

definition storage_wf :: "storage \<Rightarrow> bool" where
  "storage_wf s \<longleftrightarrow> distinct (map fst (sm_entries s)) \<and> list_all (\<lambda>(k, e). se_key e = k \<and> entry_ok e) (sm_entries s)"

lemma storage_wf_lookup: "storage_wf s \<Longrightarrow> lookup s k = Some e \<Longrightarrow> se_key e = k \<and> entry_ok e"
  by (auto simp: storage_wf_def lookup_def list_all_iff dest!: map_of_SomeD)

lemma set_entry_wf: "storage_wf s \<Longrightarrow> entry_ok e \<Longrightarrow> storage_wf (set_entry e s)"
  by (auto simp: storage_wf_def set_entry_def distinct_update intro: update_all)

lemma merge_entry_wf: "storage_wf s \<Longrightarrow> entry_ok e \<Longrightarrow> storage_wf (merge_entry e s)"
  by (auto simp: merge_entry_def apply_remote_entry_def Let_def set_entry_wf split: option.splits)

lemma merges_wf: "storage_wf s \<Longrightarrow> list_all entry_ok es \<Longrightarrow> storage_wf (foldl (\<lambda>s e. merge_entry e s) s es)"
  by (induction es arbitrary: s) (simp_all add: merge_entry_wf)

lemma checksum_verifies [simp]: "verify_checksum (calculate_checksum e)"
  by (simp add: verify_checksum_def calculate_checksum_def entry_crc_def)

lemma storage_wf_cong: "sm_entries s = sm_entries t \<Longrightarrow> storage_wf s = storage_wf t"
  by (simp add: storage_wf_def)

lemma broadcast_entry_same [simp]:
  "sm_entries (fst (broadcast_entry e s)) = sm_entries s" "sm_self (fst (broadcast_entry e s)) = sm_self s"
  "sm_config (fst (broadcast_entry e s)) = sm_config s"
  by (simp_all add: broadcast_entry_def)

lemma new_entry_ok:
  "length k + length origin + length d + 26 < 2 ^ 32 \<Longrightarrow> entry_ok (new_storage_entry k t d ts origin)"
  by (simp add: entry_ok_def new_storage_entry_def entry_fits_def calculate_checksum_def [of "_\<lparr>se_key := _\<rparr>"])
    (simp add: calculate_checksum_def)

lemma put_internal_entries:
  "sm_entries (fst (snd (put_internal clock k t d ts origin b s))) =
     (let e = new_storage_entry k t d (if ts = 0 then clock else ts) (if origin = [] then get_our_peer_id s else origin) in
      if fst (put_internal clock k t d ts origin b s) then sm_entries (set_entry e s) else sm_entries s)"
  by (auto simp: put_internal_def Let_def case_prod_unfold mark_dirty_def set_entry_def split: option.splits)

lemma put_internal_wf:
  assumes "storage_wf s" "length k + length (if origin = [] then get_our_peer_id s else origin) + length d + 26 < 2 ^ 32"
  shows "storage_wf (fst (snd (put_internal clock k t d ts origin b s)))"
  unfolding storage_wf_def put_internal_entries Let_def
  using set_entry_wf [OF assms(1) new_entry_ok [OF assms(2)]] assms(1) by (simp add: storage_wf_def)

lemma entries_ok: "storage_wf s \<Longrightarrow> list_all entry_ok (map snd (sm_entries s))"
  by (auto simp: storage_wf_def list_all_iff)

lemma held_entries: "storage_wf s \<Longrightarrow> set (map snd (sm_entries s)) = {e. lookup s (se_key e) = Some e}"
  by (force simp: storage_wf_def lookup_def list_all_iff image_iff intro: map_of_is_SomeI dest: map_of_SomeD)

subsection \<open>Snapshots and the data file\<close>

lemma blob_at_Cons:
  assumes "drop offset buf = entries_blob ((k, e) # es)" "entry_fits e"
  shows "offset < length buf" "deserialize buf offset = Some (e, length (serialize e))"
    "drop (offset + length (serialize e)) buf = entries_blob es"
proof -
  from assms(1) have d: "drop offset buf = serialize e @ entries_blob es" by (simp add: entries_blob_def)
  show "deserialize buf offset = Some (e, length (serialize e))" by (rule deserialize_at [OF d assms(2)])
  have "length (drop offset buf) > 0" unfolding d by simp
  then show "offset < length buf" by simp
  have "drop (offset + length (serialize e)) buf = drop (length (serialize e)) (drop offset buf)"
    by (simp add: add.commute)
  then show "drop (offset + length (serialize e)) buf = entries_blob es" unfolding d by simp
qed

lemma sync_loop_merges:
  "drop offset buf = entries_blob es \<Longrightarrow> list_all (\<lambda>(k, e). entry_ok e) es \<Longrightarrow>
     fst (snd (sync_loop (length es) buf offset s)) = foldl (\<lambda>s e. merge_entry e s) s (map snd es)"
proof (induction es arbitrary: offset s)
  case (Cons x es)
  obtain k e where x: "x = (k, e)" by (cases x)
  have e: "verify_checksum e" "entry_fits e" using Cons.prems(2) x by (simp_all add: entry_ok_def)
  note at = blob_at_Cons [OF Cons.prems(1) [unfolded x] e(2)]
  have es: "list_all (\<lambda>(k, e). entry_ok e) es" using Cons.prems(2) by simp
  note IH = Cons.IH [OF at(3) es]
  show ?case
    using at(1,2) e(1) IH
    by (auto simp: x merge_entry_def case_prod_unfold Let_def split: option.splits)
qed simp

lemma read_loop_entries:
  "drop offset buf = entries_blob es \<Longrightarrow> list_all (\<lambda>(k, e). entry_ok e) es \<Longrightarrow>
     read_loop (length es) buf offset s = (True, foldl (\<lambda>s e. set_entry e s) s (map snd es))"
proof (induction es arbitrary: offset s)
  case (Cons x es)
  obtain k e where x: "x = (k, e)" by (cases x)
  have e: "verify_checksum e" "entry_fits e" using Cons.prems(2) x by (simp_all add: entry_ok_def)
  note at = blob_at_Cons [OF Cons.prems(1) [unfolded x] e(2)]
  have es: "list_all (\<lambda>(k, e). entry_ok e) es" using Cons.prems(2) by simp
  show ?case using at(1,2) e(1) Cons.IH [OF at(3) es] by (simp add: x)
qed simp

text \<open>The newer of the two entries two replicas hold for a key.\<close>

definition lww_join ::
  "(bytes \<Rightarrow> storage_entry option) \<Rightarrow> (bytes \<Rightarrow> storage_entry option) \<Rightarrow> bytes \<Rightarrow> storage_entry option" where
  "lww_join x y k =
     (case x k of
        None \<Rightarrow> y k
      | Some a \<Rightarrow> (case y k of None \<Rightarrow> Some a | Some b \<Rightarrow> Some (if wins_over b a then b else a)))"

lemma merges_join:
  "distinct (map fst es) \<Longrightarrow> list_all (\<lambda>(k, e). se_key e = k) es \<Longrightarrow>
     lookup (foldl (\<lambda>s e. merge_entry e s) s (map snd es)) = lww_join (lookup s) (map_of es)"
proof (induction es arbitrary: s)
  case Nil
  show ?case by (rule ext) (simp add: lww_join_def split: option.splits)
next
  case (Cons x es)
  obtain e where x: "x = (se_key e, e)" using Cons.prems(2) by (cases x) auto
  have new: "map_of es (se_key e) = None"
    using Cons.prems(1) x by (auto simp: map_of_eq_None_iff)
  have "lookup (foldl (\<lambda>s e. merge_entry e s) s (map snd (x # es))) = lww_join (lookup (merge_entry e s)) (map_of es)"
    using Cons by (simp add: x)
  also have "\<dots> = lww_join (lookup s) (map_of (x # es))"
    using new by (intro ext) (auto simp: lww_join_def lookup_merge x split: option.splits)
  finally show ?case .
qed

lemma lww_join_comm:
  assumes "\<And>k a b. x k = Some a \<Longrightarrow> y k = Some b \<Longrightarrow> stamp_eq a b \<Longrightarrow> a = b"
  shows "lww_join x y = lww_join y x"
proof
  fix k
  have "(if wins_over b a then b else a) = (if wins_over a b then a else b)" if "x k = Some a" "y k = Some b" for a b
    using wins_total [of a b] assms [OF that] wins_trans [of a b a] by auto
  then show "lww_join x y k = lww_join y x k" by (auto simp: lww_join_def split: option.splits)
qed

lemma be_u32_head: "be_u32 ((u32_be w @ r) ! 0) ((u32_be w @ r) ! 1) ((u32_be w @ r) ! 2) ((u32_be w @ r) ! 3) = w"
  by (simp add: u32_be_def numeral_2_eq_2 numeral_3_eq_3)

lemma sync_response_merges:
  assumes "storage_wf b" "length (sm_entries b) < 2 ^ 32"
  shows "lookup (fst (on_storage_message p (sync_response b) ps a)) = lww_join (lookup a) (lookup b)"
proof -
  let ?es = "sm_entries b" let ?blob = "entries_blob ?es"
  have ok: "list_all (\<lambda>(k, e). entry_ok e) ?es" "list_all (\<lambda>(k, e). se_key e = k) ?es" "distinct (map fst ?es)"
    using assms(1) by (auto simp: storage_wf_def list_all_iff)
  have n: "unat (of_nat (length ?es) :: u32) = length ?es" by (rule unat_len [OF assms(2)])
  have "fst (snd (sync_loop (length ?es) ?blob 0 a)) = foldl (\<lambda>s e. merge_entry e s) a (map snd ?es)"
    by (rule sync_loop_merges) (use ok in simp_all)
  then have "lookup (fst (on_sync_response (sync_response b) a)) = lookup (foldl (\<lambda>s e. merge_entry e s) a (map snd ?es))"
    using be_u32_head [of "of_nat (length ?es)" ?blob]
    by (auto simp: on_sync_response_def sync_response_def Let_def case_prod_unfold n lookup_def mark_dirty_def
        numeral_2_eq_2 numeral_3_eq_3 numeral_eq_Suc)
  moreover have "on_storage_message p (sync_response b) ps a = on_sync_response (sync_response b) a"
    by (simp add: on_storage_message_def sync_response_def OP_ENTRY_def OP_SYNC_REQUEST_def OP_SYNC_RESPONSE_def)
  ultimately show ?thesis
    using merges_join [OF ok(3,2)] by (simp add: lookup_def [abs_def])
qed

text \<open>Entries learned from a snapshot are not passed on to the other peers.\<close>

lemma sync_loop_silent: "x \<in> set (snd (snd (sync_loop i buf offset s))) \<Longrightarrow> \<exists>ev. x = Out_Change ev"
proof (induction i arbitrary: offset s)
  case (Suc i)
  from Suc.prems show ?case
    by (auto simp: Let_def case_prod_unfold split: if_splits option.splits dest: Suc.IH)
qed simp

lemma snapshot_not_forwarded:
  assumes "x \<in> set (snd (on_storage_message p (OP_SYNC_RESPONSE # body) peers s))"
  shows "x = Out_Sync_Complete \<or> (\<exists>ev. x = Out_Change ev)"
proof -
  have "on_storage_message p (OP_SYNC_RESPONSE # body) peers s = on_sync_response (OP_SYNC_RESPONSE # body) s"
    by (simp add: on_storage_message_def OP_ENTRY_def OP_SYNC_REQUEST_def OP_SYNC_RESPONSE_def)
  with assms show ?thesis
    by (auto simp: on_sync_response_def Let_def case_prod_unfold split: if_splits dest: sync_loop_silent)
qed

lemma file_restores:
  "distinct (map fst es) \<Longrightarrow> list_all (\<lambda>(k, e). se_key e = k) es \<Longrightarrow>
     lookup (foldl (\<lambda>s e. set_entry e s) s (map snd es)) = lookup s ++ map_of es"
proof (induction es arbitrary: s)
  case (Cons x es)
  obtain e where x: "x = (se_key e, e)" using Cons.prems(2) by (cases x) auto
  have "map_of es (se_key e) = None" using Cons.prems(1) x by (auto simp: map_of_eq_None_iff)
  with Cons show ?case
    by (intro ext) (auto simp: x lookup_set_entry map_add_def split: option.splits)
qed simp

subsection \<open>Properties\<close>

text \<open>
  C26: when two replicas that do not hold different entries with one and the same stamp send
  each other their snapshots, both end up with the same entries: for every key the newer of
  the two, tombstones included. The snapshots travel in their wire form.
\<close>

theorem anti_entropy_converges:
  assumes "storage_wf a" "storage_wf b" "length (sm_entries a) < 2 ^ 32" "length (sm_entries b) < 2 ^ 32"
    and "\<forall>k x y. lookup a k = Some x \<longrightarrow> lookup b k = Some y \<longrightarrow> stamp_eq x y \<longrightarrow> x = y"
  shows "lookup (fst (on_storage_message p (sync_response b) ps a)) = lww_join (lookup a) (lookup b) \<and>
    lookup (fst (on_storage_message q (sync_response a) qs b)) = lww_join (lookup a) (lookup b)"
proof -
  have "lww_join (lookup b) (lookup a) = lww_join (lookup a) (lookup b)"
    by (rule lww_join_comm) (use assms(5) in \<open>metis stamp_eq_def\<close>)
  with sync_response_merges [OF assms(2,4)] sync_response_merges [OF assms(1,3)] show ?thesis by simp
qed

text \<open>Two replicas for the concrete runs: one wrote a key, the other wrote it later and a second one.\<close>

definition sample_config :: storage_config where
  "sample_config = \<lparr>sc_enable_sync = True, sc_max_value_size = 100, sc_persist = True\<rparr>"

definition sample_put :: "peer_id \<Rightarrow> (u64 \<times> bytes \<times> bytes) list \<Rightarrow> storage" where
  "sample_put p ws =
     foldl (\<lambda>s (clock, k, v). fst (snd (put_string clock k v s))) (sm_attach p (new_storage sample_config)) ws"

definition sample_a :: storage where "sample_a = sample_put [1] [(5, [107], [10])]"
definition sample_b :: storage where "sample_b = sample_put [2] [(7, [107], [20]), (8, [109], [30])]"

lemma new_entry_fields [simp]:
  "se_timestamp (new_storage_entry k t d ts p) = ts" "se_origin (new_storage_entry k t d ts p) = p"
  "se_data (new_storage_entry k t d ts p) = d" "se_key (new_storage_entry k t d ts p) = k"
  "se_deleted (new_storage_entry k t d ts p) = False"
  by (simp_all add: new_storage_entry_def calculate_checksum_def)

lemma sample_entries:
  "sm_entries sample_a = [([107], new_storage_entry [107] TYPE_STRING [10] 5 (to_hex [1]))]"
  "sm_entries sample_b = [([107], new_storage_entry [107] TYPE_STRING [20] 7 (to_hex [2])),
                          ([109], new_storage_entry [109] TYPE_STRING [30] 8 (to_hex [2]))]"
  by (simp_all add: sample_a_def sample_b_def sample_put_def put_string_def put_internal_def sample_config_def
      sm_attach_def new_storage_def get_our_peer_id_def set_entry_def mark_dirty_def broadcast_entry_def Let_def)

lemma sample_wf: "storage_wf sample_a" "storage_wf sample_b"
  by (simp_all add: storage_wf_def sample_entries new_entry_ok to_hex_def hex_byte_def)

theorem anti_entropy_converges_witness:
  "storage_wf sample_a \<and> storage_wf sample_b \<and>
   map_option se_data (lookup (fst (on_storage_message [2] (sync_response sample_b) [] sample_a)) [107]) = Some [20] \<and>
   lookup (fst (on_storage_message [1] (sync_response sample_a) [] sample_b)) = lww_join (lookup sample_a) (lookup sample_b)"
proof -
  note wf = sample_wf
  have len: "length (sm_entries sample_a) < 2 ^ 32" "length (sm_entries sample_b) < 2 ^ 32"
    by (simp_all add: sample_entries)
  have tie: "\<forall>k x y. lookup sample_a k = Some x \<longrightarrow> lookup sample_b k = Some y \<longrightarrow> stamp_eq x y \<longrightarrow> x = y"
    by (simp add: lookup_def sample_entries stamp_eq_def new_entry_fields)
  have "map_option se_data (lww_join (lookup sample_a) (lookup sample_b) [107]) = Some [20]"
    by (simp add: lww_join_def lookup_def sample_entries wins_over_def new_entry_fields)
  with anti_entropy_converges [OF wf len tie, of "[2]" "[]" "[1]" "[]"] wf show ?thesis by simp
qed

text \<open>
  C28: reading back the data file a store wrote restores every entry, tombstones included,
  whatever the store held before.
\<close>

theorem data_file_roundtrip:
  assumes "storage_wf s" "length (sm_entries s) < 2 ^ 32"
  shows "fst (read_data_file (data_file s) t) \<and> lookup (snd (read_data_file (data_file s) t)) = lookup s"
proof -
  let ?es = "sm_entries s" let ?blob = "entries_blob ?es"
  have ok: "list_all (\<lambda>(k, e). entry_ok e) ?es" "list_all (\<lambda>(k, e). se_key e = k) ?es" "distinct (map fst ?es)"
    using assms(1) by (auto simp: storage_wf_def list_all_iff)
  have n: "unat (of_nat (length ?es) :: u32) = length ?es" by (rule unat_len [OF assms(2)])
  have head: "file_magic = [82, 65, 84, 83]" by (simp add: file_magic_def str_def)
  have "read_data_file (data_file s) t = read_loop (length ?es) (data_file s) 12 (t\<lparr>sm_entries := []\<rparr>)"
    using be_u32_head [of "of_nat (length ?es)" ?blob] be_u32_head [of 1 "u32_be (of_nat (length ?es)) @ ?blob"]
    by (simp add: read_data_file_def data_file_def head n nth_append numeral_eq_Suc u32_be_def)
  also have "\<dots> = (True, foldl (\<lambda>s e. set_entry e s) (t\<lparr>sm_entries := []\<rparr>) (map snd ?es))"
    by (rule read_loop_entries) (use ok in \<open>simp_all add: data_file_def head\<close>)
  finally show ?thesis
    using file_restores [OF ok(3,2), of "t\<lparr>sm_entries := []\<rparr>"] by (simp add: lookup_def [abs_def])
qed

theorem data_file_roundtrip_witness:
  "storage_wf sample_b \<and> lookup (snd (read_data_file (data_file sample_b) sample_a)) = lookup sample_b"
proof -
  have "length (sm_entries sample_b) < 2 ^ 32" by (simp add: sample_entries)
  with data_file_roundtrip [OF sample_wf(2), of sample_a] sample_wf show ?thesis by simp
qed

end
