(* ===== verification/Storage_Net.thy ===== *)
theory Storage_Net
  imports Storage_Safety
begin

text \<open>
  A network of replicas that flood their writes to each other: the stores, the messages under
  way, and every interleaving of local writes and deliveries. What the sending side calls a
  broadcast or a send puts one message per receiver under way; a delivery runs the receiver's
  message handler. The links are those of an unchanging set of connections.
\<close>

subsection \<open>The network\<close>

record storage_net =
  nt_store :: "peer_id \<Rightarrow> storage"
  nt_flight :: "(peer_id \<times> peer_id \<times> bytes) list"

fun out_messages :: "(peer_id \<Rightarrow> peer_id list) \<Rightarrow> peer_id \<Rightarrow> storage_out \<Rightarrow> (peer_id \<times> peer_id \<times> bytes) list" where
  "out_messages links p (Out_Send q m) = [(p, q, m)]"
| "out_messages links p (Out_Broadcast m) = map (\<lambda>q. (p, q, m)) (links p)"
| "out_messages links p _ = []"

definition act :: "(peer_id \<Rightarrow> peer_id list) \<Rightarrow> peer_id \<Rightarrow> storage \<times> storage_out list \<Rightarrow> storage_net \<Rightarrow> storage_net" where
  "act links p r n =
     n\<lparr>nt_store := (nt_store n)(p := fst r), nt_flight := nt_flight n @ concat (map (out_messages links p) (snd r))\<rparr>"

datatype net_event =
    Net_Put peer_id u64 bytes byte bytes
  | Net_Remove peer_id u64 bytes
  | Net_Deliver nat

fun net_step :: "(peer_id \<Rightarrow> peer_id list) \<Rightarrow> storage_net \<Rightarrow> net_event \<Rightarrow> storage_net" where
  "net_step links n (Net_Put p clock k t d) = act links p (snd (put_internal clock k t d 0 [] True (nt_store n p))) n"
| "net_step links n (Net_Remove p clock k) = act links p (snd (sm_remove clock k (nt_store n p))) n"
| "net_step links n (Net_Deliver i) =
     (if i < length (nt_flight n) then
        let (p, q, m) = nt_flight n ! i;
            n1 = n\<lparr>nt_flight := take i (nt_flight n) @ drop (Suc i) (nt_flight n)\<rparr>
        in act links q (on_storage_message p m (links q) (nt_store n q)) n1
      else n)"

definition net_run :: "(peer_id \<Rightarrow> peer_id list) \<Rightarrow> storage_net \<Rightarrow> net_event list \<Rightarrow> storage_net" where
  "net_run links n evs = foldl (net_step links) n evs"

definition net_start :: "storage_config \<Rightarrow> storage_net" where
  "net_start cfg = \<lparr>nt_store = (\<lambda>p. sm_attach p (new_storage cfg)), nt_flight = []\<rparr>"

text \<open>
  What the run assumes of the environment: writes happen at members, keys and values are of a
  size the 32-bit lengths can hold, and a deletion reads a clock later than the entry it deletes.
\<close>

fun event_ok :: "peer_id list \<Rightarrow> storage_net \<Rightarrow> net_event \<Rightarrow> bool" where
  "event_ok ps n (Net_Put p clock k t d) \<longleftrightarrow> p \<in> set ps \<and> length k + length d + 90 < 2 ^ 32"
| "event_ok ps n (Net_Remove p clock k) \<longleftrightarrow> p \<in> set ps \<and> length k + 90 < 2 ^ 32 \<and>
     (case lookup (nt_store n p) k of None \<Rightarrow> True | Some e \<Rightarrow> se_timestamp e < clock)"
| "event_ok ps n (Net_Deliver i) \<longleftrightarrow> True"

fun run_ok :: "(peer_id \<Rightarrow> peer_id list) \<Rightarrow> peer_id list \<Rightarrow> storage_net \<Rightarrow> net_event list \<Rightarrow> bool" where
  "run_ok links ps n [] \<longleftrightarrow> True"
| "run_ok links ps n (ev # evs) \<longleftrightarrow> event_ok ps n ev \<and> run_ok links ps (net_step links n ev) evs"

text \<open>Members have proper identities and their links are mutual.\<close>

definition topology :: "(peer_id \<Rightarrow> peer_id list) \<Rightarrow> peer_id list \<Rightarrow> bool" where
  "topology links ps \<longleftrightarrow>
     list_all (\<lambda>p. length p = pid_size \<and>
       list_all (\<lambda>q. q \<in> set ps \<and> q \<noteq> p \<and> p \<in> set (links q)) (links p)) ps"

subsection \<open>The invariant\<close>

definition carried :: "storage_net \<Rightarrow> storage_entry set" where
  "carried n = {e. \<exists>p q. (p, q, entry_message e) \<in> set (nt_flight n) \<and> entry_ok e}"

definition present :: "peer_id list \<Rightarrow> storage_net \<Rightarrow> storage_entry set" where
  "present ps n = {e. \<exists>p \<in> set ps. lookup (nt_store n p) (se_key e) = Some e} \<union> carried n"

definition member_ok :: "peer_id \<Rightarrow> storage \<Rightarrow> bool" where
  "member_ok p s \<longleftrightarrow> sm_self s = Some p \<and> sc_enable_sync (sm_config s) \<and> storage_wf s"

definition flight_ok :: "(peer_id \<Rightarrow> peer_id list) \<Rightarrow> peer_id list \<Rightarrow> storage_net \<Rightarrow> bool" where
  "flight_ok links ps n \<longleftrightarrow>
     (\<forall>(p, q, m) \<in> set (nt_flight n). p \<in> set ps \<and> q \<in> set (links p) \<and>
        (\<exists>e. m = entry_message e \<and> entry_ok e \<and> lww.covers (nt_store n p) e))"

text \<open>Entries with one stamp are one entry, and a member holds at least what it has written.\<close>

definition stamps_ok :: "peer_id list \<Rightarrow> storage_net \<Rightarrow> bool" where
  "stamps_ok ps n \<longleftrightarrow>
     (\<forall>a \<in> present ps n. \<forall>b \<in> present ps n. se_key a = se_key b \<longrightarrow> stamp_eq a b \<longrightarrow> a = b) \<and>
     (\<forall>a \<in> present ps n. \<forall>p \<in> set ps. se_origin a = to_hex p \<longrightarrow> lww.covers (nt_store n p) a)"

definition owed :: "(peer_id \<Rightarrow> peer_id list) \<Rightarrow> peer_id list \<Rightarrow> storage_net \<Rightarrow> bool" where
  "owed links ps n \<longleftrightarrow>
     (\<forall>p \<in> set ps. \<forall>q \<in> set (links p). \<forall>k e. lookup (nt_store n p) k = Some e \<longrightarrow>
        lww.covers (nt_store n q) e \<or> (\<exists>e'. (p, q, entry_message e') \<in> set (nt_flight n) \<and> entry_ok e' \<and>
          se_key e' = k \<and> (e' = e \<or> wins_over e' e)))"

definition net_inv :: "(peer_id \<Rightarrow> peer_id list) \<Rightarrow> peer_id list \<Rightarrow> storage_net \<Rightarrow> bool" where
  "net_inv links ps n \<longleftrightarrow>
     (\<forall>p \<in> set ps. member_ok p (nt_store n p)) \<and> flight_ok links ps n \<and> stamps_ok ps n \<and> owed links ps n"

lemma entry_message_inj:
  assumes "entry_message a = entry_message b" "entry_ok a" "entry_ok b" shows "a = b"
proof -
  have "serialize a = serialize b" using assms(1) by (simp add: entry_message_def)
  moreover have "deserialize (serialize x) 0 = Some (x, length (serialize x))" if "entry_ok x" for x
    by (rule deserialize_at [where rest = "[]"]) (use that in \<open>simp_all add: entry_ok_def\<close>)
  ultimately show ?thesis using assms(2,3) by (metis option.inject prod.inject)
qed

lemma covers_cong: "lookup s = lookup t \<Longrightarrow> lww.covers s e = lww.covers t e"
  by (simp add: lww.covers_def)

lemma present_held: "p \<in> set ps \<Longrightarrow> storage_wf (nt_store n p) \<Longrightarrow> lookup (nt_store n p) k = Some e \<Longrightarrow> e \<in> present ps n"
  using storage_wf_lookup [of "nt_store n p" k e] by (auto simp: present_def)

text \<open>
  One replica merges one entry. It covers the entry afterwards; the messages that disappear
  carried it to this replica; those that appear carry it onwards, to every neighbour that does
  not cover it already if the entry is new here.
\<close>

definition merging ::
  "(peer_id \<Rightarrow> peer_id list) \<Rightarrow> peer_id list \<Rightarrow> storage_net \<Rightarrow> peer_id \<Rightarrow> storage_entry \<Rightarrow> storage_net \<Rightarrow> bool" where
  "merging links ps n q e n' \<longleftrightarrow>
     q \<in> set ps \<and> entry_ok e \<and> member_ok q (nt_store n' q) \<and> lww.covers (nt_store n' q) e \<and>
     lookup (nt_store n' q) = lookup (merge_entry e (nt_store n q)) \<and> (\<forall>r. r \<noteq> q \<longrightarrow> nt_store n' r = nt_store n r) \<and>
     (\<forall>(a, b, m) \<in> set (nt_flight n').
        (a, b, m) \<in> set (nt_flight n) \<or> a = q \<and> b \<in> set (links q) \<and> m = entry_message e) \<and>
     (\<forall>(a, b, m) \<in> set (nt_flight n). (a, b, m) \<in> set (nt_flight n') \<or> b = q \<and> m = entry_message e) \<and>
     (lookup (nt_store n' q) (se_key e) = Some e \<longrightarrow> lookup (nt_store n q) (se_key e) \<noteq> Some e \<longrightarrow>
       (\<forall>r \<in> set (links q). (q, r, entry_message e) \<in> set (nt_flight n') \<or> lww.covers (nt_store n r) e)) \<and>
     (\<forall>x \<in> present ps n. se_key x = se_key e \<longrightarrow> stamp_eq x e \<longrightarrow> x = e) \<and>
     (\<forall>p \<in> set ps. se_origin e = to_hex p \<longrightarrow> lww.covers (nt_store n' p) e)"

lemma merging_grow: "merging links ps n q e n' \<Longrightarrow> lww.covers (nt_store n r) x \<Longrightarrow> lww.covers (nt_store n' r) x"
  using covers_cong [of "nt_store n' q" "merge_entry e (nt_store n q)" x]
  by (cases "r = q") (auto simp: merging_def lww.covers_merge)

lemma merging_held:
  assumes "merging links ps n q e n'" "lookup (nt_store n' p) k = Some x"
  shows "lookup (nt_store n p) k = Some x \<or> p = q \<and> x = e \<and> k = se_key e"
proof (cases "p = q")
  case True
  with assms have "lookup (merge_entry e (nt_store n q)) k = Some x" by (simp add: merging_def)
  then show ?thesis using True by (auto simp: lookup_merge split: if_splits option.splits)
qed (use assms in \<open>auto simp: merging_def\<close>)

lemma merging_flight_ok:
  assumes "merging links ps n q e n'" "flight_ok links ps n" shows "flight_ok links ps n'"
  unfolding flight_ok_def
proof (clarify)
  fix a b m assume "(a, b, m) \<in> set (nt_flight n')"
  with assms(1) consider "(a, b, m) \<in> set (nt_flight n)" | "a = q" "b \<in> set (links q)" "m = entry_message e"
    unfolding merging_def by blast
  then show "a \<in> set ps \<and> b \<in> set (links a) \<and> (\<exists>e. m = entry_message e \<and> entry_ok e \<and> lww.covers (nt_store n' a) e)"
  proof cases
    case 1
    then show ?thesis using assms(2) merging_grow [OF assms(1)] unfolding flight_ok_def by blast
  next
    case 2
    then show ?thesis using assms(1) unfolding merging_def by blast
  qed
qed

lemma merging_present:
  assumes "merging links ps n q e n'" shows "present ps n' \<subseteq> insert e (present ps n)"
proof
  fix x assume "x \<in> present ps n'"
  then consider p where "p \<in> set ps" "lookup (nt_store n' p) (se_key x) = Some x"
    | a b where "(a, b, entry_message x) \<in> set (nt_flight n')" "entry_ok x"
    by (auto simp: present_def carried_def)
  then show "x \<in> insert e (present ps n)"
  proof cases
    case 1
    then show ?thesis using merging_held [OF assms] by (fastforce simp: present_def)
  next
    case 2
    with assms have "(a, b, entry_message x) \<in> set (nt_flight n) \<or> entry_message x = entry_message e" "entry_ok e"
      unfolding merging_def by blast+
    with 2(2) show ?thesis by (auto simp: present_def carried_def dest: entry_message_inj)
  qed
qed

lemma merging_stamps_ok:
  assumes "merging links ps n q e n'" "stamps_ok ps n" shows "stamps_ok ps n'"
proof -
  note sub = subsetD [OF merging_present [OF assms(1)]]
  have old: "a = b" if "a \<in> present ps n" "b \<in> present ps n" "se_key a = se_key b" "stamp_eq a b" for a b
    using assms(2) that unfolding stamps_ok_def by blast
  have new: "x = e" if "x \<in> present ps n" "se_key x = se_key e" "stamp_eq x e" for x
    using assms(1) that unfolding merging_def by blast
  show ?thesis
    unfolding stamps_ok_def
  proof (intro conjI ballI impI)
    fix a b assume ab: "a \<in> present ps n'" "b \<in> present ps n'" "se_key a = se_key b" "stamp_eq a b"
    then have sym: "se_key b = se_key a" "stamp_eq b a" by (simp_all add: stamp_eq_def)
    from sub [OF ab(1)] sub [OF ab(2)] show "a = b"
      by (elim insertE) (use ab(3,4) sym old new in blast)+
  next
    fix a p assume a: "a \<in> present ps n'" "p \<in> set ps" "se_origin a = to_hex p"
    show "lww.covers (nt_store n' p) a"
    proof (cases "a = e")
      case True
      with a assms(1) show ?thesis unfolding merging_def by blast
    next
      case False
      with a sub have "a \<in> present ps n" by blast
      with a assms(2) have "lww.covers (nt_store n p) a" unfolding stamps_ok_def by blast
      then show ?thesis by (rule merging_grow [OF assms(1)])
    qed
  qed
qed

lemma merging_owed:
  assumes m: "merging links ps n q e n'" and inv: "net_inv links ps n"
  shows "owed links ps n'"
  unfolding owed_def
proof (intro ballI allI impI)
  fix p r k x
  assume p: "p \<in> set ps" and r: "r \<in> set (links p)" and x: "lookup (nt_store n' p) k = Some x"
  show "lww.covers (nt_store n' r) x \<or> (\<exists>e'. (p, r, entry_message e') \<in> set (nt_flight n') \<and>
      entry_ok e' \<and> se_key e' = k \<and> (e' = x \<or> wins_over e' x))"
  proof (cases "lookup (nt_store n p) k = Some x")
    case False
    with merging_held [OF m x] have px: "p = q" "x = e" "k = se_key e" by auto
    with x False r m have "(q, r, entry_message e) \<in> set (nt_flight n') \<or> lww.covers (nt_store n r) e" "entry_ok e"
      unfolding merging_def by blast+
    with px merging_grow [OF m] show ?thesis by blast
  next
    case True
    with inv p r consider "lww.covers (nt_store n r) x"
      | e' where "(p, r, entry_message e') \<in> set (nt_flight n)" "entry_ok e'" "se_key e' = k" "e' = x \<or> wins_over e' x"
      unfolding net_inv_def owed_def by blast
    then show ?thesis
    proof cases
      case 1
      then show ?thesis using merging_grow [OF m] by blast
    next
      case 2
      with m consider "(p, r, entry_message e') \<in> set (nt_flight n')" | "r = q" "entry_message e' = entry_message e"
        unfolding merging_def by blast
      then show ?thesis
      proof cases
        case gone: 2
        have e: "entry_ok e" "lww.covers (nt_store n' q) e" using m unfolding merging_def by blast+
        have "e' = e" by (rule entry_message_inj [OF gone(2) 2(2) e(1)])
        moreover have "se_key x = k"
          using inv p True storage_wf_lookup unfolding net_inv_def member_ok_def by blast
        ultimately have "lww.covers (nt_store n' q) x"
          using 2(3,4) e(2) lww.covers_trans [of "nt_store n' q" e x] by auto
        then show ?thesis using gone(1) by blast
      qed (use 2 in blast)
    qed
  qed
qed

lemma merging_inv:
  assumes "merging links ps n q e n'" "net_inv links ps n" shows "net_inv links ps n'"
proof -
  have "member_ok p (nt_store n' p)" if "p \<in> set ps" for p
    using assms that unfolding merging_def net_inv_def by (cases "p = q") auto
  with merging_flight_ok [OF assms(1)] merging_stamps_ok [OF assms(1)] merging_owed [OF assms] assms(2)
  show ?thesis unfolding net_inv_def by blast
qed

subsection \<open>Every step merges one entry\<close>

lemma to_hex_inj: "to_hex p = to_hex q \<Longrightarrow> p = q"
  by (metis hex_pairs_to_hex option.inject)

lemma covers_held: "lookup s (se_key e) = Some e \<Longrightarrow> lww.covers s e"
  unfolding lww.covers_def by blast

text \<open>A local write: an entry of the writer's own that is newer than what it holds.\<close>

lemma write_merging:
  assumes inv: "net_inv links ps n" and p: "p \<in> set ps" and e: "entry_ok e" "se_origin e = to_hex p"
    and newer: "\<And>c. lookup (nt_store n p) (se_key e) = Some c \<Longrightarrow> wins_over e c"
    and s': "member_ok p s'" "lookup s' = (lookup (nt_store n p))(se_key e \<mapsto> e)"
  shows "merging links ps n p e
    (n\<lparr>nt_store := (nt_store n)(p := s'), nt_flight := nt_flight n @ map (\<lambda>q. (p, q, entry_message e)) (links p)\<rparr>)"
proof -
  have covers: "lww.covers s' e" by (rule covers_held) (simp add: s'(2))
  have merge: "lookup s' = lookup (merge_entry e (nt_store n p))"
    by (rule ext) (use newer in \<open>auto simp: s'(2) lookup_merge split: option.splits\<close>)
  have fresh: "x = e" if x: "x \<in> present ps n" "se_key x = se_key e" "stamp_eq x e" for x
  proof -
    have "se_origin x = to_hex p" using x(3) e(2) by (simp add: stamp_eq_def)
    with inv x(1) p have "lww.covers (nt_store n p) x" unfolding net_inv_def stamps_ok_def by blast
    then obtain c where "lookup (nt_store n p) (se_key e) = Some c" "c = x \<or> wins_over c x"
      using x(2) by (auto simp: lww.covers_def)
    with newer [of c] have "wins_over e x" using wins_trans [of e c x] by auto
    with x(3) wins_not_stamp [of e x] show ?thesis by (simp add: stamp_eq_def)
  qed
  show ?thesis
    unfolding merging_def
  proof (intro conjI)
    show "\<forall>x \<in> present ps n. se_key x = se_key e \<longrightarrow> stamp_eq x e \<longrightarrow> x = e" using fresh by blast
    show "\<forall>r \<in> set ps. se_origin e = to_hex r \<longrightarrow> lww.covers (nt_store (n\<lparr>nt_store := (nt_store n)(p := s'),
        nt_flight := nt_flight n @ map (\<lambda>q. (p, q, entry_message e)) (links p)\<rparr>) r) e"
    proof (intro ballI impI)
      fix r assume "se_origin e = to_hex r"
      then have "r = p" using e(2) to_hex_inj [of r p] by simp
      with covers show "lww.covers (nt_store (n\<lparr>nt_store := (nt_store n)(p := s'),
        nt_flight := nt_flight n @ map (\<lambda>q. (p, q, entry_message e)) (links p)\<rparr>) r) e" by simp
    qed
  qed ((use p e(1) s'(1) covers merge in simp_all)?, auto)
qed

lemma message_handler:
  assumes "entry_ok e"
  shows "on_storage_message p (entry_message e) peers s =
    (case apply_remote_entry e s of
       None \<Rightarrow> (s, [])
     | Some (ev, s1) \<Rightarrow>
         (let s2 = mark_dirty (s1\<lparr>sm_synced := sm_synced s1 + 1\<rparr>) in (s2, Out_Change ev # forward_entry e p peers s2)))"
proof -
  have "deserialize (serialize e) 0 = Some (e, length (serialize e))"
    by (rule deserialize_at [where rest = "[]"]) (use assms in \<open>simp_all add: entry_ok_def\<close>)
  then show ?thesis using assms by (simp add: on_storage_message_def entry_message_def entry_ok_def split: option.splits)
qed

lemma apply_same:
  assumes "apply_remote_entry e s = Some (ev, s1)"
  shows "sm_self s1 = sm_self s" "sm_config s1 = sm_config s"
    "lookup s1 = (lookup s)(se_key e \<mapsto> e)" "sm_entries s1 = AList.update (se_key e) e (sm_entries s)"
  using assms by (auto simp: apply_remote_entry_def Let_def set_entry_def lookup_def [abs_def] update_conv split: option.splits if_splits)

lemma out_messages_forward:
  "sm_self s \<noteq> None \<Longrightarrow> concat (map (out_messages links q) (forward_entry e p peers s)) =
     map (\<lambda>r. (q, r, entry_message e)) (filter (\<lambda>r. r \<noteq> p) peers)"
  by (auto simp: forward_entry_def map_concat [symmetric] comp_def concat_map_singleton)

lemma set_without_nth:
  assumes "i < length xs"
  shows "set (take i xs @ drop (Suc i) xs) \<subseteq> set xs" "set xs \<subseteq> insert (xs ! i) (set (take i xs @ drop (Suc i) xs))"
proof -
  have "xs = take i xs @ xs ! i # drop (Suc i) xs" by (rule id_take_nth_drop [OF assms])
  then have "set xs = set (take i xs @ xs ! i # drop (Suc i) xs)" by simp
  then show "set (take i xs @ drop (Suc i) xs) \<subseteq> set xs"
    "set xs \<subseteq> insert (xs ! i) (set (take i xs @ drop (Suc i) xs))" by auto
qed

text \<open>Two entries of the network for one key are the same or one is newer.\<close>

lemma present_comparable:
  assumes "stamps_ok ps n" "a \<in> present ps n" "b \<in> present ps n" "se_key a = se_key b"
  shows "a = b \<or> wins_over a b \<or> wins_over b a"
  using assms wins_total [of a b] unfolding stamps_ok_def by blast

lemma flight_message:
  assumes "net_inv links ps n" "topology links ps" "(p, q, m) \<in> set (nt_flight n)"
  obtains e where "m = entry_message e" "entry_ok e" "lww.covers (nt_store n p) e" "e \<in> present ps n"
    "p \<in> set ps" "q \<in> set ps" "q \<in> set (links p)" "p \<in> set (links q)" "p \<noteq> q"
proof -
  have "\<forall>x \<in> set (nt_flight n). case x of (p, q, m) \<Rightarrow> p \<in> set ps \<and> q \<in> set (links p) \<and>
      (\<exists>e. m = entry_message e \<and> entry_ok e \<and> lww.covers (nt_store n p) e)"
    using assms(1) by (simp add: net_inv_def flight_ok_def)
  from bspec [OF this assms(3)] obtain e where e: "m = entry_message e" "entry_ok e" "lww.covers (nt_store n p) e"
    "p \<in> set ps" "q \<in> set (links p)" by auto
  have "e \<in> carried n" unfolding carried_def using e(1,2) assms(3) by blast
  then have "e \<in> present ps n" by (simp add: present_def)
  moreover have "q \<in> set ps" "q \<noteq> p" "p \<in> set (links q)"
    using assms(2) e(4,5) unfolding topology_def list_all_iff by blast+
  ultimately show ?thesis using e by (intro that [of e]) simp_all
qed

lemma handler_effect:
  assumes "entry_ok e" "member_ok q s"
  shows "member_ok q (fst (on_storage_message p (entry_message e) peers s)) \<and>
    lookup (fst (on_storage_message p (entry_message e) peers s)) = lookup (merge_entry e s) \<and>
    concat (map (out_messages links q) (snd (on_storage_message p (entry_message e) peers s))) =
       (if apply_remote_entry e s = None then [] else map (\<lambda>r. (q, r, entry_message e)) (filter (\<lambda>r. r \<noteq> p) peers))"
proof (cases "apply_remote_entry e s")
  case None
  with assms(2) show ?thesis by (simp add: message_handler [OF assms(1)] merge_entry_def)
next
  case (Some x)
  obtain ev s1 where x: "x = (ev, s1)" by (cases x)
  let ?s2 = "mark_dirty (s1\<lparr>sm_synced := sm_synced s1 + 1\<rparr>)"
  note same = apply_same [OF Some [unfolded x]]
  have m: "merge_entry e s = s1" using Some x by (simp add: merge_entry_def)
  have "storage_wf (merge_entry e s)" using assms by (simp add: merge_entry_wf member_ok_def)
  then have wf: "member_ok q ?s2"
    using assms(2) same(1,2) by (simp add: m member_ok_def mark_dirty_def storage_wf_def)
  have "on_storage_message p (entry_message e) peers s = (?s2, Out_Change ev # forward_entry e p peers ?s2)"
    using Some x by (simp add: message_handler [OF assms(1)] Let_def)
  moreover have "sm_self ?s2 \<noteq> None" using wf by (simp add: member_ok_def)
  moreover have "lookup ?s2 = lookup s1" by (simp add: lookup_def [abs_def] mark_dirty_def)
  ultimately show ?thesis using wf Some m by (simp add: out_messages_forward)
qed

lemma merge_none: "apply_remote_entry e s = None \<Longrightarrow> merge_entry e s = s"
  by (simp add: merge_entry_def)

lemma merge_present_covers:
  assumes "net_inv links ps n" "q \<in> set ps" "e \<in> present ps n"
  shows "lww.covers (merge_entry e (nt_store n q)) e"
proof (rule lww.merge_covers)
  fix c assume c: "lookup (nt_store n q) (se_key e) = Some c"
  have wf: "storage_wf (nt_store n q)" and st: "stamps_ok ps n"
    using assms(1,2) by (auto simp: net_inv_def member_ok_def)
  have "c \<in> present ps n" by (rule present_held [OF assms(2) wf c])
  moreover have "se_key c = se_key e" using storage_wf_lookup [OF wf c] by simp
  ultimately show "c = e \<or> wins_over c e \<or> wins_over e c" using present_comparable [OF st _ assms(3)] by blast
qed

lemma deliver_merging:
  assumes inv: "net_inv links ps n" and top: "topology links ps" and i: "i < length (nt_flight n)"
    and pq: "nt_flight n ! i = (p, q, entry_message e)" and e: "entry_ok e"
  shows "merging links ps n q e (net_step links n (Net_Deliver i))"
proof -
  let ?n' = "net_step links n (Net_Deliver i)" let ?s = "nt_store n q"
  let ?rest = "take i (nt_flight n) @ drop (Suc i) (nt_flight n)"
  have mem: "(p, q, entry_message e) \<in> set (nt_flight n)" using nth_mem [OF i] pq by simp
  obtain e' where fm: "entry_message e = entry_message e'" "entry_ok e'" "lww.covers (nt_store n p) e'"
    "e' \<in> present ps n" "p \<in> set ps" "q \<in> set ps" "q \<in> set (links p)" "p \<in> set (links q)" "p \<noteq> q"
    by (rule flight_message [OF inv top mem])
  have ee: "e' = e" using entry_message_inj [OF fm(1) e fm(2)] by simp
  have ok: "member_ok q ?s" "stamps_ok ps n" using inv fm(6) by (simp_all add: net_inv_def)
  note eff = conjunct1 [OF handler_effect [OF e ok(1)]] conjunct1 [OF conjunct2 [OF handler_effect [OF e ok(1)]]]
    conjunct2 [OF conjunct2 [OF handler_effect [OF e ok(1)]]]
  have rest: "set ?rest \<subseteq> set (nt_flight n)" "set (nt_flight n) \<subseteq> insert (p, q, entry_message e) (set ?rest)"
    using set_without_nth [OF i] pq by simp_all
  have st: "nt_store ?n' = (nt_store n)(q := fst (on_storage_message p (entry_message e) (links q) ?s))"
    and fl: "nt_flight ?n' = ?rest @ concat (map (out_messages links q) (snd (on_storage_message p (entry_message e) (links q) ?s)))"
    using i pq by (simp_all add: act_def)
  have own: "nt_store ?n' q = fst (on_storage_message p (entry_message e) (links q) ?s)" by (simp only: st fun_upd_same)
  have looked: "lookup (nt_store ?n' q) = lookup (merge_entry e ?s)" unfolding own by (rule eff(2))
  have covers: "lww.covers (nt_store ?n' q) e"
    using merge_present_covers [OF inv fm(6) fm(4)] covers_cong [OF looked] ee by simp
  show ?thesis
    unfolding merging_def
  proof (intro conjI)
    show "\<forall>(a, b, m) \<in> set (nt_flight ?n'). (a, b, m) \<in> set (nt_flight n) \<or> a = q \<and> b \<in> set (links q) \<and> m = entry_message e"
      using rest(1) unfolding fl eff(3) by (auto split: if_splits)
    show "\<forall>(a, b, m) \<in> set (nt_flight n). (a, b, m) \<in> set (nt_flight ?n') \<or> b = q \<and> m = entry_message e"
      using rest(2) unfolding fl by auto
    show "lookup (nt_store ?n' q) (se_key e) = Some e \<longrightarrow> lookup ?s (se_key e) \<noteq> Some e \<longrightarrow>
      (\<forall>r \<in> set (links q). (q, r, entry_message e) \<in> set (nt_flight ?n') \<or> lww.covers (nt_store n r) e)"
    proof (intro impI ballI)
      fix r assume new: "lookup (nt_store ?n' q) (se_key e) = Some e" "lookup ?s (se_key e) \<noteq> Some e" "r \<in> set (links q)"
      then have "apply_remote_entry e ?s \<noteq> None" using looked merge_none by metis
      with new(3) fm(3) ee show "(q, r, entry_message e) \<in> set (nt_flight ?n') \<or> lww.covers (nt_store n r) e"
        unfolding fl eff(3) by auto
    qed
    show "\<forall>x \<in> present ps n. se_key x = se_key e \<longrightarrow> stamp_eq x e \<longrightarrow> x = e"
      using ok(2) fm(4) ee unfolding stamps_ok_def by blast
    show "\<forall>r \<in> set ps. se_origin e = to_hex r \<longrightarrow> lww.covers (nt_store ?n' r) e"
    proof (intro ballI impI)
      fix r assume r: "r \<in> set ps" "se_origin e = to_hex r"
      then have "lww.covers (nt_store n r) e" using ok(2) fm(4) ee unfolding stamps_ok_def by blast
      with covers show "lww.covers (nt_store ?n' r) e" by (cases "r = q") (simp_all only: st fun_upd_same fun_upd_other not_False_eq_True)
    qed
    show "member_ok q (nt_store ?n' q)" unfolding own by (rule eff(1))
    show "\<forall>r. r \<noteq> q \<longrightarrow> nt_store ?n' r = nt_store n r" unfolding st by simp
  qed (rule fm(6) e covers looked)+
qed

text \<open>A refused operation changes nothing; an accepted one writes one entry and broadcasts it.\<close>

lemma act_none: "act links p (nt_store n p, []) n = n"
  by (simp add: act_def)

lemma broadcast_out:
  "sm_self s \<noteq> None \<Longrightarrow> sm_self (fst (broadcast_entry e s)) = sm_self s \<and>
     concat (map (out_messages links p) (snd (broadcast_entry e s) @ [Out_Change ev])) = map (\<lambda>q. (p, q, entry_message e)) (links p)"
  by (auto simp: broadcast_entry_def)

lemma put_effect:
  assumes "member_ok p s" "length k + length d + 2 * length p + 26 < 2 ^ 32"
  shows "snd (put_internal clock k t d 0 [] True s) = (s, []) \<or>
    (\<exists>s' out e. snd (put_internal clock k t d 0 [] True s) = (s', out) \<and> entry_ok e \<and> se_origin e = to_hex p \<and>
       (\<forall>c. lookup s (se_key e) = Some c \<longrightarrow> wins_over e c) \<and> member_ok p s' \<and>
       lookup s' = (lookup s)(se_key e \<mapsto> e) \<and>
       concat (map (out_messages links p) out) = map (\<lambda>q. (p, q, entry_message e)) (links p))"
proof (cases "fst (put_internal clock k t d 0 [] True s)")
  case False
  then show ?thesis by (auto simp: put_internal_def Let_def case_prod_unfold split: if_splits)
next
  case True
  define e where "e = new_storage_entry k t d clock (to_hex p)"
  have self: "sm_self s = Some p" "sc_enable_sync (sm_config s)" "get_our_peer_id s = to_hex p"
    using assms(1) by (simp_all add: member_ok_def get_our_peer_id_def)
  have ok: "entry_ok e" unfolding e_def by (rule new_entry_ok) (use assms(2) in simp)
  have key: "se_key e = k" "se_origin e = to_hex p" by (simp_all add: e_def)
  let ?s1 = "mark_dirty (set_entry e s)"
  from True self obtain ev where put: "snd (put_internal clock k t d 0 [] True s) =
      (fst (broadcast_entry e ?s1), snd (broadcast_entry e ?s1) @ [Out_Change ev])"
    by (auto simp: put_internal_def Let_def case_prod_unfold e_def split: if_splits)
  have "wins_over e c" if "lookup s k = Some c" for c
    using True that self by (auto simp: put_internal_def Let_def e_def lookup_def split: if_splits)
  moreover have s1: "sm_self ?s1 = Some p" "sm_config ?s1 = sm_config s"
    using self by (simp_all add: mark_dirty_def set_entry_def)
  moreover have "member_ok p (fst (broadcast_entry e ?s1))"
    using assms(1) s1 set_entry_wf [OF _ ok, of s] by (simp add: member_ok_def storage_wf_def mark_dirty_def)
  moreover have "lookup (fst (broadcast_entry e ?s1)) = (lookup s)(se_key e \<mapsto> e)"
    by (rule ext) (simp add: lookup_def mark_dirty_def set_entry_def update_conv')
  ultimately show ?thesis
    using put ok key broadcast_out [where s = ?s1 and links = links and p = p and e = e and ev = ev] by (intro disjI2 exI [of _ "fst (broadcast_entry e ?s1)"]
      exI [of _ "snd (broadcast_entry e ?s1) @ [Out_Change ev]"] exI [of _ e]) simp
qed

lemma tombstone_fields [simp]:
  "se_key (tombstone c p e) = se_key e" "se_origin (tombstone c p e) = p" "se_timestamp (tombstone c p e) = c"
  "se_data (tombstone c p e) = []" "se_deleted (tombstone c p e)" "verify_checksum (tombstone c p e)"
  by (simp_all add: tombstone_def) (simp_all add: calculate_checksum_def)

lemma remove_effect:
  assumes "member_ok p s" "length k + 2 * length p + 26 < 2 ^ 32"
    and later: "case lookup s k of None \<Rightarrow> True | Some e \<Rightarrow> se_timestamp e < clock"
  shows "snd (sm_remove clock k s) = (s, []) \<or>
    (\<exists>s' out e. snd (sm_remove clock k s) = (s', out) \<and> entry_ok e \<and> se_origin e = to_hex p \<and>
       (\<forall>c. lookup s (se_key e) = Some c \<longrightarrow> wins_over e c) \<and> member_ok p s' \<and>
       lookup s' = (lookup s)(se_key e \<mapsto> e) \<and>
       concat (map (out_messages links p) out) = map (\<lambda>q. (p, q, entry_message e)) (links p))"
proof (cases "fst (sm_remove clock k s)")
  case False
  then show ?thesis by (auto simp: sm_remove_def Let_def case_prod_unfold split: option.splits if_splits)
next
  case True
  then obtain c where c: "lookup s k = Some c" "\<not> se_deleted c"
    by (auto simp: sm_remove_def lookup_def split: option.splits if_splits)
  define e where "e = tombstone clock (to_hex p) c"
  have self: "sm_self s = Some p" "sc_enable_sync (sm_config s)" "get_our_peer_id s = to_hex p" "storage_wf s"
    using assms(1) by (simp_all add: member_ok_def get_our_peer_id_def)
  have key: "se_key e = k" "se_origin e = to_hex p" using storage_wf_lookup [OF self(4) c(1)] by (simp_all add: e_def)
  have ok: "entry_ok e" using assms(2) key by (simp add: entry_ok_def entry_fits_def) (simp add: e_def)
  have wins: "wins_over e c" using later c(1) by (auto simp: e_def wins_over_def)
  let ?s1 = "mark_dirty (set_entry e s)"
  from c self obtain ev where rem: "snd (sm_remove clock k s) =
      (fst (broadcast_entry e ?s1), snd (broadcast_entry e ?s1) @ [Out_Change ev])"
    by (auto simp: sm_remove_def Let_def case_prod_unfold e_def [symmetric] lookup_def set_entry_def key split: if_splits)
  have s1: "sm_self ?s1 = Some p" "sm_config ?s1 = sm_config s" using self by (simp_all add: mark_dirty_def set_entry_def)
  have "member_ok p (fst (broadcast_entry e ?s1))"
    using assms(1) s1 set_entry_wf [OF _ ok, of s] by (simp add: member_ok_def storage_wf_def mark_dirty_def)
  moreover have "lookup (fst (broadcast_entry e ?s1)) = (lookup s)(se_key e \<mapsto> e)"
    by (rule ext) (simp add: lookup_def mark_dirty_def set_entry_def update_conv')
  ultimately show ?thesis
    using rem ok key c(1) wins s1 broadcast_out [where s = ?s1 and links = links and p = p and e = e and ev = ev]
    by (intro disjI2 exI [of _ "fst (broadcast_entry e ?s1)"] exI [of _ "snd (broadcast_entry e ?s1) @ [Out_Change ev]"]
      exI [of _ e]) simp
qed

lemma write_effect_inv:
  assumes "net_inv links ps n" "p \<in> set ps"
    and "r = (nt_store n p, []) \<or>
    (\<exists>s' out e. r = (s', out) \<and> entry_ok e \<and> se_origin e = to_hex p \<and>
       (\<forall>c. lookup (nt_store n p) (se_key e) = Some c \<longrightarrow> wins_over e c) \<and> member_ok p s' \<and>
       lookup s' = (lookup (nt_store n p))(se_key e \<mapsto> e) \<and>
       concat (map (out_messages links p) out) = map (\<lambda>q. (p, q, entry_message e)) (links p))"
  shows "net_inv links ps (act links p r n)"
  using assms(3)
proof (elim disjE exE conjE)
  fix s' out e
  assume r: "r = (s', out)" and e: "entry_ok e" "se_origin e = to_hex p"
    "\<forall>c. lookup (nt_store n p) (se_key e) = Some c \<longrightarrow> wins_over e c"
    and s': "member_ok p s'" "lookup s' = (lookup (nt_store n p))(se_key e \<mapsto> e)"
    and out: "concat (map (out_messages links p) out) = map (\<lambda>q. (p, q, entry_message e)) (links p)"
  have "merging links ps n p e (act links p r n)"
    unfolding act_def r fst_conv snd_conv out
    by (rule write_merging [OF assms(1,2) e(1,2) _ s']) (use e(3) in blast)
  then show ?thesis by (rule merging_inv [OF _ assms(1)])
qed (use assms(1) in \<open>simp add: act_none\<close>)

lemma net_step_inv:
  assumes inv: "net_inv links ps n" and top: "topology links ps" and ok: "event_ok ps n ev"
  shows "net_inv links ps (net_step links n ev)"
proof -
  have member: "member_ok p (nt_store n p)" "length p = 32" if "p \<in> set ps" for p
    using inv top that unfolding net_inv_def topology_def list_all_iff pid_size_def by blast+
  show ?thesis
  proof (cases ev)
    case (Net_Put p clock k t d)
    with ok have p: "p \<in> set ps" "length k + length d + 90 < 2 ^ 32" by simp_all
    show ?thesis unfolding Net_Put net_step.simps
      by (rule write_effect_inv [OF inv p(1) put_effect [OF member(1) [OF p(1)]]]) (use p member(2) in simp)
  next
    case (Net_Remove p clock k)
    with ok have p: "p \<in> set ps" "length k + 90 < 2 ^ 32"
      "case lookup (nt_store n p) k of None \<Rightarrow> True | Some e \<Rightarrow> se_timestamp e < clock" by simp_all
    show ?thesis unfolding Net_Remove net_step.simps
      by (rule write_effect_inv [OF inv p(1) remove_effect [OF member(1) [OF p(1)] _ p(3)]]) (use p member(2) in simp)
  next
    case (Net_Deliver i)
    show ?thesis
    proof (cases "i < length (nt_flight n)")
      case True
      obtain p q m where pq: "nt_flight n ! i = (p, q, m)" by (cases "nt_flight n ! i")
      with nth_mem [OF True] have "(p, q, m) \<in> set (nt_flight n)" by simp
      then obtain e where e: "m = entry_message e" "entry_ok e" by (rule flight_message [OF inv top])
      from merging_inv [OF deliver_merging [OF inv top True pq [unfolded e(1)] e(2)] inv]
      show ?thesis by (simp only: Net_Deliver)
    qed (use inv Net_Deliver in simp)
  qed
qed

lemma net_run_inv:
  "net_inv links ps n \<Longrightarrow> topology links ps \<Longrightarrow> run_ok links ps n evs \<Longrightarrow> net_inv links ps (net_run links n evs)"
  unfolding net_run_def by (induction evs arbitrary: n) (simp_all add: net_step_inv)

lemma net_start_inv:
  assumes "sc_enable_sync cfg" shows "net_inv links ps (net_start cfg)"
proof -
  have empty: "lookup (nt_store (net_start cfg) p) k = None" for p k
    by (simp add: net_start_def lookup_def sm_attach_def new_storage_def)
  have none: "present ps (net_start cfg) = {}"
    by (auto simp: present_def carried_def empty) (simp add: net_start_def)
  have "member_ok p (nt_store (net_start cfg) p)" for p
    using assms by (simp add: net_start_def member_ok_def sm_attach_def new_storage_def storage_wf_def)
  then show ?thesis
    by (simp add: net_inv_def flight_ok_def stamps_ok_def owed_def none empty) (simp add: net_start_def)
qed

lemma net_run_append: "net_run links n (evs @ fs) = net_run links (net_run links n evs) fs"
  by (simp add: net_run_def)

subsection \<open>Agreement once nothing is under way\<close>

lemma topologyD:
  assumes "topology links ps" "p \<in> set ps" "q \<in> set (links p)"
  shows "q \<in> set ps" "p \<in> set (links q)"
  using assms unfolding topology_def list_all_iff by blast+

lemma quiet_neighbours_agree:
  assumes inv: "net_inv links ps n" and top: "topology links ps" and quiet: "nt_flight n = []"
    and pq: "p \<in> set ps" "q \<in> set (links p)"
  shows "lookup (nt_store n p) = lookup (nt_store n q)"
proof -
  have half: "se_key x = k \<and> lww.covers (nt_store n b) x"
    if "a \<in> set ps" "b \<in> set (links a)" "lookup (nt_store n a) k = Some x" for a b k x
  proof
    have "storage_wf (nt_store n a)" using inv that(1) by (auto simp: net_inv_def member_ok_def)
    with that(3) storage_wf_lookup show "se_key x = k" by blast
    show "lww.covers (nt_store n b) x" using inv quiet that unfolding net_inv_def owed_def by fastforce
  qed
  show ?thesis
    by (rule lww.mutual_cover_agree) (use half pq topologyD [OF top pq] in blast)+
qed

lemma quiet_connected_agree:
  assumes "net_inv links ps n" "topology links ps" "nt_flight n = []" "p \<in> set ps"
    and "(p, q) \<in> {(a, b). b \<in> set (links a)}\<^sup>*"
  shows "lookup (nt_store n p) = lookup (nt_store n q) \<and> q \<in> set ps"
  using assms(5)
proof (induction rule: rtrancl_induct)
  case (step b c)
  then have c: "c \<in> set (links b)" "b \<in> set ps" by auto
  with quiet_neighbours_agree [OF assms(1-3) c(2,1)] topologyD(1) [OF assms(2) c(2,1)] step.IH show ?case by simp
qed (use assms(4) in simp)

subsection \<open>Flooding stops\<close>

fun delivers :: "(peer_id \<Rightarrow> peer_id list) \<Rightarrow> storage_net \<Rightarrow> nat list \<Rightarrow> bool" where
  "delivers links n [] \<longleftrightarrow> True"
| "delivers links n (i # is) \<longleftrightarrow> i < length (nt_flight n) \<and> delivers links (net_step links n (Net_Deliver i)) is"

definition degree :: "(peer_id \<Rightarrow> peer_id list) \<Rightarrow> peer_id list \<Rightarrow> nat" where
  "degree links ps = foldr max (map (\<lambda>p. length (links p)) ps) 0"

definition to_apply :: "storage_entry set \<Rightarrow> peer_id list \<Rightarrow> storage_net \<Rightarrow> nat" where
  "to_apply E ps n = (\<Sum>p \<in> set ps. card {e \<in> E. \<not> lww.covers (nt_store n p) e})"

lemma degree_bound: "p \<in> set ps \<Longrightarrow> length (links p) \<le> degree links ps"
  unfolding degree_def by (induction ps) auto

lemma apply_uncovered: "apply_remote_entry e s \<noteq> None \<Longrightarrow> \<not> lww.covers s e"
  by (auto simp: apply_remote_entry_def lww.covers_def Let_def lookup_def split: option.splits if_splits dest: wins_trans)

lemma deliver_decreases:
  assumes inv: "net_inv links ps n" and top: "topology links ps" and E: "finite E" "carried n \<subseteq> E"
    and i: "i < length (nt_flight n)"
  defines "n' \<equiv> net_step links n (Net_Deliver i)"
  shows "carried n' \<subseteq> E"
    and "length (nt_flight n') + degree links ps * to_apply E ps n' < length (nt_flight n) + degree links ps * to_apply E ps n"
proof -
  obtain p q m where pq: "nt_flight n ! i = (p, q, m)" by (cases "nt_flight n ! i")
  with nth_mem [OF i] have mem: "(p, q, m) \<in> set (nt_flight n)" by simp
  then obtain e where e: "m = entry_message e" "entry_ok e" "q \<in> set ps" by (rule flight_message [OF inv top])
  have eE: "e \<in> E" using E(2) mem e(1,2) by (auto simp: carried_def)
  note m = deliver_merging [OF inv top i pq [unfolded e(1)] e(2), folded n'_def]
  have mq: "member_ok q (nt_store n q)" using inv e(3) by (simp add: net_inv_def)
  note eff = handler_effect [OF e(2) mq, of p "links q" links]
  have fl: "nt_flight n' = take i (nt_flight n) @ drop (Suc i) (nt_flight n) @
      (if apply_remote_entry e (nt_store n q) = None then [] else map (\<lambda>r. (q, r, entry_message e)) (filter (\<lambda>r. r \<noteq> p) (links q)))"
    using i pq e(1) eff by (simp add: n'_def act_def)
  show "carried n' \<subseteq> E"
  proof
    fix x assume "x \<in> carried n'"
    then obtain a b where x: "(a, b, entry_message x) \<in> set (nt_flight n')" "entry_ok x" by (auto simp: carried_def)
    with m have "(a, b, entry_message x) \<in> set (nt_flight n) \<or> entry_message x = entry_message e"
      unfolding merging_def by blast
    with x(2) E(2) eE entry_message_inj [OF _ x(2) e(2)] show "x \<in> E" by (auto simp: carried_def)
  qed
  have mono: "card {x \<in> E. \<not> lww.covers (nt_store n' r) x} \<le> card {x \<in> E. \<not> lww.covers (nt_store n r) x}" for r
    by (rule card_mono) (use E(1) merging_grow [OF m] in auto)
  have L: "length (take i (nt_flight n)) + length (drop (Suc i) (nt_flight n)) = length (nt_flight n) - 1" using i by simp
  show "length (nt_flight n') + degree links ps * to_apply E ps n' < length (nt_flight n) + degree links ps * to_apply E ps n"
  proof (cases "apply_remote_entry e (nt_store n q) = None")
    case True
    have "to_apply E ps n' \<le> to_apply E ps n" unfolding to_apply_def by (rule sum_mono) (rule mono)
    then have "degree links ps * to_apply E ps n' \<le> degree links ps * to_apply E ps n" by (rule mult_le_mono2)
    moreover have "length (nt_flight n') < length (nt_flight n)" using True fl L i by simp
    ultimately show ?thesis by linarith
  next
    case False
    have "lww.covers (nt_store n' q) e" using m unfolding merging_def by blast
    then have "{x \<in> E. \<not> lww.covers (nt_store n' q) x} \<subset> {x \<in> E. \<not> lww.covers (nt_store n q) x}"
      using apply_uncovered [OF False] eE merging_grow [OF m] by blast
    then have "card {x \<in> E. \<not> lww.covers (nt_store n' q) x} < card {x \<in> E. \<not> lww.covers (nt_store n q) x}"
      by (rule psubset_card_mono [rotated]) (use E(1) in simp)
    then have "to_apply E ps n' < to_apply E ps n"
      unfolding to_apply_def using e(3) mono by (intro sum_strict_mono_ex1) auto
    then have "degree links ps * to_apply E ps n' + degree links ps \<le> degree links ps * to_apply E ps n"
      by (metis Suc_leI add.commute mult_Suc_right mult_le_mono2)
    moreover have "length (filter (\<lambda>r. r \<noteq> p) (links q)) \<le> degree links ps"
      by (rule order_trans [OF length_filter_le degree_bound [OF e(3)]])
    then have "length (nt_flight n') \<le> length (nt_flight n) - 1 + degree links ps"
      unfolding fl using False L by simp
    ultimately show ?thesis using i by linarith
  qed
qed

definition flood_bound :: "(peer_id \<Rightarrow> peer_id list) \<Rightarrow> peer_id list \<Rightarrow> storage_net \<Rightarrow> nat" where
  "flood_bound links ps n = length (nt_flight n) * (1 + degree links ps * length ps)"

lemma deliveries_measure:
  assumes "net_inv links ps n" "topology links ps" "finite E" "carried n \<subseteq> E" "delivers links n is"
  shows "length is \<le> length (nt_flight n) + degree links ps * to_apply E ps n"
  using assms
proof (induction "is" arbitrary: n)
  case (Cons i "is")
  from Cons.prems(5) have i: "i < length (nt_flight n)" "delivers links (net_step links n (Net_Deliver i)) is"
    by (simp_all del: net_step.simps)
  note dec = deliver_decreases [OF Cons.prems(1-4) i(1)]
  have "net_inv links ps (net_step links n (Net_Deliver i))"
    by (rule net_step_inv [OF Cons.prems(1,2)]) simp
  from Cons.IH [OF this Cons.prems(2,3) dec(1) i(2)] dec(2) show ?case by simp
qed simp

lemma carried_size:
  "finite (carried n)" "card (carried n) \<le> length (nt_flight n)"
proof -
  let ?f = "\<lambda>e. entry_message e"
  have sub: "?f ` carried n \<subseteq> set (map (snd \<circ> snd) (nt_flight n))" by (force simp: carried_def)
  have inj: "inj_on ?f (carried n)" by (rule inj_onI) (auto simp: carried_def dest: entry_message_inj)
  show fin: "finite (carried n)" by (rule finite_imageD [OF finite_subset [OF sub] inj]) simp
  have "card (carried n) = card (?f ` carried n)" by (simp add: card_image [OF inj])
  also have "\<dots> \<le> card (set (map (snd \<circ> snd) (nt_flight n)))" by (rule card_mono [OF _ sub]) simp
  also have "\<dots> \<le> length (nt_flight n)" using card_length [of "map (snd \<circ> snd) (nt_flight n)"] by simp
  finally show "card (carried n) \<le> length (nt_flight n)" .
qed

lemma deliveries_bounded:
  assumes "net_inv links ps n" "topology links ps" "delivers links n is"
  shows "length is \<le> flood_bound links ps n"
proof -
  have "card {e \<in> carried n. \<not> lww.covers (nt_store n p) e} \<le> length (nt_flight n)" for p
    by (rule order_trans [OF card_mono carried_size(2)]) (auto simp: carried_size(1))
  then have "to_apply (carried n) ps n \<le> (\<Sum>p \<in> set ps. length (nt_flight n))"
    unfolding to_apply_def by (intro sum_mono)
  also have "\<dots> \<le> length ps * length (nt_flight n)" by (simp add: card_length)
  finally have "degree links ps * to_apply (carried n) ps n \<le> degree links ps * (length ps * length (nt_flight n))"
    by (rule mult_le_mono2)
  moreover have "flood_bound links ps n = length (nt_flight n) + degree links ps * (length ps * length (nt_flight n))"
    by (simp add: flood_bound_def algebra_simps)
  ultimately show ?thesis
    using deliveries_measure [OF assms(1,2) carried_size(1) order_refl assms(3)] by linarith
qed

lemma reaches_quiet:
  assumes "net_inv links ps n" "topology links ps"
  shows "\<exists>is. delivers links n is \<and> nt_flight (net_run links n (map Net_Deliver is)) = []"
proof -
  have "\<exists>is. delivers links n is \<and> nt_flight (net_run links n (map Net_Deliver is)) = []"
    if "finite E" "carried n \<subseteq> E" "net_inv links ps n" for E n
    using that
  proof (induction "length (nt_flight n) + degree links ps * to_apply E ps n" arbitrary: n rule: less_induct)
    case less
    show ?case
    proof (cases "nt_flight n")
      case Nil
      then show ?thesis by (intro exI [of _ "[]"]) (simp add: net_run_def)
    next
      case (Cons x xs)
      then have 0: "0 < length (nt_flight n)" by simp
      let ?n' = "net_step links n (Net_Deliver 0)"
      note dec = deliver_decreases [OF less.prems(3) assms(2) less.prems(1,2) 0]
      have "net_inv links ps ?n'" by (rule net_step_inv [OF less.prems(3) assms(2)]) simp
      from less.hyps [OF dec(2) less.prems(1) dec(1) this] obtain "is" where
        "delivers links ?n' is" "nt_flight (net_run links ?n' (map Net_Deliver is)) = []" by blast
      with 0 show ?thesis by (intro exI [of _ "0 # is"]) (simp add: net_run_def del: net_step.simps)
    qed
  qed
  from this [OF carried_size(1) order_refl assms(1)] show ?thesis .
qed

subsection \<open>Properties\<close>


text \<open>
  C25: flooding terminates. From any state such a network can reach, every sequence of
  deliveries ends within a bound linear in the messages under way, the members and their links:
  forwarding only what won cannot echo for ever. And some sequence of deliveries does empty the
  network.
\<close>

theorem flood_terminates:
  assumes "sc_enable_sync cfg" "topology links ps" "run_ok links ps (net_start cfg) evs"
    and "delivers links (net_run links (net_start cfg) evs) is"
  shows "length is \<le> flood_bound links ps (net_run links (net_start cfg) evs) \<and>
    (\<exists>js. delivers links (net_run links (net_start cfg) evs) js \<and>
       nt_flight (net_run links (net_start cfg) (evs @ map Net_Deliver js)) = [])"
proof -
  have inv: "net_inv links ps (net_run links (net_start cfg) evs)"
    by (rule net_run_inv [OF net_start_inv [OF assms(1)] assms(2,3)])
  show ?thesis
    using deliveries_bounded [OF inv assms(2,4)] reaches_quiet [OF inv assms(2)] by (simp add: net_run_append)
qed

text \<open>Two linked replicas; the first writes a key and the write reaches the second.\<close>

definition peer_a :: peer_id where "peer_a = replicate 32 1"
definition peer_b :: peer_id where "peer_b = replicate 32 2"

definition pair_links :: "peer_id \<Rightarrow> peer_id list" where
  "pair_links p = (if p = peer_a then [peer_b] else if p = peer_b then [peer_a] else [])"

definition first_write :: storage_entry where
  "first_write = new_storage_entry [107] TYPE_STRING [10] 5 (to_hex peer_a)"

definition pair_run :: "net_event list" where
  "pair_run = [Net_Put peer_a 5 [107] TYPE_STRING [10], Net_Deliver 0]"

lemma pair_distinct [simp]: "peer_a \<noteq> peer_b" "peer_b \<noteq> peer_a"
  by (simp_all add: peer_a_def peer_b_def)

lemma pair_topology: "topology pair_links [peer_a, peer_b]"
  by (simp add: topology_def pair_links_def) (simp add: peer_a_def peer_b_def pid_size_def)

lemma first_write_ok: "entry_ok first_write"
  unfolding first_write_def by (rule new_entry_ok) (simp add: peer_a_def)

lemma pair_put:
  "net_step pair_links (net_start sample_config) (Net_Put peer_a 5 [107] TYPE_STRING [10]) =
     \<lparr>nt_store = (nt_store (net_start sample_config))(peer_a := (sm_attach peer_a (new_storage sample_config))
        \<lparr>sm_entries := [([107], first_write)], sm_dirty := True, sm_sent := 1\<rparr>),
      nt_flight = [(peer_a, peer_b, entry_message first_write)]\<rparr>"
  by (simp add: net_start_def act_def put_internal_def Let_def get_our_peer_id_def sm_attach_def new_storage_def
      sample_config_def set_entry_def mark_dirty_def broadcast_entry_def first_write_def pair_links_def)

definition pair_after :: storage_net where
  "pair_after =
     \<lparr>nt_store = (nt_store (net_start sample_config))
        (peer_a := (sm_attach peer_a (new_storage sample_config))
           \<lparr>sm_entries := [([107], first_write)], sm_dirty := True, sm_sent := 1\<rparr>,
         peer_b := (sm_attach peer_b (new_storage sample_config))
           \<lparr>sm_entries := [([107], first_write)], sm_dirty := True, sm_synced := 1\<rparr>),
      nt_flight = []\<rparr>"

lemma pair_run_result: "net_run pair_links (net_start sample_config) pair_run = pair_after"
proof -
  have "se_key first_write = [107]" by (simp add: first_write_def)
  then show ?thesis
    unfolding net_run_def pair_run_def foldl.simps pair_put
    by (simp add: message_handler [OF first_write_ok] act_def net_start_def sm_attach_def new_storage_def
        apply_remote_entry_def Let_def set_entry_def mark_dirty_def forward_entry_def pair_links_def pair_after_def)
qed

lemma pair_run_ok: "run_ok pair_links [peer_a, peer_b] (net_start sample_config) pair_run"
  by (simp add: pair_run_def del: net_step.simps)

lemma sample_config_sync: "sc_enable_sync sample_config"
  by (simp add: sample_config_def)


theorem flood_terminates_witness:
  "delivers pair_links (net_run pair_links (net_start sample_config) [Net_Put peer_a 5 [107] TYPE_STRING [10]]) [0] \<and>
   length [0 :: nat] \<le> flood_bound pair_links [peer_a, peer_b]
     (net_run pair_links (net_start sample_config) [Net_Put peer_a 5 [107] TYPE_STRING [10]])"
proof -
  let ?put = "[Net_Put peer_a 5 [107] TYPE_STRING [10]]"
  have ok: "run_ok pair_links [peer_a, peer_b] (net_start sample_config) ?put" by (simp del: net_step.simps)
  have d: "delivers pair_links (net_run pair_links (net_start sample_config) ?put) [0]"
    unfolding net_run_def foldl.simps pair_put by (simp del: net_step.simps)
  with flood_terminates [OF sample_config_sync pair_topology ok d] show ?thesis by blast
qed


end
