(* ===== verification/Bencode.thy ===== *)
theory Bencode
  imports Sorting
begin

text \<open>
  Bencode values, their encoder and the hardened recursive-descent decoder of
  \<open>src/librats/bittorrent/bencode.h\<close> and \<open>.cpp\<close>. A cursor is the rest of the buffer. An integer
  is the bit pattern of an \<open>int64_t\<close>; the magnitude is accumulated in 64 bits as in the code, and
  the length of a string in natural numbers, which agrees with 64 bits for every buffer shorter
  than 2^60 bytes. The loops over list items and dictionary entries carry a fuel of one more
  than the bytes left; running out of it is the outcome \<open>Stuck\<close>, shown never to happen.
\<close>

subsection \<open>Values\<close>

datatype bvalue =
    BInt u64
  | BStr bytes
  | BList "bvalue list"
  | BDict "(bytes \<times> bvalue) list"

definition as_integer :: "bvalue \<Rightarrow> u64 option" where
  "as_integer v = (case v of BInt i \<Rightarrow> Some i | _ \<Rightarrow> None)"

definition as_string :: "bvalue \<Rightarrow> bytes option" where
  "as_string v = (case v of BStr s \<Rightarrow> Some s | _ \<Rightarrow> None)"

definition as_list :: "bvalue \<Rightarrow> bvalue list option" where
  "as_list v = (case v of BList l \<Rightarrow> Some l | _ \<Rightarrow> None)"

definition as_dict :: "bvalue \<Rightarrow> (bytes \<times> bvalue) list option" where
  "as_dict v = (case v of BDict d \<Rightarrow> Some d | _ \<Rightarrow> None)"

text \<open>\<open>std::lower_bound\<close> by key: the first position whose key is not less.\<close>

definition lower_bound :: "(bytes \<times> bvalue) list \<Rightarrow> bytes \<Rightarrow> nat" where
  "lower_bound d key = length (takeWhile (\<lambda>e. bytes_less (fst e) key) d)"

definition bv_find :: "bytes \<Rightarrow> bvalue \<Rightarrow> bvalue option" where
  "bv_find key v =
     (case v of
        BDict d \<Rightarrow>
          (let i = lower_bound d key in
           if i < length d \<and> fst (d ! i) = key then Some (snd (d ! i)) else None)
      | _ \<Rightarrow> None)"

text \<open>
  The mutable subscript followed by an assignment through the reference it returns: an absent
  key is inserted where the binary search stopped. None is the exception on a non-dictionary.
\<close>

definition bv_assign :: "bytes \<Rightarrow> bvalue \<Rightarrow> bvalue \<Rightarrow> bvalue option" where
  "bv_assign key x v =
     (case v of
        BDict d \<Rightarrow>
          (let i = lower_bound d key in
           if i < length d \<and> fst (d ! i) = key then Some (BDict (d[i := (key, x)]))
           else Some (BDict (take i d @ (key, x) # drop i d)))
      | _ \<Rightarrow> None)"

definition bv_nth :: "nat \<Rightarrow> bvalue \<Rightarrow> bvalue option" where
  "bv_nth i v = (case v of BList l \<Rightarrow> if i \<ge> length l then None else Some (l ! i) | _ \<Rightarrow> None)"

definition bv_push_back :: "bvalue \<Rightarrow> bvalue \<Rightarrow> bvalue option" where
  "bv_push_back x v = (case v of BList l \<Rightarrow> Some (BList (l @ [x])) | _ \<Rightarrow> None)"

definition bv_size :: "bvalue \<Rightarrow> nat option" where
  "bv_size v = (case v of BInt _ \<Rightarrow> None | BStr s \<Rightarrow> Some (length s) | BList l \<Rightarrow> Some (length l) | BDict d \<Rightarrow> Some (length d))"

subsection \<open>Encoding\<close>

definition int64_text :: "u64 \<Rightarrow> bytes" where
  "int64_text w = (if sint w < 0 then 45 # decimal (nat (- sint w)) else decimal (nat (sint w)))"

definition str_text :: "bytes \<Rightarrow> bytes" where
  "str_text s = decimal (length s) @ [58] @ s"

fun bc_encode :: "bvalue \<Rightarrow> bytes" where
  "bc_encode (BInt v) = [105] @ int64_text v @ [101]"
| "bc_encode (BStr s) = str_text s"
| "bc_encode (BList vs) = [108] @ concat (map bc_encode vs) @ [101]"
| "bc_encode (BDict es) = [100] @ concat (map (\<lambda>(k, v). str_text k @ bc_encode v) es) @ [101]"

subsection \<open>Decoding\<close>

datatype 'a parsed = Stuck | Bad | Got 'a bytes

definition kMaxDepth :: nat where "kMaxDepth = 100"

definition bc_digit :: "byte \<Rightarrow> bool" where
  "bc_digit c \<longleftrightarrow> c \<ge> 48 \<and> c \<le> 57"

definition kMaxMag :: u64 where "kMaxMag = 9223372036854775808"

fun mag_loop :: "u64 \<Rightarrow> bytes \<Rightarrow> (u64 \<times> bytes) option" where
  "mag_loop mag [] = Some (mag, [])"
| "mag_loop mag (c # cs) =
     (if bc_digit c then
        let d = ucast (c - 48) in
        if mag > (kMaxMag - d) div 10 then None else mag_loop (mag * 10 + d) cs
      else Some (mag, c # cs))"

definition parse_raw_int :: "byte \<Rightarrow> bytes \<Rightarrow> (u64 \<times> bytes) option" where
  "parse_raw_int trm p =
     (let negative = (p \<noteq> [] \<and> hd p = 45);
          p1 = (if negative then tl p else p)
      in if p1 = [] \<or> \<not> bc_digit (hd p1) then None
         else if hd p1 = 48 then
           (if negative then None
            else if tl p1 = [] \<or> hd (tl p1) \<noteq> trm then None
            else Some (0, tl (tl p1)))
         else case mag_loop 0 p1 of
           None \<Rightarrow> None
         | Some (mag, p2) \<Rightarrow>
             if p2 = [] \<or> hd p2 \<noteq> trm then None
             else if negative then
               (if mag = kMaxMag then Some (0x8000000000000000, tl p2) else Some (- mag, tl p2))
             else if mag \<ge> kMaxMag then None
             else Some (mag, tl p2))"

fun len_loop :: "nat \<Rightarrow> nat \<Rightarrow> bytes \<Rightarrow> (nat \<times> bytes) option" where
  "len_loop cap len [] = Some (len, [])"
| "len_loop cap len (c # cs) =
     (if bc_digit c then
        let len1 = len * 10 + unat (c - 48) in if len1 > cap then None else len_loop cap len1 cs
      else Some (len, c # cs))"

definition parse_raw_string :: "bytes \<Rightarrow> (bytes \<times> bytes) option" where
  "parse_raw_string p =
     (if p = [] \<or> \<not> bc_digit (hd p) then None
      else case len_loop (length p) 0 p of
        None \<Rightarrow> None
      | Some (len, p1) \<Rightarrow>
          if p1 = [] \<or> hd p1 \<noteq> 58 then None
          else if length (tl p1) < len then None
          else Some (take len (tl p1), drop len (tl p1)))"

fun list_loop :: "nat \<Rightarrow> (bytes \<Rightarrow> bvalue parsed) \<Rightarrow> bvalue list \<Rightarrow> bytes \<Rightarrow> bvalue list parsed" where
  "list_loop 0 parse items p = Stuck"
| "list_loop (Suc n) parse items p =
     (case p of
        [] \<Rightarrow> Bad
      | c # cs \<Rightarrow>
          if c = 101 then Got items cs
          else case parse p of
            Stuck \<Rightarrow> Stuck
          | Bad \<Rightarrow> Bad
          | Got v p1 \<Rightarrow> list_loop n parse (items @ [v]) p1)"

fun dict_loop ::
  "nat \<Rightarrow> (bytes \<Rightarrow> bvalue parsed) \<Rightarrow> (bytes \<times> bvalue) list \<Rightarrow> bytes \<Rightarrow> (bytes \<times> bvalue) list parsed" where
  "dict_loop 0 parse entries p = Stuck"
| "dict_loop (Suc n) parse entries p =
     (case p of
        [] \<Rightarrow> Bad
      | c # cs \<Rightarrow>
          if c = 101 then Got entries cs
          else case parse_raw_string p of
            None \<Rightarrow> Bad
          | Some (key, p1) \<Rightarrow>
              (case parse p1 of
                 Stuck \<Rightarrow> Stuck
               | Bad \<Rightarrow> Bad
               | Got v p2 \<Rightarrow> dict_loop n parse (entries @ [(key, v)]) p2))"

fun repeated_key :: "(bytes \<times> bvalue) list \<Rightarrow> bool" where
  "repeated_key (a # b # es) = (fst a = fst b \<or> repeated_key (b # es))"
| "repeated_key _ = False"

definition key_less :: "bytes \<times> bvalue \<Rightarrow> bytes \<times> bvalue \<Rightarrow> bool" where
  "key_less a b = bytes_less (fst a) (fst b)"

definition finish_dict :: "(bytes \<times> bvalue) list \<Rightarrow> bytes \<Rightarrow> bvalue parsed" where
  "finish_dict entries p =
     (let es = sort_by key_less entries in if repeated_key es then Bad else Got (BDict es) p)"

text \<open>The first argument counts the levels left, \<open>kMaxDepth + 1 - depth\<close>.\<close>

fun bc_parse :: "nat \<Rightarrow> bytes \<Rightarrow> bvalue parsed" where
  "bc_parse 0 p = Bad"
| "bc_parse (Suc d) p =
     (case p of
        [] \<Rightarrow> Bad
      | c # cs \<Rightarrow>
          if c = 105 then
            (case parse_raw_int 101 cs of None \<Rightarrow> Bad | Some (v, p1) \<Rightarrow> Got (BInt v) p1)
          else if c = 108 then
            (case list_loop (Suc (length cs)) (bc_parse d) [] cs of
               Stuck \<Rightarrow> Stuck | Bad \<Rightarrow> Bad | Got items p1 \<Rightarrow> Got (BList items) p1)
          else if c = 100 then
            (case dict_loop (Suc (length cs)) (bc_parse d) [] cs of
               Stuck \<Rightarrow> Stuck | Bad \<Rightarrow> Bad | Got entries p1 \<Rightarrow> finish_dict entries p1)
          else if bc_digit c then
            (case parse_raw_string p of None \<Rightarrow> Bad | Some (s, p1) \<Rightarrow> Got (BStr s) p1)
          else Bad)"

definition decode_full :: "bytes \<Rightarrow> bvalue parsed" where
  "decode_full data =
     (case bc_parse (kMaxDepth + 1) data of
        Stuck \<Rightarrow> Stuck | Bad \<Rightarrow> Bad | Got v p \<Rightarrow> if p \<noteq> [] then Bad else Got v [])"

subsection \<open>Numbers\<close>

lemma digit_codes:
  assumes "d < 10"
  shows "bc_digit (48 + of_nat d)" "unat (48 + of_nat d - 48 :: byte) = d"
    "ucast (48 + of_nat d - 48 :: byte) = (of_nat d :: u64)" "(48 + of_nat d = (48 :: byte)) \<longleftrightarrow> d = 0"
    "(48 + of_nat d :: byte) \<noteq> 45"
proof -
  have "d \<in> {0, 1, 2, 3, 4, 5, 6, 7, 8, 9}" using assms by auto
  then show "bc_digit (48 + of_nat d)" "unat (48 + of_nat d - 48 :: byte) = d"
    "ucast (48 + of_nat d - 48 :: byte) = (of_nat d :: u64)" "(48 + of_nat d = (48 :: byte)) \<longleftrightarrow> d = 0"
    "(48 + of_nat d :: byte) \<noteq> 45"
    by (auto simp: bc_digit_def)
qed

lemma decimal_head:
  "bc_digit (hd (decimal n))" "hd (decimal n) = 48 \<longleftrightarrow> n = 0" "hd (decimal n) \<noteq> 45"
proof -
  have "bc_digit (hd (decimal n)) \<and> (hd (decimal n) = 48 \<longleftrightarrow> n = 0) \<and> hd (decimal n) \<noteq> 45"
  proof (induction n rule: decimal.induct)
    case (1 n)
    show ?case
    proof (cases "n < 10")
      case True
      then show ?thesis using digit_codes [OF True] by (simp add: decimal.simps [of n])
    next
      case False
      then show ?thesis using 1 by (simp add: decimal.simps [of n] hd_append div_eq_0_iff)
    qed
  qed
  then show "bc_digit (hd (decimal n))" "hd (decimal n) = 48 \<longleftrightarrow> n = 0" "hd (decimal n) \<noteq> 45" by simp_all
qed

lemma decimal_0 [simp]: "decimal 0 = [48]"
  by (simp add: decimal.simps)

lemma len_loop_decimal: "n \<le> cap \<Longrightarrow> len_loop cap 0 (decimal n @ ys) = len_loop cap n ys"
proof (induction n arbitrary: ys rule: decimal.induct)
  case (1 n)
  show ?case
  proof (cases "n < 10")
    case True
    with 1 show ?thesis using digit_codes [OF True] by (simp add: decimal.simps [of n])
  next
    case False
    then show ?thesis
      using 1 digit_codes [of "n mod 10"] by (simp add: decimal.simps [of n])
  qed
qed

lemma mag_step:
  assumes "n \<le> 2 ^ 63"
  shows "\<not> (of_nat (n div 10) :: u64) > (kMaxMag - of_nat (n mod 10)) div 10"
    "of_nat (n div 10) * 10 + of_nat (n mod 10) = (of_nat n :: u64)"
proof -
  have u: "unat (of_nat k :: u64) = k" if "k \<le> 2 ^ 63" for k
    using that by (simp add: unat_of_nat take_bit_nat_eq_self)
  have d: "unat (of_nat (n mod 10) :: u64) = n mod 10" by (rule u) (use mod_less_divisor [of 10 n] in simp)
  have "unat ((kMaxMag - of_nat (n mod 10)) div 10) = (2 ^ 63 - n mod 10) div 10"
  proof -
    have "unat (kMaxMag - of_nat (n mod 10)) = 2 ^ 63 - n mod 10"
      by (subst unat_sub) (simp_all add: word_le_nat_alt d, simp_all add: kMaxMag_def)
    then show ?thesis by (simp add: unat_div)
  qed
  moreover have "unat (of_nat (n div 10) :: u64) = n div 10" by (rule u) (use assms in linarith)
  moreover have "n div 10 \<le> (2 ^ 63 - n mod 10) div 10"
  proof -
    have "10 * (n div 10) \<le> 2 ^ 63 - n mod 10" using assms by (simp add: le_diff_conv2 order_trans [OF mod_less_eq_dividend])
    then have "10 * (n div 10) div 10 \<le> (2 ^ 63 - n mod 10) div 10" by (rule div_le_mono)
    then show ?thesis by simp
  qed
  ultimately show "\<not> (of_nat (n div 10) :: u64) > (kMaxMag - of_nat (n mod 10)) div 10"
    by (simp add: word_less_nat_alt)
  have "of_nat (n div 10 * 10 + n mod 10) = (of_nat n :: u64)" by simp
  then show "of_nat (n div 10) * 10 + of_nat (n mod 10) = (of_nat n :: u64)"
    by (simp only: of_nat_add of_nat_mult of_nat_numeral)
qed

lemma mag_loop_decimal: "n \<le> 2 ^ 63 \<Longrightarrow> mag_loop 0 (decimal n @ ys) = mag_loop (of_nat n) ys"
proof (induction n arbitrary: ys rule: decimal.induct)
  case (1 n)
  show ?case
  proof (cases "n < 10")
    case True
    then show ?thesis using digit_codes [OF True] mag_step [of n] 1(2) by (simp add: decimal.simps [of n] Let_def)
  next
    case False
    then show ?thesis
      using 1 digit_codes [of "n mod 10"] mag_step [OF 1(2)] by (simp add: decimal.simps [of n] Let_def)
  qed
qed

lemma decimal_split:
  "decimal n @ ys \<noteq> []" "hd (decimal n @ ys) = hd (decimal n)" "tl (decimal n @ ys) = tl (decimal n) @ ys"
  by (simp_all add: hd_append)

lemma raw_int_text: "parse_raw_int 101 (int64_text w @ 101 # r) = Some (w, r)"
proof -
  have stop: "\<not> bc_digit 101" by (simp add: bc_digit_def)
  have range: "- (2 ^ 63) \<le> sint w" "sint w < 2 ^ 63" using sint_range_size [of w] by (simp_all add: word_size)
  have whole: "word_of_int (sint w) = w" by simp
  show ?thesis
  proof (cases "sint w < 0")
    case True
    define m where "m = nat (- sint w)"
    have m: "0 < m" "m \<le> 2 ^ 63" "of_nat m = - w"
    proof -
      show "0 < m" "m \<le> 2 ^ 63" using True range by (simp_all add: m_def nat_le_iff)
      have "(of_nat m :: u64) = word_of_int (- sint w)" using True by (simp add: m_def)
      then show "of_nat m = - w" using whole by (simp add: of_int_minus)
    qed
    have "mag_loop 0 (decimal m @ 101 # r) = Some (- w, 101 # r)"
      using mag_loop_decimal [OF m(2), of "101 # r"] m(3) stop by simp
    moreover have "w = 0x8000000000000000" if "- w = kMaxMag"
    proof -
      have "w = - kMaxMag" by (simp flip: that)
      then show ?thesis by (simp add: kMaxMag_def)
    qed
    ultimately show ?thesis
      using True m(1) decimal_head [of m]
      by (auto simp: parse_raw_int_def int64_text_def m_def [symmetric] decimal_split Let_def)
  next
    case False
    define n where "n = nat (sint w)"
    have n: "n < 2 ^ 63" "of_nat n = w"
    proof -
      show "n < 2 ^ 63" using False range by (simp add: n_def nat_less_iff)
      have "(of_nat n :: u64) = word_of_int (sint w)" using False by (simp add: n_def)
      then show "of_nat n = w" using whole by simp
    qed
    have "mag_loop 0 (decimal n @ 101 # r) = Some (w, 101 # r)"
      using mag_loop_decimal [of n "101 # r"] n stop by simp
    moreover have "w < kMaxMag"
      using n by (auto simp: word_less_nat_alt kMaxMag_def unat_of_nat take_bit_nat_eq_self)
    moreover have "n = 0 \<Longrightarrow> w = 0" using n(2) by simp
    ultimately show ?thesis
      using False decimal_head [of n]
      by (cases "n = 0") (auto simp: parse_raw_int_def int64_text_def n_def [symmetric] decimal_split Let_def)
  qed
qed

lemma raw_string_text: "parse_raw_string (str_text s @ r) = Some (s, r)"
proof -
  have "\<not> bc_digit 58" by (simp add: bc_digit_def)
  then have "len_loop (length (str_text s @ r)) 0 (str_text s @ r) = Some (length s, 58 # s @ r)"
    using len_loop_decimal [of "length s" "length (str_text s @ r)" "58 # s @ r"] by (simp add: str_text_def)
  moreover have "str_text s @ r \<noteq> []" "hd (str_text s @ r) = hd (decimal (length s))"
    by (simp_all add: str_text_def hd_append)
  ultimately show ?thesis using decimal_head(1) [of "length s"] by (simp add: parse_raw_string_def)
qed

subsection \<open>Well-formed values\<close>

fun bv_wf :: "bvalue \<Rightarrow> bool" where
  "bv_wf (BInt v) \<longleftrightarrow> True"
| "bv_wf (BStr s) \<longleftrightarrow> True"
| "bv_wf (BList vs) \<longleftrightarrow> (\<forall>v \<in> set vs. bv_wf v)"
| "bv_wf (BDict es) \<longleftrightarrow> sorted_wrt key_less es \<and> (\<forall>(k, v) \<in> set es. bv_wf v)"

fun bv_levels :: "bvalue \<Rightarrow> nat" where
  "bv_levels (BInt v) = 1"
| "bv_levels (BStr s) = 1"
| "bv_levels (BList vs) = Suc (foldr max (map bv_levels vs) 0)"
| "bv_levels (BDict es) = Suc (foldr max (map (\<lambda>(k, v). bv_levels v) es) 0)"

lemma foldr_max_le: "foldr max xs 0 \<le> (d :: nat) \<longleftrightarrow> (\<forall>x \<in> set xs. x \<le> d)"
  by (induction xs) auto

interpretation by_key: weak_order key_less
  by unfold_locales (auto simp: key_less_def dest: bytes_less_trans bytes_less_asym,
      metis bytes_less_total bytes_less_trans)

lemma encode_head: "bc_encode v \<noteq> [] \<and> hd (bc_encode v) \<noteq> 101"
proof (cases v)
  case (BStr s)
  have "\<not> bc_digit 101" by (simp add: bc_digit_def)
  with decimal_head(1) [of "length s"] have "hd (decimal (length s)) \<noteq> 101" by metis
  with BStr show ?thesis by (simp add: str_text_def hd_append)
qed simp_all

lemma list_loop_items:
  assumes "\<And>v r. v \<in> set vs \<Longrightarrow> parse (bc_encode v @ r) = Got v r" "length vs < n"
  shows "list_loop n parse items (concat (map bc_encode vs) @ 101 # r) = Got (items @ vs) r"
  using assms
proof (induction vs arbitrary: n items)
  case Nil
  then show ?case by (cases n) simp_all
next
  case (Cons v vs)
  then obtain m where n: "n = Suc m" by (cases n) auto
  obtain c cs where v: "bc_encode v = c # cs" "c \<noteq> 101" using encode_head [of v] by (cases "bc_encode v") auto
  have "parse (bc_encode v @ concat (map bc_encode vs) @ 101 # r) = Got v (concat (map bc_encode vs) @ 101 # r)"
    by (rule Cons.prems(1)) simp
  with Cons v n show ?case by simp
qed

lemma dict_loop_entries:
  assumes "\<And>k v r. (k, v) \<in> set es \<Longrightarrow> parse (bc_encode v @ r) = Got v r" "length es < n"
  shows "dict_loop n parse entries (concat (map (\<lambda>(k, v). str_text k @ bc_encode v) es) @ 101 # r) = Got (entries @ es) r"
  using assms
proof (induction es arbitrary: n entries)
  case Nil
  then show ?case by (cases n) simp_all
next
  case (Cons e es)
  then obtain m where n: "n = Suc m" by (cases n) auto
  obtain k v where e: "e = (k, v)" by (cases e)
  let ?rest = "concat (map (\<lambda>(k, v). str_text k @ bc_encode v) es) @ 101 # r"
  obtain c cs where k: "str_text k = c # cs" "c \<noteq> 101" using encode_head [of "BStr k"] by (cases "str_text k") auto
  have "parse_raw_string (str_text k @ bc_encode v @ ?rest) = Some (k, bc_encode v @ ?rest)" by (rule raw_string_text)
  moreover have "parse (bc_encode v @ ?rest) = Got v ?rest" by (rule Cons.prems(1) [of k]) (simp add: e)
  moreover have "dict_loop m parse (entries @ [(k, v)]) ?rest = Got ((entries @ [(k, v)]) @ es) r"
    by (rule Cons.IH) (use Cons.prems n in auto)
  ultimately show ?case using k n e by simp
qed

lemma length_concat_items: "(\<And>x. x \<in> set xs \<Longrightarrow> f x \<noteq> []) \<Longrightarrow> length xs \<le> length (concat (map f xs))"
proof (induction xs)
  case (Cons x xs)
  have "1 \<le> length (f x)" using Cons.prems [of x] by (cases "f x") auto
  with Cons show ?case by simp
qed simp

lemma sorted_no_repeat: "sorted_wrt key_less es \<Longrightarrow> \<not> repeated_key es"
  by (induction es rule: repeated_key.induct) (auto simp: key_less_def)

lemma sort_sorted: "sorted_wrt key_less es \<Longrightarrow> sort_by key_less es = es"
proof (induction es)
  case (Cons e es)
  then have "sort_by key_less (e # es) = insert_by key_less e es" by (simp add: sort_by_def)
  also have "\<dots> = e # es"
    using Cons.prems bytes_less_asym by (cases es) (auto simp: key_less_def)
  finally show ?case .
qed (simp add: sort_by_def)

lemma parse_encode: "bv_wf v \<Longrightarrow> bv_levels v \<le> d \<Longrightarrow> bc_parse d (bc_encode v @ r) = Got v r"
proof (induction v arbitrary: d r rule: bc_encode.induct)
  case (1 w)
  then show ?case by (cases d) (simp_all add: raw_int_text)
next
  case (2 s)
  then obtain m where d: "d = Suc m" by (cases d) simp_all
  obtain c cs where s: "str_text s = c # cs" by (cases "str_text s") (simp_all add: str_text_def)
  have "bc_digit c" using decimal_head(1) [of "length s"] s by (auto simp: str_text_def hd_append dest: arg_cong [of _ _ hd])
  moreover have "\<not> bc_digit 105" "\<not> bc_digit 108" "\<not> bc_digit 100" by (simp_all add: bc_digit_def)
  ultimately show ?case using raw_string_text [of s r] s by (auto simp: d)
next
  case (3 vs)
  then obtain m where d: "d = Suc m" by (cases d) simp_all
  have "list_loop (Suc (length (concat (map bc_encode vs) @ 101 # r))) (bc_parse m) [] (concat (map bc_encode vs) @ 101 # r) = Got ([] @ vs) r"
    by (rule list_loop_items)
      (use 3 d length_concat_items [of vs bc_encode] encode_head in \<open>auto simp: foldr_max_le\<close>)
  then show ?case by (simp add: d del: list_loop.simps)
next
  case (4 es)
  then obtain m where d: "d = Suc m" by (cases d) simp_all
  let ?f = "\<lambda>(k, v). str_text k @ bc_encode v"
  have "dict_loop (Suc (length (concat (map ?f es) @ 101 # r))) (bc_parse m) [] (concat (map ?f es) @ 101 # r) = Got ([] @ es) r"
  proof (rule dict_loop_entries)
    fix k v x assume kv: "(k, v) \<in> set es"
    have "bv_wf v" "bv_levels v \<le> m" using 4(2,3) d kv by (auto simp: foldr_max_le)
    then show "bc_parse m (bc_encode v @ x) = Got v x" by (rule 4(1) [OF kv refl])
  qed (use length_concat_items [of es ?f] encode_head in \<open>auto simp: le_imp_less_Suc\<close>)
  then show ?case
    using 4(2) by (simp add: d finish_dict_def sort_sorted sorted_no_repeat del: dict_loop.simps)
qed

subsection \<open>The decoder returns, and what it returns\<close>

lemma mag_loop_rest: "mag_loop m p = Some (x, r) \<Longrightarrow> length r \<le> length p"
  by (induction m p rule: mag_loop.induct) (auto simp: Let_def split: if_splits)

lemma len_loop_rest: "len_loop cap m p = Some (x, r) \<Longrightarrow> length r \<le> length p"
  by (induction cap m p rule: len_loop.induct) (auto simp: Let_def split: if_splits)

lemma raw_int_rest: "parse_raw_int t p = Some (v, r) \<Longrightarrow> length r < length p"
  by (cases p; cases "tl p") (auto simp: parse_raw_int_def Let_def length_tl Suc_le_eq split: if_splits option.splits dest!: mag_loop_rest)

lemma raw_string_rest:
  assumes "parse_raw_string p = Some (s, r)" shows "length r < length p"
proof -
  from assms obtain len q where q: "len_loop (length p) 0 p = Some (len, q)" "q \<noteq> []" "r = drop len (tl q)"
    by (auto simp: parse_raw_string_def split: if_splits option.splits)
  then have "length r < length q" by (cases q) auto
  with len_loop_rest [OF q(1)] show ?thesis by linarith
qed

lemma list_loop_total:
  assumes "\<And>q v r. parse q = Got v r \<Longrightarrow> length r < length q" "\<And>q. parse q \<noteq> Stuck" "length p < n"
  shows "list_loop n parse items p \<noteq> Stuck"
  using assms(3)
proof (induction n arbitrary: items p)
  case (Suc n)
  show ?case
  proof
    assume "list_loop (Suc n) parse items p = Stuck"
    then obtain v r where "parse p = Got v r" "list_loop n parse (items @ [v]) r = Stuck"
      using assms(2) by (auto split: list.splits parsed.splits if_splits)
    with Suc.IH [of r] Suc.prems assms(1) [of p v r] show False by fastforce
  qed
qed simp

lemma list_loop_got:
  assumes "\<And>q v r. parse q = Got v r \<Longrightarrow> length r < length q \<and> P v"
  shows "list_loop n parse items p = Got vs r \<Longrightarrow> \<forall>v \<in> set items. P v \<Longrightarrow> length r < length p \<and> (\<forall>v \<in> set vs. P v)"
proof (induction n arbitrary: items p)
  case (Suc n)
  show ?case
  proof (cases "p \<noteq> [] \<and> hd p \<noteq> 101")
    case True
    with Suc.prems(1) obtain v q where q: "parse p = Got v q" "list_loop n parse (items @ [v]) q = Got vs r"
      by (auto split: list.splits parsed.splits)
    with Suc.IH [OF q(2)] Suc.prems(2) assms [OF q(1)] show ?thesis by force
  qed (use Suc.prems in \<open>auto split: list.splits if_splits parsed.splits\<close>)
qed simp

lemma dict_loop_total:
  assumes "\<And>q v r. parse q = Got v r \<Longrightarrow> length r < length q" "\<And>q. parse q \<noteq> Stuck" "length p < n"
  shows "dict_loop n parse entries p \<noteq> Stuck"
  using assms(3)
proof (induction n arbitrary: entries p)
  case (Suc n)
  show ?case
  proof
    assume stuck: "dict_loop (Suc n) parse entries p = Stuck"
    then obtain k q v r where "parse_raw_string p = Some (k, q)" "parse q = Got v r" "dict_loop n parse (entries @ [(k, v)]) r = Stuck"
      using assms(2) by (auto split: list.splits parsed.splits option.splits if_splits)
    with Suc.IH [of r] Suc.prems assms(1) [of q v r] raw_string_rest [of p k q] show False by fastforce
  qed
qed simp

lemma dict_loop_got:
  assumes "\<And>q v r. parse q = Got v r \<Longrightarrow> length r < length q \<and> P v"
  shows "dict_loop n parse entries p = Got es r \<Longrightarrow> \<forall>(k, v) \<in> set entries. P v \<Longrightarrow> length r < length p \<and> (\<forall>(k, v) \<in> set es. P v)"
proof (induction n arbitrary: entries p)
  case (Suc n)
  show ?case
  proof (cases "p \<noteq> [] \<and> hd p \<noteq> 101")
    case True
    with Suc.prems(1) obtain k q v x where q: "parse_raw_string p = Some (k, q)" "parse q = Got v x"
      "dict_loop n parse (entries @ [(k, v)]) x = Got es r"
      by (auto split: list.splits parsed.splits option.splits)
    with Suc.IH [OF q(3)] Suc.prems(2) assms [OF q(2)] raw_string_rest [OF q(1)] show ?thesis by force
  qed (use Suc.prems in \<open>auto split: list.splits if_splits parsed.splits\<close>)
qed simp

lemma sorted_distinct:
  "sorted_wrt (\<lambda>a b. \<not> key_less b a) es \<Longrightarrow> \<not> repeated_key es \<Longrightarrow> sorted_wrt key_less es"
proof (induction es rule: repeated_key.induct)
  case (1 a b es)
  then have IH: "sorted_wrt key_less (b # es)" by simp
  have "key_less a b" using 1(2,3) bytes_less_total [of "fst a" "fst b"] by (auto simp: key_less_def)
  with IH show ?case by (auto simp: key_less_def [of a] key_less_def [of b] intro: bytes_less_trans)
qed simp_all

lemma finish_dict_got:
  assumes "finish_dict es p = Got v r" "\<forall>(k, v) \<in> set es. bv_wf v \<and> bv_levels v \<le> d"
  shows "r = p \<and> bv_wf v \<and> bv_levels v \<le> Suc d"
proof -
  from assms(1) have v: "v = BDict (sort_by key_less es)" "\<not> repeated_key (sort_by key_less es)" "r = p"
    by (auto simp: finish_dict_def Let_def split: if_splits)
  have "sorted_wrt key_less (sort_by key_less es)" by (rule sorted_distinct [OF by_key.sort_by_sorted v(2)])
  with assms(2) v show ?thesis by (auto simp: foldr_max_le)
qed

lemma parse_total:
  "bc_parse d p \<noteq> Stuck \<and> (\<forall>v r. bc_parse d p = Got v r \<longrightarrow> length r < length p \<and> bv_wf v \<and> bv_levels v \<le> d)"
proof (induction d arbitrary: p)
  case (Suc d)
  have IH: "\<And>q v r. bc_parse d q = Got v r \<Longrightarrow> length r < length q" "\<And>q. bc_parse d q \<noteq> Stuck"
    and IHv: "\<And>q v r. bc_parse d q = Got v r \<Longrightarrow> length r < length q \<and> (bv_wf v \<and> bv_levels v \<le> d)"
    using Suc by blast+
  show ?case
  proof (cases p)
    case (Cons c cs)
    have total: "list_loop (Suc (length cs)) (bc_parse d) [] cs \<noteq> Stuck" "dict_loop (Suc (length cs)) (bc_parse d) [] cs \<noteq> Stuck"
      by (rule list_loop_total dict_loop_total; use IH in simp)+
    consider "c = 105" | "c = 108" | "c = 100" | "c \<noteq> 105" "c \<noteq> 108" "c \<noteq> 100" by blast
    then show ?thesis
    proof cases
      case 1
      then show ?thesis by (auto simp: Cons split: option.splits dest!: raw_int_rest)
    next
      case 2
      show ?thesis
      proof (cases "list_loop (Suc (length cs)) (bc_parse d) [] cs")
        case (Got vs q)
        have "length q < length cs \<and> (\<forall>v \<in> set vs. bv_wf v \<and> bv_levels v \<le> d)" 
          by (rule list_loop_got [OF _ Got]) (use IHv in simp_all)
        then show ?thesis by (simp add: Cons 2 Got foldr_max_le del: list_loop.simps)
      qed (use total(1) in \<open>simp_all add: Cons 2 del: list_loop.simps\<close>)
    next
      case 3
      show ?thesis
      proof (cases "dict_loop (Suc (length cs)) (bc_parse d) [] cs")
        case (Got es q)
        have es: "length q < length cs \<and> (\<forall>(k, v) \<in> set es. bv_wf v \<and> bv_levels v \<le> d)" 
          by (rule dict_loop_got [OF _ Got]) (use IHv in simp_all)
        have parse: "bc_parse (Suc d) p = finish_dict es q" by (simp add: Cons 3 Got del: dict_loop.simps)
        have "bc_parse (Suc d) p \<noteq> Stuck" unfolding parse by (simp add: finish_dict_def Let_def)
        moreover have "length r < length p \<and> bv_wf v \<and> bv_levels v \<le> Suc d" if "bc_parse (Suc d) p = Got v r" for v r
        proof -
          have "finish_dict es q = Got v r" using that by (simp only: parse)
          from finish_dict_got [OF this, of d] es show ?thesis by (simp add: Cons)
        qed
        ultimately show ?thesis by blast
      qed (use total(2) in \<open>simp_all add: Cons 3 del: dict_loop.simps\<close>)
    next
      case 4
      then show ?thesis by (auto simp: Cons split: option.splits dest!: raw_string_rest)
    qed
  qed simp
qed simp

subsection \<open>Dictionaries\<close>

lemma sorted_head:
  assumes "sorted_wrt key_less (e # d)" "k = fst e \<or> bytes_less k (fst e)"
  shows "map_of d k = None" "\<And>x. x \<in> set d \<Longrightarrow> bytes_less k (fst x)"
proof -
  have less: "bytes_less k (fst x)" if "x \<in> set d" for x
  proof -
    have "bytes_less (fst e) (fst x)" using assms(1) that by (simp add: key_less_def)
    then show ?thesis using assms(2) bytes_less_trans [of k "fst e" "fst x"] by auto
  qed
  have "fst x \<noteq> k" if "x \<in> set d" for x using less [OF that] by auto
  then show "map_of d k = None" by (force simp: map_of_eq_None_iff)
  show "\<And>x. x \<in> set d \<Longrightarrow> bytes_less k (fst x)" by (rule less)
qed

text \<open>
  The binary search for an insertion point, read as a recursion on the sorted vector.
\<close>

lemma lower_bound_Cons:
  "lower_bound (e # d) k = (if bytes_less (fst e) k then Suc (lower_bound d k) else 0)"
  by (simp add: lower_bound_def)

lemma find_map_of: "sorted_wrt key_less d \<Longrightarrow> bv_find k (BDict d) = map_of d k"
proof (induction d)
  case (Cons e d)
  then have IH: "bv_find k (BDict d) = map_of d k" by simp
  show ?case
  proof (cases "bytes_less (fst e) k")
    case True
    then have "fst e \<noteq> k" by auto
    with True IH show ?thesis by (cases e) (auto simp: bv_find_def lower_bound_Cons Let_def split: if_splits)
  next
    case False
    show ?thesis
    proof (cases "fst e = k")
      case True
      with False show ?thesis by (cases e) (simp add: bv_find_def lower_bound_Cons Let_def)
    next
      case ne: False
      then have "bytes_less k (fst e)" using False bytes_less_total by blast
      with sorted_head(1) [OF Cons.prems] have "map_of d k = None" by simp
      with False ne show ?thesis by (cases e) (simp add: bv_find_def lower_bound_Cons Let_def)
    qed
  qed
qed (simp add: bv_find_def lower_bound_def)

definition dict_put :: "bytes \<Rightarrow> bvalue \<Rightarrow> (bytes \<times> bvalue) list \<Rightarrow> (bytes \<times> bvalue) list" where
  "dict_put key x d =
     (let i = lower_bound d key in
      if i < length d \<and> fst (d ! i) = key then d[i := (key, x)] else take i d @ (key, x) # drop i d)"

lemma assign_put: "bv_assign key x (BDict d) = Some (BDict (dict_put key x d))"
  by (simp add: bv_assign_def dict_put_def Let_def)

lemma dict_put_Nil [simp]: "dict_put k x [] = [(k, x)]"
  by (simp add: dict_put_def lower_bound_def)

lemma dict_put_Cons:
  "dict_put k x (e # d) =
     (if bytes_less (fst e) k then e # dict_put k x d
      else if fst e = k then (k, x) # d else (k, x) # e # d)"
  by (simp add: dict_put_def lower_bound_Cons Let_def)

lemma dict_put_set: "set (dict_put k x d) \<subseteq> insert (k, x) (set d)"
  by (induction d) (auto simp: dict_put_Cons)

lemma dict_put_map_of: "sorted_wrt key_less d \<Longrightarrow> map_of (dict_put k x d) = (map_of d)(k \<mapsto> x)"
proof (induction d)
  case (Cons e d)
  then show ?case by (cases e) (auto simp: dict_put_Cons fun_upd_twist)
qed simp

lemma dict_put_sorted: "sorted_wrt key_less d \<Longrightarrow> sorted_wrt key_less (dict_put k x d)"
proof (induction d)
  case (Cons e d)
  show ?case
  proof (cases "bytes_less (fst e) k")
    case True
    with Cons dict_put_set [of k x d] show ?thesis by (auto simp: dict_put_Cons key_less_def)
  next
    case False
    then have less: "fst e = k \<or> bytes_less k (fst e)" using bytes_less_total by blast
    with sorted_head(2) [OF Cons.prems, of k] Cons.prems False show ?thesis
      by (auto simp: dict_put_Cons key_less_def)
  qed
qed simp

text \<open>
  Assignment keeps a value well-formed and behaves as a map update: the assigned key reads
  back, every other key is untouched.
\<close>

lemma assign_wf:
  assumes "bv_wf v" "bv_wf x" "bv_assign k x v = Some w"
  shows "bv_wf w" "bv_find j w = (if j = k then Some x else bv_find j v)"
proof -
  obtain d where d: "v = BDict d" using assms(3) by (cases v) (simp_all add: bv_assign_def)
  then have w: "w = BDict (dict_put k x d)" and s: "sorted_wrt key_less d" using assms by (simp_all add: assign_put)
  show "bv_wf w" using assms(1,2) dict_put_set [of k x d] dict_put_sorted [OF s] by (auto simp: w d)
  show "bv_find j w = (if j = k then Some x else bv_find j v)"
    using find_map_of [OF s] find_map_of [OF dict_put_sorted [OF s]] dict_put_map_of [OF s] by (simp add: w d)
qed

subsection \<open>The codec\<close>

text \<open>
  C29: decoding the encoding of a value gives the value back, with the whole buffer consumed,
  for every well-formed value (dictionary keys strictly increasing) nested at most
  kMaxDepth + 1 levels deep; integers keep all 64 bits and strings may hold any bytes.
\<close>

theorem bencode_roundtrip:
  assumes "bv_wf v" "bv_levels v \<le> kMaxDepth + 1"
  shows "decode_full (bc_encode v) = Got v []"
  using parse_encode [OF assms, of "[]"] by (simp add: decode_full_def)

theorem bencode_roundtrip_witness:
  defines "v \<equiv> BDict [([97], BList [BInt (- 5), BStr [0, 58, 101]]), ([98], BDict [])]"
  shows "bv_wf v \<and> bv_levels v \<le> kMaxDepth + 1 \<and> decode_full (bc_encode v) = Got v []"
proof -
  have wf: "bv_wf v" "bv_levels v \<le> kMaxDepth + 1"
    by (simp_all add: v_def key_less_def kMaxDepth_def)
  from wf bencode_roundtrip [OF wf] show ?thesis by blast
qed

text \<open>
  C30: whatever the bytes, the decoder returns, with an error or with a value; a value it
  returns has sorted, unrepeated dictionary keys at every level, is nested at most
  kMaxDepth + 1 levels deep, so the recursion of the code is bounded, and survives being
  encoded and decoded again.
\<close>

theorem bencode_decoded_type:
  "decode_full data \<noteq> Stuck \<and>
   (decode_full data = Got v r \<longrightarrow>
      r = [] \<and> bv_wf v \<and> bv_levels v \<le> kMaxDepth + 1 \<and> decode_full (bc_encode v) = Got v [])"
proof -
  have t: "bc_parse (kMaxDepth + 1) data \<noteq> Stuck"
    "\<And>v r. bc_parse (kMaxDepth + 1) data = Got v r \<Longrightarrow> bv_wf v \<and> bv_levels v \<le> kMaxDepth + 1"
    using parse_total [of "kMaxDepth + 1" data] by blast+
  have enc: "decode_full (bc_encode v) = Got v []" if "bv_wf v" "bv_levels v \<le> kMaxDepth + 1" for v
    using parse_encode [OF that, of "[]"] by (simp add: decode_full_def)
  show ?thesis
  proof (cases "bc_parse (kMaxDepth + 1) data")
    case (Got w p)
    then show ?thesis using t(2) [OF Got] enc [of w] by (auto simp: decode_full_def)
  qed (use t(1) in \<open>simp_all add: decode_full_def\<close>)
qed

theorem bencode_decoded_type_witness:
  "decode_full [100, 49, 58, 97, 105, 55, 101, 101] = Got (BDict [([97], BInt 7)]) [] \<and>
   bv_wf (BDict [([97], BInt 7)])"
proof -
  have "decode_full [100, 49, 58, 97, 105, 55, 101, 101] = Got (BDict [([97], BInt 7)]) []" by code_simp
  with bencode_decoded_type [of "[100, 49, 58, 97, 105, 55, 101, 101]" "BDict [([97], BInt 7)]" "[]"]
  show ?thesis by blast
qed

end
