(* ===== verification/Krpc.thy ===== *)
theory Krpc
  imports Bencode Address Dht_Id "HOL-Library.Monad_Syntax"
begin

text \<open>
  The KRPC messages of the DHT (\<open>src/librats/dht/krpc.h\<close>, \<open>krpc.cpp\<close>): the message record and
  its constructors, the compact forms of contacts and peers, and the encoder and decoder over
  bencode. None is the null pointer of the decoder, which also stands for every exception thrown
  by an accessor, since \<open>decode_message\<close> catches them. An error code is the bit pattern of the
  \<open>int\<close> underlying its enumeration.
\<close>

subsection \<open>Messages\<close>

datatype krpc_type = K_Query | K_Response | K_Error

datatype query_type = Q_Ping | Q_FindNode | Q_GetPeers | Q_AnnouncePeer

record krpc_node =
  kn_id :: node_id
  kn_ip :: ip_address
  kn_port :: u16

record krpc_message =
  km_type :: krpc_type
  km_txn :: bytes
  km_query :: query_type
  km_sender :: node_id
  km_target :: node_id
  km_info_hash :: node_id
  km_port :: u16
  km_implied :: bool
  km_token :: bytes
  km_want :: "bytes list"
  km_response_id :: node_id
  km_nodes :: "krpc_node list"
  km_peers :: "address list"
  km_ext_ip :: ip_address
  km_ext_port :: u16
  km_error_code :: u32
  km_error_message :: bytes

definition id_zero :: node_id where
  "id_zero = replicate kIdSize 0"

definition krpc_blank :: krpc_message where
  "krpc_blank =
     \<lparr>km_type = K_Query, km_txn = [], km_query = Q_Ping, km_sender = id_zero, km_target = id_zero,
      km_info_hash = id_zero, km_port = 0, km_implied = False, km_token = [], km_want = [],
      km_response_id = id_zero, km_nodes = [], km_peers = [], km_ext_ip = ip_none, km_ext_port = 0,
      km_error_code = 201, km_error_message = []\<rparr>"

definition create_ping_query :: "bytes \<Rightarrow> node_id \<Rightarrow> krpc_message" where
  "create_ping_query t sender =
     krpc_blank\<lparr>km_type := K_Query, km_txn := t, km_query := Q_Ping, km_sender := sender\<rparr>"

definition create_find_node_query :: "bytes \<Rightarrow> node_id \<Rightarrow> node_id \<Rightarrow> krpc_message" where
  "create_find_node_query t sender target =
     krpc_blank\<lparr>km_type := K_Query, km_txn := t, km_query := Q_FindNode, km_sender := sender, km_target := target\<rparr>"

definition create_get_peers_query :: "bytes \<Rightarrow> node_id \<Rightarrow> node_id \<Rightarrow> krpc_message" where
  "create_get_peers_query t sender ih =
     krpc_blank\<lparr>km_type := K_Query, km_txn := t, km_query := Q_GetPeers, km_sender := sender, km_info_hash := ih\<rparr>"

definition create_announce_peer_query ::
  "bytes \<Rightarrow> node_id \<Rightarrow> node_id \<Rightarrow> u16 \<Rightarrow> bytes \<Rightarrow> bool \<Rightarrow> krpc_message" where
  "create_announce_peer_query t sender ih port token implied =
     krpc_blank\<lparr>km_type := K_Query, km_txn := t, km_query := Q_AnnouncePeer, km_sender := sender,
       km_info_hash := ih, km_port := port, km_implied := implied, km_token := token\<rparr>"

definition create_ping_response :: "bytes \<Rightarrow> node_id \<Rightarrow> krpc_message" where
  "create_ping_response t rid = krpc_blank\<lparr>km_type := K_Response, km_txn := t, km_response_id := rid\<rparr>"

definition create_find_node_response :: "bytes \<Rightarrow> node_id \<Rightarrow> krpc_node list \<Rightarrow> krpc_message" where
  "create_find_node_response t rid nodes =
     krpc_blank\<lparr>km_type := K_Response, km_txn := t, km_response_id := rid, km_nodes := nodes\<rparr>"

definition create_get_peers_response :: "bytes \<Rightarrow> node_id \<Rightarrow> address list \<Rightarrow> bytes \<Rightarrow> krpc_message" where
  "create_get_peers_response t rid peers token =
     krpc_blank\<lparr>km_type := K_Response, km_txn := t, km_response_id := rid, km_peers := peers, km_token := token\<rparr>"

definition create_get_peers_response_with_nodes ::
  "bytes \<Rightarrow> node_id \<Rightarrow> krpc_node list \<Rightarrow> bytes \<Rightarrow> krpc_message" where
  "create_get_peers_response_with_nodes t rid nodes token =
     krpc_blank\<lparr>km_type := K_Response, km_txn := t, km_response_id := rid, km_nodes := nodes, km_token := token\<rparr>"

definition create_announce_peer_response :: "bytes \<Rightarrow> node_id \<Rightarrow> krpc_message" where
  "create_announce_peer_response t rid = krpc_blank\<lparr>km_type := K_Response, km_txn := t, km_response_id := rid\<rparr>"

definition create_error :: "bytes \<Rightarrow> u32 \<Rightarrow> bytes \<Rightarrow> krpc_message" where
  "create_error t code msg =
     krpc_blank\<lparr>km_type := K_Error, km_txn := t, km_error_code := code, km_error_message := msg\<rparr>"

subsection \<open>Compact forms\<close>

definition string_to_node_id :: "bytes \<Rightarrow> node_id" where
  "string_to_node_id s = (if length s \<ge> 20 then take 20 s else s @ replicate (20 - length s) 0)"

definition compact_address :: "ip_address \<Rightarrow> bytes" where
  "compact_address ip = (if ip_bytes ip = [] then replicate 4 0 else ip_bytes ip)"

definition compact_peer_info :: "address \<Rightarrow> bytes" where
  "compact_peer_info p = compact_address (ad_ip p) @ u16_be (ad_port p)"

definition compact_node_info :: "krpc_node \<Rightarrow> bytes" where
  "compact_node_info n = kn_id n @ compact_address (kn_ip n) @ u16_be (kn_port n)"

definition read_compact_ip :: "bytes \<Rightarrow> nat \<Rightarrow> nat \<Rightarrow> ip_address" where
  "read_compact_ip s off len =
     (case ip_from_bytes (take len (drop off s)) of Some ip \<Rightarrow> ip | None \<Rightarrow> ip_none)"

fun peer_records :: "nat \<Rightarrow> bytes \<Rightarrow> address list" where
  "peer_records alen s =
     (if alen + 2 \<le> length s then
        \<lparr>ad_ip = read_compact_ip s 0 alen, ad_port = be_u16 (s ! alen) (s ! (alen + 1))\<rparr>
          # peer_records alen (drop (alen + 2) s)
      else [])"

definition parse_compact_peer_info :: "bytes \<Rightarrow> address list" where
  "parse_compact_peer_info s =
     (if length s = 18 then peer_records 16 s
      else if length s mod 6 \<noteq> 0 then [] else peer_records 4 s)"

fun node_records :: "nat \<Rightarrow> bytes \<Rightarrow> krpc_node list" where
  "node_records alen s =
     (if s = [] then []
      else \<lparr>kn_id = take 20 s, kn_ip = read_compact_ip s 20 alen,
            kn_port = be_u16 (s ! (20 + alen)) (s ! (20 + alen + 1))\<rparr>
          # node_records alen (drop (20 + alen + 2) s))"

definition parse_compact_node_info :: "bytes \<Rightarrow> bool \<Rightarrow> krpc_node list" where
  "parse_compact_node_info s ipv6 =
     (let alen = (if ipv6 then 16 else 4) in
      if length s mod (20 + alen + 2) \<noteq> 0 then [] else node_records alen s)"

declare peer_records.simps [simp del] node_records.simps [simp del]

definition query_type_to_string :: "query_type \<Rightarrow> bytes" where
  "query_type_to_string q =
     (case q of Q_Ping \<Rightarrow> str ''ping'' | Q_FindNode \<Rightarrow> str ''find_node''
      | Q_GetPeers \<Rightarrow> str ''get_peers'' | Q_AnnouncePeer \<Rightarrow> str ''announce_peer'')"

definition string_to_query_type :: "bytes \<Rightarrow> query_type" where
  "string_to_query_type s =
     (if s = str ''ping'' then Q_Ping else if s = str ''find_node'' then Q_FindNode
      else if s = str ''get_peers'' then Q_GetPeers
      else if s = str ''announce_peer'' then Q_AnnouncePeer else Q_Ping)"

subsection \<open>Encoding\<close>

text \<open>The subscript assignments \<open>root["k"] = v\<close> are insertions into the sorted entries.\<close>

definition encode_query_args :: "krpc_message \<Rightarrow> (bytes \<times> bvalue) list" where
  "encode_query_args m =
     (let args = dict_put (str ''id'') (BStr (km_sender m)) [];
          args =
            (case km_query m of
               Q_Ping \<Rightarrow> args
             | Q_FindNode \<Rightarrow> dict_put (str ''target'') (BStr (km_target m)) args
             | Q_GetPeers \<Rightarrow> dict_put (str ''info_hash'') (BStr (km_info_hash m)) args
             | Q_AnnouncePeer \<Rightarrow>
                 (let args = dict_put (str ''info_hash'') (BStr (km_info_hash m)) args;
                      args = dict_put (str ''port'') (BInt (ucast (km_port m))) args;
                      args = dict_put (str ''token'') (BStr (km_token m)) args
                  in if km_implied m then dict_put (str ''implied_port'') (BInt 1) args else args))
      in if km_want m \<noteq> [] then dict_put (str ''want'') (BList (map BStr (km_want m))) args else args)"

definition encode_query :: "krpc_message \<Rightarrow> bvalue" where
  "encode_query m =
     (let root = dict_put (str ''t'') (BStr (km_txn m)) [];
          root = dict_put (str ''y'') (BStr (str ''q'')) root;
          root = dict_put (str ''q'') (BStr (query_type_to_string (km_query m))) root
      in BDict (dict_put (str ''a'') (BDict (encode_query_args m)) root))"

definition encode_response_body :: "krpc_message \<Rightarrow> (bytes \<times> bvalue) list" where
  "encode_response_body m =
     (let r = dict_put (str ''id'') (BStr (km_response_id m)) [];
          v4 = concat (map compact_node_info (filter (\<lambda>n. \<not> is_v6 (kn_ip n)) (km_nodes m)));
          v6 = concat (map compact_node_info (filter (\<lambda>n. is_v6 (kn_ip n)) (km_nodes m)));
          r = (if v4 \<noteq> [] then dict_put (str ''nodes'') (BStr v4) r else r);
          r = (if v6 \<noteq> [] then dict_put (str ''nodes6'') (BStr v6) r else r);
          r = (if km_peers m \<noteq> [] then
                 dict_put (str ''values'') (BList (map (\<lambda>p. BStr (compact_peer_info p)) (km_peers m))) r
               else r)
      in if km_token m \<noteq> [] then dict_put (str ''token'') (BStr (km_token m)) r else r)"

definition encode_response :: "krpc_message \<Rightarrow> bvalue" where
  "encode_response m =
     (let root = dict_put (str ''t'') (BStr (km_txn m)) [];
          root = dict_put (str ''y'') (BStr (str ''r'')) root;
          root = dict_put (str ''r'') (BDict (encode_response_body m)) root
      in BDict
        (if \<not> is_unspecified (km_ext_ip m) then
           let compact = compact_peer_info \<lparr>ad_ip = km_ext_ip m, ad_port = km_ext_port m\<rparr>
           in if compact \<noteq> [] then dict_put (str ''ip'') (BStr compact) root else root
         else root))"

definition encode_error :: "krpc_message \<Rightarrow> bvalue" where
  "encode_error m =
     (let root = dict_put (str ''t'') (BStr (km_txn m)) [];
          root = dict_put (str ''y'') (BStr (str ''e'')) root
      in BDict (dict_put (str ''e'')
           (BList [BInt (scast (km_error_code m)), BStr (km_error_message m)]) root))"

definition krpc_encode_message :: "krpc_message \<Rightarrow> bytes" where
  "krpc_encode_message m =
     bc_encode (case km_type m of K_Query \<Rightarrow> encode_query m | K_Response \<Rightarrow> encode_response m
                | K_Error \<Rightarrow> encode_error m)"

subsection \<open>Decoding\<close>

definition string_at :: "bytes \<Rightarrow> bvalue \<Rightarrow> bytes option" where
  "string_at key v = Option.bind (bv_find key v) as_string"

text \<open>\<open>if (v.has_key(key)) field = f(v[key])\<close>, the field keeping its value otherwise.\<close>

definition field_or :: "'a \<Rightarrow> bytes \<Rightarrow> (bvalue \<Rightarrow> 'a option) \<Rightarrow> bvalue \<Rightarrow> 'a option" where
  "field_or dflt key f v = (case bv_find key v of None \<Rightarrow> Some dflt | Some x \<Rightarrow> f x)"

fun all_strings :: "bvalue list \<Rightarrow> bytes list option" where
  "all_strings [] = Some []"
| "all_strings (v # vs) = do { s \<leftarrow> as_string v; ss \<leftarrow> all_strings vs; Some (s # ss) }"

definition list_strings :: "bvalue \<Rightarrow> bytes list option" where
  "list_strings v = (case as_list v of None \<Rightarrow> Some [] | Some vs \<Rightarrow> all_strings vs)"

definition id_field :: "bvalue \<Rightarrow> node_id option" where
  "id_field v = map_option string_to_node_id (as_string v)"

definition decode_args :: "krpc_message \<Rightarrow> bvalue \<Rightarrow> krpc_message option" where
  "decode_args m args =
     (case km_query m of
        Q_Ping \<Rightarrow> Some m
      | Q_FindNode \<Rightarrow> do {
          target \<leftarrow> field_or id_zero (str ''target'') id_field args;
          Some (m\<lparr>km_target := target\<rparr>) }
      | Q_GetPeers \<Rightarrow> do {
          ih \<leftarrow> field_or id_zero (str ''info_hash'') id_field args;
          Some (m\<lparr>km_info_hash := ih\<rparr>) }
      | Q_AnnouncePeer \<Rightarrow> do {
          ih \<leftarrow> field_or id_zero (str ''info_hash'') id_field args;
          port \<leftarrow> field_or 0 (str ''port'') (\<lambda>v. map_option ucast (as_integer v)) args;
          token \<leftarrow> field_or [] (str ''token'') as_string args;
          implied \<leftarrow> field_or False (str ''implied_port'') (\<lambda>v. map_option (\<lambda>i. i \<noteq> 0) (as_integer v)) args;
          Some (m\<lparr>km_info_hash := ih, km_port := port, km_token := token, km_implied := implied\<rparr>) })"

definition decode_query :: "bvalue \<Rightarrow> krpc_message option" where
  "decode_query data = do {
     q \<leftarrow> string_at (str ''q'') data;
     args \<leftarrow> bv_find (str ''a'') data;
     t \<leftarrow> string_at (str ''t'') data;
     _ \<leftarrow> as_dict args;
     sender \<leftarrow> string_at (str ''id'') args;
     want \<leftarrow> field_or [] (str ''want'') list_strings args;
     decode_args (krpc_blank\<lparr>km_type := K_Query, km_txn := t, km_query := string_to_query_type q,
       km_sender := string_to_node_id sender, km_want := want\<rparr>) args }"

definition decode_response :: "bvalue \<Rightarrow> krpc_message option" where
  "decode_response data = do {
     r \<leftarrow> bv_find (str ''r'') data;
     t \<leftarrow> string_at (str ''t'') data;
     _ \<leftarrow> as_dict r;
     rid \<leftarrow> string_at (str ''id'') r;
     nodes4 \<leftarrow> field_or [] (str ''nodes'') (\<lambda>v. map_option (\<lambda>s. parse_compact_node_info s False) (as_string v)) r;
     nodes6 \<leftarrow> field_or [] (str ''nodes6'') (\<lambda>v. map_option (\<lambda>s. parse_compact_node_info s True) (as_string v)) r;
     values \<leftarrow> field_or [] (str ''values'') list_strings r;
     token \<leftarrow> field_or [] (str ''token'') as_string r;
     endpoints \<leftarrow> field_or [] (str ''ip'') (\<lambda>v. map_option parse_compact_peer_info (as_string v)) data;
     let m = krpc_blank\<lparr>km_type := K_Response, km_txn := t, km_response_id := string_to_node_id rid,
       km_nodes := nodes4 @ nodes6, km_peers := concat (map parse_compact_peer_info values), km_token := token\<rparr>;
     Some (case endpoints of [] \<Rightarrow> m | e # _ \<Rightarrow> m\<lparr>km_ext_ip := ad_ip e, km_ext_port := ad_port e\<rparr>) }"

definition decode_error :: "bvalue \<Rightarrow> krpc_message option" where
  "decode_error data = do {
     e \<leftarrow> bv_find (str ''e'') data;
     t \<leftarrow> string_at (str ''t'') data;
     l \<leftarrow> as_list e;
     if length l < 2 then None else do {
       code \<leftarrow> as_integer (l ! 0);
       msg \<leftarrow> as_string (l ! 1);
       Some (krpc_blank\<lparr>km_type := K_Error, km_txn := t, km_error_code := ucast code, km_error_message := msg\<rparr>) } }"

definition krpc_decode_message :: "bytes \<Rightarrow> krpc_message option" where
  "krpc_decode_message data =
     (case decode_full data of
        Got root _ \<Rightarrow> do {
          _ \<leftarrow> as_dict root;
          t \<leftarrow> string_at (str ''t'') root;
          y \<leftarrow> string_at (str ''y'') root;
          if y = str ''q'' then decode_query root
          else if y = str ''r'' then decode_response root
          else if y = str ''e'' then decode_error root
          else None }
      | _ \<Rightarrow> None)"

subsection \<open>Round trips\<close>

lemma of_char_byte_inj: "inj (of_char :: char \<Rightarrow> byte)"
proof (rule injI)
  fix c d :: char assume e: "of_char c = (of_char d :: byte)"
  have u: "unat (of_char c :: byte) = of_char c" for c :: char
  proof -
    have "unat (of_nat (of_char c) :: byte) = of_char c"
      using nat_of_char_less_256 [of c] by (simp only: unat_of_nat) (simp add: take_bit_nat_eq_self)
    then show ?thesis by (simp only: of_nat_of_char)
  qed
  from arg_cong [OF e, of unat] show "c = d" unfolding u by simp
qed

lemma str_inj [simp]: "str s = str t \<longleftrightarrow> s = t"
  by (simp add: str_def inj_map_eq_map [OF of_char_byte_inj])

lemma find_put [simp]:
  "sorted_wrt key_less d \<Longrightarrow>
     bv_find k (BDict (dict_put j x d)) = (if k = j then Some x else bv_find k (BDict d))"
  by (simp add: find_map_of dict_put_sorted dict_put_map_of)

lemma find_empty [simp]: "bv_find k (BDict []) = None"
  by (simp add: bv_find_def lower_bound_def)

declare dict_put_sorted [simp]

lemma dict_put_wf [simp]:
  "bv_wf (BDict d) \<Longrightarrow> bv_wf x \<Longrightarrow> bv_wf (BDict (dict_put k x d))"
  using dict_put_set [of k x d] by auto

lemma dict_put_levels:
  "bv_levels (BDict d) \<le> Suc n \<Longrightarrow> bv_levels x \<le> n \<Longrightarrow> bv_levels (BDict (dict_put k x d)) \<le> Suc n"
  using dict_put_set [of k x d] by (fastforce simp: foldr_max_le)

lemma accessors [simp]:
  "as_string (BStr s) = Some s" "as_integer (BInt i) = Some i" "as_list (BList l) = Some l" "as_dict (BDict d) = Some d"
  by (simp_all add: as_string_def as_integer_def as_list_def as_dict_def)

lemma all_strings_map [simp]: "all_strings (map (\<lambda>x. BStr (f x)) ss) = Some (map f ss)"
  by (induction ss) simp_all

lemma list_strings_map [simp]: "list_strings (BList (map (\<lambda>x. BStr (f x)) ss)) = Some (map f ss)"
  by (simp add: list_strings_def)

lemma string_to_node_id_exact [simp]: "id_wf i \<Longrightarrow> string_to_node_id i = i"
  by (simp add: string_to_node_id_def id_wf_def kIdSize_def)

lemma query_type_roundtrip [simp]: "string_to_query_type (query_type_to_string q) = q"
  by (cases q) (simp_all add: string_to_query_type_def query_type_to_string_def)

text \<open>An unspecified address travels as 0.0.0.0.\<close>

definition wire_ip :: "ip_address \<Rightarrow> ip_address" where
  "wire_ip ip = (if is_unspecified ip then from_v4 [0, 0, 0, 0] else ip)"

definition wire_node :: "krpc_node \<Rightarrow> krpc_node" where
  "wire_node n = n\<lparr>kn_ip := wire_ip (kn_ip n)\<rparr>"

definition wire_peer :: "address \<Rightarrow> address" where
  "wire_peer p = p\<lparr>ad_ip := wire_ip (ad_ip p)\<rparr>"

definition node_wf :: "krpc_node \<Rightarrow> bool" where
  "node_wf n \<longleftrightarrow> id_wf (kn_id n) \<and> ip_wf (kn_ip n)"

definition krpc_wf :: "krpc_message \<Rightarrow> bool" where
  "krpc_wf m \<longleftrightarrow> id_wf (km_sender m) \<and> id_wf (km_target m) \<and> id_wf (km_info_hash m) \<and>
     id_wf (km_response_id m) \<and> list_all node_wf (km_nodes m) \<and>
     list_all (\<lambda>p. ip_wf (ad_ip p)) (km_peers m) \<and> ip_wf (km_ext_ip m)"

text \<open>What the receiver reads: the fields its type carries, IPv4 contacts before IPv6 ones.\<close>

definition as_received :: "krpc_message \<Rightarrow> krpc_message" where
  "as_received m =
     (case km_type m of
        K_Query \<Rightarrow>
          (let q = km_query m;
               b = krpc_blank\<lparr>km_type := K_Query, km_txn := km_txn m, km_query := q,
                     km_sender := km_sender m, km_want := km_want m\<rparr>
           in case q of
                Q_Ping \<Rightarrow> b
              | Q_FindNode \<Rightarrow> b\<lparr>km_target := km_target m\<rparr>
              | Q_GetPeers \<Rightarrow> b\<lparr>km_info_hash := km_info_hash m\<rparr>
              | Q_AnnouncePeer \<Rightarrow> b\<lparr>km_info_hash := km_info_hash m, km_port := km_port m,
                  km_token := km_token m, km_implied := km_implied m\<rparr>)
      | K_Response \<Rightarrow>
          krpc_blank\<lparr>km_type := K_Response, km_txn := km_txn m, km_response_id := km_response_id m,
            km_nodes := map wire_node (filter (\<lambda>n. \<not> is_v6 (kn_ip n)) (km_nodes m))
              @ filter (\<lambda>n. is_v6 (kn_ip n)) (km_nodes m),
            km_peers := map wire_peer (km_peers m), km_token := km_token m, km_ext_ip := km_ext_ip m,
            km_ext_port := (if is_unspecified (km_ext_ip m) then 0 else km_ext_port m)\<rparr>
      | K_Error \<Rightarrow>
          krpc_blank\<lparr>km_type := K_Error, km_txn := km_txn m, km_error_code := km_error_code m,
            km_error_message := km_error_message m\<rparr>)"

lemma compact_address_length:
  "ip_wf ip \<Longrightarrow> length (compact_address ip) = (if is_v6 ip then 16 else 4)"
  using length_ip_bytes [of ip]
  by (auto simp: compact_address_def is_v6_def ip_size_def split: ip_family.splits if_splits)

lemma read_compact:
  assumes "ip_wf ip"
  shows "read_compact_ip (p @ compact_address ip @ q) (length p) (if is_v6 ip then 16 else 4) = wire_ip ip"
proof -
  have "take (if is_v6 ip then 16 else 4) (drop (length p) (p @ compact_address ip @ q)) = compact_address ip"
    using compact_address_length [OF assms] by simp
  moreover have "ip_from_bytes (compact_address ip) = Some (wire_ip ip)"
  proof (cases "is_unspecified ip")
    case True
    then have "ip_bytes ip = []" by (simp add: is_unspecified_def ip_bytes_def ip_size_def)
    with True show ?thesis by (simp add: compact_address_def wire_ip_def ip_from_bytes_def numeral_eq_Suc)
  next
    case False
    moreover have "ip_bytes ip \<noteq> []"
      using length_ip_bytes [OF assms] False by (auto simp: is_unspecified_def ip_size_def split: ip_family.splits)
    ultimately show ?thesis using ip_bytes_roundtrip [OF assms] by (simp add: compact_address_def wire_ip_def)
  qed
  ultimately show ?thesis by (simp add: read_compact_ip_def)
qed

lemma u16_after: "(p @ u16_be w @ q) ! length p = ucast (drop_bit 8 w)" "(p @ u16_be w @ q) ! Suc (length p) = ucast w"
  by (simp_all add: u16_be_def nth_append)

lemma peer_info_parsed:
  assumes "ip_wf (ad_ip p)"
  shows "parse_compact_peer_info (compact_peer_info p) = [wire_peer p]"
proof -
  let ?n = "length (compact_address (ad_ip p))" and ?s = "compact_peer_info p"
  have n: "?n = (if is_v6 (ad_ip p) then 16 else 4)" by (rule compact_address_length [OF assms])
  have len: "length ?s = ?n + 2" by (simp add: compact_peer_info_def)
  have "read_compact_ip ?s 0 ?n = wire_ip (ad_ip p)"
    using read_compact [OF assms, of "[]" "u16_be (ad_port p)"] by (simp add: n compact_peer_info_def)
  moreover have "?s ! ?n = ucast (drop_bit 8 (ad_port p))" "?s ! (?n + 1) = ucast (ad_port p)"
    using u16_after [of "compact_address (ad_ip p)" "ad_port p" "[]"] by (simp_all add: compact_peer_info_def)
  ultimately have "peer_records ?n ?s = [wire_peer p]"
    by (simp add: peer_records.simps [of ?n ?s] len peer_records.simps [of _ "[]"] wire_peer_def)
  then show ?thesis using n len by (auto simp: parse_compact_peer_info_def split: if_splits)
qed

lemma node_info_step:
  assumes "node_wf n" "is_v6 (kn_ip n) = v"
  defines "alen \<equiv> if v then 16 else 4"
  shows "node_records alen (compact_node_info n @ r) = wire_node n # node_records alen r"
    "length (compact_node_info n) = 20 + alen + 2"
proof -
  let ?a = "compact_address (kn_ip n)" and ?s = "compact_node_info n @ r"
  have wf: "length (kn_id n) = 20" "ip_wf (kn_ip n)" using assms(1) by (simp_all add: node_wf_def id_wf_def kIdSize_def)
  have a: "length ?a = alen" using compact_address_length [OF wf(2)] assms(2) by (simp add: alen_def)
  show len: "length (compact_node_info n) = 20 + alen + 2" by (simp add: compact_node_info_def wf a)
  have "read_compact_ip ?s 20 alen = wire_ip (kn_ip n)"
    using read_compact [OF wf(2), of "kn_id n" "u16_be (kn_port n) @ r"] wf(1) assms(2)
    by (simp add: alen_def compact_node_info_def)
  moreover have "?s ! (20 + alen) = ucast (drop_bit 8 (kn_port n))" "?s ! (20 + alen + 1) = ucast (kn_port n)"
    using u16_after [of "kn_id n @ ?a" "kn_port n" r] by (simp_all add: compact_node_info_def a wf)
  moreover have "take 20 ?s = kn_id n" using wf(1) by (simp add: compact_node_info_def)
  moreover have "drop (20 + alen + 2) ?s = r" "?s \<noteq> []" using len by auto
  ultimately show "node_records alen ?s = wire_node n # node_records alen r"
    by (subst node_records.simps) (simp add: wire_node_def)
qed

lemma node_info_parsed:
  assumes "list_all node_wf ns" "list_all (\<lambda>n. is_v6 (kn_ip n) = v) ns"
  shows "parse_compact_node_info (concat (map compact_node_info ns)) v = map wire_node ns"
proof -
  let ?alen = "if v then 16 else 4 :: nat"
  have "length (concat (map compact_node_info ns)) mod (20 + ?alen + 2) = 0 \<and>
      node_records ?alen (concat (map compact_node_info ns)) = map wire_node ns"
    using assms
  proof (induction ns)
    case Nil
    then show ?case by (simp add: node_records.simps)
  next
    case (Cons n ns)
    have n: "node_wf n" "is_v6 (kn_ip n) = v" using Cons.prems by simp_all
    note s = node_info_step [OF n]
    have "length (concat (map compact_node_info (n # ns)))
        = (20 + ?alen + 2) + length (concat (map compact_node_info ns))"
      using s(2) by simp
    with Cons s(1) [of "concat (map compact_node_info ns)"] show ?case
      by (simp del: length_concat add: mod_add_self1)
  qed
  then show ?thesis by (simp add: parse_compact_node_info_def Let_def del: length_concat)
qed

text \<open>A value the decoder reads back: well formed and at most \<open>n\<close> levels deep.\<close>

definition sendable :: "nat \<Rightarrow> bvalue \<Rightarrow> bool" where
  "sendable n v \<longleftrightarrow> bv_wf v \<and> bv_levels v \<le> n"

lemma sendable_leaf [simp]: "sendable (Suc n) (BStr s)" "sendable (Suc n) (BInt i)"
  by (simp_all add: sendable_def)

lemma sendable_list [simp]: "sendable (Suc n) (BList vs) \<longleftrightarrow> list_all (sendable n) vs"
  by (auto simp: sendable_def foldr_max_le list_all_iff)

lemma sendable_empty [simp]: "sendable (Suc n) (BDict [])"
  by (simp add: sendable_def)

lemma sendable_put [simp]:
  "sendable (Suc n) (BDict d) \<Longrightarrow> sendable n x \<Longrightarrow> sendable (Suc n) (BDict (dict_put k x d))"
  using dict_put_levels [of d n x k] dict_put_wf [of d x k]
  by (simp add: sendable_def del: bv_wf.simps bv_levels.simps)

lemma args_sendable: "sendable 3 (BDict (encode_query_args m))"
  by (simp add: encode_query_args_def Let_def numeral_3_eq_3 list_all_iff del: dict_put_Nil split: query_type.split)

lemma body_sendable: "sendable 3 (BDict (encode_response_body m))"
  by (simp add: encode_response_body_def Let_def numeral_3_eq_3 list_all_iff del: dict_put_Nil)

lemma root_sendable:
  "sendable 4 (case km_type m of K_Query \<Rightarrow> encode_query m | K_Response \<Rightarrow> encode_response m | K_Error \<Rightarrow> encode_error m)"
  using args_sendable [of m] body_sendable [of m]
  by (simp add: encode_query_def encode_response_def encode_error_def Let_def eval_nat_numeral
      del: dict_put_Nil split: krpc_type.split)

lemma sent_root:
  "decode_full (krpc_encode_message m) =
     Got (case km_type m of K_Query \<Rightarrow> encode_query m | K_Response \<Rightarrow> encode_response m | K_Error \<Rightarrow> encode_error m) []"
proof -
  let ?v = "case km_type m of K_Query \<Rightarrow> encode_query m | K_Response \<Rightarrow> encode_response m | K_Error \<Rightarrow> encode_error m"
  have "bv_wf ?v" "bv_levels ?v \<le> kMaxDepth + 1"
    using root_sendable [of m] by (auto simp: sendable_def kMaxDepth_def)
  from parse_encode [OF this, of "[]"] show ?thesis by (simp add: decode_full_def krpc_encode_message_def)
qed

lemma ip_wf_none: "ip_wf ip \<Longrightarrow> is_unspecified ip \<Longrightarrow> ip = ip_none"
  by (cases ip) (simp add: ip_wf_def is_unspecified_def ip_size_def ip_none_def)

lemma wire_node_v6: "list_all (\<lambda>n. is_v6 (kn_ip n)) ns \<Longrightarrow> map wire_node ns = ns"
  by (induction ns) (auto simp: wire_node_def wire_ip_def is_v6_def is_unspecified_def)

lemma widened_back: "ucast (ucast (w :: u16) :: u64) = w" "ucast (scast (c :: u32) :: u64) = c"
  by (rule bit_word_eqI, auto simp: bit_simps)+

lemma query_received:
  assumes "krpc_wf m" "km_type m = K_Query"
  shows "decode_query (encode_query m) = Some (as_received m)"
  using assms
  by (simp add: decode_query_def encode_query_def encode_query_args_def decode_args_def string_at_def field_or_def
      id_field_def as_received_def krpc_wf_def Let_def krpc_blank_def widened_back del: dict_put_Nil split: query_type.split)

lemma error_received:
  assumes "km_type m = K_Error"
  shows "decode_error (encode_error m) = Some (as_received m)"
  using assms
  by (simp add: decode_error_def encode_error_def string_at_def as_received_def widened_back del: dict_put_Nil)

lemma peers_parsed:
  "list_all (\<lambda>p. ip_wf (ad_ip p)) ps \<Longrightarrow> concat (map (parse_compact_peer_info \<circ> compact_peer_info) ps) = map wire_peer ps"
  by (induction ps) (simp_all add: peer_info_parsed)

lemma nodes_field:
  fixes v ns
  defines "c \<equiv> concat (map compact_node_info ns)"
  assumes "list_all node_wf ns" "list_all (\<lambda>n. is_v6 (kn_ip n) = v) ns"
  shows "(if c \<noteq> [] then parse_compact_node_info c v else []) = map wire_node ns"
proof (cases "c = []")
  case True
  moreover have "compact_node_info n \<noteq> []" for n by (simp add: compact_node_info_def u16_be_def)
  ultimately show ?thesis by (cases ns) (simp_all add: c_def)
qed (use node_info_parsed [OF assms(2,3)] in \<open>simp add: c_def\<close>)

lemma response_received:
  assumes "krpc_wf m" "km_type m = K_Response"
  shows "decode_response (encode_response m) = Some (as_received m)"
proof -
  let ?four = "filter (\<lambda>n. \<not> is_v6 (kn_ip n)) (km_nodes m)" and ?six = "filter (\<lambda>n. is_v6 (kn_ip n)) (km_nodes m)"
  let ?c4 = "concat (map compact_node_info ?four)" and ?c6 = "concat (map compact_node_info ?six)"
  have wf: "id_wf (km_response_id m)" "list_all node_wf ?four" "list_all node_wf ?six"
    "list_all (\<lambda>p. ip_wf (ad_ip p)) (km_peers m)" "ip_wf (km_ext_ip m)"
    using assms(1) by (auto simp: krpc_wf_def list_all_iff)
  have n4: "(if ?c4 \<noteq> [] then parse_compact_node_info ?c4 False else []) = map wire_node ?four"
    by (rule nodes_field [OF wf(2)]) (simp add: list_all_iff)
  have n6: "(if ?c6 \<noteq> [] then parse_compact_node_info ?c6 True else []) = map wire_node ?six"
    by (rule nodes_field [OF wf(3)]) (simp add: list_all_iff)
  have six: "map wire_node ?six = ?six" by (rule wire_node_v6) (simp add: list_all_iff)
  define c4 c6 where "c4 = ?c4" "c6 = ?c6"
  define b where "b = BDict (encode_response_body m)"
  have b: "string_at (str ''id'') b = Some (km_response_id m)"
    "bv_find (str ''nodes'') b = (if c4 \<noteq> [] then Some (BStr c4) else None)"
    "bv_find (str ''nodes6'') b = (if c6 \<noteq> [] then Some (BStr c6) else None)"
    "bv_find (str ''values'') b = (if km_peers m \<noteq> [] then Some (BList (map (\<lambda>p. BStr (compact_peer_info p)) (km_peers m))) else None)"
    "bv_find (str ''token'') b = (if km_token m \<noteq> [] then Some (BStr (km_token m)) else None)"
    "as_dict b = Some (encode_response_body m)"
    by (simp_all add: b_def encode_response_body_def string_at_def Let_def c4_c6_def del: dict_put_Nil)
  have root: "bv_find (str ''r'') (encode_response m) = Some b" "string_at (str ''t'') (encode_response m) = Some (km_txn m)"
    "bv_find (str ''ip'') (encode_response m) = (if is_unspecified (km_ext_ip m) then None
       else Some (BStr (compact_peer_info \<lparr>ad_ip = km_ext_ip m, ad_port = km_ext_port m\<rparr>)))"
    by (simp_all add: encode_response_def string_at_def Let_def b_def compact_peer_info_def u16_be_def del: dict_put_Nil)
  have ext: "parse_compact_peer_info (compact_peer_info \<lparr>ad_ip = km_ext_ip m, ad_port = km_ext_port m\<rparr>)
      = [wire_peer \<lparr>ad_ip = km_ext_ip m, ad_port = km_ext_port m\<rparr>]"
    by (rule peer_info_parsed) (simp add: wf)
  have "decode_response (encode_response m) = Some
    (krpc_blank\<lparr>km_type := K_Response, km_txn := km_txn m, km_response_id := km_response_id m,
       km_nodes := (if c4 \<noteq> [] then parse_compact_node_info c4 False else []) @ (if c6 \<noteq> [] then parse_compact_node_info c6 True else []),
       km_peers := map wire_peer (km_peers m), km_token := km_token m, km_ext_ip := km_ext_ip m,
            km_ext_port := (if is_unspecified (km_ext_ip m) then 0 else km_ext_port m)\<rparr>)"
    using wf ip_wf_none [OF wf(5), THEN sym]
    by (simp add: decode_response_def root b field_or_def ext wire_peer_def wire_ip_def peers_parsed krpc_blank_def)
  then show ?thesis
    unfolding c4_c6_def n4 n6 six using assms(2) by (simp add: as_received_def)
qed

lemma message_received:
  assumes "krpc_wf m"
  shows "krpc_decode_message (krpc_encode_message m) = Some (as_received m)"
proof -
  have "string_at (str ''t'') (encode_query m) = Some (km_txn m)" "string_at (str ''y'') (encode_query m) = Some (str ''q'')"
    "string_at (str ''t'') (encode_response m) = Some (km_txn m)" "string_at (str ''y'') (encode_response m) = Some (str ''r'')"
    "string_at (str ''t'') (encode_error m) = Some (km_txn m)" "string_at (str ''y'') (encode_error m) = Some (str ''e'')"
    by (simp_all add: encode_query_def encode_response_def encode_error_def string_at_def Let_def del: dict_put_Nil)
  moreover have "as_dict (encode_query m) \<noteq> None" "as_dict (encode_response m) \<noteq> None" "as_dict (encode_error m) \<noteq> None"
    by (simp_all add: encode_query_def encode_response_def encode_error_def as_dict_def Let_def)
  ultimately show ?thesis
    using query_received [OF assms] response_received [OF assms] error_received [of m]
    by (cases "km_type m") (auto simp: krpc_decode_message_def sent_root)
qed

subsection \<open>What the decoder accepts\<close>

lemma string_to_node_id_wf [simp]: "id_wf (string_to_node_id s)" "id_wf id_zero"
  by (simp_all add: string_to_node_id_def id_wf_def kIdSize_def id_zero_def)

lemma ip_none_wf [simp]: "ip_wf ip_none" "is_unspecified ip_none"
  by (simp_all add: ip_wf_def ip_none_def ip_size_def is_unspecified_def)

lemma read_compact_family:
  assumes "alen = (if v then 16 else 4)" "off + alen \<le> length s"
  defines "ip \<equiv> read_compact_ip s off alen"
  shows "ip_wf ip" "\<not> is_unspecified ip" "is_v6 ip = v"
proof -
  have len: "length (take alen (drop off s)) = alen" using assms(2) by simp
  then obtain a where a: "ip_from_bytes (take alen (drop off s)) = Some a" "ip = a" "is_v6 a = v"
    using assms(1) by (auto simp: ip_def read_compact_ip_def ip_from_bytes_def is_v6_def from_v4_def from_v6_def split: if_splits)
  with ip_from_bytes_wf [OF a(1)] show "ip_wf ip" "\<not> is_unspecified ip" "is_v6 ip = v" by simp_all
qed

lemma peer_records_wf:
  "alen = (if v then 16 else 4) \<Longrightarrow> list_all (\<lambda>p. ip_wf (ad_ip p) \<and> \<not> is_unspecified (ad_ip p)) (peer_records alen s)"
proof (induction alen s rule: peer_records.induct)
  case (1 alen s)
  then show ?case
    using read_compact_family [of alen v 0 s] by (subst peer_records.simps) auto
qed

lemma parse_compact_peer_info_wf:
  "list_all (\<lambda>p. ip_wf (ad_ip p) \<and> \<not> is_unspecified (ad_ip p)) (parse_compact_peer_info s)"
  using peer_records_wf [of 16 True s] peer_records_wf [of 4 False s]
  by (auto simp: parse_compact_peer_info_def)

lemma node_records_wf:
  "alen = (if v then 16 else 4) \<Longrightarrow> length s mod (20 + alen + 2) = 0 \<Longrightarrow>
     list_all (\<lambda>n. node_wf n \<and> \<not> is_unspecified (kn_ip n) \<and> is_v6 (kn_ip n) = v) (node_records alen s)"
proof (induction alen s rule: node_records.induct)
  case (1 alen s)
  show ?case
  proof (cases "s = []")
    case True
    then show ?thesis by (simp add: node_records.simps)
  next
    case False
    then have len: "20 + alen + 2 \<le> length s"
      using 1(3) by (metis length_greater_0_conv mod_less not_less neq0_conv)
    then have "length (drop (20 + alen + 2) s) mod (20 + alen + 2) = 0"
      using 1(3) by (metis length_drop le_mod_geq not_less)
    moreover have "node_wf \<lparr>kn_id = take 20 s, kn_ip = read_compact_ip s 20 alen, kn_port = p\<rparr>" for p
      using read_compact_family(1) [of alen v 20 s] 1(2) len by (simp add: node_wf_def id_wf_def kIdSize_def)
    ultimately show ?thesis
      using read_compact_family(2,3) [of alen v 20 s] 1(1) [OF False 1(2)] 1(2) len False
      by (subst node_records.simps) simp
  qed
qed

lemma parse_compact_node_info_wf:
  "list_all (\<lambda>n. node_wf n \<and> \<not> is_unspecified (kn_ip n) \<and> is_v6 (kn_ip n) = v) (parse_compact_node_info s v)"
  using node_records_wf [of 16 True s] node_records_wf [of 4 False s]
  by (cases v) (auto simp: parse_compact_node_info_def Let_def)

lemma id_field_wf: "field_or id_zero k id_field v = Some i \<Longrightarrow> id_wf i"
  by (auto simp: field_or_def id_field_def split: option.splits)

text \<open>A message on which \<open>as_received\<close> changes nothing.\<close>

lemma query_decoded:
  assumes "decode_query v = Some m" shows "krpc_wf m \<and> as_received m = m"
proof -
  from assms obtain t q s w args where m: "decode_args (krpc_blank\<lparr>km_type := K_Query, km_txn := t,
      km_query := string_to_query_type q, km_sender := string_to_node_id s, km_want := w\<rparr>) args = Some m"
    by (auto simp: decode_query_def bind_eq_Some_conv)
  show ?thesis
    using m by (cases "string_to_query_type q")
      (auto simp: decode_args_def bind_eq_Some_conv krpc_blank_def krpc_wf_def as_received_def dest!: id_field_wf)
qed

lemma error_decoded:
  assumes "decode_error v = Some m" shows "krpc_wf m \<and> as_received m = m"
  using assms by (auto simp: decode_error_def bind_eq_Some_conv krpc_blank_def krpc_wf_def as_received_def split: if_splits)

lemma wired_fix:
  "list_all (\<lambda>n. node_wf n \<and> \<not> is_unspecified (kn_ip n) \<and> \<not> is_v6 (kn_ip n)) ns \<Longrightarrow>
     map wire_node (filter (\<lambda>n. \<not> is_v6 (kn_ip n)) ns) = ns \<and> filter (\<lambda>n. is_v6 (kn_ip n)) ns = [] \<and> list_all node_wf ns"
  "list_all (\<lambda>n. node_wf n \<and> \<not> is_unspecified (kn_ip n) \<and> is_v6 (kn_ip n)) ns \<Longrightarrow>
     filter (\<lambda>n. \<not> is_v6 (kn_ip n)) ns = [] \<and> filter (\<lambda>n. is_v6 (kn_ip n)) ns = ns \<and> list_all node_wf ns"
  "list_all (\<lambda>p. ip_wf (ad_ip p) \<and> \<not> is_unspecified (ad_ip p)) ps \<Longrightarrow> map wire_peer ps = ps"
  by (induction ns) (auto simp: wire_node_def wire_ip_def, induction ps, auto simp: wire_peer_def wire_ip_def)

lemma field_or_parsed:
  "field_or [] k (\<lambda>v. map_option f (as_string v)) r = Some ns \<Longrightarrow> ns = [] \<or> (\<exists>s. ns = f s)"
  by (auto simp: field_or_def split: option.splits)

lemma response_decoded:
  assumes "decode_response v = Some m" shows "krpc_wf m \<and> as_received m = m"
proof -
  from assms obtain t rid r ns4 ns6 vals token es where
    four: "field_or [] (str ''nodes'') (\<lambda>v. map_option (\<lambda>s. parse_compact_node_info s False) (as_string v)) r = Some ns4"
    and six: "field_or [] (str ''nodes6'') (\<lambda>v. map_option (\<lambda>s. parse_compact_node_info s True) (as_string v)) r = Some ns6"
    and es: "field_or [] (str ''ip'') (\<lambda>v. map_option parse_compact_peer_info (as_string v)) v = Some es"
    and m: "(let m = krpc_blank\<lparr>km_type := K_Response, km_txn := t, km_response_id := string_to_node_id rid,
       km_nodes := ns4 @ ns6, km_peers := concat (map parse_compact_peer_info vals), km_token := token\<rparr>
       in Some (case es of [] \<Rightarrow> m | e # _ \<Rightarrow> m\<lparr>km_ext_ip := ad_ip e, km_ext_port := ad_port e\<rparr>)) = Some m"
    unfolding decode_response_def bind_eq_Some_conv by blast
  have n: "list_all (\<lambda>n. node_wf n \<and> \<not> is_unspecified (kn_ip n) \<and> \<not> is_v6 (kn_ip n)) ns4"
    "list_all (\<lambda>n. node_wf n \<and> \<not> is_unspecified (kn_ip n) \<and> is_v6 (kn_ip n)) ns6"
    using field_or_parsed [OF four] field_or_parsed [OF six] parse_compact_node_info_wf [of False] parse_compact_node_info_wf [of True]
    by auto
  have e: "list_all (\<lambda>p. ip_wf (ad_ip p) \<and> \<not> is_unspecified (ad_ip p)) es"
    using field_or_parsed [OF es] parse_compact_peer_info_wf by auto
  have p: "list_all (\<lambda>p. ip_wf (ad_ip p) \<and> \<not> is_unspecified (ad_ip p)) (concat (map parse_compact_peer_info vals))"
    using parse_compact_peer_info_wf by (induction vals) auto
  then have "list_all (\<lambda>p. ip_wf (ad_ip p)) (concat (map parse_compact_peer_info vals))" by (simp add: list_all_iff)
  with e wired_fix(1) [OF n(1)] wired_fix(2) [OF n(2)] wired_fix(3) [OF p] show ?thesis
    using m by (cases es) (auto simp: krpc_blank_def krpc_wf_def as_received_def)
qed

lemma message_decoded:
  assumes "krpc_decode_message data = Some m" shows "krpc_wf m \<and> as_received m = m"
  using assms query_decoded response_decoded error_decoded
  by (auto simp: krpc_decode_message_def bind_eq_Some_conv split: parsed.splits if_splits)

text \<open>
  C38: the wire carries messages faithfully in both directions. Encoding any well-formed message
  and decoding the result yields its wire form: exactly the fields its kind of message has, IPv4
  contacts before IPv6 ones and an unspecified address as 0.0.0.0. And whatever datagram the
  decoder accepts yields a message with 20-byte identifiers and valid addresses, which encodes
  and decodes to itself.
\<close>

theorem krpc_roundtrip:
  "(krpc_wf m \<longrightarrow> krpc_decode_message (krpc_encode_message m) = Some (as_received m)) \<and>
   (krpc_decode_message data = Some m \<longrightarrow> krpc_wf m \<and> krpc_decode_message (krpc_encode_message m) = Some m)"
  using message_received [of m] message_decoded [of data m] by auto

theorem krpc_roundtrip_witness:
  defines "m \<equiv> create_find_node_response [1, 2] id_zero
    [\<lparr>kn_id = replicate 20 7, kn_ip = from_v6 (replicate 16 9), kn_port = 6881\<rparr>,
     \<lparr>kn_id = replicate 20 5, kn_ip = from_v4 [1, 2, 3, 4], kn_port = 80\<rparr>]"
  shows "krpc_decode_message (krpc_encode_message m) = Some (m\<lparr>km_nodes := rev (km_nodes m)\<rparr>) \<and>
    (\<exists>data. krpc_decode_message data = Some (create_ping_query [0, 0] id_zero) \<and>
      krpc_decode_message (krpc_encode_message (create_ping_query [0, 0] id_zero)) = Some (create_ping_query [0, 0] id_zero))"
proof -
  have wf: "krpc_wf m" "krpc_wf (create_ping_query [0, 0] id_zero)"
    by (simp_all add: m_def krpc_wf_def create_find_node_response_def create_ping_query_def krpc_blank_def node_wf_def
        id_wf_def kIdSize_def id_zero_def ip_wf_from)
  have "as_received m = m\<lparr>km_nodes := rev (km_nodes m)\<rparr>"
    by (simp add: m_def as_received_def create_find_node_response_def krpc_blank_def is_v6_def from_v4_def from_v6_def
        wire_node_def wire_ip_def is_unspecified_def ip_none_def)
  moreover have "as_received (create_ping_query [0, 0] id_zero) = create_ping_query [0, 0] id_zero"
    by (simp add: as_received_def create_ping_query_def krpc_blank_def)
  moreover note krpc_roundtrip [of m] krpc_roundtrip [of "create_ping_query [0, 0] id_zero" "krpc_encode_message (create_ping_query [0, 0] id_zero)"]
  ultimately show ?thesis using wf by metis
qed

end
