(* ===== verification/Sha1.thy ===== *)
theory Sha1
  imports Peer_Id
begin

text \<open>
  SHA-1 as \<open>src/librats/crypto/sha1.h\<close> and \<open>sha1.cpp\<close> compute it, one byte at a time, with the
  padding fed through \<open>update\<close>. The reference is FIPS 180-4.
\<close>

subsection \<open>The hasher\<close>

type_synonym sha1_regs = "u32 \<times> u32 \<times> u32 \<times> u32 \<times> u32"

record sha1_state =
  s1_h :: sha1_regs
  s1_buffer :: bytes
  s1_buffer_length :: nat
  s1_total_length :: u64
  s1_finalized :: bool

definition sha1_iv :: sha1_regs where
  "sha1_iv = (0x67452301, 0xEFCDAB89, 0x98BADCFE, 0x10325476, 0xC3D2E1F0)"

definition sha1_new :: sha1_state where
  "sha1_new = \<lparr>s1_h = sha1_iv, s1_buffer = replicate 64 0, s1_buffer_length = 0, s1_total_length = 0, s1_finalized = False\<rparr>"

definition left_rotate :: "u32 \<Rightarrow> nat \<Rightarrow> u32" where
  "left_rotate value amount = push_bit amount value OR drop_bit (32 - amount) value"

definition sha1_next_word :: "u32 list \<Rightarrow> u32" where
  "sha1_next_word w =
     (let i = length w in
      left_rotate (w ! (i - 3) XOR w ! (i - 8) XOR w ! (i - 14) XOR w ! (i - 16)) 1)"

definition sha1_schedule :: "bytes \<Rightarrow> u32 list" where
  "sha1_schedule m = ((\<lambda>w. w @ [sha1_next_word w]) ^^ 64) (sha256_words m)"

definition sha1_step :: "u32 list \<Rightarrow> sha1_regs \<Rightarrow> nat \<Rightarrow> sha1_regs" where
  "sha1_step w r i =
     (case r of (a, b, c, d, e) \<Rightarrow>
       let (f, k) =
             (if i < 20 then ((b AND c) OR (NOT b AND d), 0x5A827999)
              else if i < 40 then (b XOR c XOR d, 0x6ED9EBA1)
              else if i < 60 then ((b AND c) OR (b AND d) OR (c AND d), 0x8F1BBCDC)
              else (b XOR c XOR d, 0xCA62C1D6));
           temp = left_rotate a 5 + f + e + k + w ! i
       in (temp, a, left_rotate b 30, c, d))"

definition sha1_process_block :: "sha1_regs \<Rightarrow> bytes \<Rightarrow> sha1_regs" where
  "sha1_process_block hs m =
     (case (hs, foldl (sha1_step (sha1_schedule m)) hs [0..<80]) of
        ((h0, h1, h2, h3, h4), (a, b, c, d, e)) \<Rightarrow> (h0 + a, h1 + b, h2 + c, h3 + d, h4 + e))"

definition sha1_update_byte :: "sha1_state \<Rightarrow> byte \<Rightarrow> sha1_state" where
  "sha1_update_byte s x =
     (if s1_finalized s then s
      else
        let m = (s1_buffer s)[s1_buffer_length s := x];
            n = s1_buffer_length s + 1;
            t = s1_total_length s + 1
        in if n = 64
           then s\<lparr>s1_buffer := m, s1_buffer_length := 0, s1_total_length := t, s1_h := sha1_process_block (s1_h s) m\<rparr>
           else s\<lparr>s1_buffer := m, s1_buffer_length := n, s1_total_length := t\<rparr>)"

definition sha1_update :: "sha1_state \<Rightarrow> bytes \<Rightarrow> sha1_state" where
  "sha1_update s data = foldl sha1_update_byte s data"

text \<open>
  The padding loop runs until the buffer holds 56 bytes. Its fuel is 64, one turn for every
  position of the buffer; running out of it is \<open>None\<close>.
\<close>

fun sha1_zero_fill :: "nat \<Rightarrow> sha1_state \<Rightarrow> sha1_state option" where
  "sha1_zero_fill 0 s = (if s1_buffer_length s = 56 then Some s else None)"
| "sha1_zero_fill (Suc n) s = (if s1_buffer_length s = 56 then Some s else sha1_zero_fill n (sha1_update_byte s 0))"

definition sha1_bit_length :: "u64 \<Rightarrow> bytes" where
  "sha1_bit_length b = map (\<lambda>i. ucast (drop_bit (i * 8) b)) [7, 6, 5, 4, 3, 2, 1, 0]"

definition sha1_pad :: "sha1_state \<Rightarrow> sha1_state option" where
  "sha1_pad s =
     (let bit_length = s1_total_length s * 8
      in case sha1_zero_fill 64 (sha1_update_byte s 0x80) of
           None \<Rightarrow> None
         | Some s1 \<Rightarrow> Some ((foldl sha1_update_byte s1 (sha1_bit_length bit_length))\<lparr>s1_finalized := True\<rparr>))"

definition sha1_finalize_bytes :: "sha1_state \<Rightarrow> (bytes \<times> sha1_state) option" where
  "sha1_finalize_bytes s =
     (case (if s1_finalized s then Some s else sha1_pad s) of
        None \<Rightarrow> None
      | Some s1 \<Rightarrow> Some (case s1_h s1 of (h0, h1, h2, h3, h4) \<Rightarrow> concat (map u32_be [h0, h1, h2, h3, h4]), s1))"

definition sha1_hex_word :: "u32 \<Rightarrow> bytes" where
  "sha1_hex_word w = concat (map hex_byte (u32_be w))"

definition sha1_finalize :: "sha1_state \<Rightarrow> (bytes \<times> sha1_state) option" where
  "sha1_finalize s =
     (if s1_finalized s then Some ([], s)
      else case sha1_pad s of
        None \<Rightarrow> None
      | Some s1 \<Rightarrow> Some (case s1_h s1 of (h0, h1, h2, h3, h4) \<Rightarrow> concat (map sha1_hex_word [h0, h1, h2, h3, h4]), s1))"

definition sha1_hash_raw :: "bytes \<Rightarrow> bytes option" where
  "sha1_hash_raw data = map_option fst (sha1_finalize_bytes (sha1_update sha1_new data))"

definition sha1_hash :: "bytes \<Rightarrow> bytes option" where
  "sha1_hash input = map_option fst (sha1_finalize (sha1_update sha1_new input))"

subsection \<open>Streaming\<close>

definition sha1_valid :: "sha1_state \<Rightarrow> bool" where
  "sha1_valid s \<longleftrightarrow> length (s1_buffer s) = 64 \<and> s1_buffer_length s < 64 \<and> \<not> s1_finalized s"

definition sha1_pending :: "sha1_state \<Rightarrow> bytes" where
  "sha1_pending s = take (s1_buffer_length s) (s1_buffer s)"

definition sha1_bits :: "sha1_state \<Rightarrow> u64" where
  "sha1_bits s = s1_total_length s * 8"

lemma update_byte_sound:
  assumes "sha1_valid s"
  shows "sha1_valid (sha1_update_byte s x)"
    "(s1_h (sha1_update_byte s x), sha1_pending (sha1_update_byte s x)) = absorb sha1_process_block (s1_h s) (sha1_pending s @ [x])"
    "sha1_bits (sha1_update_byte s x) = sha1_bits s + 8"
proof -
  let ?n = "s1_buffer_length s" and ?m = "(s1_buffer s)[s1_buffer_length s := x]"
  have v: "length (s1_buffer s) = 64" "?n < 64" "\<not> s1_finalized s" using assms by (simp_all add: sha1_valid_def)
  show "sha1_valid (sha1_update_byte s x)" "sha1_bits (sha1_update_byte s x) = sha1_bits s + 8"
    using v by (simp_all add: sha1_update_byte_def sha1_valid_def sha1_bits_def Let_def algebra_simps)
  have m: "take (Suc ?n) ?m = sha1_pending s @ [x]"
    using v by (simp add: take_Suc_conv_app_nth sha1_pending_def)
  show "(s1_h (sha1_update_byte s x), sha1_pending (sha1_update_byte s x)) = absorb sha1_process_block (s1_h s) (sha1_pending s @ [x])"
  proof (cases "Suc ?n = 64")
    case True
    then have "sha1_pending s @ [x] = ?m" using m v by simp
    moreover have "absorb sha1_process_block (s1_h s) (?m @ []) = (sha1_process_block (s1_h s) ?m, [])"
      using v by (subst absorb_block) simp_all
    ultimately show ?thesis using True v by (simp add: sha1_update_byte_def Let_def sha1_pending_def)
  next
    case False
    then have "length (sha1_pending s @ [x]) < 64" using v by (simp add: sha1_pending_def)
    with False m v show ?thesis by (simp add: sha1_update_byte_def Let_def) (simp add: sha1_pending_def)
  qed
qed

lemma update_bytes_sound:
  "sha1_valid s \<Longrightarrow> sha1_valid (sha1_update s d) \<and>
     (s1_h (sha1_update s d), sha1_pending (sha1_update s d)) = absorb sha1_process_block (s1_h s) (sha1_pending s @ d) \<and>
     sha1_bits (sha1_update s d) = sha1_bits s + of_nat (8 * length d)"
proof (induction d arbitrary: s)
  case Nil
  then show ?case by (simp add: sha1_update_def sha1_valid_def sha1_pending_def)
next
  case (Cons x d)
  note u = update_byte_sound [OF Cons.prems, of x]
  have "absorb sha1_process_block (s1_h s) ((sha1_pending s @ [x]) @ d) =
      absorb sha1_process_block (s1_h (sha1_update_byte s x)) (sha1_pending (sha1_update_byte s x) @ d)"
    unfolding absorb_append [of _ _ "sha1_pending s @ [x]"] u(2) [symmetric] by simp
  with Cons.IH [OF u(1)] u(3) show ?case by (simp add: sha1_update_def algebra_simps)
qed

lemma new_fields [simp]:
  "sha1_valid sha1_new" "sha1_pending sha1_new = []" "sha1_bits sha1_new = 0" "s1_h sha1_new = sha1_iv"
  by (simp_all add: sha1_new_def sha1_valid_def sha1_pending_def sha1_bits_def)

interpretation sha_one: stream_hash sha1_valid s1_h sha1_pending sha1_bits sha1_update sha1_process_block "\<lambda>s. s = sha1_new"
proof
  show "length (sha1_pending c) < 64" if "sha1_valid c" for c
    using that by (simp add: sha1_valid_def sha1_pending_def)
qed (use update_bytes_sound in auto)

subsection \<open>Padding\<close>

lemma zero_fill:
  assumes "sha1_valid s" "(s1_buffer_length s + k) mod 64 = 56" "k \<le> n" "\<And>j. j < k \<Longrightarrow> (s1_buffer_length s + j) mod 64 \<noteq> 56"
  shows "sha1_zero_fill n s = Some (sha1_update s (replicate k 0)) \<and> s1_buffer_length (sha1_update s (replicate k 0)) = 56"
  using assms
proof (induction k arbitrary: n s)
  case 0
  then show ?case by (cases n) (simp_all add: sha1_update_def sha1_valid_def)
next
  case (Suc k)
  obtain n' where n: "n = Suc n'" "k \<le> n'" using Suc.prems(3) by (cases n) auto
  let ?s = "sha1_update_byte s 0"
  have ne: "s1_buffer_length s \<noteq> 56" using Suc.prems(4) [of 0] Suc.prems(1) by (simp add: sha1_valid_def)
  have len: "s1_buffer_length ?s = Suc (s1_buffer_length s) mod 64"
    using Suc.prems(1) by (simp add: sha1_update_byte_def sha1_valid_def Let_def)
  have shift: "(s1_buffer_length ?s + j) mod 64 = (s1_buffer_length s + Suc j) mod 64" for j
    by (simp add: len mod_simps)
  have "(s1_buffer_length ?s + j) mod 64 \<noteq> 56" if "j < k" for j
    using Suc.prems(4) [of "Suc j"] that by (simp add: shift)
  from Suc.IH [OF update_byte_sound(1) [OF Suc.prems(1), of 0] _ n(2) this] Suc.prems(2) n ne shift [of k]
  show ?case by (simp add: sha1_update_def)
qed

lemma zeros_reach:
  assumes "p < 64"
  shows "(Suc p + md_zeros p) mod 64 = 56" "\<And>j. j < md_zeros p \<Longrightarrow> (Suc p + j) mod 64 \<noteq> 56"
proof -
  have z: "md_zeros p = (if p \<le> 55 then 55 - p else 119 - p)"
    using assms by (auto simp: md_zeros_def le_mod_geq)
  show "(Suc p + md_zeros p) mod 64 = 56" using assms by (simp add: z)
  show "(Suc p + j) mod 64 \<noteq> 56" if j: "j < md_zeros p" for j
  proof (cases "Suc p + j < 64")
    case False
    have "Suc p + j < 120" using j assms by (simp add: z split: if_splits)
    then have "(Suc p + j) mod 64 = Suc p + j - 64" using False by (simp add: le_mod_geq)
    with j False assms show ?thesis by (simp add: z split: if_splits)
  qed (use j in \<open>simp add: z split: if_splits\<close>)
qed

lemma bit_length_bytes: "sha1_bit_length b = md_length b"
proof -
  have "ucast (drop_bit k b) = (ucast (drop_bit k (ucast b :: u32)) :: byte)" if "k \<le> 24" for k
    using that by (intro bit_word_eqI) (auto simp: bit_ucast_iff bit_drop_bit_eq)
  moreover have "ucast (drop_bit (32 + k) b) = (ucast (drop_bit k (ucast (drop_bit 32 b) :: u32)) :: byte)" if "k \<le> 24" for k
    using that by (intro bit_word_eqI) (auto simp: bit_ucast_iff bit_drop_bit_eq add.assoc)
  from this [of 0] this [of 8] this [of 16] this [of 24] calculation [of 0] calculation [of 8] calculation [of 16] calculation [of 24]
  show ?thesis by (simp add: sha1_bit_length_def md_length_def u32_be_def)
qed

lemma pad_sound:
  assumes "sha1_valid s"
  shows "\<exists>t. sha1_pad s = Some t \<and> s1_finalized t \<and>
    s1_h t = fst (absorb sha1_process_block (s1_h s) (sha1_pending s @ [0x80] @ replicate (md_zeros (length (sha1_pending s))) 0 @ md_length (sha1_bits s)))"
proof -
  let ?p = "s1_buffer_length s" and ?s = "sha1_update_byte s 0x80"
  let ?z = "replicate (md_zeros ?p) (0 :: byte)"
  have p: "?p < 64" "length (sha1_pending s) = ?p" using assms by (simp_all add: sha1_valid_def sha1_pending_def)
  have v: "sha1_valid ?s" by (rule update_byte_sound(1) [OF assms])
  have len: "s1_buffer_length ?s = Suc ?p mod 64" using assms by (simp add: sha1_update_byte_def sha1_valid_def Let_def)
  have "sha1_zero_fill 64 ?s = Some (sha1_update ?s ?z)"
  proof (rule conjunct1 [OF zero_fill [OF v]])
    show "(s1_buffer_length ?s + md_zeros ?p) mod 64 = 56" using zeros_reach(1) [OF p(1)] by (simp add: len mod_simps)
    show "md_zeros ?p \<le> 64" using md_zeros_bound [of ?p] by simp
    show "(s1_buffer_length ?s + j) mod 64 \<noteq> 56" if "j < md_zeros ?p" for j
      using zeros_reach(2) [OF p(1) that] by (simp add: len mod_simps)
  qed
  moreover have "foldl sha1_update_byte (sha1_update ?s ?z) ds = sha1_update s ([0x80] @ ?z @ ds)" for ds
    by (simp add: sha1_update_def)
  ultimately have pad: "sha1_pad s = Some ((sha1_update s ([0x80] @ ?z @ md_length (sha1_bits s)))\<lparr>s1_finalized := True\<rparr>)"
    by (simp add: sha1_pad_def bit_length_bytes sha1_bits_def)
  have "s1_h (sha1_update s d) = fst (absorb sha1_process_block (s1_h s) (sha1_pending s @ d))" for d
    using update_bytes_sound [OF assms, of d] by (metis fst_conv)
  then show ?thesis using pad p(2) by simp
qed

subsection \<open>The standard\<close>

definition fips_f1 :: "nat \<Rightarrow> u32 \<Rightarrow> u32 \<Rightarrow> u32 \<Rightarrow> u32" where
  "fips_f1 t x y z =
     (if t < 20 then fips_Ch x y z else if t < 40 then x XOR y XOR z else if t < 60 then fips_Maj x y z else x XOR y XOR z)"

definition fips_K1 :: "nat \<Rightarrow> u32" where
  "fips_K1 t = (if t < 20 then 0x5A827999 else if t < 40 then 0x6ED9EBA1 else if t < 60 then 0x8F1BBCDC else 0xCA62C1D6)"

fun fips_W1 :: "bytes \<Rightarrow> nat \<Rightarrow> u32" where
  "fips_W1 m t =
     (if t < 16 then sha256_words m ! t
      else word_rotl 1 (fips_W1 m (t - 3) XOR fips_W1 m (t - 8) XOR fips_W1 m (t - 14) XOR fips_W1 m (t - 16)))"

declare fips_W1.simps [simp del]

definition fips_round1 :: "bytes \<Rightarrow> sha1_regs \<Rightarrow> nat \<Rightarrow> sha1_regs" where
  "fips_round1 m r t =
     (case r of (a, b, c, d, e) \<Rightarrow>
        (word_rotl 5 a + fips_f1 t b c d + e + fips_K1 t + fips_W1 m t, a, word_rotl 30 b, c, d))"

definition fips_compress1 :: "sha1_regs \<Rightarrow> bytes \<Rightarrow> sha1_regs" where
  "fips_compress1 hs m =
     (case (hs, foldl (fips_round1 m) hs [0..<80]) of
        ((h0, h1, h2, h3, h4), (a, b, c, d, e)) \<Rightarrow> (h0 + a, h1 + b, h2 + c, h3 + d, h4 + e))"

definition fips_sha1 :: "bytes \<Rightarrow> bytes" where
  "fips_sha1 msg =
     (case md_hash fips_compress1 sha1_iv msg of (h0, h1, h2, h3, h4) \<Rightarrow> concat (map u32_be [h0, h1, h2, h3, h4]))"

lemma left_rotate_rotl: "0 < n \<Longrightarrow> n < 32 \<Longrightarrow> left_rotate v n = word_rotl n v"
proof -
  assume n: "0 < n" "n < 32"
  then have "left_rotate v n = rightRotate v (32 - n)" by (simp add: left_rotate_def rightRotate_def or.commute)
  also have "\<dots> = word_rotr (32 - n) v" using n by (simp add: rightRotate_rotr)
  also have "\<dots> = word_rotl n v"
    using n by (intro bit_word_eqI) (simp add: bit_word_rotr_iff bit_word_rotl_iff)
  finally show ?thesis .
qed

lemma schedule1_prefix:
  "n \<le> 64 \<Longrightarrow> ((\<lambda>w. w @ [sha1_next_word w]) ^^ n) (sha256_words m) = map (fips_W1 m) [0..<16 + n]"
proof (induction n)
  case 0
  show ?case
    by (rule nth_equalityI) (simp_all add: sha256_words_def fips_W1.simps)
next
  case (Suc n)
  have "sha1_next_word (map (fips_W1 m) [0..<16 + n]) = fips_W1 m (16 + n)"
    by (simp add: sha1_next_word_def Let_def left_rotate_rotl fips_W1.simps [of m "16 + n"])
  moreover have "[0..<16 + Suc n] = [0..<16 + n] @ [16 + n]" by (simp only: add_Suc_right upt_Suc_append le0)
  ultimately show ?case using Suc by (simp del: upt_Suc)
qed

lemma choose_or: "(b AND c) OR (NOT b AND d) = fips_Ch b c d"
  by (rule bit_word_eqI) (auto simp: fips_Ch_def bit_or_iff bit_xor_iff bit_and_iff bit_not_iff)

lemma majority_or: "(b AND c) OR (b AND d) OR (c AND d) = fips_Maj b c d"
  by (rule bit_word_eqI) (auto simp: fips_Maj_def bit_or_iff bit_xor_iff bit_and_iff)

lemma process_block_compress: "sha1_process_block hs m = fips_compress1 hs m"
proof -
  have "sha1_step (sha1_schedule m) r t = fips_round1 m r t" if "t < 80" for r t
  proof -
    have "sha1_schedule m ! t = fips_W1 m t"
      using schedule1_prefix [of 64 m] that by (simp add: sha1_schedule_def)
    then show ?thesis
      by (cases r) (simp add: sha1_step_def fips_round1_def Let_def left_rotate_rotl choose_or majority_or fips_f1_def fips_K1_def)
  qed
  then have "foldl (sha1_step (sha1_schedule m)) hs [0..<80] = foldl (fips_round1 m) hs [0..<80]"
    by (intro foldl_cong) simp_all
  then show ?thesis by (simp add: sha1_process_block_def fips_compress1_def)
qed

text \<open>
  Whatever pieces the data arrives in, the padding loop ends and the raw digest is the
  SHA-1 of FIPS 180-4 of the pieces joined together; the textual digest is its hexadecimal form.
\<close>

lemma sha1_exact:
  "\<exists>s. sha1_finalize_bytes (foldl sha1_update sha1_new chunks) = Some (fips_sha1 (concat chunks), s) \<and>
       sha1_finalize (foldl sha1_update sha1_new chunks) = Some (to_hex (fips_sha1 (concat chunks)), s) \<and>
       sha1_finalize_bytes s = Some (fips_sha1 (concat chunks), s) \<and> sha1_finalize s = Some ([], s)"
proof -
  let ?s = "foldl sha1_update sha1_new chunks"
  have v: "sha1_valid ?s" using sha_one.updates [OF refl, of chunks] by simp
  have "sha1_process_block = fips_compress1" by (simp add: fun_eq_iff process_block_compress)
  then obtain t where t: "sha1_pad ?s = Some t" "s1_finalized t" "s1_h t = md_hash fips_compress1 sha1_iv (concat chunks)"
    using pad_sound [OF v] sha_one.padded [OF refl refl, of chunks] by auto
  have nf: "\<not> s1_finalized ?s" using v by (simp add: sha1_valid_def)
  obtain a b c d e where "s1_h t = (a, b, c, d, e)" by (cases "s1_h t")
  then show ?thesis
    using t nf by (intro exI [of _ t]) (auto simp: sha1_finalize_bytes_def sha1_finalize_def fips_sha1_def sha1_hex_word_def to_hex_def)
qed

end
