(* ===== verification/Dht_Storage.thy ===== *)
theory Dht_Storage
  imports Dht_Entry Sha1
begin

text \<open>
  The server side of the DHT (\<open>src/librats/dht/storage.h\<close>, \<open>storage.cpp\<close>): the write tokens that
  prove an announcer can receive at its address, and the table of announced peers. Times are
  readings of the steady clock in milliseconds; the sixteen bytes of a new secret are an argument.
\<close>

subsection \<open>Write tokens\<close>

record token_manager =
  tm_secret :: bytes
  tm_prev :: bytes
  tm_rotated :: int
  tm_init :: bool

definition tm_new :: token_manager where
  "tm_new = \<lparr>tm_secret = replicate 16 0, tm_prev = replicate 16 0, tm_rotated = 0, tm_init = False\<rparr>"

definition kRotateInterval :: int where "kRotateInterval = 300000"

definition maybe_rotate :: "bytes \<Rightarrow> int \<Rightarrow> token_manager \<Rightarrow> token_manager" where
  "maybe_rotate fresh now tm =
     (if \<not> tm_init tm then \<lparr>tm_secret = fresh, tm_prev = fresh, tm_rotated = now, tm_init = True\<rparr>
      else if now - tm_rotated tm \<ge> kRotateInterval
      then tm\<lparr>tm_prev := tm_secret tm, tm_secret := fresh, tm_rotated := now\<rparr>
      else tm)"

definition token_data :: "address \<Rightarrow> node_id \<Rightarrow> bytes \<Rightarrow> bytes" where
  "token_data querier ih secret = secret @ ip_bytes (ad_ip querier) @ ih"

definition token_compute :: "address \<Rightarrow> node_id \<Rightarrow> bytes \<Rightarrow> bytes" where
  "token_compute querier ih secret =
     (case sha1_hash (token_data querier ih secret) of Some t \<Rightarrow> t | None \<Rightarrow> [])"

definition token_generate :: "bytes \<Rightarrow> address \<Rightarrow> node_id \<Rightarrow> int \<Rightarrow> token_manager \<Rightarrow> bytes \<times> token_manager" where
  "token_generate fresh querier ih now tm =
     (let tm1 = maybe_rotate fresh now tm in (token_compute querier ih (tm_secret tm1), tm1))"

definition token_verify ::
  "bytes \<Rightarrow> address \<Rightarrow> node_id \<Rightarrow> bytes \<Rightarrow> int \<Rightarrow> token_manager \<Rightarrow> bool \<times> token_manager" where
  "token_verify fresh querier ih token now tm =
     (if token = [] then (False, tm)
      else let tm1 = maybe_rotate fresh now tm in
        (token = token_compute querier ih (tm_secret tm1) \<or> token = token_compute querier ih (tm_prev tm1), tm1))"

subsection \<open>Announced peers\<close>

type_synonym peer_store = "(node_id \<times> (address \<times> int) list) list"

definition kPeerTtl :: int where "kPeerTtl = 1800000"
definition kMaxPeersPerHash :: nat where "kMaxPeersPerHash = 128"

text \<open>\<open>table_[info_hash]\<close> inserts an empty vector for an unknown key.\<close>

definition peers_at :: "node_id \<Rightarrow> peer_store \<Rightarrow> (address \<times> int) list" where
  "peers_at ih ps = (case map_of ps ih of Some v \<Rightarrow> v | None \<Rightarrow> [])"

definition put_peer :: "address \<Rightarrow> int \<Rightarrow> (address \<times> int) list \<Rightarrow> (address \<times> int) list" where
  "put_peer peer now v =
     (if peer \<in> fst ` set v then AList.update peer now v
      else let w = v @ [(peer, now)] in if length w > kMaxPeersPerHash then tl w else w)"

definition peer_put :: "node_id \<Rightarrow> address \<Rightarrow> int \<Rightarrow> peer_store \<Rightarrow> peer_store" where
  "peer_put ih peer now ps = AList.update ih (put_peer peer now (peers_at ih ps)) ps"

fun get_loop :: "nat \<Rightarrow> (address \<times> int) list \<Rightarrow> address list \<Rightarrow> address list" where
  "get_loop limit [] out = out"
| "get_loop limit (e # es) out =
     (let out1 = out @ [fst e] in if length out1 \<ge> limit then out1 else get_loop limit es out1)"

definition peer_get :: "node_id \<Rightarrow> nat \<Rightarrow> peer_store \<Rightarrow> address list" where
  "peer_get ih limit ps = (case map_of ps ih of None \<Rightarrow> [] | Some v \<Rightarrow> get_loop limit v [])"

definition live_peers :: "int \<Rightarrow> (address \<times> int) list \<Rightarrow> (address \<times> int) list" where
  "live_peers now v = filter (\<lambda>(p, added). \<not> now - added > kPeerTtl) v"

definition peer_expire :: "int \<Rightarrow> peer_store \<Rightarrow> peer_store" where
  "peer_expire now ps = filter (\<lambda>(ih, v). v \<noteq> []) (map (\<lambda>(ih, v). (ih, live_peers now v)) ps)"

subsection \<open>Lifetime of a token\<close>

lemma sha1_hash_exact: "sha1_hash d = Some (to_hex (fips_sha1 d))"
  using sha1_exact [of "[d]"] by (auto simp: sha1_hash_def)

lemma token_compute_exact: "token_compute a ih s = to_hex (fips_sha1 (token_data a ih s))"
  by (simp add: token_compute_def sha1_hash_exact)

text \<open>The calls a node makes on its token manager, each with the time and the random bytes drawn.\<close>

datatype token_op = Gen bytes address node_id int | Ver bytes address node_id bytes int

fun op_time :: "token_op \<Rightarrow> int" where
  "op_time (Gen f a ih now) = now"
| "op_time (Ver f a ih t now) = now"

fun token_step :: "token_op \<Rightarrow> token_manager \<Rightarrow> token_manager" where
  "token_step (Gen f a ih now) tm = snd (token_generate f a ih now tm)"
| "token_step (Ver f a ih t now) tm = snd (token_verify f a ih t now tm)"

definition token_run :: "token_op list \<Rightarrow> token_manager \<Rightarrow> token_manager" where
  "token_run ops tm = foldl (\<lambda>tm op. token_step op tm) tm ops"

text \<open>
  While less than a rotation interval has passed since \<open>t0\<close>, the secret of \<open>t0\<close> is the current
  one, or the previous one with no further rotation due.
\<close>

definition keeps :: "bytes \<Rightarrow> int \<Rightarrow> token_manager \<Rightarrow> bool" where
  "keeps s t0 tm \<longleftrightarrow> tm_init tm \<and> (tm_secret tm = s \<or> tm_prev tm = s \<and> t0 \<le> tm_rotated tm)"

lemma rotate_keeps:
  "keeps s t0 tm \<Longrightarrow> t0 \<le> now \<Longrightarrow> now < t0 + kRotateInterval \<Longrightarrow> keeps s t0 (maybe_rotate fresh now tm)"
  by (auto simp: keeps_def maybe_rotate_def)

lemma step_keeps:
  "keeps s t0 tm \<Longrightarrow> t0 \<le> op_time op \<Longrightarrow> op_time op < t0 + kRotateInterval \<Longrightarrow> keeps s t0 (token_step op tm)"
  by (cases op) (auto simp: token_generate_def token_verify_def Let_def intro: rotate_keeps)

lemma run_keeps:
  "keeps s t0 tm \<Longrightarrow> list_all (\<lambda>op. t0 \<le> op_time op \<and> op_time op < t0 + kRotateInterval) ops \<Longrightarrow>
     keeps s t0 (token_run ops tm)"
  by (induction ops arbitrary: tm) (auto simp: token_run_def step_keeps)

lemma hex_text_inj: "to_hex p = to_hex q \<longleftrightarrow> p = q"
  by (metis hex_pairs_to_hex option.inject)

lemma token_data_inj:
  assumes "length s = length s'" "length ih = length ih'"
  shows "token_data a ih s = token_data a' ih' s' \<longleftrightarrow> s = s' \<and> ip_bytes (ad_ip a) = ip_bytes (ad_ip a') \<and> ih = ih'"
proof -
  have "ip_bytes (ad_ip a) @ ih = ip_bytes (ad_ip a') @ ih' \<longleftrightarrow> ip_bytes (ad_ip a) = ip_bytes (ad_ip a') \<and> ih = ih'"
    using assms(2) by (rule append_eq_append_conv [OF disjI2])
  then show ?thesis using assms(1) by (simp add: token_data_def)
qed

definition tm_wf :: "token_manager \<Rightarrow> bool" where
  "tm_wf tm \<longleftrightarrow> length (tm_secret tm) = 16 \<and> length (tm_prev tm) = 16"

lemma rotate_wf: "tm_wf tm \<Longrightarrow> length fresh = 16 \<Longrightarrow> tm_wf (maybe_rotate fresh now tm)"
  by (simp add: tm_wf_def maybe_rotate_def)

lemma token_nonempty: "token_compute a ih s \<noteq> []"
proof -
  have "length (fips_sha1 d) = 20" for d by (simp add: fips_sha1_def split: prod.split)
  then have "length (token_compute a ih s) = 40" by (simp add: token_compute_exact)
  then show ?thesis by auto
qed

lemma token_accepted:
  assumes "token_generate f a ih t0 tm = (tok, tm1)"
    and "list_all (\<lambda>op. t0 \<le> op_time op \<and> op_time op < t0 + kRotateInterval) (ops @ [Ver f' b ih tok now])"
    and "ad_ip b = ad_ip a"
  shows "fst (token_verify f' b ih tok now (token_run ops tm1))"
proof -
  have tok: "tok = token_compute a ih (tm_secret tm1)" and init: "keeps (tm_secret tm1) t0 tm1"
    using assms(1) by (auto simp: token_generate_def Let_def keeps_def maybe_rotate_def)
  have "keeps (tm_secret tm1) t0 (maybe_rotate f' now (token_run ops tm1))"
    using run_keeps [OF init, of ops] assms(2) by (simp add: rotate_keeps)
  then show ?thesis
    using token_nonempty assms(3) by (auto simp: token_verify_def tok keeps_def Let_def token_compute_def token_data_def)
qed

definition same_sha1 :: "bytes \<Rightarrow> bytes \<Rightarrow> bool" where
  "same_sha1 d e \<longleftrightarrow> d \<noteq> e \<and> fips_sha1 d = fips_sha1 e"

lemma token_bound:
  assumes "token_generate f a ih t0 tm = (tok, tm1)" "tm_wf tm1" "tm_wf tm2" "length f' = 16" "id_wf ih" "id_wf jh"
    and "token_verify f' b jh tok now tm2 = (True, tm3)"
  shows "\<exists>s \<in> {tm_secret tm3, tm_prev tm3}. s = tm_secret tm1 \<and> ip_bytes (ad_ip b) = ip_bytes (ad_ip a) \<and> jh = ih \<or>
    same_sha1 (token_data b jh s) (token_data a ih (tm_secret tm1))"
proof -
  have "tm_wf tm3" using assms(3,4,7) by (auto simp: token_verify_def Let_def rotate_wf split: if_splits)
  moreover have "tok = token_compute a ih (tm_secret tm1)" using assms(1) by (auto simp: token_generate_def Let_def)
  ultimately show ?thesis
    using assms by (auto simp: token_verify_def Let_def token_compute_exact hex_text_inj same_sha1_def
        token_data_inj tm_wf_def id_wf_def split: if_splits)
qed

text \<open>
  C39: a write token does what the protocol needs. Whatever the node does in between, the token
  it hands out is accepted from the same address, on any port, for as long as a rotation
  interval; and a token is accepted only for the address and info-hash it was issued for and
  while the secret it was issued under is the current or the previous one, unless two different
  inputs have the same SHA-1.
\<close>

theorem token_lifetime:
  assumes "token_generate f a ih t0 tm = (tok, tm1)" "tm_wf tm1" "tm_wf tm2" "length f' = 16" "id_wf ih" "id_wf jh"
  shows "(list_all (\<lambda>op. t0 \<le> op_time op \<and> op_time op < t0 + kRotateInterval) (ops @ [Ver f' b ih tok now]) \<and>
       ad_ip b = ad_ip a \<longrightarrow> fst (token_verify f' b ih tok now (token_run ops tm1))) \<and>
    (token_verify f' b jh tok now tm2 = (True, tm3) \<longrightarrow>
       (\<exists>s \<in> {tm_secret tm3, tm_prev tm3}. s = tm_secret tm1 \<and> ip_bytes (ad_ip b) = ip_bytes (ad_ip a) \<and> jh = ih \<or>
          same_sha1 (token_data b jh s) (token_data a ih (tm_secret tm1))))"
  using token_accepted [OF assms(1), of ops f' b now] token_bound [OF assms, of b now tm3] by satx

definition demo_endpoint :: "u16 \<Rightarrow> address" where
  "demo_endpoint port = \<lparr>ad_ip = from_v4 [9, 8, 7, 6], ad_port = port\<rparr>"

theorem token_lifetime_witness:
  "(let (tok, tm1) = token_generate (replicate 16 5) (demo_endpoint 1000) (replicate 20 1) 7 tm_new in
     fst (token_verify (replicate 16 6) (demo_endpoint 2000) (replicate 20 1) tok 300000
       (token_run [Gen (replicate 16 6) (demo_endpoint 1) (replicate 20 2) 9] tm1)))"
proof -
  obtain tok tm1 where g: "token_generate (replicate 16 5) (demo_endpoint 1000) (replicate 20 1) 7 tm_new = (tok, tm1)"
    by (cases "token_generate (replicate 16 5) (demo_endpoint 1000) (replicate 20 1) 7 tm_new")
  have "tm_wf tm1" using g by (auto simp: token_generate_def Let_def tm_wf_def maybe_rotate_def tm_new_def)
  note t = token_lifetime [OF g this this, of "replicate 16 6" "replicate 20 1"
      "[Gen (replicate 16 6) (demo_endpoint 1) (replicate 20 2) 9]" "demo_endpoint 2000" 300000 tm1]
  have "ad_ip (demo_endpoint 2000) = ad_ip (demo_endpoint 1000)" by (simp add: demo_endpoint_def)
  with t show ?thesis by (simp add: g id_wf_def kIdSize_def kRotateInterval_def)
qed

subsection \<open>The announced peers\<close>

datatype store_op = Announce node_id address int | Expire int

fun store_step :: "store_op \<Rightarrow> peer_store \<Rightarrow> peer_store" where
  "store_step (Announce ih p now) ps = peer_put ih p now ps"
| "store_step (Expire now) ps = peer_expire now ps"

text \<open>A history is read from its end: the most recent operation comes first.\<close>

definition store_of :: "store_op list \<Rightarrow> peer_store" where
  "store_of h = foldr store_step h []"

text \<open>When the peer last announced itself under the info-hash, if it has not expired since.\<close>

fun announced :: "store_op list \<Rightarrow> node_id \<Rightarrow> address \<Rightarrow> int option" where
  "announced [] ih p = None"
| "announced (Announce jh q now # h) ih p = (if jh = ih \<and> q = p then Some now else announced h ih p)"
| "announced (Expire now # h) ih p =
     (case announced h ih p of None \<Rightarrow> None | Some t \<Rightarrow> if now - t > kPeerTtl then None else Some t)"

fun announcers :: "store_op list \<Rightarrow> node_id \<Rightarrow> address list" where
  "announcers [] ih = []"
| "announcers (Announce jh q now # h) ih = (if jh = ih then q # announcers h ih else announcers h ih)"
| "announcers (Expire now # h) ih = announcers h ih"

definition store_ok :: "peer_store \<Rightarrow> bool" where
  "store_ok ps \<longleftrightarrow> distinct (map fst ps) \<and>
     list_all (\<lambda>(ih, v). v \<noteq> [] \<and> distinct (map fst v) \<and> length v \<le> kMaxPeersPerHash) ps"

lemma get_loop_all: "length out + length v \<le> limit \<Longrightarrow> get_loop limit v out = out @ map fst v"
proof (induction v arbitrary: out)
  case (Cons e v)
  show ?case
  proof (cases "limit \<le> Suc (length out)")
    case True
    with Cons.prems have "v = []" by (cases v) simp_all
    with True show ?thesis by (simp add: Let_def)
  next
    case False
    then show ?thesis using Cons.IH [of "out @ [fst e]"] Cons.prems by (simp add: Let_def)
  qed
qed simp

lemma peers_at_ok: "store_ok ps \<Longrightarrow> distinct (map fst (peers_at ih ps)) \<and> length (peers_at ih ps) \<le> kMaxPeersPerHash"
  by (auto simp: store_ok_def peers_at_def list_all_iff dest!: map_of_SomeD split: option.splits)

lemma peer_get_all: "store_ok ps \<Longrightarrow> peer_get ih kMaxPeersPerHash ps = map fst (peers_at ih ps)"
  using peers_at_ok [of ps ih] get_loop_all [of "[]"]
  by (auto simp: peer_get_def peers_at_def split: option.splits)

lemma put_peer_ok:
  assumes "distinct (map fst v)" "length v \<le> kMaxPeersPerHash"
  shows "put_peer p now v \<noteq> []" "distinct (map fst (put_peer p now v))" "length (put_peer p now v) \<le> kMaxPeersPerHash"
proof -
  show "put_peer p now v \<noteq> []"
    by (cases v) (auto simp: put_peer_def Let_def kMaxPeersPerHash_def)
  show "distinct (map fst (put_peer p now v))"
  proof (cases "p \<in> fst ` set v")
    case True
    then show ?thesis using distinct_update [OF assms(1)] by (simp add: put_peer_def)
  next
    case False
    then have "distinct (map fst (v @ [(p, now)]))" using assms(1) by simp
    with False show ?thesis using distinct_tl [of "map fst (v @ [(p, now)])"] by (simp add: put_peer_def Let_def map_tl)
  qed
  show "length (put_peer p now v) \<le> kMaxPeersPerHash"
    using assms(2) by (simp add: put_peer_def Let_def length_update)
qed


lemma step_ok: "store_ok ps \<Longrightarrow> store_ok (store_step op ps)"
proof (cases op)
  case (Announce ih p now)
  assume ok: "store_ok ps"
  have v: "put_peer p now (peers_at ih ps) \<noteq> [] \<and> distinct (map fst (put_peer p now (peers_at ih ps))) \<and>
      length (put_peer p now (peers_at ih ps)) \<le> kMaxPeersPerHash"
    using put_peer_ok peers_at_ok [OF ok] by blast
  have "distinct (map fst (peer_put ih p now ps))" unfolding peer_put_def
    by (rule distinct_update) (use ok in \<open>simp add: store_ok_def\<close>)
  moreover have "list_all (\<lambda>(ih, v). v \<noteq> [] \<and> distinct (map fst v) \<and> length v \<le> kMaxPeersPerHash) (peer_put ih p now ps)"
    unfolding peer_put_def by (rule update_all [where P = "\<lambda>ih v. v \<noteq> [] \<and> distinct (map fst v) \<and> length v \<le> kMaxPeersPerHash"])
      (use ok v in \<open>auto simp: store_ok_def\<close>)
  ultimately show ?thesis by (simp add: Announce store_ok_def)
next
  case (Expire now)
  assume ok: "store_ok ps"
  then have "distinct (map fst (peer_expire now ps))"
    unfolding store_ok_def peer_expire_def by (intro distinct_map_filter) (simp add: comp_def case_prod_unfold)
  moreover have "distinct (map fst (live_peers now v)) \<and> length (live_peers now v) \<le> length v" if "distinct (map fst v)" for v
    using that by (simp add: live_peers_def distinct_map_filter)
  then have "list_all (\<lambda>(ih, v). v \<noteq> [] \<and> distinct (map fst v) \<and> length v \<le> kMaxPeersPerHash) (peer_expire now ps)"
    using ok by (force simp: store_ok_def peer_expire_def list_all_iff)
  ultimately show ?thesis by (simp add: Expire store_ok_def)
qed

lemma store_of_ok: "store_ok (store_of h)"
  by (induction h) (simp_all add: store_of_def step_ok, simp add: store_ok_def)

lemma peers_at_put: "peers_at ih (peer_put jh p now ps) = (if jh = ih then put_peer p now (peers_at ih ps) else peers_at ih ps)"
  by (simp add: peers_at_def peer_put_def update_conv')

lemma map_of_expire:
  "distinct (map fst ps) \<Longrightarrow> map_of (peer_expire now ps) ih =
     (case map_of ps ih of None \<Rightarrow> None | Some v \<Rightarrow> if live_peers now v = [] then None else Some (live_peers now v))"
proof (induction ps)
  case (Cons x ps)
  obtain jh v where x: "x = (jh, v)" by (cases x)
  have "fst ` set (peer_expire now ps) \<subseteq> fst ` set ps" by (force simp: peer_expire_def)
  with Cons.prems x have "map_of (peer_expire now ps) jh = None" by (simp add: map_of_eq_None_iff) blast
  moreover have "peer_expire now (x # ps) = (if live_peers now v = [] then [] else [(jh, live_peers now v)]) @ peer_expire now ps"
    by (simp add: peer_expire_def x)
  ultimately show ?case using Cons by (simp add: x)
qed (simp add: peer_expire_def)

lemma peers_at_expire: "store_ok ps \<Longrightarrow> peers_at ih (peer_expire now ps) = live_peers now (peers_at ih ps)"
  by (auto simp: peers_at_def store_ok_def map_of_expire live_peers_def split: option.splits)

lemma map_of_put_peer:
  assumes "distinct (map fst v)" "p \<in> fst ` set v \<or> length v < kMaxPeersPerHash"
  shows "map_of (put_peer p now v) = (map_of v)(p \<mapsto> now)"
proof (cases "p \<in> fst ` set v")
  case True
  then show ?thesis by (simp add: put_peer_def update_conv')
next
  case False
  then have "map_of v p = None" by (simp add: map_of_eq_None_iff)
  with False assms(2) show ?thesis by (auto simp: put_peer_def Let_def map_add_def fun_eq_iff split: option.split)
qed

lemma map_of_live_peers:
  "distinct (map fst v) \<Longrightarrow> map_of (live_peers now v) p =
     (case map_of v p of None \<Rightarrow> None | Some t \<Rightarrow> if now - t > kPeerTtl then None else Some t)"
  by (induction v) (auto simp: live_peers_def map_of_eq_None_iff split: option.split)

lemma set_put_peer: "fst ` set (put_peer p now v) \<subseteq> insert p (fst ` set v)"
proof -
  have "set (tl (v @ [(p, now)])) \<subseteq> set (v @ [(p, now)])" by (cases v) auto
  then show ?thesis by (auto simp: put_peer_def Let_def dom_update)
qed

text \<open>Below the cap on distinct announcers, the table is exactly the history.\<close>

lemma store_exact:
  assumes "card (set (announcers h ih)) \<le> kMaxPeersPerHash"
  shows "fst ` set (peers_at ih (store_of h)) \<subseteq> set (announcers h ih) \<and>
    map_of (peers_at ih (store_of h)) p = announced h ih p"
  using assms
proof (induction h)
  case Nil
  then show ?case by (simp add: store_of_def peers_at_def)
next
  case (Cons op h)
  let ?v = "peers_at ih (store_of h)"
  have d: "distinct (map fst ?v)" "store_ok (store_of h)" using store_of_ok peers_at_ok by blast+
  show ?case
  proof (cases op)
    case (Announce jh q now)
    have "card (set (announcers h ih)) \<le> card (set (announcers (op # h) ih))"
      by (rule card_mono) (auto simp: Announce)
    with Cons have IH: "fst ` set ?v \<subseteq> set (announcers h ih)" "map_of ?v p = announced h ih p" by auto
    have "map_of (put_peer q now ?v) = (map_of ?v)(q \<mapsto> now)" if "jh = ih"
    proof (rule map_of_put_peer [OF d(1)])
      show "q \<in> fst ` set ?v \<or> length ?v < kMaxPeersPerHash"
      proof (rule disjCI)
        assume "\<not> length ?v < kMaxPeersPerHash"
        then have "kMaxPeersPerHash \<le> card (fst ` set ?v)"
          using d(1) distinct_card [of "map fst ?v"] by simp
        moreover have "card (insert q (fst ` set ?v)) \<le> card (set (announcers (op # h) ih))"
          by (rule card_mono) (use IH(1) that in \<open>auto simp: Announce\<close>)
        ultimately show "q \<in> fst ` set ?v" using Cons.prems by (cases "q \<in> fst ` set ?v") auto
      qed
    qed
    moreover have "store_of (op # h) = peer_put jh q now (store_of h)" by (simp add: store_of_def Announce)
    moreover have "fst ` set (put_peer q now ?v) \<subseteq> insert q (set (announcers h ih))"
      using IH(1) set_put_peer [of q now ?v] by blast
    ultimately show ?thesis using IH by (cases "jh = ih") (simp_all add: peers_at_put Announce)
  next
    case (Expire now)
    moreover have "store_of (op # h) = peer_expire now (store_of h)" by (simp add: store_of_def Expire)
    moreover have "fst ` set (live_peers now ?v) \<subseteq> fst ` set ?v" by (auto simp: live_peers_def)
    ultimately show ?thesis
      using Cons d by (simp add: peers_at_expire map_of_live_peers) blast
  qed
qed

text \<open>
  C40: the table of announced peers implements its history. Whatever sequence of announcements
  and expiries it has been through, at most 128 peers are stored under an info-hash, none
  twice, and no emptied info-hash is kept; and as long as at most 128 different peers have
  announced themselves under an info-hash, a query for it returns exactly the peers whose last
  announcement has not expired.
\<close>

theorem peer_store_exact:
  "store_ok (store_of h) \<and>
   length (peer_get ih kMaxPeersPerHash (store_of h)) \<le> kMaxPeersPerHash \<and>
   (card (set (announcers h ih)) \<le> kMaxPeersPerHash \<longrightarrow>
      set (peer_get ih kMaxPeersPerHash (store_of h)) = {p. announced h ih p \<noteq> None})"
proof -
  have ok: "store_ok (store_of h)" by (rule store_of_ok)
  have "set (peer_get ih kMaxPeersPerHash (store_of h)) = {p. announced h ih p \<noteq> None}"
    if "card (set (announcers h ih)) \<le> kMaxPeersPerHash"
  proof -
    have "p \<in> fst ` set (peers_at ih (store_of h)) \<longleftrightarrow> announced h ih p \<noteq> None" for p
      using store_exact [OF that, of p] by (metis map_of_eq_None_iff)
    with peer_get_all [OF ok, of ih] show ?thesis by auto
  qed
  with ok peers_at_ok [OF ok, of ih] peer_get_all [OF ok, of ih] show ?thesis by simp
qed

theorem peer_store_exact_witness:
  "set (peer_get (replicate 20 1) kMaxPeersPerHash
     (store_of [Expire 1800005, Announce (replicate 20 1) (demo_endpoint 2) 10, Announce (replicate 20 1) (demo_endpoint 1) 4]))
   = {demo_endpoint 2}"
proof -
  let ?h = "[Expire 1800005, Announce (replicate 20 1) (demo_endpoint 2) 10, Announce (replicate 20 1) (demo_endpoint 1) 4]"
  have "card (set (announcers ?h (replicate 20 1))) \<le> kMaxPeersPerHash"
    by (simp add: kMaxPeersPerHash_def card_insert_if)
  moreover have "{p. announced ?h (replicate 20 1) p \<noteq> None} = {demo_endpoint 2}"
    by (auto simp: kPeerTtl_def demo_endpoint_def split: if_splits)
  ultimately show ?thesis using peer_store_exact [of ?h "replicate 20 1"] by blast
qed

end
