(* ===== verification/Dht_Lookup.thy ===== *)
theory Dht_Lookup
  imports Krpc Dht_Storage Routing_Safety
begin

text \<open>
  The client side of the DHT: the queries in flight (\<open>src/librats/dht/observer.h\<close>,
  \<open>rpc_manager.cpp\<close>) and the iterative lookups (\<open>traversal.cpp\<close>, \<open>find_peers.cpp\<close>,
  \<open>announce.cpp\<close>), over the state of the whole node (\<open>node.h\<close>, without the crawler of the
  optional search build). An observer is shared by its lookup and the table of pending queries,
  so observers live in a heap, a list that only grows, and both refer to them by index. A lookup
  at work is passed beside the rest of the state and put back when it returns. The draws of the
  transaction-id generator are the values of a function \<open>rnd\<close>, counted by \<open>dh_draws\<close>. The
  iteration order of the pending table is the order of its association list. \<open>dh_fallback\<close>
  records that 65536 draws in a row hit an id in flight; no code reads it.
\<close>

subsection \<open>State\<close>

datatype obs_kind = Ping_Obs | Lookup_Obs nat

record observer =
  ob_kind :: obs_kind
  ob_id :: node_id
  ob_ep :: address
  ob_queried :: bool
  ob_alive :: bool
  ob_failed :: bool
  ob_short :: bool
  ob_initial :: bool
  ob_done :: bool
  ob_txn :: u16

record pending =
  pn_obs :: nat
  pn_ep :: address
  pn_sent :: int

record traversal =
  lk_id :: nat
  lk_self :: node_id
  lk_target :: node_id
  lk_results :: "nat list"
  lk_sorted :: nat
  lk_branch :: nat
  lk_invoked :: nat
  lk_done :: bool
  lk_sub4 :: "u32 list"
  lk_sub6 :: "u64 list"
  lk_want :: "bytes list"
  lk_tokens :: "(node_id \<times> bytes) list"
  lk_peers :: "address list"
  lk_announce :: "(u16 \<times> bool) option"

text \<open>What leaves the node: datagrams, and the calls of the two callbacks of a lookup.\<close>

datatype dht_out = Sent address bytes | Found nat "address list" | Finished nat "address list"

record dht =
  dh_self :: node_id
  dh_v6 :: bool
  dh_table :: kad_table
  dh_obs :: "observer list"
  dh_pending :: "(u16 \<times> pending) list"
  dh_draws :: nat
  dh_fallback :: bool
  dh_peers :: peer_store
  dh_tokens :: token_manager
  dh_dos :: "(ip_address \<times> dos_entry) list"
  dh_lookups :: "traversal list"
  dh_seq :: nat
  dh_boot :: "address list"
  dh_ext :: ip_address
  dh_votes :: "(ip_address \<times> nat) list"
  dh_voters :: "ip_address list"
  dh_last_refresh :: int
  dh_last_self :: int
  dh_out :: "dht_out list"

definition kAlpha :: nat where "kAlpha = 3"
definition kMaxResults :: nat where "kMaxResults = 100"
definition kShortTimeout :: int where "kShortTimeout = 2000"
definition kFullTimeout :: int where "kFullTimeout = 15000"

definition new_observer :: "obs_kind \<Rightarrow> node_id \<Rightarrow> address \<Rightarrow> observer" where
  "new_observer k i ep =
     \<lparr>ob_kind = k, ob_id = i, ob_ep = ep, ob_queried = False, ob_alive = False, ob_failed = False,
      ob_short = False, ob_initial = False, ob_done = False, ob_txn = 0\<rparr>"

abbreviation obs_at :: "dht \<Rightarrow> nat \<Rightarrow> observer" where
  "obs_at s o' \<equiv> dh_obs s ! o'"

definition alloc :: "observer \<Rightarrow> dht \<Rightarrow> nat \<times> dht" where
  "alloc ob s = (length (dh_obs s), s\<lparr>dh_obs := dh_obs s @ [ob]\<rparr>)"

definition upd_obs :: "nat \<Rightarrow> (observer \<Rightarrow> observer) \<Rightarrow> dht \<Rightarrow> dht" where
  "upd_obs o' f s = s\<lparr>dh_obs := (dh_obs s)[o' := f (obs_at s o')]\<rparr>"

definition dht_emit :: "dht_out \<Rightarrow> dht \<Rightarrow> dht" where
  "dht_emit e s = s\<lparr>dh_out := dh_out s @ [e]\<rparr>"

subsection \<open>Faults\<close>

text \<open>
  The two ways the code would leave defined behaviour: the index past the end of the routing
  table's buckets, and a callback into a lookup that has been destroyed.
\<close>

datatype fault = Bad_Index | Dangling

definition and_then :: "fault + 'a \<Rightarrow> ('a \<Rightarrow> fault + 'b) \<Rightarrow> fault + 'b" where
  "and_then r f = (case r of Inl e \<Rightarrow> Inl e | Inr x \<Rightarrow> f x)"

definition in_range :: "'a option \<Rightarrow> fault + 'a" where
  "in_range r = (case r of None \<Rightarrow> Inl Bad_Index | Some x \<Rightarrow> Inr x)"

fun fold_res :: "('a \<Rightarrow> 'b \<Rightarrow> fault + 'b) \<Rightarrow> 'a list \<Rightarrow> 'b \<Rightarrow> fault + 'b" where
  "fold_res f [] s = Inr s"
| "fold_res f (x # xs) s = and_then (f x s) (fold_res f xs)"

subsection \<open>Queries in flight\<close>

definition txn_to_string :: "u16 \<Rightarrow> bytes" where
  "txn_to_string t = [ucast (drop_bit 8 t AND 0xff), ucast (t AND 0xff)]"

definition string_to_txn :: "bytes \<Rightarrow> u16 option" where
  "string_to_txn s = (if length s \<noteq> 2 then None else Some (be_u16 (s ! 0) (s ! 1)))"

function txn_loop :: "(nat \<Rightarrow> u16) \<Rightarrow> (u16 \<times> pending) list \<Rightarrow> int \<Rightarrow> nat \<Rightarrow> u16 option \<times> nat" where
  "txn_loop rnd pend i n =
     (if i < 65536 then
        if map_of pend (rnd n) = None then (Some (rnd n), n + 1) else txn_loop rnd pend (i + 1) (n + 1)
      else (None, n))"
  by pat_completeness auto
termination
  by (relation "measure (\<lambda>(_, _, i, _). nat (65536 - i))") auto

declare txn_loop.simps [simp del]

definition next_txn :: "(nat \<Rightarrow> u16) \<Rightarrow> dht \<Rightarrow> u16 \<times> dht" where
  "next_txn rnd s =
     (case txn_loop rnd (dh_pending s) 0 (dh_draws s) of
        (Some t, n) \<Rightarrow> (t, s\<lparr>dh_draws := n\<rparr>)
      | (None, n) \<Rightarrow> (rnd n, s\<lparr>dh_draws := n + 1, dh_fallback := True\<rparr>))"

definition rpc_invoke :: "(nat \<Rightarrow> u16) \<Rightarrow> krpc_message \<Rightarrow> address \<Rightarrow> nat \<Rightarrow> int \<Rightarrow> dht \<Rightarrow> bool \<times> dht" where
  "rpc_invoke rnd msg to o' now s =
     (let (t, s1) = next_txn rnd s;
          data = krpc_encode_message (msg\<lparr>km_txn := txn_to_string t\<rparr>)
      in if data = [] then (False, s1)
         else let s2 = upd_obs o' (\<lambda>ob. ob\<lparr>ob_txn := t\<rparr>) (dht_emit (Sent to data) s1)
              in (True, s2\<lparr>dh_pending := AList.update t \<lparr>pn_obs = o', pn_ep = to, pn_sent = now\<rparr> (dh_pending s2)\<rparr>))"

definition send_oneshot :: "(nat \<Rightarrow> u16) \<Rightarrow> krpc_message \<Rightarrow> address \<Rightarrow> dht \<Rightarrow> dht" where
  "send_oneshot rnd msg to s =
     (let (t, s1) = next_txn rnd s;
          data = krpc_encode_message (msg\<lparr>km_txn := txn_to_string t\<rparr>)
      in if data \<noteq> [] then dht_emit (Sent to data) s1 else s1)"

definition rpc_cancel :: "nat \<Rightarrow> dht \<Rightarrow> dht" where
  "rpc_cancel o' s =
     (let t = ob_txn (obs_at s o') in
      case map_of (dh_pending s) t of
        None \<Rightarrow> s
      | Some p \<Rightarrow> if pn_obs p = o' then s\<lparr>dh_pending := AList.delete t (dh_pending s)\<rparr> else s)"

subsection \<open>Candidates\<close>

definition waiting :: "observer \<Rightarrow> bool" where
  "waiting ob \<longleftrightarrow> ob_queried ob \<and> \<not> ob_alive ob \<and> \<not> ob_failed ob \<and> \<not> ob_done ob"

definition register_subnet :: "address \<Rightarrow> traversal \<Rightarrow> bool \<times> traversal" where
  "register_subnet ep lk =
     (let b = ip_bytes (ad_ip ep) in
      if \<not> is_public_ip (ad_ip ep) then (False, lk)
      else if is_v6 (ad_ip ep) then
        (let prefix = foldl (\<lambda>p x. push_bit 8 p OR ucast x) 0 (take 8 b) in
         if prefix \<in> set (lk_sub6 lk) then (True, lk) else (False, lk\<lparr>lk_sub6 := prefix # lk_sub6 lk\<rparr>))
      else
        (let prefix = push_bit 24 (ucast (b ! 0)) OR push_bit 16 (ucast (b ! 1)) OR push_bit 8 (ucast (b ! 2)) in
         if prefix \<in> set (lk_sub4 lk) then (True, lk) else (False, lk\<lparr>lk_sub4 := prefix # lk_sub4 lk\<rparr>)))"

text \<open>\<open>std::lower_bound\<close> over the sorted prefix of the candidates.\<close>

definition place :: "node_id \<Rightarrow> traversal \<Rightarrow> dht \<Rightarrow> nat" where
  "place i lk s =
     length (takeWhile (\<lambda>o'. closer_to (ob_id (obs_at s o')) i (lk_target lk)) (take (lk_sorted lk) (lk_results lk)))"

definition insert_at :: "nat \<Rightarrow> 'a \<Rightarrow> 'a list \<Rightarrow> 'a list" where
  "insert_at k x xs = take k xs @ x # drop k xs"

text \<open>Abandon a candidate past the cutoff, releasing its query.\<close>

definition abandon :: "nat \<Rightarrow> traversal \<times> dht \<Rightarrow> traversal \<times> dht" where
  "abandon o' = (\<lambda>(lk, s).
     if waiting (obs_at s o') then
       (let lk1 = lk\<lparr>lk_invoked := lk_invoked lk - 1\<rparr>;
            lk2 = (if ob_short (obs_at s o') \<and> lk_branch lk1 > kAlpha then lk1\<lparr>lk_branch := lk_branch lk1 - 1\<rparr> else lk1)
        in (lk2, rpc_cancel o' (upd_obs o' (\<lambda>ob. ob\<lparr>ob_done := True\<rparr>) s)))
     else (lk, s))"

fun abandon_all :: "nat list \<Rightarrow> traversal \<times> dht \<Rightarrow> traversal \<times> dht" where
  "abandon_all [] ls = ls"
| "abandon_all (o' # os) ls = abandon_all os (abandon o' ls)"

definition truncate :: "traversal \<times> dht \<Rightarrow> traversal \<times> dht" where
  "truncate = (\<lambda>(lk, s).
     if length (lk_results lk) > kMaxResults then
       (let (lk1, s1) = abandon_all (drop kMaxResults (lk_results lk)) (lk, s)
        in (lk1\<lparr>lk_results := take kMaxResults (lk_results lk1), lk_sorted := min (lk_sorted lk1) kMaxResults\<rparr>, s1))
     else (lk, s))"

definition add_seed :: "address \<Rightarrow> traversal \<times> dht \<Rightarrow> traversal \<times> dht" where
  "add_seed ep = (\<lambda>(lk, s).
     if lk_done lk then (lk, s)
     else let (o', s1) = alloc ((new_observer (Lookup_Obs (lk_id lk)) id_zero ep)\<lparr>ob_initial := True\<rparr>) s
          in (lk\<lparr>lk_results := lk_results lk @ [o']\<rparr>, s1))"

definition add_entry :: "node_id \<Rightarrow> address \<Rightarrow> traversal \<times> dht \<Rightarrow> traversal \<times> dht" where
  "add_entry i ep = (\<lambda>(lk, s).
     if lk_done lk then (lk, s)
     else
       let pos = place i lk s in
       if pos < lk_sorted lk \<and> ob_id (obs_at s (lk_results lk ! pos)) = i then (lk, s)
       else
         case register_subnet ep lk of
           (True, lk1) \<Rightarrow> (lk1, s)
         | (False, lk1) \<Rightarrow>
             let (o', s1) = alloc (new_observer (Lookup_Obs (lk_id lk1)) i ep) s
             in truncate (lk1\<lparr>lk_results := insert_at pos o' (lk_results lk1), lk_sorted := lk_sorted lk1 + 1\<rparr>, s1))"

definition resort_result :: "nat \<Rightarrow> traversal \<times> dht \<Rightarrow> traversal \<times> dht" where
  "resort_result o' = (\<lambda>(lk, s).
     if lk_done lk then (lk, s)
     else
       case find_index (\<lambda>x. x = o') (lk_results lk) of
         None \<Rightarrow> (lk, s)
       | Some k \<Rightarrow>
           let lk1 = lk\<lparr>lk_sorted := (if k < lk_sorted lk then lk_sorted lk - 1 else lk_sorted lk),
                        lk_results := erase k (lk_results lk)\<rparr>;
               pos = place (ob_id (obs_at s o')) lk1 s
           in (lk1\<lparr>lk_results := insert_at pos o' (lk_results lk1), lk_sorted := lk_sorted lk1 + 1\<rparr>, s))"

subsection \<open>Rounds of queries\<close>

definition lookup_query :: "traversal \<Rightarrow> krpc_message" where
  "lookup_query lk = (create_get_peers_query [] (lk_self lk) (lk_target lk))\<lparr>km_want := lk_want lk\<rparr>"

text \<open>
  The scan of the candidates: the second argument counts the live answers still needed, the
  third the fresh queries met so far.
\<close>

fun request_loop :: "(nat \<Rightarrow> u16) \<Rightarrow> int \<Rightarrow> nat list \<Rightarrow> nat \<Rightarrow> nat \<Rightarrow> traversal \<times> dht \<Rightarrow> nat \<times> traversal \<times> dht" where
  "request_loop rnd now [] needed fresh ls = (fresh, ls)"
| "request_loop rnd now (o' # os) needed fresh (lk, s) =
     (if needed = 0 then (fresh, lk, s)
      else if ob_alive (obs_at s o') then request_loop rnd now os (needed - 1) fresh (lk, s)
      else if ob_failed (obs_at s o') \<or> ob_done (obs_at s o') then request_loop rnd now os needed fresh (lk, s)
      else if ob_queried (obs_at s o') then
        request_loop rnd now os needed (if ob_short (obs_at s o') then fresh else fresh + 1) (lk, s)
      else if lk_invoked lk \<ge> lk_branch lk then request_loop rnd now os needed fresh (lk, s)
      else
        let s1 = upd_obs o' (\<lambda>ob. ob\<lparr>ob_queried := True\<rparr>) s in
        case rpc_invoke rnd (lookup_query lk) (ob_ep (obs_at s1 o')) o' now s1 of
          (True, s2) \<Rightarrow> request_loop rnd now os needed (fresh + 1) (lk\<lparr>lk_invoked := lk_invoked lk + 1\<rparr>, s2)
        | (False, s2) \<Rightarrow> request_loop rnd now os needed fresh (lk, upd_obs o' (\<lambda>ob. ob\<lparr>ob_failed := True\<rparr>) s2))"

definition add_requests :: "(nat \<Rightarrow> u16) \<Rightarrow> int \<Rightarrow> traversal \<times> dht \<Rightarrow> bool \<times> traversal \<times> dht" where
  "add_requests rnd now = (\<lambda>(lk, s).
     if lk_done lk then (True, lk, s)
     else case request_loop rnd now (lk_results lk) kBucketSize 0 (lk, s) of
       (fresh, lk1, s1) \<Rightarrow> (fresh = 0, lk1, s1))"

text \<open>
  The write-announcements of a finished announce go to the first \<open>kBucketSize\<close> candidates that
  answered and gave a token.
\<close>

definition announce_token :: "traversal \<Rightarrow> dht \<Rightarrow> nat \<Rightarrow> (address \<times> bytes) option" where
  "announce_token lk s o' =
     (if ob_alive (obs_at s o')
      then map_option (Pair (ob_ep (obs_at s o'))) (map_of (lk_tokens lk) (ob_id (obs_at s o'))) else None)"

definition announce_targets :: "traversal \<Rightarrow> dht \<Rightarrow> (address \<times> bytes) list" where
  "announce_targets lk s = take kBucketSize (List.map_filter (announce_token lk s) (lk_results lk))"

fun send_announces :: "(nat \<Rightarrow> u16) \<Rightarrow> traversal \<Rightarrow> u16 \<Rightarrow> bool \<Rightarrow> (address \<times> bytes) list \<Rightarrow> dht \<Rightarrow> dht" where
  "send_announces rnd lk port implied [] s = s"
| "send_announces rnd lk port implied ((ep, token) # ts) s =
     send_announces rnd lk port implied ts
       (send_oneshot rnd (create_announce_peer_query [] (lk_self lk) (lk_target lk) port token implied) ep s)"

definition on_complete :: "(nat \<Rightarrow> u16) \<Rightarrow> traversal \<Rightarrow> dht \<Rightarrow> dht" where
  "on_complete rnd lk s =
     dht_emit (Finished (lk_id lk) (lk_peers lk))
       (case lk_announce lk of
          None \<Rightarrow> s
        | Some (port, implied) \<Rightarrow> send_announces rnd lk port implied (announce_targets lk s) s)"

definition release :: "nat \<Rightarrow> dht \<Rightarrow> dht" where
  "release o' s =
     (if waiting (obs_at s o') then rpc_cancel o' (upd_obs o' (\<lambda>ob. ob\<lparr>ob_done := True\<rparr>) s) else s)"

fun release_all :: "nat list \<Rightarrow> dht \<Rightarrow> dht" where
  "release_all [] s = s"
| "release_all (o' # os) s = release_all os (release o' s)"

definition finish :: "(nat \<Rightarrow> u16) \<Rightarrow> traversal \<times> dht \<Rightarrow> traversal \<times> dht" where
  "finish rnd = (\<lambda>(lk, s).
     if lk_done lk then (lk, s)
     else (lk\<lparr>lk_done := True\<rparr>, on_complete rnd (lk\<lparr>lk_done := True\<rparr>) (release_all (lk_results lk) s)))"

definition advance :: "(nat \<Rightarrow> u16) \<Rightarrow> int \<Rightarrow> traversal \<times> dht \<Rightarrow> traversal \<times> dht" where
  "advance rnd now ls =
     (case add_requests rnd now ls of (converged, ls1) \<Rightarrow> if converged then finish rnd ls1 else ls1)"

subsection \<open>Replies and timeouts\<close>

definition on_responded :: "(nat \<Rightarrow> u16) \<Rightarrow> nat \<Rightarrow> u16 \<Rightarrow> int \<Rightarrow> traversal \<times> dht \<Rightarrow> fault + traversal \<times> dht" where
  "on_responded rnd o' rtt now = (\<lambda>(lk, s).
     if lk_done lk then Inr (lk, s)
     else
       let ob = obs_at s o';
           lk1 = (if ob_short ob \<and> lk_branch lk > kAlpha then lk\<lparr>lk_branch := lk_branch lk - 1\<rparr> else lk);
           lk2 = lk1\<lparr>lk_invoked := lk_invoked lk1 - 1\<rparr>
       in and_then (in_range (node_seen now (ob_id ob) (ob_ep ob) rtt
                      (verify_node_id_for_ip (ob_id ob) (ad_ip (ob_ep ob))) (dh_table s)))
            (\<lambda>(_, t). Inr (advance rnd now (lk2, s\<lparr>dh_table := t\<rparr>))))"

definition on_failed :: "(nat \<Rightarrow> u16) \<Rightarrow> nat \<Rightarrow> bool \<Rightarrow> int \<Rightarrow> traversal \<times> dht \<Rightarrow> traversal \<times> dht" where
  "on_failed rnd o' short_timeout now = (\<lambda>(lk, s).
     let ob = obs_at s o' in
     if lk_done lk then (lk, s)
     else if ob_done ob \<or> ob_alive ob \<or> ob_failed ob then (lk, s)
     else if short_timeout then
       advance rnd now
         (if \<not> ob_short ob
          then (lk\<lparr>lk_branch := lk_branch lk + 1\<rparr>, upd_obs o' (\<lambda>ob. ob\<lparr>ob_short := True\<rparr>) s)
          else (lk, s))
     else
       let s1 = upd_obs o' (\<lambda>ob. ob\<lparr>ob_failed := True\<rparr>) s;
           lk1 = (if ob_short ob \<and> lk_branch lk > kAlpha then lk\<lparr>lk_branch := lk_branch lk - 1\<rparr> else lk);
           lk2 = lk1\<lparr>lk_invoked := lk_invoked lk1 - 1\<rparr>;
           s2 = (if \<not> ob_initial ob then s1\<lparr>dh_table := node_failed (ob_id ob) (ob_ep ob) (dh_table s1)\<rparr> else s1)
       in advance rnd now (lk2, s2))"

definition traverse :: "int \<Rightarrow> krpc_node \<Rightarrow> traversal \<times> dht \<Rightarrow> fault + traversal \<times> dht" where
  "traverse now kn = (\<lambda>(lk, s).
     if lk_done lk then Inr (lk, s)
     else let ep = \<lparr>ad_ip = kn_ip kn, ad_port = kn_port kn\<rparr> in
       and_then (in_range (heard_about now (kn_id kn) ep (verify_node_id_for_ip (kn_id kn) (kn_ip kn)) (dh_table s)))
         (\<lambda>t. Inr (add_entry (kn_id kn) ep (lk, s\<lparr>dh_table := t\<rparr>))))"

definition got_peers :: "address list \<Rightarrow> traversal \<times> dht \<Rightarrow> traversal \<times> dht" where
  "got_peers peers = (\<lambda>(lk, s).
     let (known, fresh) = foldl (\<lambda>(known, fresh) p.
           if p \<in> set known then (known, fresh) else (known @ [p], fresh @ [p])) (lk_peers lk, []) peers
     in (lk\<lparr>lk_peers := known\<rparr>, if fresh \<noteq> [] then dht_emit (Found (lk_id lk) fresh) s else s))"

definition got_token :: "node_id \<Rightarrow> bytes \<Rightarrow> traversal \<Rightarrow> traversal" where
  "got_token i token lk =
     (if token = [] then lk
      else if map_of (lk_tokens lk) i = None then lk\<lparr>lk_tokens := (i, token) # lk_tokens lk\<rparr> else lk)"

definition parse_reply :: "krpc_message \<Rightarrow> traversal \<times> dht \<Rightarrow> traversal \<times> dht" where
  "parse_reply msg = (\<lambda>(lk, s).
     let lk1 = (if km_token msg \<noteq> [] then got_token (km_response_id msg) (km_token msg) lk else lk)
     in if km_peers msg \<noteq> [] then got_peers (km_peers msg) (lk1, s) else (lk1, s))"

definition on_response :: "(nat \<Rightarrow> u16) \<Rightarrow> nat \<Rightarrow> krpc_message \<Rightarrow> u16 \<Rightarrow> int \<Rightarrow> traversal \<times> dht \<Rightarrow> fault + traversal \<times> dht" where
  "on_response rnd o' msg rtt now = (\<lambda>(lk, s).
     if ob_done (obs_at s o') \<or> ob_alive (obs_at s o') then Inr (lk, s)
     else if lk_done lk then Inr (lk, s)
     else
       let s1 = upd_obs o' (\<lambda>ob. ob\<lparr>ob_alive := True\<rparr>) s;
           ls2 = (if ob_initial (obs_at s1 o') \<and> km_response_id msg \<noteq> id_zero
                  then resort_result o' (lk, upd_obs o' (\<lambda>ob. ob\<lparr>ob_id := km_response_id msg\<rparr>) s1)
                  else (lk, s1))
       in and_then (fold_res (traverse now) (km_nodes msg) (parse_reply msg ls2)) (on_responded rnd o' rtt now))"

end
