(* ===== verification/Dht_Node.thy ===== *)
theory Dht_Node
  imports Dht_Lookup
begin

text \<open>
  The DHT node of \<open>src/librats/dht/node.cpp\<close> with the dispatch of replies and timeouts of
  \<open>rpc_manager.cpp\<close>: incoming queries and their answers, lookups started, cancelled and reaped,
  the periodic maintenance, and the vote on our external address. An input of the node carries
  the time and the random bytes the code draws while handling it.
\<close>

subsection \<open>Replies and timeouts\<close>

definition find_lookup :: "nat \<Rightarrow> dht \<Rightarrow> nat option" where
  "find_lookup k s = find_index (\<lambda>lk. lk_id lk = k) (dh_lookups s)"

text \<open>Call into the lookup an observer belongs to; the lookup may have been destroyed.\<close>

definition with_lookup :: "nat \<Rightarrow> (traversal \<times> dht \<Rightarrow> fault + traversal \<times> dht) \<Rightarrow> dht \<Rightarrow> fault + dht" where
  "with_lookup k f s =
     (case find_lookup k s of
        None \<Rightarrow> Inl Dangling
      | Some i \<Rightarrow>
          and_then (f (dh_lookups s ! i, s)) (\<lambda>(lk, s1). Inr (s1\<lparr>dh_lookups := (dh_lookups s1)[i := lk]\<rparr>)))"

definition obs_response :: "(nat \<Rightarrow> u16) \<Rightarrow> nat \<Rightarrow> krpc_message \<Rightarrow> u16 \<Rightarrow> int \<Rightarrow> dht \<Rightarrow> fault + dht" where
  "obs_response rnd o' msg rtt now s =
     (case ob_kind (obs_at s o') of
        Ping_Obs \<Rightarrow>
          and_then (in_range (node_seen now (km_response_id msg) (ob_ep (obs_at s o')) rtt
              (verify_node_id_for_ip (km_response_id msg) (ad_ip (ob_ep (obs_at s o')))) (dh_table s)))
            (\<lambda>(_, t). Inr (s\<lparr>dh_table := t\<rparr>))
      | Lookup_Obs k \<Rightarrow> with_lookup k (on_response rnd o' msg rtt now) s)"

definition obs_timeout :: "(nat \<Rightarrow> u16) \<Rightarrow> nat \<Rightarrow> int \<Rightarrow> dht \<Rightarrow> fault + dht" where
  "obs_timeout rnd o' now s =
     (case ob_kind (obs_at s o') of
        Ping_Obs \<Rightarrow> Inr (s\<lparr>dh_table := node_failed (ob_id (obs_at s o')) (ob_ep (obs_at s o')) (dh_table s)\<rparr>)
      | Lookup_Obs k \<Rightarrow> with_lookup k (\<lambda>ls. Inr (on_failed rnd o' False now ls)) s)"

definition obs_short_timeout :: "(nat \<Rightarrow> u16) \<Rightarrow> nat \<Rightarrow> int \<Rightarrow> dht \<Rightarrow> fault + dht" where
  "obs_short_timeout rnd o' now s =
     (case ob_kind (obs_at s o') of
        Ping_Obs \<Rightarrow> Inr s
      | Lookup_Obs k \<Rightarrow> with_lookup k (\<lambda>ls. Inr (on_failed rnd o' True now ls)) s)"

definition reply_rtt :: "int \<Rightarrow> u16" where
  "reply_rtt elapsed = (if elapsed < 0 then 0 else if elapsed > 0xfffe then 0xfffe else word_of_int elapsed)"

definition rpc_response :: "(nat \<Rightarrow> u16) \<Rightarrow> krpc_message \<Rightarrow> address \<Rightarrow> int \<Rightarrow> dht \<Rightarrow> fault + bool \<times> dht" where
  "rpc_response rnd msg from now s =
     (case string_to_txn (km_txn msg) of
        None \<Rightarrow> Inr (False, s)
      | Some t \<Rightarrow>
          (case map_of (dh_pending s) t of
             None \<Rightarrow> Inr (False, s)
           | Some p \<Rightarrow>
               if pn_ep p \<noteq> from then Inr (False, s)
               else
                 let s1 = s\<lparr>dh_pending := AList.delete t (dh_pending s)\<rparr> in
                 and_then
                   (if km_type msg = K_Error then obs_timeout rnd (pn_obs p) now s1
                    else obs_response rnd (pn_obs p) msg (reply_rtt (now - pn_sent p)) now s1)
                   (\<lambda>s2. Inr (True, s2))))"

definition overdue :: "int \<Rightarrow> dht \<Rightarrow> nat list" where
  "overdue now s = map (\<lambda>(t, p). pn_obs p) (filter (\<lambda>(t, p). now - pn_sent p \<ge> kFullTimeout) (dh_pending s))"

definition slow :: "int \<Rightarrow> dht \<Rightarrow> nat list" where
  "slow now s = map (\<lambda>(t, p). pn_obs p)
     (filter (\<lambda>(t, p). \<not> now - pn_sent p \<ge> kFullTimeout \<and> now - pn_sent p \<ge> kShortTimeout \<and>
        \<not> ob_short (obs_at s (pn_obs p))) (dh_pending s))"

fun short_all :: "(nat \<Rightarrow> u16) \<Rightarrow> int \<Rightarrow> nat list \<Rightarrow> dht \<Rightarrow> fault + dht" where
  "short_all rnd now [] s = Inr s"
| "short_all rnd now (o' # os) s = and_then (obs_short_timeout rnd o' now s) (short_all rnd now os)"

fun timeout_all :: "(nat \<Rightarrow> u16) \<Rightarrow> int \<Rightarrow> nat list \<Rightarrow> dht \<Rightarrow> fault + dht" where
  "timeout_all rnd now [] s = Inr s"
| "timeout_all rnd now (o' # os) s = and_then (obs_timeout rnd o' now (rpc_cancel o' s)) (timeout_all rnd now os)"

definition rpc_tick :: "(nat \<Rightarrow> u16) \<Rightarrow> int \<Rightarrow> dht \<Rightarrow> fault + dht" where
  "rpc_tick rnd now s =
     and_then (short_all rnd now (slow now s) s) (timeout_all rnd now (overdue now s))"

subsection \<open>External address\<close>

definition kExternalIpVoteThreshold :: nat where "kExternalIpVoteThreshold = 5"

text \<open>The random draws behind a generated identifier: the seed byte, the low bits and the tail.\<close>

type_synonym id_draw = "byte \<times> byte \<times> bytes"

definition set_external_ip :: "id_draw \<Rightarrow> int \<Rightarrow> ip_address \<Rightarrow> dht \<Rightarrow> fault + dht" where
  "set_external_ip draw now ip s =
     (if \<not> is_public_ip ip then Inr s
      else if is_v6 ip \<noteq> dh_v6 s then Inr s
      else
        let s1 = s\<lparr>dh_ext := ip\<rparr> in
        if verify_node_id_for_ip (dh_self s1) ip then Inr s1
        else case draw of (seed, r2, tail) \<Rightarrow>
          (case generate_node_id_from_ip ip seed r2 tail of
             None \<Rightarrow> Inr s1
           | Some i \<Rightarrow>
               and_then (in_range (set_self now i (dh_table s1)))
                 (\<lambda>t. Inr (s1\<lparr>dh_self := i, dh_table := t\<rparr>))))"

definition maybe_update_external_ip :: "id_draw \<Rightarrow> int \<Rightarrow> ip_address \<Rightarrow> address \<Rightarrow> dht \<Rightarrow> fault + dht" where
  "maybe_update_external_ip draw now reported from s =
     (if \<not> is_public_ip reported then Inr s
      else if is_v6 reported \<noteq> dh_v6 s then Inr s
      else if reported = dh_ext s then Inr s
      else if ad_ip from \<in> set (dh_voters s) then Inr s
      else
        let votes = (case map_of (dh_votes s) reported of None \<Rightarrow> 0 | Some n \<Rightarrow> n) + 1;
            s1 = s\<lparr>dh_voters := ad_ip from # dh_voters s, dh_votes := AList.update reported votes (dh_votes s)\<rparr>
        in if votes \<ge> kExternalIpVoteThreshold
           then set_external_ip draw now reported (s1\<lparr>dh_votes := [], dh_voters := []\<rparr>)
           else Inr s1)"

subsection \<open>Incoming messages\<close>

definition to_krpc :: "node_entry list \<Rightarrow> krpc_node list" where
  "to_krpc ns = map (\<lambda>n. \<lparr>kn_id = ne_id n, kn_ip = ad_ip (ne_endpoint n), kn_port = ad_port (ne_endpoint n)\<rparr>) ns"

definition send_message :: "krpc_message \<Rightarrow> address \<Rightarrow> dht \<Rightarrow> dht" where
  "send_message msg to s =
     (let out = (if km_type msg = K_Response \<and> is_unspecified (km_ext_ip msg)
                 then msg\<lparr>km_ext_ip := ad_ip to, km_ext_port := ad_port to\<rparr> else msg);
          data = krpc_encode_message out
      in if data \<noteq> [] then dht_emit (Sent to data) s else s)"

definition learn :: "int \<Rightarrow> node_id \<Rightarrow> address \<Rightarrow> dht \<Rightarrow> fault + dht" where
  "learn now sender from s =
     and_then (in_range (heard_about now sender from (verify_node_id_for_ip sender (ad_ip from)) (dh_table s)))
       (\<lambda>t. Inr (s\<lparr>dh_table := t\<rparr>))"

definition handle_query :: "bytes \<Rightarrow> krpc_message \<Rightarrow> address \<Rightarrow> int \<Rightarrow> dht \<Rightarrow> fault + dht" where
  "handle_query fresh msg from now s =
     (case km_query msg of
        Q_Ping \<Rightarrow>
          and_then (learn now (km_sender msg) from s)
            (\<lambda>s1. Inr (send_message (create_ping_response (km_txn msg) (dh_self s1)) from s1))
      | Q_FindNode \<Rightarrow>
          and_then (learn now (km_sender msg) from s)
            (\<lambda>s1. Inr (send_message (create_find_node_response (km_txn msg) (dh_self s1)
               (to_krpc (find_closest (km_target msg) kBucketSize False (dh_table s1)))) from s1))
      | Q_GetPeers \<Rightarrow>
          and_then (learn now (km_sender msg) from s)
            (\<lambda>s1.
               let (token, tm) = token_generate fresh from (km_info_hash msg) now (dh_tokens s1);
                   s2 = s1\<lparr>dh_tokens := tm\<rparr>;
                   peers = peer_get (km_info_hash msg) kMaxPeersPerHash (dh_peers s2);
                   reply = (if peers = []
                     then create_get_peers_response_with_nodes (km_txn msg) (dh_self s2)
                            (to_krpc (find_closest (km_info_hash msg) kBucketSize False (dh_table s2))) token
                     else create_get_peers_response (km_txn msg) (dh_self s2) peers token)
               in Inr (send_message reply from s2))
      | Q_AnnouncePeer \<Rightarrow>
          (case token_verify fresh from (km_info_hash msg) (km_token msg) now (dh_tokens s) of
             (False, tm) \<Rightarrow>
               Inr (send_message (create_error (km_txn msg) 203 (str ''Invalid token'')) from (s\<lparr>dh_tokens := tm\<rparr>))
           | (True, tm) \<Rightarrow>
               and_then (learn now (km_sender msg) from (s\<lparr>dh_tokens := tm\<rparr>))
                 (\<lambda>s1.
                    let port = (if km_implied msg then ad_port from else km_port msg);
                        s2 = s1\<lparr>dh_peers := peer_put (km_info_hash msg) \<lparr>ad_ip = ad_ip from, ad_port = port\<rparr> now (dh_peers s1)\<rparr>
                    in Inr (send_message (create_announce_peer_response (km_txn msg) (dh_self s2)) from s2))))"

definition handle_response :: "(nat \<Rightarrow> u16) \<Rightarrow> id_draw \<Rightarrow> krpc_message \<Rightarrow> address \<Rightarrow> int \<Rightarrow> dht \<Rightarrow> fault + dht" where
  "handle_response rnd draw msg from now s =
     and_then (if \<not> is_unspecified (km_ext_ip msg) then maybe_update_external_ip draw now (km_ext_ip msg) from s else Inr s)
       (\<lambda>s1. and_then (rpc_response rnd msg from now s1) (\<lambda>(_, s2). Inr s2))"

definition on_datagram :: "(nat \<Rightarrow> u16) \<Rightarrow> bytes \<Rightarrow> id_draw \<Rightarrow> bytes \<Rightarrow> address \<Rightarrow> int \<Rightarrow> dht \<Rightarrow> fault + dht" where
  "on_datagram rnd fresh draw data from now s =
     (case dos_allow (ad_ip from) now (dh_dos s) of
        (False, d) \<Rightarrow> Inr (s\<lparr>dh_dos := d\<rparr>)
      | (True, d) \<Rightarrow>
          let s1 = s\<lparr>dh_dos := d\<rparr> in
          (case krpc_decode_message data of
             None \<Rightarrow> Inr s1
           | Some msg \<Rightarrow>
               (case km_type msg of
                  K_Query \<Rightarrow> handle_query fresh msg from now s1
                | K_Response \<Rightarrow> handle_response rnd draw msg from now s1
                | K_Error \<Rightarrow> and_then (rpc_response rnd msg from now s1) (\<lambda>(_, s2). Inr s2))))"

subsection \<open>Lookups\<close>

definition new_lookup :: "node_id \<Rightarrow> (u16 \<times> bool) option \<Rightarrow> dht \<Rightarrow> traversal \<times> dht" where
  "new_lookup target announce s =
     (\<lparr>lk_id = dh_seq s, lk_self = dh_self s, lk_target = target, lk_results = [], lk_sorted = 0, lk_branch = kAlpha,
       lk_invoked = 0, lk_done = False, lk_sub4 = [], lk_sub6 = [], lk_want = [], lk_tokens = [], lk_peers = [],
       lk_announce = announce\<rparr>, s\<lparr>dh_seq := dh_seq s + 1\<rparr>)"

definition want :: "dht \<Rightarrow> bytes list" where
  "want s = [if dh_v6 s then str ''n6'' else str ''n4'']"

fun add_entries :: "node_entry list \<Rightarrow> traversal \<times> dht \<Rightarrow> traversal \<times> dht" where
  "add_entries [] ls = ls"
| "add_entries (n # ns) ls = add_entries ns (add_entry (ne_id n) (ne_endpoint n) ls)"

fun add_seeds :: "address list \<Rightarrow> traversal \<times> dht \<Rightarrow> traversal \<times> dht" where
  "add_seeds [] ls = ls"
| "add_seeds (ep # eps) ls = add_seeds eps (add_seed ep ls)"

definition lk_start :: "(nat \<Rightarrow> u16) \<Rightarrow> int \<Rightarrow> traversal \<times> dht \<Rightarrow> traversal \<times> dht" where
  "lk_start rnd now = (\<lambda>(lk, s).
     advance rnd now
       (add_entries (find_closest (lk_target lk) kBucketSize True (dh_table s)) (lk, s)))"

definition run_lookup :: "(nat \<Rightarrow> u16) \<Rightarrow> address list \<Rightarrow> int \<Rightarrow> traversal \<times> dht \<Rightarrow> dht" where
  "run_lookup rnd seeds now = (\<lambda>(lk, s).
     case lk_start rnd now (add_seeds seeds (lk\<lparr>lk_want := want s\<rparr>, s)) of
       (lk1, s1) \<Rightarrow> s1\<lparr>dh_lookups := dh_lookups s1 @ [lk1]\<rparr>)"

definition start_lookup :: "(nat \<Rightarrow> u16) \<Rightarrow> node_id \<Rightarrow> (u16 \<times> bool) option \<Rightarrow> int \<Rightarrow> dht \<Rightarrow> dht" where
  "start_lookup rnd target announce now s =
     run_lookup rnd (if table_size (dh_table s) < kAlpha then dh_boot s else []) now (new_lookup target announce s)"

definition bootstrap :: "(nat \<Rightarrow> u16) \<Rightarrow> address list \<Rightarrow> int \<Rightarrow> dht \<Rightarrow> dht" where
  "bootstrap rnd nodes now s = run_lookup rnd nodes now (new_lookup (dh_self s) None s)"

text \<open>The destructor of a lookup detaches the queries still in flight.\<close>

definition detach :: "nat \<Rightarrow> dht \<Rightarrow> dht" where
  "detach o' s =
     (let ob = obs_at s o' in
      if ob_queried ob \<and> \<not> ob_alive ob \<and> \<not> ob_failed ob then rpc_cancel o' s else s)"

fun detach_all :: "nat list \<Rightarrow> dht \<Rightarrow> dht" where
  "detach_all [] s = s"
| "detach_all (o' # os) s = detach_all os (detach o' s)"

fun destroy_all :: "traversal list \<Rightarrow> dht \<Rightarrow> dht" where
  "destroy_all [] s = s"
| "destroy_all (lk # lks) s = destroy_all lks (detach_all (lk_results lk) s)"

definition erase_lookups :: "(traversal \<Rightarrow> bool) \<Rightarrow> dht \<Rightarrow> dht" where
  "erase_lookups P s =
     (let s1 = destroy_all (filter P (dh_lookups s)) s
      in s1\<lparr>dh_lookups := filter (\<lambda>lk. \<not> P lk) (dh_lookups s1)\<rparr>)"

definition cancel_lookup :: "node_id \<Rightarrow> dht \<Rightarrow> dht" where
  "cancel_lookup ih s = erase_lookups (\<lambda>lk. lk_target lk = ih) s"

definition reap_finished :: "dht \<Rightarrow> dht" where
  "reap_finished s = erase_lookups lk_done s"

definition lookup_active :: "node_id \<Rightarrow> bool \<Rightarrow> dht \<Rightarrow> bool" where
  "lookup_active ih announce s =
     list_ex (\<lambda>lk. \<not> lk_done lk \<and> (lk_announce lk \<noteq> None) = announce \<and> lk_target lk = ih) (dh_lookups s)"

definition lookup_count :: "bool \<Rightarrow> dht \<Rightarrow> nat" where
  "lookup_count announce s =
     length (filter (\<lambda>lk. \<not> lk_done lk \<and> (lk_announce lk \<noteq> None) = announce) (dh_lookups s))"

subsection \<open>Maintenance\<close>

definition kRefreshInterval :: int where "kRefreshInterval = 6000"
definition kSelfRefreshInterval :: int where "kSelfRefreshInterval = 360000"

definition ping :: "(nat \<Rightarrow> u16) \<Rightarrow> node_id \<Rightarrow> address \<Rightarrow> int \<Rightarrow> dht \<Rightarrow> dht" where
  "ping rnd i ep now s =
     (let (o', s1) = alloc (new_observer Ping_Obs i ep) s
      in snd (rpc_invoke rnd (create_ping_query [] (dh_self s1)) ep o' now s1))"

definition refresh_one :: "(nat \<Rightarrow> u16) \<Rightarrow> int \<Rightarrow> dht \<Rightarrow> dht" where
  "refresh_one rnd now s =
     (if now - dh_last_refresh s \<ge> kRefreshInterval then
        (let (stale, t) = next_to_refresh now (dh_table s);
             s1 = s\<lparr>dh_table := t\<rparr>;
             s2 = (case stale of None \<Rightarrow> s1 | Some n \<Rightarrow> ping rnd (ne_id n) (ne_endpoint n) now s1)
         in s2\<lparr>dh_last_refresh := now\<rparr>)
      else s)"

definition refresh_self :: "(nat \<Rightarrow> u16) \<Rightarrow> int \<Rightarrow> dht \<Rightarrow> dht" where
  "refresh_self rnd now s =
     (if now - dh_last_self s \<ge> kSelfRefreshInterval \<and> dh_lookups s = [] \<and> table_size (dh_table s) \<noteq> 0
      then (start_lookup rnd (dh_self s) None now s)\<lparr>dh_last_self := now\<rparr>
      else s)"

definition node_tick :: "(nat \<Rightarrow> u16) \<Rightarrow> int \<Rightarrow> dht \<Rightarrow> fault + dht" where
  "node_tick rnd now s =
     and_then (rpc_tick rnd now s)
       (\<lambda>s1.
          let s2 = reap_finished s1;
              s3 = s2\<lparr>dh_peers := peer_expire now (dh_peers s2)\<rparr>
          in Inr (refresh_self rnd now (refresh_one rnd now s3)))"

subsection \<open>The node\<close>

definition new_dht :: "node_id \<Rightarrow> bool \<Rightarrow> dht" where
  "new_dht self ipv6 =
     \<lparr>dh_self = self, dh_v6 = ipv6, dh_table = new_table self True, dh_obs = [], dh_pending = [], dh_draws = 0,
      dh_fallback = False, dh_peers = [], dh_tokens = tm_new, dh_dos = [], dh_lookups = [], dh_seq = 0, dh_boot = [],
      dh_ext = ip_none, dh_votes = [], dh_voters = [], dh_last_refresh = 0, dh_last_self = 0, dh_out = []\<rparr>"

datatype dht_in =
    Datagram bytes address int bytes id_draw
  | Tick int
  | Bootstrap "address list" int
  | Set_Bootstrap "address list"
  | Find_Peers node_id int
  | Announce_Peer node_id u16 bool int
  | Cancel_Lookup node_id
  | Set_External_Ip ip_address int id_draw

fun dht_step :: "(nat \<Rightarrow> u16) \<Rightarrow> dht_in \<Rightarrow> dht \<Rightarrow> fault + dht" where
  "dht_step rnd (Datagram data from now fresh draw) s = on_datagram rnd fresh draw data from now s"
| "dht_step rnd (Tick now) s = node_tick rnd now s"
| "dht_step rnd (Bootstrap nodes now) s = Inr (bootstrap rnd nodes now s)"
| "dht_step rnd (Set_Bootstrap nodes) s = Inr (s\<lparr>dh_boot := nodes\<rparr>)"
| "dht_step rnd (Find_Peers ih now) s = Inr (start_lookup rnd ih None now s)"
| "dht_step rnd (Announce_Peer ih port implied now) s = Inr (start_lookup rnd ih (Some (port, implied)) now s)"
| "dht_step rnd (Cancel_Lookup ih) s = Inr (cancel_lookup ih s)"
| "dht_step rnd (Set_External_Ip ip now draw) s = set_external_ip draw now ip s"

definition dht_run :: "(nat \<Rightarrow> u16) \<Rightarrow> dht_in list \<Rightarrow> dht \<Rightarrow> fault + dht" where
  "dht_run rnd ins s = fold_res (dht_step rnd) ins s"

end
