(* ===== verification/Chacha.thy ===== *)
theory Chacha
  imports Prelude
begin

text \<open>
  The ChaCha20 stream cipher of \<open>src/librats/crypto/chacha.h\<close> and \<open>chacha.c\<close>, in the two forms
  the source has: the portable one on sixteen words and the vectorised one on four rows of four
  words, chosen at compile time. The two compute the same bytes; either is an involution, the
  exclusive or with a key stream that depends on the context and the length alone. The context
  is the list of its sixteen words, or of its four rows; hosts are little-endian.
\<close>

subsection \<open>Words and bytes\<close>

definition fromLittle :: "bytes \<Rightarrow> nat \<Rightarrow> u32" where
  "fromLittle p i = be_u32 (p ! (i + 3)) (p ! (i + 2)) (p ! (i + 1)) (p ! i)"

definition toLittle :: "u32 \<Rightarrow> bytes" where
  "toLittle v = [ucast v, ucast (drop_bit 8 v), ucast (drop_bit 16 v), ucast (drop_bit 24 v)]"

definition leftRotate :: "u32 \<Rightarrow> nat \<Rightarrow> u32" where
  "leftRotate x n = push_bit n x OR drop_bit (32 - n) x"

definition quarterRound :: "u32 \<Rightarrow> u32 \<Rightarrow> u32 \<Rightarrow> u32 \<Rightarrow> u32 \<times> u32 \<times> u32 \<times> u32" where
  "quarterRound a b c d =
     (let a = a + b; d = leftRotate (d XOR a) 16;
          c = c + d; b = leftRotate (b XOR c) 12;
          a = a + b; d = leftRotate (d XOR a) 8;
          c = c + d; b = leftRotate (b XOR c) 7
      in (a, b, c, d))"

subsection \<open>The portable cipher\<close>

type_synonym chacha_ctx = "u32 list"

definition chacha_keysetup :: "chacha_ctx \<Rightarrow> bytes \<Rightarrow> nat \<Rightarrow> chacha_ctx" where
  "chacha_keysetup x k kbits =
     (if kbits = 256 then
        map (fromLittle (str ''expand 32-byte k'')) [0, 4, 8, 12] @
        map (fromLittle k) [0, 4, 8, 12, 16, 20, 24, 28] @ replicate 4 0
      else
        map (fromLittle (str ''expand 16-byte k'')) [0, 4, 8, 12] @
        map (fromLittle k) [0, 4, 8, 12] @ map (fromLittle k) [0, 4, 8, 12] @ replicate 4 0)"

definition chacha_ivsetup :: "chacha_ctx \<Rightarrow> bytes \<Rightarrow> bytes option \<Rightarrow> chacha_ctx" where
  "chacha_ivsetup x iv counter =
     take 12 x @
     (case counter of Some c \<Rightarrow> [fromLittle c 0, fromLittle c 4] | None \<Rightarrow> [0, 0]) @
     [fromLittle iv 0, fromLittle iv 4]"

definition qr_at :: "nat \<Rightarrow> nat \<Rightarrow> nat \<Rightarrow> nat \<Rightarrow> u32 list \<Rightarrow> u32 list" where
  "qr_at i j k l out =
     (case quarterRound (out ! i) (out ! j) (out ! k) (out ! l) of
        (a, b, c, d) \<Rightarrow> out[i := a, j := b, k := c, l := d])"

definition chacha_double_round :: "u32 list \<Rightarrow> u32 list" where
  "chacha_double_round out =
     (let out = qr_at 0 4 8 12 out; out = qr_at 1 5 9 13 out;
          out = qr_at 2 6 10 14 out; out = qr_at 3 7 11 15 out;
          out = qr_at 0 5 10 15 out; out = qr_at 1 6 11 12 out;
          out = qr_at 2 7 8 13 out; out = qr_at 3 4 9 14 out
      in out)"

definition chacha_core :: "u32 list \<Rightarrow> u32 list" where
  "chacha_core input = map2 (+) ((chacha_double_round ^^ 10) input) input"

definition chacha_bump :: "chacha_ctx \<Rightarrow> chacha_ctx" where
  "chacha_bump x =
     (let in12 = x ! 12 + 1 in
      if in12 = 0 then x[12 := in12, 13 := x ! 13 + 1] else x[12 := in12])"

definition xor_block :: "u32 list \<Rightarrow> bytes \<Rightarrow> bytes" where
  "xor_block out m = concat (map (\<lambda>i. toLittle (out ! i XOR fromLittle m (4 * i))) [0..<16])"

text \<open>
  A last, short block is completed in a scratch buffer whose other bytes are unspecified; they
  only reach output bytes that are dropped, and are zero here.
\<close>

definition scratch :: "bytes \<Rightarrow> bytes" where
  "scratch m = m @ replicate (64 - length m) 0"

function chacha_encrypt_bytes :: "chacha_ctx \<Rightarrow> bytes \<Rightarrow> bytes \<times> chacha_ctx" where
  "chacha_encrypt_bytes x m =
     (if m = [] then ([], x)
      else
        let out = chacha_core x;
            x1 = chacha_bump x
        in if length m < 64 then (take (length m) (xor_block out (scratch m)), x1)
           else case chacha_encrypt_bytes x1 (drop 64 m) of
                  (c, x2) \<Rightarrow> (xor_block out m @ c, x2))"
  by pat_completeness auto
termination
  by (relation "measure (\<lambda>(x, m). length m)") auto

declare chacha_encrypt_bytes.simps [simp del]

subsection \<open>The vectorised cipher\<close>

type_synonym vec4 = "u32 list"
type_synonym chacha_vctx = "vec4 \<times> vec4 \<times> vec4 \<times> vec4"

definition fromLittleVec :: "bytes \<Rightarrow> nat \<Rightarrow> vec4" where
  "fromLittleVec p i = map (\<lambda>j. fromLittle p (i + 4 * j)) [0, 1, 2, 3]"

definition toLittleVec :: "vec4 \<Rightarrow> bytes" where
  "toLittleVec v = toLittle (v ! 0) @ toLittle (v ! 1) @ toLittle (v ! 2) @ toLittle (v ! 3)"

definition vadd :: "vec4 \<Rightarrow> vec4 \<Rightarrow> vec4" where "vadd = map2 (+)"
definition vxor :: "vec4 \<Rightarrow> vec4 \<Rightarrow> vec4" where "vxor = map2 (XOR)"
definition vrot :: "vec4 \<Rightarrow> nat \<Rightarrow> vec4" where "vrot x n = map (\<lambda>v. leftRotate v n) x"

definition quarterRoundVec :: "vec4 \<Rightarrow> vec4 \<Rightarrow> vec4 \<Rightarrow> vec4 \<Rightarrow> chacha_vctx" where
  "quarterRoundVec a b c d =
     (let a = vadd a b; d = vrot (vxor d a) 16;
          c = vadd c d; b = vrot (vxor b c) 12;
          a = vadd a b; d = vrot (vxor d a) 8;
          c = vadd c d; b = vrot (vxor b c) 7
      in (a, b, c, d))"

definition shuffleLeft :: "nat \<Rightarrow> vec4 \<Rightarrow> vec4" where
  "shuffleLeft n x = map (\<lambda>i. x ! ((i + n) mod 4)) [0, 1, 2, 3]"

definition chacha_vkeysetup :: "chacha_vctx \<Rightarrow> bytes \<Rightarrow> nat \<Rightarrow> chacha_vctx" where
  "chacha_vkeysetup x k kbits =
     (if kbits = 256 then
        (fromLittleVec (str ''expand 32-byte k'') 0, fromLittleVec k 0, fromLittleVec k 16, [0, 0, 0, 0])
      else
        (fromLittleVec (str ''expand 16-byte k'') 0, fromLittleVec k 0, fromLittleVec k 0, [0, 0, 0, 0]))"

definition chacha_vivsetup :: "chacha_vctx \<Rightarrow> bytes \<Rightarrow> bytes option \<Rightarrow> chacha_vctx" where
  "chacha_vivsetup x iv counter =
     (case x of (i0, i1, i2, i3) \<Rightarrow>
        (i0, i1, i2,
         case counter of
           Some c \<Rightarrow> [fromLittle c 0, fromLittle c 4, fromLittle iv 0, fromLittle iv 4]
         | None \<Rightarrow> [0, 0, fromLittle iv 0, fromLittle iv 4]))"

definition chacha_vdouble_round :: "chacha_vctx \<Rightarrow> chacha_vctx" where
  "chacha_vdouble_round out =
     (case out of (o0, o1, o2, o3) \<Rightarrow>
       let (o0, o1, o2, o3) = quarterRoundVec o0 o1 o2 o3;
           o1 = shuffleLeft 1 o1; o2 = shuffleLeft 2 o2; o3 = shuffleLeft 3 o3;
           (o0, o1, o2, o3) = quarterRoundVec o0 o1 o2 o3;
           o1 = shuffleLeft 3 o1; o2 = shuffleLeft 2 o2; o3 = shuffleLeft 1 o3
       in (o0, o1, o2, o3))"

definition chacha_vcore :: "chacha_vctx \<Rightarrow> chacha_vctx" where
  "chacha_vcore x =
     (case ((chacha_vdouble_round ^^ 10) x, x) of ((o0, o1, o2, o3), (i0, i1, i2, i3)) \<Rightarrow>
        (vadd o0 i0, vadd o1 i1, vadd o2 i2, vadd o3 i3))"

definition chacha_vbump :: "chacha_vctx \<Rightarrow> chacha_vctx" where
  "chacha_vbump x =
     (case x of (i0, i1, i2, i3) \<Rightarrow>
        let n = i3 ! 0 + 1 in
        (i0, i1, i2, if n = 0 then i3[0 := n, 1 := i3 ! 1 + 1] else i3[0 := n]))"

definition vxor_block :: "chacha_vctx \<Rightarrow> bytes \<Rightarrow> bytes" where
  "vxor_block out m =
     (case out of (o0, o1, o2, o3) \<Rightarrow>
        toLittleVec (vxor o0 (fromLittleVec m 0)) @ toLittleVec (vxor o1 (fromLittleVec m 16)) @
        toLittleVec (vxor o2 (fromLittleVec m 32)) @ toLittleVec (vxor o3 (fromLittleVec m 48)))"

function chacha_vencrypt_bytes :: "chacha_vctx \<Rightarrow> bytes \<Rightarrow> bytes \<times> chacha_vctx" where
  "chacha_vencrypt_bytes x m =
     (if m = [] then ([], x)
      else
        let out = chacha_vcore x;
            x1 = chacha_vbump x
        in if length m < 64 then (take (length m) (vxor_block out (scratch m)), x1)
           else case chacha_vencrypt_bytes x1 (drop 64 m) of
                  (c, x2) \<Rightarrow> (vxor_block out m @ c, x2))"
  by pat_completeness auto
termination
  by (relation "measure (\<lambda>(x, m). length m)") auto

declare chacha_vencrypt_bytes.simps [simp del]

subsection \<open>The key stream\<close>

definition key_block :: "chacha_ctx \<Rightarrow> bytes" where
  "key_block x = concat (map toLittle (chacha_core x))"

fun key_stream :: "chacha_ctx \<Rightarrow> nat \<Rightarrow> bytes" where
  "key_stream x 0 = []"
| "key_stream x (Suc n) = key_block x @ key_stream (chacha_bump x) n"

definition xor_bytes :: "bytes \<Rightarrow> bytes \<Rightarrow> bytes" where
  "xor_bytes m k = map2 (XOR) m k"

lemma toLittle_xor:
  "toLittle (w XOR be_u32 d c b a) = xor_bytes [a, b, c, d] (toLittle w)"
proof -
  have "toLittle (w XOR v) = map2 (XOR) (toLittle v) (toLittle w)" for v
    by (simp add: toLittle_def) (auto intro!: bit_word_eqI simp: bit_ucast_iff bit_drop_bit_eq bit_xor_iff)
  moreover have "toLittle (be_u32 d c b a) = rev (u32_be (be_u32 d c b a))" for a b c d
    by (simp add: toLittle_def u32_be_def)
  ultimately show ?thesis by (simp add: xor_bytes_def)
qed

lemma length_toLittle [simp]: "length (toLittle w) = 4"
  by (simp add: toLittle_def)

lemma length_qr_at [simp]: "length (qr_at i j k l x) = length x"
  by (simp add: qr_at_def split: prod.splits)

lemma length_double_round [simp]: "length (chacha_double_round x) = length x"
  by (simp add: chacha_double_round_def Let_def)

lemma length_rounds [simp]: "length ((chacha_double_round ^^ n) x) = length x"
  by (induction n) simp_all

lemma length_core [simp]: "length (chacha_core x) = length x"
  by (simp add: chacha_core_def)

lemma length_bump [simp]: "length (chacha_bump x) = length x"
  by (simp add: chacha_bump_def Let_def)

lemma length_key_block [simp]: "length x = 16 \<Longrightarrow> length (key_block x) = 64"
  by (simp add: key_block_def length_concat comp_def sum_list_triv)

lemma length_key_stream [simp]: "length x = 16 \<Longrightarrow> length (key_stream x n) = 64 * n"
  by (induction n arbitrary: x) simp_all

lemma four_bytes: "i + 3 < length m \<Longrightarrow> take 4 (drop i m) = [m ! i, m ! (i + 1), m ! (i + 2), m ! (i + 3)]"
  by (rule nth_equalityI) (auto simp: less_Suc_eq numeral_eq_Suc)

lemma xor_words:
  "n \<le> length out \<Longrightarrow> 4 * n \<le> length m \<Longrightarrow>
     concat (map (\<lambda>i. toLittle (out ! i XOR fromLittle m (4 * i))) [0..<n]) = xor_bytes (take (4 * n) m) (concat (map toLittle (take n out)))"
proof (induction n)
  case (Suc n)
  have "toLittle (out ! n XOR fromLittle m (4 * n)) = xor_bytes (take 4 (drop (4 * n) m)) (toLittle (out ! n))"
    using Suc.prems four_bytes [of "4 * n" m] by (simp add: fromLittle_def toLittle_xor)
  moreover have "take (4 * Suc n) m = take (4 * n) m @ take 4 (drop (4 * n) m)"
    using take_add [of "4 * n" 4 m] by (simp add: add.commute)
  moreover have "length (concat (map toLittle (take n out))) = 4 * n"
    using Suc.prems by (simp add: length_concat comp_def sum_list_triv)
  ultimately show ?case
    using Suc by (simp add: take_Suc_conv_app_nth xor_bytes_def)
qed (simp add: xor_bytes_def)

lemma xor_block_bytes:
  assumes "length x = 16" "64 \<le> length m"
  shows "xor_block (chacha_core x) m = xor_bytes (take 64 m) (key_block x)"
  using xor_words [of 16 "chacha_core x" m] assms by (simp add: xor_block_def key_block_def)

lemma xor_bytes_take: "take n (xor_bytes m k) = xor_bytes (take n m) k"
proof (induction m arbitrary: n k)
  case (Cons a m)
  then show ?case by (cases n; cases k) (simp_all add: xor_bytes_def)
qed (simp add: xor_bytes_def)

lemma xor_bytes_append:
  "length a = length k \<Longrightarrow> xor_bytes (a @ b) (k @ l) = xor_bytes a k @ xor_bytes b l"
  by (simp add: xor_bytes_def)

lemma xor_bytes_longer: "length m \<le> length k \<Longrightarrow> xor_bytes m (k @ l) = xor_bytes m k"
  by (simp add: xor_bytes_def zip_append2)

lemma xor_bytes_twice: "length m \<le> length k \<Longrightarrow> xor_bytes (xor_bytes m k) k = m"
  by (induction m arbitrary: k) (auto simp: xor_bytes_def Suc_le_length_iff xor.assoc)

lemma length_xor_bytes: "length m \<le> length k \<Longrightarrow> length (xor_bytes m k) = length m"
  by (simp add: xor_bytes_def)

text \<open>The cipher is the exclusive or with the key stream.\<close>

definition blocks_of :: "nat \<Rightarrow> nat" where
  "blocks_of n = (n + 63) div 64"

lemma blocks_of_step: "64 \<le> n \<Longrightarrow> blocks_of n = Suc (blocks_of (n - 64))"
  by (simp add: blocks_of_def div_if [of "n + 63"])

lemma blocks_of_enough: "n \<le> 64 * blocks_of n"
  by (simp add: blocks_of_def)

lemma encrypt_stream:
  "length x = 16 \<Longrightarrow> fst (chacha_encrypt_bytes x m) = xor_bytes m (key_stream x (blocks_of (length m)))"
proof (induction x m rule: chacha_encrypt_bytes.induct)
  case (1 x m)
  consider "m = []" | "m \<noteq> []" "length m < 64" | "64 \<le> length m" by linarith
  then show ?case
  proof cases
    case 2
    then have "blocks_of (length m) = 1" by (cases m) (simp_all add: blocks_of_def div_nat_eqI)
    moreover have "take (length m) (xor_block (chacha_core x) (scratch m)) = xor_bytes m (key_block x)"
      using 2 "1.prems" by (subst xor_block_bytes) (simp_all add: scratch_def xor_bytes_take)
    ultimately show ?thesis using 2 by (subst chacha_encrypt_bytes.simps) (simp add: Let_def)
  next
    case 3
    then have ne: "m \<noteq> []" "\<not> length m < 64" by auto
    have IH: "fst (chacha_encrypt_bytes (chacha_bump x) (drop 64 m)) = xor_bytes (drop 64 m) (key_stream (chacha_bump x) (blocks_of (length m - 64)))"
      using "1.IH" [OF ne(1) refl refl ne(2)] "1.prems" by simp
    have "xor_bytes (take 64 m @ drop 64 m) (key_stream x (blocks_of (length m))) =
        xor_bytes (take 64 m) (key_block x) @ xor_bytes (drop 64 m) (key_stream (chacha_bump x) (blocks_of (length m - 64)))"
      using 3 "1.prems" unfolding blocks_of_step [OF 3] key_stream.simps by (subst xor_bytes_append) simp_all
    then show ?thesis
      using ne 3 "1.prems" IH by (subst chacha_encrypt_bytes.simps) (simp add: Let_def split_beta xor_block_bytes)
  qed (simp add: chacha_encrypt_bytes.simps xor_bytes_def)
qed

lemma length_encrypt [simp]: "length x = 16 \<Longrightarrow> length (fst (chacha_encrypt_bytes x m)) = length m"
  by (simp add: encrypt_stream length_xor_bytes blocks_of_enough)

lemma encrypt_twice: "length x = 16 \<Longrightarrow> fst (chacha_encrypt_bytes x (fst (chacha_encrypt_bytes x m))) = m"
  by (simp add: encrypt_stream length_xor_bytes blocks_of_enough xor_bytes_twice)

subsection \<open>The two forms agree\<close>

fun flat :: "chacha_vctx \<Rightarrow> chacha_ctx" where
  "flat (o0, o1, o2, o3) = o0 @ o1 @ o2 @ o3"

fun rows_ok :: "chacha_vctx \<Rightarrow> bool" where
  "rows_ok (o0, o1, o2, o3) \<longleftrightarrow> length o0 = 4 \<and> length o1 = 4 \<and> length o2 = 4 \<and> length o3 = 4"

lemma length_four: "length v = 4 \<longleftrightarrow> (\<exists>a b c d. v = [a, b, c, d])"
  by (auto simp: numeral_eq_Suc length_Suc_conv)

lemma rows_okE:
  assumes "rows_ok x"
  obtains a0 a1 a2 a3 b0 b1 b2 b3 c0 c1 c2 c3 d0 d1 d2 d3
  where "x = ([a0, a1, a2, a3], [b0, b1, b2, b3], [c0, c1, c2, c3], [d0, d1, d2, d3])"
  using assms by (cases x) (auto simp: length_four)

text \<open>A vector quarter round is a quarter round in each lane.\<close>

lemma quarter_lanes:
  assumes "quarterRound a0 b0 c0 d0 = (p0, q0, r0, s0)" "quarterRound a1 b1 c1 d1 = (p1, q1, r1, s1)"
    "quarterRound a2 b2 c2 d2 = (p2, q2, r2, s2)" "quarterRound a3 b3 c3 d3 = (p3, q3, r3, s3)"
  shows "quarterRoundVec [a0, a1, a2, a3] [b0, b1, b2, b3] [c0, c1, c2, c3] [d0, d1, d2, d3] =
    ([p0, p1, p2, p3], [q0, q1, q2, q3], [r0, r1, r2, r3], [s0, s1, s2, s3])"
  using assms unfolding quarterRound_def Let_def
  by (elim Pair_inject) (hypsubst, simp add: quarterRoundVec_def Let_def vadd_def vxor_def vrot_def)

lemma vdouble_round:
  assumes "rows_ok x"
  shows "rows_ok (chacha_vdouble_round x) \<and> flat (chacha_vdouble_round x) = chacha_double_round (flat x)"
proof -
  obtain a0 a1 a2 a3 b0 b1 b2 b3 c0 c1 c2 c3 d0 d1 d2 d3
    where x: "x = ([a0, a1, a2, a3], [b0, b1, b2, b3], [c0, c1, c2, c3], [d0, d1, d2, d3])"
    using assms by (rule rows_okE)
  obtain p0 q0 r0 s0 where c0': "quarterRound a0 b0 c0 d0 = (p0, q0, r0, s0)" by (rule prod_cases4)
  obtain p1 q1 r1 s1 where c1': "quarterRound a1 b1 c1 d1 = (p1, q1, r1, s1)" by (rule prod_cases4)
  obtain p2 q2 r2 s2 where c2': "quarterRound a2 b2 c2 d2 = (p2, q2, r2, s2)" by (rule prod_cases4)
  obtain p3 q3 r3 s3 where c3': "quarterRound a3 b3 c3 d3 = (p3, q3, r3, s3)" by (rule prod_cases4)
  obtain t0 u0 v0 w0 where d0': "quarterRound p0 q1 r2 s3 = (t0, u0, v0, w0)" by (rule prod_cases4)
  obtain t1 u1 v1 w1 where d1': "quarterRound p1 q2 r3 s0 = (t1, u1, v1, w1)" by (rule prod_cases4)
  obtain t2 u2 v2 w2 where d2': "quarterRound p2 q3 r0 s1 = (t2, u2, v2, w2)" by (rule prod_cases4)
  obtain t3 u3 v3 w3 where d3': "quarterRound p3 q0 r1 s2 = (t3, u3, v3, w3)" by (rule prod_cases4)
  note c = c0' c1' c2' c3' and d = d0' d1' d2' d3'
  have col:
    "qr_at 0 4 8 12 [a0, a1, a2, a3, b0, b1, b2, b3, c0, c1, c2, c3, d0, d1, d2, d3] =
      [p0, a1, a2, a3, q0, b1, b2, b3, r0, c1, c2, c3, s0, d1, d2, d3]"
    "qr_at 1 5 9 13 [p0, a1, a2, a3, q0, b1, b2, b3, r0, c1, c2, c3, s0, d1, d2, d3] =
      [p0, p1, a2, a3, q0, q1, b2, b3, r0, r1, c2, c3, s0, s1, d2, d3]"
    "qr_at 2 6 10 14 [p0, p1, a2, a3, q0, q1, b2, b3, r0, r1, c2, c3, s0, s1, d2, d3] =
      [p0, p1, p2, a3, q0, q1, q2, b3, r0, r1, r2, c3, s0, s1, s2, d3]"
    "qr_at 3 7 11 15 [p0, p1, p2, a3, q0, q1, q2, b3, r0, r1, r2, c3, s0, s1, s2, d3] =
      [p0, p1, p2, p3, q0, q1, q2, q3, r0, r1, r2, r3, s0, s1, s2, s3]"
    by (simp_all add: qr_at_def c)
  have dia:
    "qr_at 0 5 10 15 [p0, p1, p2, p3, q0, q1, q2, q3, r0, r1, r2, r3, s0, s1, s2, s3] =
      [t0, p1, p2, p3, q0, u0, q2, q3, r0, r1, v0, r3, s0, s1, s2, w0]"
    "qr_at 1 6 11 12 [t0, p1, p2, p3, q0, u0, q2, q3, r0, r1, v0, r3, s0, s1, s2, w0] =
      [t0, t1, p2, p3, q0, u0, u1, q3, r0, r1, v0, v1, w1, s1, s2, w0]"
    "qr_at 2 7 8 13 [t0, t1, p2, p3, q0, u0, u1, q3, r0, r1, v0, v1, w1, s1, s2, w0] =
      [t0, t1, t2, p3, q0, u0, u1, u2, v2, r1, v0, v1, w1, w2, s2, w0]"
    "qr_at 3 4 9 14 [t0, t1, t2, p3, q0, u0, u1, u2, v2, r1, v0, v1, w1, w2, s2, w0] =
      [t0, t1, t2, t3, u3, u0, u1, u2, v2, v3, v0, v1, w1, w2, w3, w0]"
    by (simp_all add: qr_at_def d)
  have "flat x = [a0, a1, a2, a3, b0, b1, b2, b3, c0, c1, c2, c3, d0, d1, d2, d3]" by (simp add: x)
  then have "chacha_double_round (flat x) = [t0, t1, t2, t3, u3, u0, u1, u2, v2, v3, v0, v1, w1, w2, w3, w0]"
    by (simp only: chacha_double_round_def Let_def col dia)
  moreover have "quarterRoundVec [p0, p1, p2, p3] (shuffleLeft 1 [q0, q1, q2, q3]) (shuffleLeft 2 [r0, r1, r2, r3]) (shuffleLeft 3 [s0, s1, s2, s3]) =
      ([t0, t1, t2, t3], [u0, u1, u2, u3], [v0, v1, v2, v3], [w0, w1, w2, w3])"
    using quarter_lanes [OF d] by (simp add: shuffleLeft_def)
  then have "chacha_vdouble_round x = ([t0, t1, t2, t3], [u3, u0, u1, u2], [v2, v3, v0, v1], [w1, w2, w3, w0])"
    by (simp add: x chacha_vdouble_round_def quarter_lanes [OF c]) (simp add: shuffleLeft_def)
  ultimately show ?thesis by simp
qed

lemma vrounds: "rows_ok x \<Longrightarrow> rows_ok ((chacha_vdouble_round ^^ n) x) \<and> flat ((chacha_vdouble_round ^^ n) x) = (chacha_double_round ^^ n) (flat x)"
  by (induction n) (simp_all add: vdouble_round)

lemma vcore:
  assumes "rows_ok x"
  shows "rows_ok (chacha_vcore x)" "flat (chacha_vcore x) = chacha_core (flat x)"
proof -
  obtain i0 i1 i2 i3 where i: "x = (i0, i1, i2, i3)" by (rule prod_cases4)
  obtain o0 o1 o2 o3 where o: "(chacha_vdouble_round ^^ 10) (i0, i1, i2, i3) = (o0, o1, o2, o3)" by (rule prod_cases4)
  have l: "rows_ok (o0, o1, o2, o3)" "o0 @ o1 @ o2 @ o3 = (chacha_double_round ^^ 10) (flat x)"
    using vrounds [OF assms, of 10] by (simp_all add: o i)
  show "rows_ok (chacha_vcore x)" using l(1) assms by (simp add: chacha_vcore_def o i vadd_def)
  show "flat (chacha_vcore x) = chacha_core (flat x)"
    using l(1) assms unfolding chacha_core_def l(2) [symmetric] by (simp add: chacha_vcore_def o i vadd_def)
qed

lemma vbump:
  assumes "rows_ok x"
  shows "rows_ok (chacha_vbump x) \<and> flat (chacha_vbump x) = chacha_bump (flat x)"
  using assms by (rule rows_okE) (simp add: chacha_vbump_def chacha_bump_def Let_def)

lemma vxor_block:
  assumes "rows_ok x"
  shows "vxor_block x m = xor_block (flat x) m"
  using assms
  by (rule rows_okE) (simp add: vxor_block_def xor_block_def toLittleVec_def fromLittleVec_def vxor_def upt_rec numeral_eq_Suc)

lemma vencrypt:
  "rows_ok x \<Longrightarrow> map_prod (\<lambda>c. c) flat (chacha_vencrypt_bytes x m) = chacha_encrypt_bytes (flat x) m \<and> rows_ok (snd (chacha_vencrypt_bytes x m))"
proof (induction x m rule: chacha_vencrypt_bytes.induct)
  case (1 x m)
  note f = vcore [OF "1.prems"] vbump [OF "1.prems"]
  note unfold = chacha_vencrypt_bytes.simps [of x m] chacha_encrypt_bytes.simps [of "flat x" m]
  consider "m = []" | "m \<noteq> []" "length m < 64" | "m \<noteq> []" "\<not> length m < 64" by blast
  then show ?case
  proof cases
    case 1
    then show ?thesis unfolding unfold using "1.prems" by simp
  next
    case 2
    then show ?thesis unfolding unfold using f by (simp add: Let_def vxor_block)
  next
    case 3
    obtain c x2 where c: "chacha_vencrypt_bytes (chacha_vbump x) (drop 64 m) = (c, x2)" by (rule prod.exhaust)
    have "(c, flat x2) = chacha_encrypt_bytes (chacha_bump (flat x)) (drop 64 m) \<and> rows_ok x2"
      using "1.IH" [OF 3(1) refl refl 3(2)] f c by simp
    then show ?thesis unfolding unfold using f 3 by (simp add: Let_def vxor_block c split_beta fst_conv [of c "flat x2"])
      (metis fst_conv snd_conv)
  qed
qed

lemma setup_flat:
  "rows_ok (chacha_vivsetup (chacha_vkeysetup v k kbits) iv counter)"
  "flat (chacha_vivsetup (chacha_vkeysetup v k kbits) iv counter) = chacha_ivsetup (chacha_keysetup x k kbits) iv counter"
  by (simp_all add: chacha_vivsetup_def chacha_vkeysetup_def chacha_ivsetup_def chacha_keysetup_def fromLittleVec_def
      numeral_eq_Suc split: option.splits)

lemma length_setup [simp]: "length (chacha_ivsetup (chacha_keysetup x k kbits) iv counter) = 16"
  by (simp add: chacha_ivsetup_def chacha_keysetup_def split: option.splits)

text \<open>
  For every key, nonce, counter and message the vectorised and the portable ChaCha20
  produce the same bytes, the exclusive or of the message with a key stream, so that applying
  the cipher again gives the message back.
\<close>

lemma chacha_forms_agree:
  fixes k iv m :: bytes and kbits :: nat and counter :: "bytes option" and y :: chacha_ctx and w :: chacha_vctx
  defines "x \<equiv> chacha_ivsetup (chacha_keysetup y k kbits) iv counter"
    and "v \<equiv> chacha_vivsetup (chacha_vkeysetup w k kbits) iv counter"
  shows "fst (chacha_vencrypt_bytes v m) = fst (chacha_encrypt_bytes x m) \<and>
    fst (chacha_encrypt_bytes x m) = xor_bytes m (key_stream x (blocks_of (length m))) \<and>
    fst (chacha_encrypt_bytes x (fst (chacha_encrypt_bytes x m))) = m"
proof -
  have x: "length x = 16" by (simp add: x_def)
  have "map_prod (\<lambda>c. c) flat (chacha_vencrypt_bytes v m) = chacha_encrypt_bytes x m"
    using vencrypt [OF setup_flat(1), of w k kbits iv counter m] unfolding v_def x_def setup_flat(2) [of w k kbits iv counter y] by blast
  then have "fst (chacha_vencrypt_bytes v m) = fst (chacha_encrypt_bytes x m)"
    by (metis fst_map_prod)
  then show ?thesis using encrypt_stream [OF x] encrypt_twice [OF x] by blast
qed

end
