(* ===== verification/Poly1305.thy ===== *)
theory Poly1305
  imports Prelude
begin

text \<open>
  The Poly1305 authenticator of \<open>src/librats/crypto/poly1305.h\<close> and \<open>poly1305.c\<close>, in its 64-bit
  form: the accumulator and the multiplier in limbs of 44, 44 and 42 bits, products in 128 bits,
  carries propagated only partially between blocks, and a constant-time final reduction. The
  reference is RFC 8439: one number modulo 2^130 - 5.
\<close>

subsection \<open>The authenticator\<close>

type_synonym u128 = "128 word"
type_synonym limbs = "u64 \<times> u64 \<times> u64"

record poly1305_state =
  po_r :: limbs
  po_h :: limbs
  po_pad :: "u64 \<times> u64"
  po_leftover :: nat
  po_buffer :: bytes
  po_final :: bool

definition U8TO64 :: "bytes \<Rightarrow> nat \<Rightarrow> u64" where
  "U8TO64 p i =
     ucast (p ! i) OR push_bit 8 (ucast (p ! (i + 1))) OR push_bit 16 (ucast (p ! (i + 2))) OR
     push_bit 24 (ucast (p ! (i + 3))) OR push_bit 32 (ucast (p ! (i + 4))) OR
     push_bit 40 (ucast (p ! (i + 5))) OR push_bit 48 (ucast (p ! (i + 6))) OR
     push_bit 56 (ucast (p ! (i + 7)))"

definition U64TO8 :: "u64 \<Rightarrow> bytes" where
  "U64TO8 v =
     [ucast v, ucast (drop_bit 8 v), ucast (drop_bit 16 v), ucast (drop_bit 24 v),
      ucast (drop_bit 32 v), ucast (drop_bit 40 v), ucast (drop_bit 48 v), ucast (drop_bit 56 v)]"

definition poly1305_init :: "poly1305_state \<Rightarrow> bytes \<Rightarrow> poly1305_state" where
  "poly1305_init st key =
     (let t0 = U8TO64 key 0; t1 = U8TO64 key 8
      in st\<lparr>po_r := (t0 AND 0xffc0fffffff, (drop_bit 44 t0 OR push_bit 20 t1) AND 0xfffffc0ffff, drop_bit 24 t1 AND 0x00ffffffc0f),
            po_h := (0, 0, 0),
            po_pad := (U8TO64 key 16, U8TO64 key 24),
            po_leftover := 0, po_final := False\<rparr>)"

definition MUL :: "u64 \<Rightarrow> u64 \<Rightarrow> u128" where
  "MUL x y = ucast x * ucast y"

definition SHR :: "u128 \<Rightarrow> nat \<Rightarrow> u64" where
  "SHR d n = ucast (drop_bit n d)"

definition poly1305_block :: "u64 \<Rightarrow> limbs \<Rightarrow> limbs \<Rightarrow> bytes \<Rightarrow> limbs" where
  "poly1305_block hibit r h m =
     (case (r, h) of ((r0, r1, r2), (h0, h1, h2)) \<Rightarrow>
       let s1 = r1 * 20; s2 = r2 * 20;
           t0 = U8TO64 m 0; t1 = U8TO64 m 8;
           h0 = h0 + (t0 AND 0xfffffffffff);
           h1 = h1 + ((drop_bit 44 t0 OR push_bit 20 t1) AND 0xfffffffffff);
           h2 = h2 + ((drop_bit 24 t1 AND 0x3ffffffffff) OR hibit);
           d0 = MUL h0 r0 + MUL h1 s2 + MUL h2 s1;
           d1 = MUL h0 r1 + MUL h1 r0 + MUL h2 s2;
           d2 = MUL h0 r2 + MUL h1 r1 + MUL h2 r0;
           c = SHR d0 44; h0 = ucast d0 AND 0xfffffffffff;
           d1 = d1 + ucast c; c = SHR d1 44; h1 = ucast d1 AND 0xfffffffffff;
           d2 = d2 + ucast c; c = SHR d2 42; h2 = ucast d2 AND 0x3ffffffffff;
           h0 = h0 + c * 5; c = drop_bit 44 h0; h0 = h0 AND 0xfffffffffff;
           h1 = h1 + c
       in (h0, h1, h2))"

fun blocks_loop :: "u64 \<Rightarrow> limbs \<Rightarrow> limbs \<Rightarrow> bytes \<Rightarrow> nat \<Rightarrow> limbs" where
  "blocks_loop hibit r h m bytes =
     (if bytes \<ge> 16 then blocks_loop hibit r (poly1305_block hibit r h m) (drop 16 m) (bytes - 16) else h)"

declare blocks_loop.simps [simp del]

definition poly1305_blocks :: "poly1305_state \<Rightarrow> bytes \<Rightarrow> nat \<Rightarrow> poly1305_state" where
  "poly1305_blocks st m bytes =
     st\<lparr>po_h := blocks_loop (if po_final st then 0 else push_bit 40 1) (po_r st) (po_h st) m bytes\<rparr>"

definition store_leftover :: "poly1305_state \<Rightarrow> bytes \<Rightarrow> poly1305_state" where
  "store_leftover st m =
     st\<lparr>po_buffer := take (po_leftover st) (po_buffer st) @ m @ drop (po_leftover st + length m) (po_buffer st),
        po_leftover := po_leftover st + length m\<rparr>"

definition full_blocks :: "poly1305_state \<Rightarrow> bytes \<Rightarrow> poly1305_state" where
  "full_blocks st m =
     (let want = length m - length m mod 16;
          (st1, m1) = (if length m \<ge> 16 then (poly1305_blocks st m want, drop want m) else (st, m))
      in if m1 \<noteq> [] then store_leftover st1 m1 else st1)"

definition poly1305_update :: "poly1305_state \<Rightarrow> bytes \<Rightarrow> poly1305_state" where
  "poly1305_update st m =
     (if po_leftover st \<noteq> 0 then
        let want = min (16 - po_leftover st) (length m);
            st1 = store_leftover st (take want m)
        in if po_leftover st1 < 16 then st1
           else full_blocks ((poly1305_blocks st1 (po_buffer st1) 16)\<lparr>po_leftover := 0\<rparr>) (drop want m)
      else full_blocks st m)"

definition final_carry :: "limbs \<Rightarrow> limbs" where
  "final_carry h =
     (case h of (h0, h1, h2) \<Rightarrow>
       let c = drop_bit 44 h1; h1 = h1 AND 0xfffffffffff;
           h2 = h2 + c; c = drop_bit 42 h2; h2 = h2 AND 0x3ffffffffff;
           h0 = h0 + c * 5; c = drop_bit 44 h0; h0 = h0 AND 0xfffffffffff;
           h1 = h1 + c; c = drop_bit 44 h1; h1 = h1 AND 0xfffffffffff;
           h2 = h2 + c; c = drop_bit 42 h2; h2 = h2 AND 0x3ffffffffff;
           h0 = h0 + c * 5; c = drop_bit 44 h0; h0 = h0 AND 0xfffffffffff;
           h1 = h1 + c
       in (h0, h1, h2))"

definition final_select :: "limbs \<Rightarrow> limbs" where
  "final_select h =
     (case h of (h0, h1, h2) \<Rightarrow>
       let g0 = h0 + 5; c = drop_bit 44 g0; g0 = g0 AND 0xfffffffffff;
           g1 = h1 + c; c = drop_bit 44 g1; g1 = g1 AND 0xfffffffffff;
           g2 = h2 + c - push_bit 42 1;
           c = drop_bit 63 g2 - 1;
           g0 = g0 AND c; g1 = g1 AND c; g2 = g2 AND c;
           c = NOT c
       in ((h0 AND c) OR g0, (h1 AND c) OR g1, (h2 AND c) OR g2))"

definition final_pad :: "u64 \<times> u64 \<Rightarrow> limbs \<Rightarrow> u64 \<times> u64" where
  "final_pad pad h =
     (case (pad, h) of ((t0, t1), (h0, h1, h2)) \<Rightarrow>
       let h0 = h0 + (t0 AND 0xfffffffffff); c = drop_bit 44 h0; h0 = h0 AND 0xfffffffffff;
           h1 = h1 + (((drop_bit 44 t0 OR push_bit 20 t1) AND 0xfffffffffff) + c);
           c = drop_bit 44 h1; h1 = h1 AND 0xfffffffffff;
           h2 = h2 + ((drop_bit 24 t1 AND 0x3ffffffffff) + c); h2 = h2 AND 0x3ffffffffff
       in (h0 OR push_bit 44 h1, drop_bit 20 h1 OR push_bit 24 h2))"

definition poly1305_finish :: "poly1305_state \<Rightarrow> bytes" where
  "poly1305_finish st =
     (let st1 =
        (if po_leftover st \<noteq> 0 then
           let n = po_leftover st;
               buf = take n (po_buffer st) @ [1] @ replicate (16 - (n + 1)) 0
           in poly1305_blocks (st\<lparr>po_buffer := buf, po_final := True\<rparr>) buf 16
         else st);
          (m0, m1) = final_pad (po_pad st1) (final_select (final_carry (po_h st1)))
      in U64TO8 m0 @ U64TO8 m1)"

definition poly1305_auth :: "poly1305_state \<Rightarrow> bytes \<Rightarrow> bytes \<Rightarrow> bytes" where
  "poly1305_auth ctx m key = poly1305_finish (poly1305_update (poly1305_init ctx key) m)"

definition poly1305_verify :: "bytes \<Rightarrow> bytes \<Rightarrow> bool" where
  "poly1305_verify mac1 mac2 =
     (let dif = foldl (\<lambda>dif i. dif OR (ucast (mac1 ! i XOR mac2 ! i) :: u32)) 0 [0..<16]
      in drop_bit 31 (dif - 1) AND 1 = 1)"

definition poly1305_fresh :: poly1305_state where
  "poly1305_fresh = \<lparr>po_r = (0, 0, 0), po_h = (0, 0, 0), po_pad = (0, 0), po_leftover = 0, po_buffer = replicate 16 0, po_final = False\<rparr>"

subsection \<open>The standard\<close>

fun le_val :: "bytes \<Rightarrow> nat" where
  "le_val [] = 0"
| "le_val (b # bs) = unat b + 256 * le_val bs"

definition P1305 :: nat where "P1305 = 2 ^ 130 - 5"

definition rfc_clamp :: "nat \<Rightarrow> nat" where
  "rfc_clamp r = r AND 0x0ffffffc0ffffffc0ffffffc0fffffff"

fun rfc_acc :: "nat \<Rightarrow> nat \<Rightarrow> bytes \<Rightarrow> nat" where
  "rfc_acc r acc msg =
     (if msg = [] then acc
      else rfc_acc r (((acc + le_val (take 16 msg @ [1])) * r) mod P1305) (drop 16 msg))"

declare rfc_acc.simps [simp del]

fun le_bytes :: "nat \<Rightarrow> nat \<Rightarrow> bytes" where
  "le_bytes 0 v = []"
| "le_bytes (Suc n) v = of_nat v # le_bytes n (v div 256)"

definition rfc_poly1305 :: "bytes \<Rightarrow> bytes \<Rightarrow> bytes" where
  "rfc_poly1305 key msg =
     le_bytes 16 (rfc_acc (rfc_clamp (le_val (take 16 key))) 0 msg + le_val (take 16 (drop 16 key)))"

subsection \<open>Words as numbers\<close>

lemma unat_plus: "unat a + unat b < 2 ^ LENGTH('a) \<Longrightarrow> unat (a + b :: 'a::len word) = unat a + unat b"
  by (simp add: unat_word_ariths)

lemma unat_times: "unat a * unat b < 2 ^ LENGTH('a) \<Longrightarrow> unat (a * b :: 'a::len word) = unat a * unat b"
  by (simp add: unat_word_ariths)

lemma unat_drop: "unat (drop_bit n w) = unat w div 2 ^ n"
  unfolding unat_drop_bit_eq by (rule drop_bit_eq_div)

lemma unat_mask44: "unat (w AND 0xfffffffffff :: u64) = unat w mod 2 ^ 44"
proof -
  have "(0xfffffffffff :: u64) = mask 44" by (simp add: mask_eq_exp_minus_1)
  then have "w AND 0xfffffffffff = take_bit 44 w" by (simp only: take_bit_eq_mask)
  then show ?thesis by (simp only: unsigned_take_bit_eq) (rule take_bit_eq_mod)
qed

lemma unat_mask42: "unat (w AND 0x3ffffffffff :: u64) = unat w mod 2 ^ 42"
proof -
  have "(0x3ffffffffff :: u64) = mask 42" by (simp add: mask_eq_exp_minus_1)
  then have "w AND 0x3ffffffffff = take_bit 42 w" by (simp only: take_bit_eq_mask)
  then show ?thesis by (simp only: unsigned_take_bit_eq) (rule take_bit_eq_mod)
qed

lemma unat_low: "n \<le> 64 \<Longrightarrow> unat (ucast (d :: u128) :: u64) mod 2 ^ n = unat d mod 2 ^ n"
  unfolding unsigned_ucast_eq take_bit_eq_mod [symmetric] by (simp add: min_absorb2)

lemma unat_MUL: "unat (MUL x y) = unat x * unat y"
proof -
  have "unat x * unat y < 2 ^ 64 * 2 ^ 64"
    using unsigned_less [of x, where ?'a = nat] unsigned_less [of y, where ?'a = nat] by (intro mult_strict_mono) auto
  moreover have "unat (ucast x :: u128) = unat x" "unat (ucast y :: u128) = unat y"
    using unsigned_less [of x, where ?'a = nat] unsigned_less [of y, where ?'a = nat]
    by (simp_all add: unsigned_ucast_eq take_bit_nat_eq_self)
  ultimately show ?thesis unfolding MUL_def by (simp add: unat_word_ariths)
qed

lemma unat_SHR: "unat d < 2 ^ (64 + n) \<Longrightarrow> unat (SHR d n) = unat d div 2 ^ n"
  unfolding SHR_def
  by (simp add: unsigned_ucast_eq unat_drop take_bit_nat_eq_self less_mult_imp_div_less power_add)

lemma unat_up: "unat (ucast (c :: u64) :: u128) = unat c"
  using unsigned_less [of c, where ?'a = nat] by (simp add: unsigned_ucast_eq take_bit_nat_eq_self)

lemma prod_bound: "a < 2 ^ m \<Longrightarrow> b < 2 ^ n \<Longrightarrow> a * b < (2 :: nat) ^ (m + n)"
  by (simp add: power_add mult_strict_mono)

subsection \<open>Numbers from bytes\<close>

lemma le_val_bound: "le_val bs < 256 ^ length bs"
proof (induction bs)
  case (Cons b bs)
  have "unat b < 256" using unsigned_less [of b, where ?'a = nat] by simp
  moreover have "256 * le_val bs \<le> 256 * (256 ^ length bs - 1)" using Cons by simp
  moreover have "(256 :: nat) * (256 ^ length bs - 1) + 256 = 256 ^ length (b # bs)" by (simp add: algebra_simps)
  ultimately show ?case by simp
qed simp

lemma le_val_append: "le_val (a @ b) = le_val a + 256 ^ length a * le_val b"
  by (induction a) (simp_all add: algebra_simps)

lemma unat_byte_or: "unat w < 2 ^ 56 \<Longrightarrow> unat (ucast (b :: byte) OR push_bit 8 w :: u64) = unat b + 256 * unat w"
proof -
  assume w: "unat w < 2 ^ 56"
  have b: "unat (ucast b :: u64) = unat b"
    using unsigned_less [of b, where ?'a = nat] by (simp add: unsigned_ucast_eq take_bit_nat_eq_self)
  have p: "unat (push_bit 8 w) = 256 * unat w"
    unfolding unsigned_push_bit_eq using w by (simp add: push_bit_eq_mult take_bit_nat_eq_self)
  have "(ucast b OR push_bit 8 w :: u64) = ucast b + push_bit 8 w"
    by (rule sym, rule disjunctive_add) (auto simp: bit_ucast_iff bit_push_bit_iff)
  moreover have "unat b < 256" using unsigned_less [of b, where ?'a = nat] by simp
  ultimately show ?thesis using w by (simp add: unat_word_ariths b p)
qed

lemma unat_U8TO64: "i + 8 \<le> length p \<Longrightarrow> unat (U8TO64 p i) = le_val (take 8 (drop i p))"
proof -
  assume l: "i + 8 \<le> length p"
  let ?b = "\<lambda>j. p ! (i + j)"
  have split: "take 8 (drop i p) = [?b 0, ?b 1, ?b 2, ?b 3, ?b 4, ?b 5, ?b 6, ?b 7]"
    using l by (intro nth_equalityI) (auto simp: less_Suc_eq numeral_eq_Suc)
  define h :: "bytes \<Rightarrow> u64 \<Rightarrow> u64" where "h = foldr (\<lambda>b w. ucast b OR push_bit 8 w)"
  have horner: "length bs \<le> 8 \<Longrightarrow> unat (h bs 0) = le_val bs" for bs
  proof (induction bs)
    case (Cons b bs)
    then have "le_val bs < 256 ^ 7" using le_val_bound [of bs] power_increasing [of "length bs" 7 "256 :: nat"] by simp
    then have "unat (h bs 0) < 2 ^ 56" using Cons by simp
    from unat_byte_or [OF this, of b] Cons show ?case by (simp add: h_def)
  qed (simp add: h_def)
  have "U8TO64 p i = h [?b 0, ?b 1, ?b 2, ?b 3, ?b 4, ?b 5, ?b 6, ?b 7] 0"
    by (simp add: U8TO64_def h_def push_bit_or or.assoc)
  then show ?thesis using horner [of "take 8 (drop i p)"] by (simp add: split)
qed

subsection \<open>Limbs\<close>

definition t128 :: "u64 \<Rightarrow> u64 \<Rightarrow> nat" where
  "t128 t0 t1 = unat t0 + 2 ^ 64 * unat t1"

fun lv :: "limbs \<Rightarrow> nat" where
  "lv (h0, h1, h2) = unat h0 + 2 ^ 44 * unat h1 + 2 ^ 88 * unat h2"

lemma split_limbs: "(x :: nat) = x mod 2 ^ 44 + 2 ^ 44 * ((x div 2 ^ 44) mod 2 ^ 44) + 2 ^ 88 * (x div 2 ^ 88)"
proof -
  have "x = x mod A + A * ((x div A) mod A) + A * A * (x div (A * A))" for A :: nat
    using mod_mult_div_eq [of x A] mod_mult_div_eq [of "x div A" A] by (metis add.assoc div_mult2_eq distrib_left mult.assoc)
  from this [of "2 ^ 44"] show ?thesis by simp
qed

lemma t128_bound: "t128 t0 t1 < 2 ^ 128"
  using unsigned_less [of t0, where ?'a = nat] unsigned_less [of t1, where ?'a = nat] by (simp add: t128_def)

lemma t128_top: "t128 t0 t1 div 2 ^ 88 = unat t1 div 2 ^ 24"
proof -
  have "t128 t0 t1 div 2 ^ 64 = unat t1"
    using unsigned_less [of t0, where ?'a = nat] by (simp add: t128_def)
  then show ?thesis using div_mult2_eq [of "t128 t0 t1" "2 ^ 64" "2 ^ 24"] by simp
qed

lemma t128_mid: "unat (drop_bit 44 t0 OR push_bit 20 t1) mod 2 ^ 44 = (t128 t0 t1 div 2 ^ 44) mod 2 ^ 44"
proof -
  let ?a = "unat t0 div 2 ^ 44"
  have t0: "unat t0 < 2 ^ 64" using unsigned_less [of t0, where ?'a = nat] by simp
  have push: "unat (push_bit 20 t1) = (2 ^ 20 * unat t1) mod 2 ^ 64"
    unfolding unsigned_push_bit_eq by (simp add: push_bit_eq_mult take_bit_eq_mod mult.commute)
  have "(drop_bit 44 t0 OR push_bit 20 t1 :: u64) = drop_bit 44 t0 + push_bit 20 t1"
  proof (rule sym, rule disjunctive_add)
    show "\<not> bit (drop_bit 44 t0) n \<or> \<not> bit (push_bit 20 t1) n" for n
      using bit_imp_le_length [of t0 "44 + n"] by (auto simp: bit_drop_bit_eq bit_push_bit_iff)
  qed
  then have "unat (drop_bit 44 t0 OR push_bit 20 t1) = (?a + (2 ^ 20 * unat t1) mod 2 ^ 64) mod 2 ^ 64"
    by (simp only: unat_word_ariths push unat_drop) simp
  then have "unat (drop_bit 44 t0 OR push_bit 20 t1) mod 2 ^ 44 = (?a + 2 ^ 20 * unat t1) mod 2 ^ 64 mod 2 ^ 44"
    by (simp only: mod_add_right_eq)
  also have "\<dots> = (?a + 2 ^ 20 * unat t1) mod 2 ^ 44" by (simp add: mod_mod_cancel le_imp_power_dvd)
  also have "?a + 2 ^ 20 * unat t1 = t128 t0 t1 div 2 ^ 44"
    using div_mult_self1 [of "2 ^ 44" "unat t0" "2 ^ 20 * unat t1"] by (simp add: t128_def)
  finally show ?thesis .
qed

lemma message_limbs:
  "unat (t0 AND 0xfffffffffff) = t128 t0 t1 mod 2 ^ 44"
  "unat ((drop_bit 44 t0 OR push_bit 20 t1) AND 0xfffffffffff) = (t128 t0 t1 div 2 ^ 44) mod 2 ^ 44"
  "unat (drop_bit 24 t1 AND 0x3ffffffffff) = t128 t0 t1 div 2 ^ 88"
proof -
  have "t128 t0 t1 mod 2 ^ 44 = unat t0 mod 2 ^ 44"
    using mod_mult_self2 [of "unat t0" "2 ^ 44" "2 ^ 20 * unat t1"] by (simp add: t128_def)
  then show "unat (t0 AND 0xfffffffffff) = t128 t0 t1 mod 2 ^ 44" by (simp only: unat_mask44)
  show "unat ((drop_bit 44 t0 OR push_bit 20 t1) AND 0xfffffffffff) = (t128 t0 t1 div 2 ^ 44) mod 2 ^ 44"
    by (simp only: unat_mask44 t128_mid)
  have "unat t1 div 2 ^ 24 < 2 ^ 40" using unsigned_less [of t1, where ?'a = nat] by (simp add: less_mult_imp_div_less)
  then show "unat (drop_bit 24 t1 AND 0x3ffffffffff) = t128 t0 t1 div 2 ^ 88"
    by (simp only: unat_mask42 unat_drop t128_top) simp
qed

text \<open>The clamped multiplier: the masks of the limbs are the limbs of the clamping mask.\<close>

lemma clamp_limbs:
  "unat (t0 AND 0xffc0fffffff) = rfc_clamp (t128 t0 t1) mod 2 ^ 44"
  "unat ((drop_bit 44 t0 OR push_bit 20 t1) AND 0xfffffc0ffff) = (rfc_clamp (t128 t0 t1) div 2 ^ 44) mod 2 ^ 44"
  "unat (drop_bit 24 t1 AND 0x00ffffffc0f) = rfc_clamp (t128 t0 t1) div 2 ^ 88"
proof -
  let ?T = "t128 t0 t1" and ?M = "0x0ffffffc0ffffffc0ffffffc0fffffff :: nat"
  have T: "?T mod 2 ^ 44 = unat t0 mod 2 ^ 44"
    using mod_mult_self2 [of "unat t0" "2 ^ 44" "2 ^ 20 * unat t1"] by (simp add: t128_def)
  have and_mod: "(x AND y) mod 2 ^ n = (x mod 2 ^ n) AND (y mod 2 ^ n)" for x y n :: nat
    by (simp add: take_bit_eq_mod [symmetric])
  have and_div: "(x AND y) div 2 ^ n = (x div 2 ^ n) AND (y div 2 ^ n)" for x y n :: nat
    by (simp add: drop_bit_eq_div [symmetric])
  have low: "x AND k = (x mod 2 ^ n) AND k" if "k < 2 ^ n" for x k n :: nat
  proof -
    have "take_bit n k = k" using that by (simp add: take_bit_nat_eq_self)
    then have "x AND k = take_bit n x AND k"
      by (metis and.left_commute and.commute and.assoc take_bit_eq_mask)
    then show ?thesis by (simp add: take_bit_eq_mod)
  qed
  show "unat (t0 AND 0xffc0fffffff) = rfc_clamp ?T mod 2 ^ 44"
    using low [of "0xffc0fffffff" 44 "unat t0"] and_mod [of ?T ?M 44] T by (simp add: unsigned_and_eq rfc_clamp_def)
  show "unat ((drop_bit 44 t0 OR push_bit 20 t1) AND 0xfffffc0ffff) = (rfc_clamp ?T div 2 ^ 44) mod 2 ^ 44"
    using low [of "0xfffffc0ffff" 44 "unat (drop_bit 44 t0 OR push_bit 20 t1)"] t128_mid [of t0 t1]
      and_div [of ?T ?M 44] and_mod [of "?T div 2 ^ 44" "?M div 2 ^ 44" 44]
    by (simp add: unsigned_and_eq rfc_clamp_def)
  show "unat (drop_bit 24 t1 AND 0x00ffffffc0f) = rfc_clamp ?T div 2 ^ 88"
    using t128_top [of t0 t1] and_div [of ?T ?M 88] by (simp add: unsigned_and_eq rfc_clamp_def unat_drop)
qed

subsection \<open>One block\<close>

text \<open>
  The schoolbook product folded at 2^130, then the carries, on plain numbers: the result
  differs from the product by a multiple of the modulus.
\<close>

lemma fold_product:
  fixes h0 h1 h2 r0 r1 r2 :: nat
  assumes "d0 = h0 * r0 + h1 * (r2 * 20) + h2 * (r1 * 20)" "d1 = h0 * r1 + h1 * r0 + h2 * (r2 * 20)" "d2 = h0 * r2 + h1 * r1 + h2 * r0"
  shows "(h0 + 2 ^ 44 * h1 + 2 ^ 88 * h2) * (r0 + 2 ^ 44 * r1 + 2 ^ 88 * r2) =
    d0 + 2 ^ 44 * d1 + 2 ^ 88 * d2 + P1305 * (4 * (h1 * r2 + h2 * r1) + 4 * 2 ^ 44 * (h2 * r2))"
  by (simp add: assms P1305_def algebra_simps)

lemma carry_chain:
  fixes d0 d1 d2 :: nat
  assumes "e1 = d1 + d0 div 2 ^ 44" "e2 = d2 + e1 div 2 ^ 44" "e0 = d0 mod 2 ^ 44 + e2 div 2 ^ 42 * 5"
  shows "d0 + 2 ^ 44 * d1 + 2 ^ 88 * d2 =
    e0 mod 2 ^ 44 + 2 ^ 44 * (e1 mod 2 ^ 44 + e0 div 2 ^ 44) + 2 ^ 88 * (e2 mod 2 ^ 42) + P1305 * (e2 div 2 ^ 42)"
proof -
  have chain: "d0 + 2 ^ 44 * d1 + 2 ^ 88 * d2 = n0 + 2 ^ 44 * (m1 + p0) + 2 ^ 88 * m2 + P1305 * q2"
    if "m0 + 2 ^ 44 * q0 = d0" "m1 + 2 ^ 44 * q1 = d1 + q0" "m2 + 2 ^ 42 * q2 = d2 + q1" "n0 + 2 ^ 44 * p0 = m0 + q2 * 5"
    for m0 q0 m1 q1 m2 q2 n0 p0 :: nat
    using that by (simp add: P1305_def)
  show ?thesis
  proof (rule chain)
    show "d0 mod 2 ^ 44 + 2 ^ 44 * (d0 div 2 ^ 44) = d0" by (rule mod_mult_div_eq)
    show "e1 mod 2 ^ 44 + 2 ^ 44 * (e1 div 2 ^ 44) = d1 + d0 div 2 ^ 44" unfolding assms(1) by (rule mod_mult_div_eq)
    show "e2 mod 2 ^ 42 + 2 ^ 42 * (e2 div 2 ^ 42) = d2 + e1 div 2 ^ 44" unfolding assms(2) by (rule mod_mult_div_eq)
    show "e0 mod 2 ^ 44 + 2 ^ 44 * (e0 div 2 ^ 44) = d0 mod 2 ^ 44 + e2 div 2 ^ 42 * 5"
      unfolding assms(3) by (rule mod_mult_div_eq)
  qed
qed

definition limbs_ok :: "limbs \<Rightarrow> bool" where
  "limbs_ok h = (case h of (h0, h1, h2) \<Rightarrow> unat h0 < 2 ^ 44 \<and> unat h1 < 2 ^ 44 + 2 ^ 15 \<and> unat h2 < 2 ^ 42)"

definition mult_ok :: "limbs \<Rightarrow> bool" where
  "mult_ok r = (case r of (r0, r1, r2) \<Rightarrow> unat r0 < 2 ^ 44 \<and> unat r1 < 2 ^ 44 \<and> unat r2 < 2 ^ 36)"

lemma unat_hibit: "unat x < 2 ^ 40 \<Longrightarrow> unat (x OR (if f then 0 else push_bit 40 1) :: u64) = unat x + (if f then 0 else 2 ^ 40)"
proof -
  assume x: "unat x < 2 ^ 40"
  have low: "bit x n \<Longrightarrow> n < 40" for n
  proof (rule ccontr)
    assume "bit x n" "\<not> n < 40"
    then have "odd (unat x div 2 ^ n)" by (simp add: bit_iff_odd [symmetric] bit_unsigned_iff)
    moreover have "(2 :: nat) ^ 40 \<le> 2 ^ n" using \<open>\<not> n < 40\<close> by (intro power_increasing) simp_all
    then have "unat x div 2 ^ n = 0" using x by (intro div_less) linarith
    ultimately show False by simp
  qed
  have "bit (push_bit 40 1 :: u64) n \<Longrightarrow> n = 40" for n
    unfolding bit_push_bit_iff bit_1_iff by auto
  with low have "x + push_bit 40 1 = x OR push_bit 40 1"
    by (intro disjunctive_add) blast
  moreover have "unat (x + push_bit 40 1) = unat x + 2 ^ 40" using x by (subst unat_plus) simp_all
  ultimately show ?thesis by (cases f) simp_all
qed

lemma sum_of_products:
  assumes "unat a < 2 ^ 46" "unat b < 2 ^ 46" "unat c < 2 ^ 46" "unat x < 2 ^ 49" "unat y < 2 ^ 49" "unat z < 2 ^ 49"
  shows "unat (MUL a x + MUL b y + MUL c z) = unat a * unat x + unat b * unat y + unat c * unat z"
    "unat (MUL a x + MUL b y + MUL c z) < 2 ^ 97"
proof -
  have p: "unat a * unat x < 2 ^ 95" "unat b * unat y < 2 ^ 95" "unat c * unat z < 2 ^ 95"
    using prod_bound [OF assms(1,4)] prod_bound [OF assms(2,5)] prod_bound [OF assms(3,6)] by simp_all
  have "unat (MUL a x + MUL b y) = unat a * unat x + unat b * unat y"
    using p by (subst unat_plus) (simp_all add: unat_MUL)
  then show sum: "unat (MUL a x + MUL b y + MUL c z) = unat a * unat x + unat b * unat y + unat c * unat z"
    using p by (subst unat_plus) (simp_all add: unat_MUL)
  show "unat (MUL a x + MUL b y + MUL c z) < 2 ^ 97" unfolding sum using p by simp
qed

lemma block_carry:
  fixes d0 d1 d2 :: u128
  assumes "unat d0 < 2 ^ 97" "unat d1 < 2 ^ 97" "unat d2 < 2 ^ 97"
  defines "c0 \<equiv> SHR d0 44"
  defines "e1 \<equiv> d1 + ucast c0"
  defines "c1 \<equiv> SHR e1 44"
  defines "e2 \<equiv> d2 + ucast c1"
  defines "c2 \<equiv> SHR e2 42"
  defines "e0 \<equiv> (ucast d0 AND 0xfffffffffff) + c2 * 5"
  shows "lv (e0 AND 0xfffffffffff, (ucast e1 AND 0xfffffffffff) + drop_bit 44 e0, ucast e2 AND 0x3ffffffffff) + P1305 * (unat e2 div 2 ^ 42) =
      unat d0 + 2 ^ 44 * unat d1 + 2 ^ 88 * unat d2"
    "unat e0 div 2 ^ 44 < 2 ^ 15"
proof -
  have c0: "unat c0 = unat d0 div 2 ^ 44" "unat c0 < 2 ^ 53" using assms(1) by (simp_all add: c0_def unat_SHR less_mult_imp_div_less)
  have e1: "unat e1 = unat d1 + unat c0" "unat e1 < 2 ^ 98" unfolding e1_def using assms(2) c0(2) by (subst unat_plus; simp add: unat_up)+
  have c1: "unat c1 = unat e1 div 2 ^ 44" "unat c1 < 2 ^ 54" using e1(2) by (simp_all add: c1_def unat_SHR less_mult_imp_div_less)
  have e2: "unat e2 = unat d2 + unat c1" "unat e2 < 2 ^ 98" unfolding e2_def using assms(3) c1(2) by (subst unat_plus; simp add: unat_up)+
  have c2: "unat c2 = unat e2 div 2 ^ 42" "unat c2 < 2 ^ 56" using e2(2) by (simp_all add: c2_def unat_SHR less_mult_imp_div_less)
  have low: "unat (ucast d0 AND 0xfffffffffff :: u64) = unat d0 mod 2 ^ 44" "unat (ucast e1 AND 0xfffffffffff :: u64) = unat e1 mod 2 ^ 44"
    "unat (ucast e2 AND 0x3ffffffffff :: u64) = unat e2 mod 2 ^ 42"
    by (simp_all only: unat_mask44 unat_mask42 unat_low)
  have "unat (c2 * 5) = unat c2 * 5" using c2(2) by (simp add: unat_word_ariths)
  moreover have "unat d0 mod 2 ^ 44 < 2 ^ 44" by simp
  ultimately have e0: "unat e0 = unat d0 mod 2 ^ 44 + unat c2 * 5" "unat e0 < 2 ^ 44 + 5 * 2 ^ 56"
    unfolding e0_def using c2(2) low(1) by (subst unat_plus; simp)+
  then show top: "unat e0 div 2 ^ 44 < 2 ^ 15" by (simp add: less_mult_imp_div_less div_less_iff_less_mult)
  have "unat ((ucast e1 AND 0xfffffffffff) + drop_bit 44 e0 :: u64) = unat e1 mod 2 ^ 44 + unat e0 div 2 ^ 44"
  proof -
    have "unat e1 mod 2 ^ 44 < 2 ^ 44" by simp
    then show ?thesis using top by (subst unat_plus) (simp_all add: low(2) unat_drop)
  qed
  then have "lv (e0 AND 0xfffffffffff, (ucast e1 AND 0xfffffffffff) + drop_bit 44 e0, ucast e2 AND 0x3ffffffffff) =
      unat e0 mod 2 ^ 44 + 2 ^ 44 * (unat e1 mod 2 ^ 44 + unat e0 div 2 ^ 44) + 2 ^ 88 * (unat e2 mod 2 ^ 42)"
    by (simp only: lv.simps low(3) unat_mask44)
  with carry_chain [of "unat e1" "unat d1" "unat d0" "unat e2" "unat d2" "unat e0"] e1(1) e2(1) e0(1) c0(1) c1(1) c2(1)
  show "lv (e0 AND 0xfffffffffff, (ucast e1 AND 0xfffffffffff) + drop_bit 44 e0, ucast e2 AND 0x3ffffffffff) + P1305 * (unat e2 div 2 ^ 42) =
      unat d0 + 2 ^ 44 * unat d1 + 2 ^ 88 * unat d2" by (simp only:)
qed

text \<open>The limbs after the message block is added.\<close>

lemma block_input:
  fixes f :: bool
  assumes "limbs_ok (h0, h1, h2)" "16 \<le> length m"
  defines "t0 \<equiv> U8TO64 m 0" and "t1 \<equiv> U8TO64 m 8"
  defines "a0 \<equiv> h0 + (t0 AND 0xfffffffffff)" and "a1 \<equiv> h1 + ((drop_bit 44 t0 OR push_bit 20 t1) AND 0xfffffffffff)"
    and "a2 \<equiv> h2 + ((drop_bit 24 t1 AND 0x3ffffffffff) OR (if f then 0 else push_bit 40 1))"
  shows "unat a0 < 2 ^ 46" "unat a1 < 2 ^ 46" "unat a2 < 2 ^ 46"
    "lv (a0, a1, a2) = lv (h0, h1, h2) + (le_val (take 16 m) + (if f then 0 else 2 ^ 128))"
proof -
  define x where "x = t128 t0 t1"
  have x: "x = le_val (take 16 m)"
    using assms(2) take_add [of 8 8 m] le_val_append [of "take 8 m" "take 8 (drop 8 m)"]
    by (simp add: x_def t0_def t1_def t128_def unat_U8TO64 min_def)
  have hb: "unat h0 < 2 ^ 44" "unat h1 < 2 ^ 44 + 2 ^ 15" "unat h2 < 2 ^ 42" using assms(1) by (simp_all add: limbs_ok_def)
  have top: "x div 2 ^ 88 < 2 ^ 40" using t128_bound [of t0 t1] by (simp add: x_def less_mult_imp_div_less)
  have n: "x mod 2 ^ 44 < 2 ^ 44" "(x div 2 ^ 44) mod 2 ^ 44 < 2 ^ 44" by simp_all
  note ml = message_limbs [where ?t0.0 = t0 and ?t1.0 = t1, folded x_def]
  have hi: "unat ((drop_bit 24 t1 AND 0x3ffffffffff) OR (if f then 0 else push_bit 40 1)) = x div 2 ^ 88 + (if f then 0 else 2 ^ 40)"
    using unat_hibit [of "drop_bit 24 t1 AND 0x3ffffffffff" f] top unfolding ml by blast
  have a0: "unat a0 = unat h0 + x mod 2 ^ 44"
    unfolding a0_def using hb(1) n(1) by (subst unat_plus) (simp_all only: ml, simp_all)
  have a1: "unat a1 = unat h1 + (x div 2 ^ 44) mod 2 ^ 44"
    unfolding a1_def using hb(2) n(2) by (subst unat_plus) (simp_all only: ml, simp_all)
  have a2: "unat a2 = unat h2 + (x div 2 ^ 88 + (if f then 0 else 2 ^ 40))"
    unfolding a2_def using hb(3) top by (subst unat_plus) (simp_all only: hi, simp_all)
  show "unat a0 < 2 ^ 46" "unat a1 < 2 ^ 46" "unat a2 < 2 ^ 46" using a0 a1 a2 hb n top by simp_all
  have "x = x mod 2 ^ 44 + 2 ^ 44 * ((x div 2 ^ 44) mod 2 ^ 44) + 2 ^ 88 * (x div 2 ^ 88)" by (rule split_limbs)
  then show "lv (a0, a1, a2) = lv (h0, h1, h2) + (le_val (take 16 m) + (if f then 0 else 2 ^ 128))"
    unfolding lv.simps a0 a1 a2 x [symmetric] by simp
qed

lemma block_value:
  fixes f :: bool
  assumes "limbs_ok h" "mult_ok r" "16 \<le> length m"
  defines "h' \<equiv> poly1305_block (if f then 0 else push_bit 40 1) r h m"
  shows "limbs_ok h'" "lv h' mod P1305 = ((lv h + (le_val (take 16 m) + (if f then 0 else 2 ^ 128))) * lv r) mod P1305"
proof -
  obtain h0 h1 h2 where h: "h = (h0, h1, h2)" by (cases h)
  obtain r0 r1 r2 where r: "r = (r0, r1, r2)" by (cases r)
  define t0 t1 where t: "t0 = U8TO64 m 0" "t1 = U8TO64 m 8"
  define a0 a1 a2 where a: "a0 = h0 + (t0 AND 0xfffffffffff)" "a1 = h1 + ((drop_bit 44 t0 OR push_bit 20 t1) AND 0xfffffffffff)"
    "a2 = h2 + ((drop_bit 24 t1 AND 0x3ffffffffff) OR (if f then 0 else push_bit 40 1))"
  note ab = block_input(1,2) [OF assms(1) [unfolded h] assms(3), folded t, folded a]
    block_input(3,4) [OF assms(1) [unfolded h] assms(3), where f = f, folded t, folded a, folded h]
  have rb: "unat r0 < 2 ^ 44" "unat r1 < 2 ^ 44" "unat r2 < 2 ^ 36" using assms(2) by (simp_all add: mult_ok_def r)
  have s: "unat (r1 * 20) = unat r1 * 20" "unat (r2 * 20) = unat r2 * 20" using rb by (simp_all add: unat_word_ariths)
  have rs: "unat r0 < 2 ^ 49" "unat r1 < 2 ^ 49" "unat r2 < 2 ^ 49" "unat (r1 * 20) < 2 ^ 49" "unat (r2 * 20) < 2 ^ 49"
    using rb by (simp_all add: s)
  define d0 d1 d2 where d: "d0 = MUL a0 r0 + MUL a1 (r2 * 20) + MUL a2 (r1 * 20)" "d1 = MUL a0 r1 + MUL a1 r0 + MUL a2 (r2 * 20)"
    "d2 = MUL a0 r2 + MUL a1 r1 + MUL a2 r0"
  note du = sum_of_products [OF ab(1-3) rs(1,5,4), folded d] sum_of_products [OF ab(1-3) rs(2,1,5), folded d]
    sum_of_products [OF ab(1-3) rs(3,2,1), folded d]
  define e1 e2 where e: "e1 = d1 + ucast (SHR d0 44)" "e2 = d2 + ucast (SHR e1 44)"
  define e0 where "e0 = (ucast d0 AND 0xfffffffffff) + SHR e2 42 * 5"
  have h': "h' = (e0 AND 0xfffffffffff, (ucast e1 AND 0xfffffffffff) + drop_bit 44 e0, ucast e2 AND 0x3ffffffffff)"
    unfolding h'_def poly1305_block_def h r prod.case Let_def t [symmetric] a [symmetric] d [symmetric] e [symmetric] e0_def [symmetric] ..
  note carry = block_carry [OF du(2,4,6), folded e, folded e0_def]
  have fold: "(lv h + (le_val (take 16 m) + (if f then 0 else 2 ^ 128))) * lv r = unat d0 + 2 ^ 44 * unat d1 + 2 ^ 88 * unat d2 +
      P1305 * (4 * (unat a1 * unat r2 + unat a2 * unat r1) + 4 * 2 ^ 44 * (unat a2 * unat r2))"
    unfolding ab(4) [symmetric] r lv.simps by (rule fold_product) (simp_all add: du s)
  show "lv h' mod P1305 = ((lv h + (le_val (take 16 m) + (if f then 0 else 2 ^ 128))) * lv r) mod P1305"
    unfolding fold carry(1) [symmetric] h' [symmetric] by (simp only: mod_mult_self2 add.assoc distrib_left [symmetric])
  have "unat (e0 AND 0xfffffffffff) < 2 ^ 44" "unat (ucast e2 AND 0x3ffffffffff :: u64) < 2 ^ 42"
    by (simp_all only: unat_mask44 unat_mask42) simp_all
  moreover have "unat ((ucast e1 AND 0xfffffffffff) + drop_bit 44 e0 :: u64) < 2 ^ 44 + 2 ^ 15"
  proof -
    have "unat (ucast e1 AND 0xfffffffffff :: u64) < 2 ^ 44" unfolding unat_mask44 by simp
    moreover have "unat (drop_bit 44 e0) < 2 ^ 15" unfolding unat_drop by (rule carry(2))
    ultimately show ?thesis by (subst unat_plus) simp_all
  qed
  ultimately show "limbs_ok h'" by (simp add: limbs_ok_def h')
qed

lemma loop_value:
  fixes f :: bool
  assumes "limbs_ok h" "mult_ok r" "16 * n \<le> length m" "\<not> f"
  defines "h' \<equiv> blocks_loop (if f then 0 else push_bit 40 1) r h m (16 * n)"
  shows "limbs_ok h' \<and> lv h' mod P1305 = rfc_acc (lv r) (lv h mod P1305) (take (16 * n) m)"
  unfolding h'_def using assms(1,3)
proof (induction n arbitrary: h m)
  case 0
  then show ?case by (simp add: blocks_loop.simps rfc_acc.simps)
next
  case (Suc n)
  let ?hi = "if f then 0 else push_bit 40 1 :: u64" and ?b = "take 16 m"
  note b = block_value [OF Suc.prems(1) assms(2), of m f]
  have len: "16 \<le> length m" "16 * n \<le> length (drop 16 m)" using Suc.prems(2) by simp_all
  have loop: "blocks_loop ?hi r h m (16 * Suc n) = blocks_loop ?hi r (poly1305_block ?hi r h m) (drop 16 m) (16 * n)"
    by (subst blocks_loop.simps) simp
  have "le_val (?b @ [1]) = le_val ?b + 2 ^ 128"
    using len(1) by (simp add: le_val_append)
  then have "lv (poly1305_block ?hi r h m) mod P1305 = ((lv h mod P1305 + le_val (?b @ [1])) * lv r) mod P1305"
    using b(2) [OF len(1)] assms(4) mod_mult_left_eq [of "lv h mod P1305 + le_val (?b @ [1])" P1305 "lv r"]
      mod_mult_left_eq [of "lv h + le_val (?b @ [1])" P1305 "lv r"] by (simp add: mod_add_left_eq)
  moreover have "take 16 (take (16 * Suc n) m) = ?b" "drop 16 (take (16 * Suc n) m) = take (16 * n) (drop 16 m)" "take (16 * Suc n) m \<noteq> []"
    using len(1) by (auto simp: drop_take)
  ultimately have "rfc_acc (lv r) (lv h mod P1305) (take (16 * Suc n) m) =
      rfc_acc (lv r) (lv (poly1305_block ?hi r h m) mod P1305) (take (16 * n) (drop 16 m))"
    by (subst rfc_acc.simps) (simp del: take_append)
  with Suc.IH [OF b(1) [OF len(1)] len(2)] show ?case unfolding loop by simp
qed

lemma init_value:
  assumes "32 \<le> length key"
  shows "mult_ok (po_r (poly1305_init st key))" "lv (po_r (poly1305_init st key)) = rfc_clamp (le_val (take 16 key))"
    "t128 (fst (po_pad (poly1305_init st key))) (snd (po_pad (poly1305_init st key))) = le_val (take 16 (drop 16 key))"
proof -
  define t0 t1 where t: "t0 = U8TO64 key 0" "t1 = U8TO64 key 8"
  define x where "x = rfc_clamp (t128 t0 t1)"
  have two: "t128 (U8TO64 key i) (U8TO64 key (i + 8)) = le_val (take 16 (drop i key))" if "i + 16 \<le> length key" for i
    using that take_add [of 8 8 "drop i key"] le_val_append [of "take 8 (drop i key)" "take 8 (drop 8 (drop i key))"]
    by (simp add: t128_def unat_U8TO64 add.commute min_def)
  then have x: "x = rfc_clamp (le_val (take 16 key))" using assms two [of 0] by (simp add: x_def t)
  have r: "po_r (poly1305_init st key) = (t0 AND 0xffc0fffffff, (drop_bit 44 t0 OR push_bit 20 t1) AND 0xfffffc0ffff, drop_bit 24 t1 AND 0x00ffffffc0f)"
    by (simp add: poly1305_init_def t Let_def)
  note cl = clamp_limbs [where ?t0.0 = t0 and ?t1.0 = t1, folded x_def]
  show "lv (po_r (poly1305_init st key)) = rfc_clamp (le_val (take 16 key))"
    unfolding r lv.simps cl x [symmetric] by (rule split_limbs [symmetric])
  have "unat (drop_bit 24 t1 AND 0x00ffffffc0f) \<le> unat (0x00ffffffc0f :: u64)"
    by (simp only: word_le_nat_alt [symmetric] word_and_le1)
  then have "x div 2 ^ 88 < 2 ^ 36" unfolding cl(3) by simp
  then show "mult_ok (po_r (poly1305_init st key))"
    unfolding r mult_ok_def prod.case cl by simp
  show "t128 (fst (po_pad (poly1305_init st key))) (snd (po_pad (poly1305_init st key))) = le_val (take 16 (drop 16 key))"
    using assms two [of 16] by (simp add: poly1305_init_def Let_def)
qed

subsection \<open>The final reduction\<close>

lemma final_chain:
  fixes h0 h1 h2 :: nat
  assumes "h0 < 2 ^ 44" "h1 < 2 ^ 44 + 2 ^ 15" "h2 < 2 ^ 42"
    and "b2 = h2 + h1 div 2 ^ 44" "b0 = h0 + b2 div 2 ^ 42 * 5" "e1 = h1 mod 2 ^ 44 + b0 div 2 ^ 44"
    and "e2 = b2 mod 2 ^ 42 + e1 div 2 ^ 44" "e0 = b0 mod 2 ^ 44 + e2 div 2 ^ 42 * 5"
  shows "e2 < 2 ^ 42" "e0 < 2 ^ 44" "b2 div 2 ^ 42 \<le> 1" "b0 div 2 ^ 44 \<le> 1" "e1 < 2 ^ 45"
    "h0 + 2 ^ 44 * h1 + 2 ^ 88 * h2 = e0 + 2 ^ 44 * (e1 mod 2 ^ 44) + 2 ^ 88 * e2 + P1305 * (b2 div 2 ^ 42)"
proof -
  have k1: "h1 div 2 ^ 44 \<le> 1" using assms(2) by (simp add: div_le_mono [of h1 "2 ^ 45 - 1" "2 ^ 44", simplified])
  then have b2: "b2 \<le> 2 ^ 42" using assms(3,4) by simp
  then show k2: "b2 div 2 ^ 42 \<le> 1" using div_le_mono [OF b2, of "2 ^ 42"] by simp
  then have b0: "b0 < 2 ^ 44 + 5" using assms(1,5) by simp
  then show k0: "b0 div 2 ^ 44 \<le> 1" using div_le_mono [of b0 "2 ^ 45 - 1" "2 ^ 44"] by simp
  have "h1 mod 2 ^ 44 < 2 ^ 44" by simp
  with k0 show e1: "e1 < 2 ^ 45" using assms(6) by simp
  show e2: "e2 < 2 ^ 42"
  proof (cases "b0 div 2 ^ 44 = 0")
    case True
    then have "e1 < 2 ^ 44" using assms(6) by simp
    then show ?thesis using assms(7) by simp
  next
    case False
    then have "b2 div 2 ^ 42 = 1" using k2 assms(1,5) by (cases "b2 div 2 ^ 42 = 0") simp_all
    then have "b2 = 2 ^ 42" using b2 by (metis div_less le_neq_implies_less zero_neq_one)
    moreover have "e1 div 2 ^ 44 \<le> 1" using e1 div_le_mono [of e1 "2 ^ 45 - 1" "2 ^ 44"] by simp
    ultimately show ?thesis using assms(7) by simp
  qed
  then show "e0 < 2 ^ 44" using assms(8) by simp
  have chain: "h0 + 2 ^ 44 * h1 + 2 ^ 88 * h2 = m0 + 2 ^ 44 * n1 + 2 ^ 88 * (m2 + l1) + P1305 * q2"
    if "m1 + 2 ^ 44 * q1 = h1" "m2 + 2 ^ 42 * q2 = h2 + q1" "m0 + 2 ^ 44 * q0 = h0 + q2 * 5" "n1 + 2 ^ 44 * l1 = m1 + q0"
    for m1 q1 m2 q2 m0 q0 n1 l1 :: nat
    using that by (simp add: P1305_def)
  have "e0 = b0 mod 2 ^ 44" using e2 assms(8) by simp
  then show "h0 + 2 ^ 44 * h1 + 2 ^ 88 * h2 = e0 + 2 ^ 44 * (e1 mod 2 ^ 44) + 2 ^ 88 * e2 + P1305 * (b2 div 2 ^ 42)"
    using chain [of "h1 mod 2 ^ 44" "h1 div 2 ^ 44" "b2 mod 2 ^ 42" "b2 div 2 ^ 42" "b0 mod 2 ^ 44" "b0 div 2 ^ 44" "e1 mod 2 ^ 44" "e1 div 2 ^ 44"]
      mod_mult_div_eq [of h1 "2 ^ 44"] mod_mult_div_eq [of b2 "2 ^ 42"] mod_mult_div_eq [of b0 "2 ^ 44"] mod_mult_div_eq [of e1 "2 ^ 44"] assms(4-7)
    by argo
qed

lemma carry_value:
  assumes "limbs_ok h"
  obtains g0 g1 g2 where "final_carry h = (g0, g1, g2)" "unat g0 < 2 ^ 44" "unat g1 < 2 ^ 44" "unat g2 < 2 ^ 42"
    "lv (g0, g1, g2) mod P1305 = lv h mod P1305"
proof -
  obtain h0 h1 h2 where h: "h = (h0, h1, h2)" by (cases h)
  have hb: "unat h0 < 2 ^ 44" "unat h1 < 2 ^ 44 + 2 ^ 15" "unat h2 < 2 ^ 42" using assms by (simp_all add: limbs_ok_def h)
  define b2 where "b2 = h2 + drop_bit 44 h1"
  define b0 where "b0 = h0 + drop_bit 42 b2 * 5"
  define e1 where "e1 = (h1 AND 0xfffffffffff) + drop_bit 44 b0"
  define e2 where "e2 = (b2 AND 0x3ffffffffff) + drop_bit 44 e1"
  define e0 where "e0 = (b0 AND 0xfffffffffff) + drop_bit 42 e2 * 5"
  have le: "unat w div 2 ^ n \<le> unat w" for w :: u64 and n by simp
  have five: "unat (drop_bit 42 w * 5) = unat w div 2 ^ 42 * 5" for w :: u64
  proof -
    have "unat w div 2 ^ 42 < 2 ^ 22" using unsigned_less [of w, where ?'a = nat] by (simp add: less_mult_imp_div_less)
    then show ?thesis by (subst unat_times) (simp_all add: unat_drop)
  qed
  have m: "unat w mod 2 ^ 44 < 2 ^ 44" "unat w mod 2 ^ 42 < 2 ^ 42" "unat w div 2 ^ 44 < 2 ^ 20" "unat w div 2 ^ 42 < 2 ^ 22" for w :: u64
    using unsigned_less [of w, where ?'a = nat] by (simp_all add: less_mult_imp_div_less)
  have n2: "unat b2 = unat h2 + unat h1 div 2 ^ 44" unfolding b2_def using hb m(3) [of h1] by (subst unat_plus) (simp_all add: unat_drop)
  have n0: "unat b0 = unat h0 + unat b2 div 2 ^ 42 * 5" unfolding b0_def using hb m(4) [of b2] by (subst unat_plus) (simp_all add: five)
  have n1: "unat e1 = unat h1 mod 2 ^ 44 + unat b0 div 2 ^ 44"
    unfolding e1_def using m(1) [of h1] m(3) [of b0] by (subst unat_plus) (simp_all only: unat_drop unat_mask44, simp_all)
  have l2: "unat e2 = unat b2 mod 2 ^ 42 + unat e1 div 2 ^ 44"
    unfolding e2_def using m(2) [of b2] m(3) [of e1] by (subst unat_plus) (simp_all only: unat_drop unat_mask42, simp_all)
  have l0: "unat e0 = unat b0 mod 2 ^ 44 + unat e2 div 2 ^ 42 * 5"
    unfolding e0_def using m(1) [of b0] m(4) [of e2] by (subst unat_plus) (simp_all only: five unat_mask44, simp_all)
  note fc = final_chain [OF hb n2 n0 n1 l2 l0]
  have e0: "e0 AND 0xfffffffffff = e0" "drop_bit 44 e0 = 0" using fc(2) by (simp_all add: word_unat_eq_iff unat_mask44 unat_drop)
  have e2: "e2 AND 0x3ffffffffff = e2" using fc(1) by (simp add: word_unat_eq_iff unat_mask42)
  have "final_carry h = (e0 AND 0xfffffffffff, (e1 AND 0xfffffffffff) + drop_bit 44 e0, e2 AND 0x3ffffffffff)"
    unfolding final_carry_def h prod.case Let_def b2_def [symmetric] b0_def [symmetric] e1_def [symmetric] e2_def [symmetric] e0_def [symmetric] ..
  then have "final_carry h = (e0, e1 AND 0xfffffffffff, e2)" by (simp only: e0 e2 add_0_right)
  moreover have "lv (e0, e1 AND 0xfffffffffff, e2) mod P1305 = lv h mod P1305"
    unfolding h lv.simps unat_mask44 fc(6) by (simp only: mod_mult_self2)
  moreover have "unat (e1 AND 0xfffffffffff) < 2 ^ 44" unfolding unat_mask44 by simp
  ultimately show thesis using fc(1,2) that by blast
qed

lemma select_mask:
  fixes g :: u64
  assumes "unat g < 2 ^ 43" 
  defines "c \<equiv> drop_bit 63 (g - push_bit 42 1) - 1"
  shows "c = (if 2 ^ 42 \<le> unat g then - 1 else 0)"
proof -
  have p: "unat (push_bit 42 1 :: u64) = 2 ^ 42" by simp
  have "unat (g - push_bit 42 1) = (if 2 ^ 42 \<le> unat g then unat g - 2 ^ 42 else unat g + 2 ^ 64 - 2 ^ 42)"
    by (subst unat_sub_if') (simp add: p)
  then have "unat (drop_bit 63 (g - push_bit 42 1)) = (if 2 ^ 42 \<le> unat g then 0 else 1)"
    unfolding unat_drop using assms(1) by (auto intro!: div_nat_eqI)
  then have "drop_bit 63 (g - push_bit 42 1) = (if 2 ^ 42 \<le> unat g then 0 else 1)"
    by (simp add: word_unat_eq_iff del: push_bit_of_1)
  then show ?thesis by (simp add: c_def del: push_bit_of_1)
qed

lemma select_chain:
  fixes h0 h1 h2 :: nat
  assumes "h0 < 2 ^ 44" "h1 < 2 ^ 44" "h2 < 2 ^ 42" "g1 = h1 + (h0 + 5) div 2 ^ 44" "g2 = h2 + g1 div 2 ^ 44"
  shows "(h0 + 2 ^ 44 * h1 + 2 ^ 88 * h2) mod P1305 =
    (if 2 ^ 42 \<le> g2 then (h0 + 5) mod 2 ^ 44 + 2 ^ 44 * (g1 mod 2 ^ 44) + 2 ^ 88 * (g2 - 2 ^ 42) else h0 + 2 ^ 44 * h1 + 2 ^ 88 * h2)"
proof -
  let ?v = "h0 + 2 ^ 44 * h1 + 2 ^ 88 * h2" and ?w = "(h0 + 5) mod 2 ^ 44 + 2 ^ 44 * (g1 mod 2 ^ 44)"
  have chain: "?v + 5 = m0 + 2 ^ 44 * m1 + 2 ^ 88 * g2" if "m0 + 2 ^ 44 * q0 = h0 + 5" "m1 + 2 ^ 44 * q1 = h1 + q0" "g2 = h2 + q1" for m0 q0 m1 q1
    using that by simp
  have v5: "?v + 5 = ?w + 2 ^ 88 * g2"
    by (rule chain [of _ "(h0 + 5) div 2 ^ 44" _ "g1 div 2 ^ 44"])
      (use mod_mult_div_eq [of "h0 + 5" "2 ^ 44"] mod_mult_div_eq [of g1 "2 ^ 44"] assms(4,5) in \<open>simp_all only:\<close>)
  have w: "?w < 2 ^ 88"
  proof -
    have "(h0 + 5) mod 2 ^ 44 < 2 ^ 44" "g1 mod 2 ^ 44 < 2 ^ 44" by simp_all
    then show ?thesis by simp
  qed
  have v: "?v < 2 ^ 130" using assms(1-3) by simp
  show ?thesis
  proof (cases "2 ^ 42 \<le> g2")
    case True
    then obtain k where k: "g2 = 2 ^ 42 + k" by (metis le_iff_add)
    then have "?v = (?w + 2 ^ 88 * k) + P1305" using v5 by (simp add: P1305_def)
    moreover from this v have "?w + 2 ^ 88 * k < P1305" by (simp add: P1305_def)
    ultimately show ?thesis using k by simp
  next
    case False
    then have "2 ^ 88 * g2 \<le> 2 ^ 88 * (2 ^ 42 - 1)" by (intro mult_le_mono) simp_all
    then have "?v < P1305" using v5 w unfolding P1305_def by simp
    with False show ?thesis by simp
  qed
qed

lemma select_value:
  assumes "unat h0 < 2 ^ 44" "unat h1 < 2 ^ 44" "unat h2 < 2 ^ 42"
  obtains s0 s1 s2 where "final_select (h0, h1, h2) = (s0, s1, s2)" "unat s0 < 2 ^ 44" "unat s1 < 2 ^ 44" "unat s2 < 2 ^ 42"
    "lv (s0, s1, s2) = lv (h0, h1, h2) mod P1305"
proof -
  define g1 where "g1 = h1 + drop_bit 44 (h0 + 5)"
  define g2 where "g2 = h2 + drop_bit 44 g1"
  have a0: "unat (h0 + 5) = unat h0 + 5" using assms(1) by (subst unat_plus) simp_all
  have a1: "unat g1 = unat h1 + (unat h0 + 5) div 2 ^ 44"
  proof -
    have "(unat h0 + 5) div 2 ^ 44 \<le> unat h0 + 5" by (rule div_le_dividend)
    then show ?thesis unfolding g1_def using assms by (subst unat_plus) (simp_all add: unat_drop a0)
  qed
  have a2: "unat g2 = unat h2 + unat g1 div 2 ^ 44" "unat g2 < 2 ^ 43"
  proof -
    have "unat g1 div 2 ^ 44 < 2 ^ 20" using unsigned_less [of g1, where ?'a = nat] by (simp add: less_mult_imp_div_less)
    then show "unat g2 = unat h2 + unat g1 div 2 ^ 44" "unat g2 < 2 ^ 43"
      unfolding g2_def using assms by (subst unat_plus; simp add: unat_drop)+
  qed
  have sel: "final_select (h0, h1, h2) = (if 2 ^ 42 \<le> unat g2 then ((h0 + 5) AND 0xfffffffffff, g1 AND 0xfffffffffff, g2 - push_bit 42 1) else (h0, h1, h2))"
    unfolding final_select_def prod.case Let_def g1_def [symmetric] g2_def [symmetric] select_mask [OF a2(2)] by (simp del: push_bit_of_1)
  note ch = select_chain [OF assms a1 a2(1)]
  show thesis
  proof (cases "2 ^ 42 \<le> unat g2")
    case True
    have g: "unat (g2 - push_bit 42 1) = unat g2 - 2 ^ 42" using True by (subst unat_sub) (simp_all add: word_le_nat_alt)
    show thesis
    proof (rule that [of "(h0 + 5) AND 0xfffffffffff" "g1 AND 0xfffffffffff" "g2 - push_bit 42 1"])
      show "final_select (h0, h1, h2) = ((h0 + 5) AND 0xfffffffffff, g1 AND 0xfffffffffff, g2 - push_bit 42 1)" using True by (simp only: sel if_True)
      show "lv ((h0 + 5) AND 0xfffffffffff, g1 AND 0xfffffffffff, g2 - push_bit 42 1) = lv (h0, h1, h2) mod P1305"
        unfolding lv.simps ch g unat_mask44 a0 using True by (simp only: if_True)
      show "unat ((h0 + 5) AND 0xfffffffffff) < 2 ^ 44" "unat (g1 AND 0xfffffffffff) < 2 ^ 44" unfolding unat_mask44 by simp_all
      show "unat (g2 - push_bit 42 1) < 2 ^ 42" unfolding g using a2(2) by simp
    qed
  next
    case False
    show thesis
      by (rule that [of h0 h1 h2]) (use False assms ch in \<open>simp_all only: sel if_False lv.simps\<close>)
  qed
qed

lemma pad_chain:
  fixes h0 h1 h2 x :: nat
  assumes "a0 = h0 + x mod 2 ^ 44" "a1 = h1 + ((x div 2 ^ 44) mod 2 ^ 44 + a0 div 2 ^ 44)" "a2 = h2 + (x div 2 ^ 88 + a1 div 2 ^ 44)"
  shows "(h0 + 2 ^ 44 * h1 + 2 ^ 88 * h2 + x) mod 2 ^ 128 = a0 mod 2 ^ 44 + 2 ^ 44 * (a1 mod 2 ^ 44) + 2 ^ 88 * (a2 mod 2 ^ 42 mod 2 ^ 40)"
proof -
  have chain: "h0 + 2 ^ 44 * h1 + 2 ^ 88 * h2 + x = m0 + 2 ^ 44 * m1 + 2 ^ 88 * a2"
    if "m0 + 2 ^ 44 * q0 = h0 + x0" "m1 + 2 ^ 44 * q1 = h1 + (x1 + q0)" "a2 = h2 + (x2 + q1)" "x = x0 + 2 ^ 44 * x1 + 2 ^ 88 * x2"
    for m0 q0 x0 m1 q1 x1 x2 using that by simp
  have sum: "h0 + 2 ^ 44 * h1 + 2 ^ 88 * h2 + x = a0 mod 2 ^ 44 + 2 ^ 44 * (a1 mod 2 ^ 44) + 2 ^ 88 * a2"
    by (rule chain [of _ "a0 div 2 ^ 44" "x mod 2 ^ 44" _ "a1 div 2 ^ 44" "(x div 2 ^ 44) mod 2 ^ 44" "x div 2 ^ 88"])
      (use mod_mult_div_eq [of a0 "2 ^ 44"] mod_mult_div_eq [of a1 "2 ^ 44"] assms split_limbs [of x] in \<open>simp_all only:\<close>)
  have low: "a0 mod 2 ^ 44 + 2 ^ 44 * (a1 mod 2 ^ 44) < 2 ^ 88"
  proof -
    have "a0 mod 2 ^ 44 < 2 ^ 44" "a1 mod 2 ^ 44 < 2 ^ 44" by simp_all
    then show ?thesis by simp
  qed
  have "(y + 2 ^ 88 * a2) mod 2 ^ 128 = y + 2 ^ 88 * (a2 mod 2 ^ 40)" if "y < 2 ^ 88" for y :: nat
  proof -
    have "(y + 2 ^ 88 * a2) mod (2 ^ 88 * 2 ^ 40) = 2 ^ 88 * ((y + 2 ^ 88 * a2) div 2 ^ 88 mod 2 ^ 40) + (y + 2 ^ 88 * a2) mod 2 ^ 88"
      by (rule mod_mult2_eq)
    then show ?thesis using that by simp
  qed
  from this [OF low] show ?thesis unfolding sum by (simp add: mod_mod_cancel le_imp_power_dvd)
qed

lemma pack_low:
  assumes "unat h0 < 2 ^ 44"
  shows "unat (h0 OR push_bit 44 h1 :: u64) = unat h0 + 2 ^ 44 * (unat h1 mod 2 ^ 20)"
proof -
  have push: "unat (push_bit 44 h1) = 2 ^ 44 * (unat h1 mod 2 ^ 20)"
  proof -
    have "unat (push_bit 44 h1) = (2 ^ 44 * unat h1) mod (2 ^ 44 * 2 ^ 20)"
      unfolding unsigned_push_bit_eq by (simp add: push_bit_eq_mult take_bit_eq_mod mult.commute)
    then show ?thesis by (simp only: mult_mod_right)
  qed
  have "h0 = take_bit 44 h0" using assms by (simp add: word_unat_eq_iff unsigned_take_bit_eq take_bit_nat_eq_self)
  then have "bit h0 n \<Longrightarrow> n < 44" for n by (metis bit_take_bit_iff)
  then have "h0 + push_bit 44 h1 = h0 OR push_bit 44 h1"
    by (intro disjunctive_add) (metis bit_push_bit_iff not_less)
  moreover have "unat h1 mod 2 ^ 20 < 2 ^ 20" by simp
  ultimately show ?thesis using assms push unat_plus [of h0 "push_bit 44 h1"] by simp
qed

lemma pack_high:
  assumes "unat h1 < 2 ^ 44" "unat h2 < 2 ^ 42"
  shows "unat (drop_bit 20 h1 OR push_bit 24 h2 :: u64) = unat h1 div 2 ^ 20 + 2 ^ 24 * (unat h2 mod 2 ^ 40)"
proof -
  have push: "unat (push_bit 24 h2) = 2 ^ 24 * (unat h2 mod 2 ^ 40)"
  proof -
    have "unat (push_bit 24 h2) = (2 ^ 24 * unat h2) mod (2 ^ 24 * 2 ^ 40)"
      unfolding unsigned_push_bit_eq by (simp add: push_bit_eq_mult take_bit_eq_mod mult.commute)
    then show ?thesis by (simp only: mult_mod_right)
  qed
  have drop: "unat (drop_bit 20 h1) < 2 ^ 24" using assms(1) by (simp add: unat_drop less_mult_imp_div_less)
  then have "drop_bit 20 h1 = take_bit 24 (drop_bit 20 h1)" by (simp add: word_unat_eq_iff unsigned_take_bit_eq take_bit_nat_eq_self)
  then have "bit (drop_bit 20 h1) n \<Longrightarrow> n < 24" for n by (metis bit_take_bit_iff)
  then have "drop_bit 20 h1 + push_bit 24 h2 = drop_bit 20 h1 OR push_bit 24 h2"
    by (intro disjunctive_add) (metis bit_push_bit_iff not_less)
  moreover have "unat h2 mod 2 ^ 40 < 2 ^ 40" by simp
  ultimately show ?thesis using drop push unat_plus [of "drop_bit 20 h1" "push_bit 24 h2"] by (simp add: unat_drop)
qed

lemma pad_value:
  assumes "unat h0 < 2 ^ 44" "unat h1 < 2 ^ 44" "unat h2 < 2 ^ 42"
  obtains m0 m1 where "final_pad (t0, t1) (h0, h1, h2) = (m0, m1)" "t128 m0 m1 = (lv (h0, h1, h2) + t128 t0 t1) mod 2 ^ 128"
proof -
  define x where "x = t128 t0 t1"
  note ml = message_limbs [where ?t0.0 = t0 and ?t1.0 = t1, folded x_def]
  define a0 where "a0 = h0 + (t0 AND 0xfffffffffff)"
  define a1 where "a1 = h1 + (((drop_bit 44 t0 OR push_bit 20 t1) AND 0xfffffffffff) + drop_bit 44 a0)"
  define a2 where "a2 = h2 + ((drop_bit 24 t1 AND 0x3ffffffffff) + drop_bit 44 a1)"
  have n: "x mod 2 ^ 44 < 2 ^ 44" "(x div 2 ^ 44) mod 2 ^ 44 < 2 ^ 44" "x div 2 ^ 88 < 2 ^ 40"
    using t128_bound [of t0 t1] by (simp_all add: x_def less_mult_imp_div_less)
  have d: "unat w div 2 ^ 44 < 2 ^ 20" for w :: u64 using unsigned_less [of w, where ?'a = nat] by (simp add: less_mult_imp_div_less)
  have a0: "unat a0 = unat h0 + x mod 2 ^ 44" unfolding a0_def using assms n(1) by (subst unat_plus) (simp_all only: ml, simp_all)
  have a1: "unat a1 = unat h1 + ((x div 2 ^ 44) mod 2 ^ 44 + unat a0 div 2 ^ 44)"
  proof -
    have "unat (((drop_bit 44 t0 OR push_bit 20 t1) AND 0xfffffffffff) + drop_bit 44 a0) = (x div 2 ^ 44) mod 2 ^ 44 + unat a0 div 2 ^ 44"
      using n(2) d [of a0] by (subst unat_plus) (simp_all only: ml unat_drop, simp_all)
    then show ?thesis unfolding a1_def using assms n(2) d [of a0] by (subst unat_plus) simp_all
  qed
  have a2: "unat a2 = unat h2 + (x div 2 ^ 88 + unat a1 div 2 ^ 44)"
  proof -
    have "unat ((drop_bit 24 t1 AND 0x3ffffffffff) + drop_bit 44 a1) = x div 2 ^ 88 + unat a1 div 2 ^ 44"
      using n(3) d [of a1] by (subst unat_plus) (simp_all only: ml unat_drop, simp_all)
    then show ?thesis unfolding a2_def using assms n(3) d [of a1] by (subst unat_plus) simp_all
  qed
  let ?g0 = "a0 AND 0xfffffffffff" and ?g1 = "a1 AND 0xfffffffffff" and ?g2 = "a2 AND 0x3ffffffffff"
  have g: "unat ?g0 < 2 ^ 44" "unat ?g1 < 2 ^ 44" "unat ?g2 < 2 ^ 42" by (simp_all only: unat_mask44 unat_mask42) simp_all
  have "final_pad (t0, t1) (h0, h1, h2) = (?g0 OR push_bit 44 ?g1, drop_bit 20 ?g1 OR push_bit 24 ?g2)"
    unfolding final_pad_def prod.case Let_def a0_def [symmetric] a1_def [symmetric] a2_def [symmetric] ..
  moreover have "t128 (?g0 OR push_bit 44 ?g1) (drop_bit 20 ?g1 OR push_bit 24 ?g2) = unat ?g0 + 2 ^ 44 * unat ?g1 + 2 ^ 88 * (unat ?g2 mod 2 ^ 40)"
  proof -
    have "unat ?g1 = unat ?g1 mod 2 ^ 20 + 2 ^ 20 * (unat ?g1 div 2 ^ 20)" by (simp only: mod_mult_div_eq)
    then have "2 ^ 44 * unat ?g1 = 2 ^ 44 * (unat ?g1 mod 2 ^ 20) + 2 ^ 64 * (unat ?g1 div 2 ^ 20)" by algebra
    then show ?thesis unfolding t128_def pack_low [OF g(1)] pack_high [OF g(2,3)] by simp
  qed
  moreover have "\<dots> = (lv (h0, h1, h2) + t128 t0 t1) mod 2 ^ 128"
    unfolding lv.simps x_def [symmetric] pad_chain [OF a0 a1 a2] unat_mask44 unat_mask42 ..
  ultimately show thesis using that by metis
qed

subsection \<open>The tag\<close>

lemma length_le_bytes [simp]: "length (le_bytes n v) = n"
  by (induction n v rule: le_bytes.induct) simp_all

lemma le_bytes_mod: "le_bytes n (v mod 256 ^ n) = le_bytes n v"
proof (induction n v rule: le_bytes.induct)
  case (2 n v)
  have "v mod 256 ^ Suc n = 256 * (v div 256 mod 256 ^ n) + v mod 256" using mod_mult2_eq [of v 256 "256 ^ n"] by simp
  moreover from this have "v mod 256 ^ Suc n div 256 = v div 256 mod 256 ^ n" by simp
  moreover have "(of_nat (256 * k + v mod 256) :: byte) = of_nat v" for k
    by (simp only: word_unat_eq_iff unat_of_nat) simp
  ultimately show ?case using 2 by simp
qed simp

lemma U64TO8_le: "U64TO8 v = le_bytes 8 (unat v)"
proof -
  have b: "ucast (drop_bit n v) = (of_nat (unat v div 2 ^ n) :: byte)" for n
    by (simp only: unat_drop [symmetric] of_nat_unat)
  have "le_bytes (Suc (Suc (Suc (Suc (Suc (Suc (Suc (Suc 0)))))))) w = [of_nat w, of_nat (w div 2 ^ 8), of_nat (w div 2 ^ 16), of_nat (w div 2 ^ 24),
      of_nat (w div 2 ^ 32), of_nat (w div 2 ^ 40), of_nat (w div 2 ^ 48), of_nat (w div 2 ^ 56)]" for w
    by (simp add: div_mult2_eq [symmetric])
  moreover have "8 = Suc (Suc (Suc (Suc (Suc (Suc (Suc (Suc 0)))))))" by simp
  ultimately have "le_bytes 8 w = [of_nat w, of_nat (w div 2 ^ 8), of_nat (w div 2 ^ 16), of_nat (w div 2 ^ 24),
      of_nat (w div 2 ^ 32), of_nat (w div 2 ^ 40), of_nat (w div 2 ^ 48), of_nat (w div 2 ^ 56)]" for w
    by (simp only:)
  then show ?thesis
    using b [of 8] b [of 16] b [of 24] b [of 32] b [of 40] b [of 48] b [of 56] by (simp add: U64TO8_def of_nat_unat)
qed

lemma le_bytes_two: "le_bytes 8 (unat a) @ le_bytes 8 (unat b) = le_bytes 16 (t128 a b)"
proof -
  have split: "le_bytes n (v mod 256 ^ n) @ le_bytes m (v div 256 ^ n) = le_bytes (n + m) v" for n m v
    by (induction n v rule: le_bytes.induct) (simp_all add: le_bytes_mod div_mult2_eq [symmetric] power_Suc [symmetric] mult.commute del: power_Suc)
  have "unat a < 2 ^ 64" using unsigned_less [of a, where ?'a = nat] by simp
  then have "t128 a b mod 256 ^ 8 = unat a" "t128 a b div 256 ^ 8 = unat b" by (simp_all add: t128_def)
  then show ?thesis using split [of 8 "t128 a b" 8] by simp
qed

definition poly_ok :: "bytes \<Rightarrow> bytes \<Rightarrow> poly1305_state \<Rightarrow> bool" where
  "poly_ok key msg st \<longleftrightarrow>
     mult_ok (po_r st) \<and> lv (po_r st) = rfc_clamp (le_val (take 16 key)) \<and> limbs_ok (po_h st) \<and>
     t128 (fst (po_pad st)) (snd (po_pad st)) = le_val (take 16 (drop 16 key)) \<and>
     \<not> po_final st \<and> length (po_buffer st) = 16 \<and> po_leftover st < 16 \<and>
     (\<exists>whole. msg = whole @ take (po_leftover st) (po_buffer st) \<and> 16 dvd length whole \<and>
        lv (po_h st) mod P1305 = rfc_acc (lv (po_r st)) 0 whole)"

lemma rfc_acc_append: "16 dvd length a \<Longrightarrow> rfc_acc r acc (a @ b) = rfc_acc r (rfc_acc r acc a) b"
proof (induction r acc a rule: rfc_acc.induct)
  case (1 r acc a)
  show ?case
  proof (cases "a = []")
    case False
    then have "16 \<le> length a" using "1.prems" by (simp add: dvd_imp_le)
    then have "rfc_acc r acc (a @ b) = rfc_acc r (((acc + le_val (take 16 a @ [1])) * r) mod P1305) (drop 16 a @ b)"
      "rfc_acc r acc a = rfc_acc r (((acc + le_val (take 16 a @ [1])) * r) mod P1305) (drop 16 a)" "16 dvd length (drop 16 a)"
      using False "1.prems" by (simp_all add: rfc_acc.simps [of r acc] dvd_minus_self)
    with "1.IH" [OF False] show ?thesis by simp
  qed (simp add: rfc_acc.simps [of r acc "[]"])
qed

lemma init_ok:
  assumes "32 \<le> length key" "length (po_buffer st) = 16"
  shows "poly_ok key [] (poly1305_init st key)"
  using init_value [OF assms(1)] assms(2)
  by (simp add: poly_ok_def poly1305_init_def Let_def limbs_ok_def rfc_acc.simps)

lemma blocks_ok:
  assumes "poly_ok key msg st" "po_leftover st = 0" "16 * n \<le> length m"
  shows "poly_ok key (msg @ take (16 * n) m) (poly1305_blocks st m (16 * n)) \<and> po_leftover (poly1305_blocks st m (16 * n)) = 0"
proof -
  obtain whole where w: "msg = whole" "16 dvd length whole" "lv (po_h st) mod P1305 = rfc_acc (lv (po_r st)) 0 whole"
    using assms(1,2) by (auto simp: poly_ok_def)
  have ok: "limbs_ok (po_h st)" "mult_ok (po_r st)" "\<not> po_final st" using assms(1) by (simp_all add: poly_ok_def)
  note loop = loop_value [OF ok(1,2) assms(3), of False]
  have "16 dvd length (take (16 * n) m)" using assms(3) by (simp add: min_absorb2)
  then show ?thesis
    using assms(1,2) loop ok(3) w rfc_acc_append [OF w(2), of "lv (po_r st)" 0 "take (16 * n) m"]
    by (auto simp: poly_ok_def poly1305_blocks_def intro!: exI [of _ "whole @ take (16 * n) m"])
qed

lemma store_ok:
  assumes "poly_ok key msg st" "po_leftover st + length m < 16"
  shows "poly_ok key (msg @ m) (store_leftover st m)"
proof -
  obtain whole where w: "msg = whole @ take (po_leftover st) (po_buffer st)" "16 dvd length whole" "lv (po_h st) mod P1305 = rfc_acc (lv (po_r st)) 0 whole"
    using assms(1) by (auto simp: poly_ok_def)
  with assms show ?thesis by (auto simp: poly_ok_def store_leftover_def intro!: exI [of _ whole])
qed

lemma full_ok:
  assumes "poly_ok key msg st" "po_leftover st = 0"
  shows "poly_ok key (msg @ m) (full_blocks st m)"
proof (cases "16 \<le> length m")
  case True
  define n where "n = length m div 16"
  have want: "length m - length m mod 16 = 16 * n" "16 * n \<le> length m" by (simp_all add: n_def minus_mod_eq_mult_div)
  note b = blocks_ok [OF assms want(2)]
  have short: "length (drop (16 * n) m) < 16" by (simp add: n_def minus_mult_div_eq_mod)
  have "poly_ok key ((msg @ take (16 * n) m) @ drop (16 * n) m) (if drop (16 * n) m \<noteq> [] then store_leftover (poly1305_blocks st m (16 * n)) (drop (16 * n) m) else poly1305_blocks st m (16 * n))"
    using b store_ok [of key "msg @ take (16 * n) m" "poly1305_blocks st m (16 * n)" "drop (16 * n) m"] short by (cases "drop (16 * n) m = []") auto
  then show ?thesis using True by (simp add: full_blocks_def want Let_def)
next
  case False
  then show ?thesis using store_ok [OF assms(1), of m] assms by (cases "m = []") (simp_all add: full_blocks_def Let_def)
qed

lemma update_ok:
  assumes "poly_ok key msg st"
  shows "poly_ok key (msg @ m) (poly1305_update st m)"
proof (cases "po_leftover st = 0")
  case True
  then show ?thesis using full_ok [OF assms True] by (simp add: poly1305_update_def)
next
  case False
  let ?want = "min (16 - po_leftover st) (length m)"
  let ?st = "store_leftover st (take ?want m)"
  have st: "po_leftover st < 16" "length (po_buffer st) = 16" using assms by (simp_all add: poly_ok_def)
  have left: "po_leftover ?st = po_leftover st + ?want" by (simp add: store_leftover_def)
  show ?thesis
  proof (cases "po_leftover ?st < 16")
    case True
    then have "take ?want m = m" using left by simp
    moreover have "poly_ok key (msg @ take ?want m) ?st" using store_ok [OF assms] True left by simp
    ultimately show ?thesis using True False by (simp add: poly1305_update_def Let_def)
  next
    case full: False
    then have want: "?want = 16 - po_leftover st" using left st by simp
    obtain whole where w: "msg = whole @ take (po_leftover st) (po_buffer st)" "16 dvd length whole" "lv (po_h st) mod P1305 = rfc_acc (lv (po_r st)) 0 whole"
      using assms by (auto simp: poly_ok_def)
    let ?base = "?st\<lparr>po_leftover := 0\<rparr>"
    have buf: "po_buffer ?st = take (po_leftover st) (po_buffer st) @ take ?want m" "length (po_buffer ?st) = 16"
      using st want full left by (simp_all add: store_leftover_def)
    have "poly_ok key whole ?base"
      using assms w buf by (auto simp: poly_ok_def store_leftover_def)
    from blocks_ok [OF this, of 1 "po_buffer ?st"] have "poly_ok key (whole @ po_buffer ?st) (poly1305_blocks ?base (po_buffer ?st) 16)" using buf(2) by simp
    moreover have "poly1305_blocks ?base (po_buffer ?st) 16 = (poly1305_blocks ?st (po_buffer ?st) 16)\<lparr>po_leftover := 0\<rparr>"
      by (simp add: poly1305_blocks_def)
    ultimately have "poly_ok key ((whole @ po_buffer ?st) @ drop ?want m) (full_blocks ((poly1305_blocks ?st (po_buffer ?st) 16)\<lparr>po_leftover := 0\<rparr>) (drop ?want m))"
      by (intro full_ok) simp_all
    then show ?thesis using full False w(1) buf(1) by (simp add: poly1305_update_def Let_def)
  qed
qed

text \<open>The last, short block: a one byte after the data, no high bit.\<close>

lemma last_block:
  assumes "poly_ok key msg st"
  defines "n \<equiv> po_leftover st"
  defines "buf \<equiv> take n (po_buffer st) @ [1] @ replicate (16 - (n + 1)) 0"
  defines "st1 \<equiv> (if n \<noteq> 0 then poly1305_blocks (st\<lparr>po_buffer := buf, po_final := True\<rparr>) buf 16 else st)"
  shows "limbs_ok (po_h st1)" "lv (po_h st1) mod P1305 = rfc_acc (lv (po_r st)) 0 msg" "po_pad st1 = po_pad st"
proof -
  obtain whole where w: "msg = whole @ take n (po_buffer st)" "16 dvd length whole" "lv (po_h st) mod P1305 = rfc_acc (lv (po_r st)) 0 whole"
    using assms(1) by (auto simp: poly_ok_def n_def)
  have ok: "limbs_ok (po_h st)" "mult_ok (po_r st)" "n < 16" "length (po_buffer st) = 16" using assms(1) by (simp_all add: poly_ok_def n_def)
  show "po_pad st1 = po_pad st" by (simp add: st1_def poly1305_blocks_def)
  have "limbs_ok (po_h st1) \<and> lv (po_h st1) mod P1305 = rfc_acc (lv (po_r st)) 0 msg"
  proof (cases "n = 0")
    case False
    let ?t = "take n (po_buffer st)"
    have len: "length buf = 16" "16 \<le> length buf" using ok(3,4) by (simp_all add: buf_def)
    have zeros: "le_val (replicate k 0) = 0" for k by (induction k) simp_all
    have "le_val buf = le_val (?t @ [1])" by (simp add: buf_def le_val_append zeros)
    moreover have h: "po_h st1 = poly1305_block (if True then 0 else push_bit 40 1) (po_r st) (po_h st) buf"
      using False by (simp add: st1_def poly1305_blocks_def blocks_loop.simps)
    note b = block_value [OF ok(1,2) len(2), of True]
    have "rfc_acc (lv (po_r st)) (lv (po_h st) mod P1305) ?t = ((lv (po_h st) mod P1305 + le_val (?t @ [1])) * lv (po_r st)) mod P1305"
    proof -
      have "?t \<noteq> []" "take 16 ?t = ?t" "drop 16 ?t = []" using False ok(3,4) by auto
      then show ?thesis by (subst rfc_acc.simps) (simp only: if_False rfc_acc.simps [of _ _ "[]"], simp)
    qed
    moreover have "(lv (po_h st) mod P1305 + y) * z mod P1305 = (lv (po_h st) + y) * z mod P1305" for y z
      by (metis mod_add_left_eq mod_mult_left_eq)
    ultimately have "lv (po_h st1) mod P1305 = rfc_acc (lv (po_r st)) 0 msg"
      unfolding h w(1) rfc_acc_append [OF w(2)] w(3) [symmetric] b(2) using len(1) by simp
    moreover have "limbs_ok (po_h st1)" unfolding h by (rule b(1))
    ultimately show ?thesis by blast
  qed (use ok w in \<open>simp_all add: st1_def\<close>)
  then show "limbs_ok (po_h st1)" "lv (po_h st1) mod P1305 = rfc_acc (lv (po_r st)) 0 msg" by simp_all
qed

lemma finish_tag:
  assumes "poly_ok key msg st"
  shows "poly1305_finish st = rfc_poly1305 key msg"
proof -
  define n where "n = po_leftover st"
  define buf where "buf = take n (po_buffer st) @ [1] @ replicate (16 - (n + 1)) 0"
  define st1 where "st1 = (if n \<noteq> 0 then poly1305_blocks (st\<lparr>po_buffer := buf, po_final := True\<rparr>) buf 16 else st)"
  note l = last_block [OF assms, folded n_def, folded buf_def, folded st1_def]
  obtain g0 g1 g2 where g: "final_carry (po_h st1) = (g0, g1, g2)" "unat g0 < 2 ^ 44" "unat g1 < 2 ^ 44" "unat g2 < 2 ^ 42"
    "lv (g0, g1, g2) mod P1305 = lv (po_h st1) mod P1305" using carry_value [OF l(1)] by blast
  obtain s0 s1 s2 where s: "final_select (g0, g1, g2) = (s0, s1, s2)" "unat s0 < 2 ^ 44" "unat s1 < 2 ^ 44" "unat s2 < 2 ^ 42"
    "lv (s0, s1, s2) = lv (g0, g1, g2) mod P1305" using select_value [OF g(2-4)] by blast
  obtain t0 t1 where t: "po_pad st = (t0, t1)" by (cases "po_pad st")
  obtain m0 m1 where m: "final_pad (t0, t1) (s0, s1, s2) = (m0, m1)" "t128 m0 m1 = (lv (s0, s1, s2) + t128 t0 t1) mod 2 ^ 128"
    using pad_value [OF s(2-4)] by blast
  have "poly1305_finish st = U64TO8 m0 @ U64TO8 m1"
    unfolding poly1305_finish_def n_def [symmetric] Let_def buf_def [symmetric] st1_def [symmetric] l(3) t g(1) s(1) m(1) by simp
  also have "\<dots> = le_bytes 16 ((lv (s0, s1, s2) + t128 t0 t1) mod 256 ^ 16)" by (simp only: U64TO8_le le_bytes_two m(2)) simp
  also have "\<dots> = le_bytes 16 (lv (s0, s1, s2) + t128 t0 t1)" by (rule le_bytes_mod)
  also have "lv (s0, s1, s2) = rfc_acc (rfc_clamp (le_val (take 16 key))) 0 msg"
    using s(5) g(5) l(2) assms by (simp only: poly_ok_def)
  also have "t128 t0 t1 = le_val (take 16 (drop 16 key))" using assms by (simp add: poly_ok_def t)
  finally show ?thesis by (simp add: rfc_poly1305_def)
qed

lemma updates_ok: "poly_ok key msg st \<Longrightarrow> poly_ok key (msg @ concat chunks) (foldl poly1305_update st chunks)"
proof (induction chunks arbitrary: msg st)
  case (Cons c chunks)
  from Cons.IH [OF update_ok [OF Cons.prems, of c]] show ?case by simp
qed simp

text \<open>
  C35: for every 32-byte key and whatever pieces the message arrives in, the limb arithmetic
  computes the Poly1305 tag of RFC 8439: no intermediate value overflows its word, the lazily
  carried accumulator stands for the standard's residue modulo 2^130 - 5, and the constant-time
  final reduction is exact.
\<close>

theorem poly1305_exact:
  assumes "32 \<le> length key"
  shows "poly1305_finish (foldl poly1305_update (poly1305_init poly1305_fresh key) chunks) = rfc_poly1305 key (concat chunks)"
  using finish_tag [OF updates_ok [OF init_ok [OF assms, of poly1305_fresh], of chunks]] by (simp add: poly1305_fresh_def)

theorem poly1305_exact_witness:
  "poly1305_finish (foldl poly1305_update (poly1305_init poly1305_fresh (replicate 32 7)) [[1, 2], [3]]) =
     rfc_poly1305 (replicate 32 7) [1, 2, 3]"
  using poly1305_exact [of "replicate 32 7" "[[1, 2], [3]]"] by simp

end
