(* ===== verification/Chachapoly.thy ===== *)
theory Chachapoly
  imports Chacha Poly1305
begin

text \<open>
  The authenticated encryption of \<open>src/librats/crypto/chachapoly.h\<close> and \<open>chachapoly.c\<close>:
  ChaCha20 under block counters 0 (the authenticator's key) and 1 (the message), Poly1305 over
  the associated data, the ciphertext and their lengths. Buffers the caller provides for output
  are arguments: the length is passed to the cipher as 32 bits, so what lies beyond the first
  \<open>length mod 2^32\<close> bytes keeps what the buffer held.
\<close>

subsection \<open>The construction\<close>

definition CHACHAPOLY_TAG_SIZE :: nat where "CHACHAPOLY_TAG_SIZE = 16"

definition write_le64 :: "u64 \<Rightarrow> bytes" where
  "write_le64 v =
     [ucast v, ucast (drop_bit 8 v), ucast (drop_bit 16 v), ucast (drop_bit 24 v),
      ucast (drop_bit 32 v), ucast (drop_bit 40 v), ucast (drop_bit 48 v), ucast (drop_bit 56 v)]"

definition secure_compare :: "bytes \<Rightarrow> bytes \<Rightarrow> nat \<Rightarrow> bool" where
  "secure_compare a b len = (foldl (\<lambda>result i. result OR (a ! i XOR b ! i)) 0 [0..<len] = 0)"

definition poly1305_pad16 :: "poly1305_state \<Rightarrow> nat \<Rightarrow> poly1305_state" where
  "poly1305_pad16 st data_len =
     (let pad = (16 - data_len mod 16) mod 16 in if pad > 0 then poly1305_update st (replicate pad 0) else st)"

definition chacha_at :: "bytes \<Rightarrow> bytes \<Rightarrow> bytes \<Rightarrow> chacha_ctx" where
  "chacha_at key nonce counter = chacha_ivsetup (chacha_keysetup [] key 256) (drop 4 nonce) (Some counter)"

definition poly_key :: "bytes \<Rightarrow> bytes \<Rightarrow> bytes" where
  "poly_key key nonce = fst (chacha_encrypt_bytes (chacha_at key nonce (replicate 8 0)) (replicate 64 0))"

definition chacha_into :: "bytes \<Rightarrow> bytes \<Rightarrow> bytes \<Rightarrow> bytes \<Rightarrow> bytes" where
  "chacha_into key nonce m out =
     (let n = length m mod 2 ^ 32
      in fst (chacha_encrypt_bytes (chacha_at key nonce (1 # replicate 7 0)) (take n m)) @ drop n (take (length m) out))"

definition chachapoly_tag :: "bytes \<Rightarrow> bytes \<Rightarrow> bytes \<Rightarrow> bytes \<Rightarrow> bytes" where
  "chachapoly_tag key nonce ad ct =
     (let st = poly1305_init poly1305_fresh (poly_key key nonce);
          st = (if ad \<noteq> [] then poly1305_pad16 (poly1305_update st ad) (length ad) else st);
          st = (if ct \<noteq> [] then poly1305_pad16 (poly1305_update st ct) (length ct) else st)
      in poly1305_finish (poly1305_update st (write_le64 (of_nat (length ad)) @ write_le64 (of_nat (length ct)))))"

definition chachapoly_encrypt :: "bytes \<Rightarrow> bytes \<Rightarrow> bytes \<Rightarrow> bytes \<Rightarrow> bytes \<Rightarrow> bytes" where
  "chachapoly_encrypt key nonce ad plaintext out =
     (let ct = (if plaintext \<noteq> [] then chacha_into key nonce plaintext out else [])
      in ct @ chachapoly_tag key nonce ad ct)"

definition chachapoly_decrypt :: "bytes \<Rightarrow> bytes \<Rightarrow> bytes \<Rightarrow> bytes \<Rightarrow> bytes \<Rightarrow> bytes option" where
  "chachapoly_decrypt key nonce ad ciphertext out =
     (if length ciphertext < CHACHAPOLY_TAG_SIZE then None
      else
        let pt_len = length ciphertext - CHACHAPOLY_TAG_SIZE;
            ct = take pt_len ciphertext
        in if \<not> secure_compare (chachapoly_tag key nonce ad ct) (drop pt_len ciphertext) CHACHAPOLY_TAG_SIZE then None
           else Some (if pt_len > 0 then chacha_into key nonce ct out else []))"

definition chachapoly_encrypt_inplace :: "bytes \<Rightarrow> bytes \<Rightarrow> bytes \<Rightarrow> bytes \<Rightarrow> bytes" where
  "chachapoly_encrypt_inplace key nonce ad data = chachapoly_encrypt key nonce ad data data"

definition chachapoly_decrypt_inplace :: "bytes \<Rightarrow> bytes \<Rightarrow> bytes \<Rightarrow> bytes \<Rightarrow> bytes option" where
  "chachapoly_decrypt_inplace key nonce ad data = chachapoly_decrypt key nonce ad data data"

subsection \<open>Exactness\<close>

lemma word_xor_eq_0: "x XOR y = 0 \<longleftrightarrow> x = (y :: 'a::len word)"
  by (metis xor.right_neutral xor_self_eq xor.assoc)

lemma secure_compare_iff:
  assumes "length a = len" "length b = len"
  shows "secure_compare a b len \<longleftrightarrow> a = b"
proof -
  have "foldl (\<lambda>result i. result OR (a ! i XOR b ! i)) r [0..<n] = 0 \<longleftrightarrow> r = 0 \<and> (\<forall>i < n. a ! i = b ! i)" for r n
    by (induction n) (auto simp: or_eq_0_iff less_Suc_eq word_xor_eq_0)
  then show ?thesis using assms by (auto simp: secure_compare_def list_eq_iff_nth_eq)
qed

lemma length_chacha_at [simp]: "length (chacha_at key nonce c) = 16"
  by (simp add: chacha_at_def)

lemma chacha_into_empty [simp]: "chacha_into key nonce [] out = []"
  by (simp add: chacha_into_def chacha_encrypt_bytes.simps)

lemma chacha_into_short:
  "length m < 2 ^ 32 \<Longrightarrow> chacha_into key nonce m out = fst (chacha_encrypt_bytes (chacha_at key nonce (1 # replicate 7 0)) m)"
  by (simp add: chacha_into_def)

lemma chacha_into_twice:
  "length m < 2 ^ 32 \<Longrightarrow> chacha_into key nonce (chacha_into key nonce m out) out' = m"
  by (simp add: chacha_into_short encrypt_twice)

lemma length_chacha_into [simp]: "length m < 2 ^ 32 \<Longrightarrow> length (chacha_into key nonce m out) = length m"
  by (simp add: chacha_into_short)

text \<open>The authenticated text of RFC 8439.\<close>

definition pad16 :: "bytes \<Rightarrow> bytes" where
  "pad16 x = replicate ((16 - length x mod 16) mod 16) 0"

definition rfc_auth_text :: "bytes \<Rightarrow> bytes \<Rightarrow> bytes" where
  "rfc_auth_text ad ct = ad @ pad16 ad @ ct @ pad16 ct @ le_bytes 8 (length ad) @ le_bytes 8 (length ct)"

lemma length_poly_key [simp]: "length (poly_key key nonce) = 64"
  by (simp add: poly_key_def)

lemma write_le64_bytes: "n < 2 ^ 64 \<Longrightarrow> write_le64 (of_nat n) = le_bytes 8 n"
  using U64TO8_le [of "of_nat n"] by (simp add: write_le64_def U64TO8_def unat_of_nat)

lemma write_le64_of_nat: "write_le64 (of_nat n) = le_bytes 8 n"
proof -
  have "of_nat n = (of_nat (n mod 2 ^ 64) :: u64)" by (simp add: word_unat_eq_iff unat_of_nat)
  then show ?thesis using write_le64_bytes [of "n mod 2 ^ 64"] le_bytes_mod [of 8 n] by simp
qed

lemma tag_exact: "chachapoly_tag key nonce ad ct = rfc_poly1305 (poly_key key nonce) (rfc_auth_text ad ct)"
proof -
  let ?k = "poly_key key nonce"
  have part: "poly_ok ?k (msg @ x @ pad16 x) (if x \<noteq> [] then poly1305_pad16 (poly1305_update st x) (length x) else st)"
    if "poly_ok ?k msg st" for msg x st
    using that update_ok [OF that, of x] update_ok [OF update_ok [OF that, of x], of "pad16 x"]
    by (auto simp: poly1305_pad16_def pad16_def Let_def)
  have "poly_ok ?k [] (poly1305_init poly1305_fresh ?k)" by (rule init_ok) (simp_all add: poly1305_fresh_def)
  from update_ok [OF part [OF part [OF this, of ad], of ct], of "write_le64 (of_nat (length ad)) @ write_le64 (of_nat (length ct))"]
  show ?thesis unfolding chachapoly_tag_def Let_def
    by (simp add: finish_tag rfc_auth_text_def write_le64_of_nat)
qed

lemma length_tag [simp]: "length (chachapoly_tag key nonce ad ct) = 16"
  by (simp add: tag_exact rfc_poly1305_def)

text \<open>Only the last eight bytes of the twelve-byte nonce are used.\<close>

lemma nonce_prefix_unused:
  "drop 4 n1 = drop 4 n2 \<Longrightarrow> chachapoly_encrypt key n1 ad p out = chachapoly_encrypt key n2 ad p out"
  by (simp add: chachapoly_encrypt_def chachapoly_tag_def chacha_into_def poly_key_def chacha_at_def)

lemma encrypt_eq:
  "chachapoly_encrypt key nonce ad p out =
     chacha_into key nonce p out @ chachapoly_tag key nonce ad (chacha_into key nonce p out)"
  by (cases "p = []") (simp_all add: chachapoly_encrypt_def Let_def)

lemma decrypt_eq:
  "chachapoly_decrypt key nonce ad c out =
     (if 16 \<le> length c \<and> drop (length c - 16) c = chachapoly_tag key nonce ad (take (length c - 16) c)
      then Some (chacha_into key nonce (take (length c - 16) c) out) else None)"
  by (cases "length c = 16")
    (auto simp: chachapoly_decrypt_def CHACHAPOLY_TAG_SIZE_def Let_def secure_compare_iff)

lemma length_encrypt_eq: "length p < 2 ^ 32 \<Longrightarrow> length (chachapoly_encrypt key nonce ad p out) = length p + 16"
  by (simp add: encrypt_eq)

lemma encrypt_nonempty [simp]: "chachapoly_encrypt key nonce ad p out \<noteq> []"
  by (auto simp: encrypt_eq dest: arg_cong [of _ _ length])

lemma decrypt_encrypt:
  assumes "length p < 2 ^ 32"
  shows "chachapoly_decrypt key nonce ad (chachapoly_encrypt key nonce ad p out) out' = Some p"
  using assms by (simp add: decrypt_eq encrypt_eq chacha_into_twice)

lemma encrypt_decrypt:
  assumes "chachapoly_decrypt key nonce ad c out = Some p" "length c < 2 ^ 32"
  shows "chachapoly_encrypt key nonce ad p out' = c"
proof -
  have d: "drop (length c - 16) c = chachapoly_tag key nonce ad (take (length c - 16) c)"
    "p = chacha_into key nonce (take (length c - 16) c) out" using assms(1) by (auto simp: decrypt_eq split: if_splits)
  have "chacha_into key nonce p out' = take (length c - 16) c"
    unfolding d(2) using assms(2) by (subst chacha_into_twice) simp_all
  then have "chachapoly_encrypt key nonce ad p out' = take (length c - 16) c @ drop (length c - 16) c" by (simp only: encrypt_eq d(1))
  then show ?thesis by (simp only: append_take_drop_id)
qed



end
