(* ===== verification/Hkdf.thy ===== *)
theory Hkdf
  imports Sha256
begin

text \<open>
  HMAC-SHA256 and the key derivation of \<open>src/librats/crypto/hkdf.h\<close> and \<open>hkdf.c\<close>: the keyed
  hash over one and two inputs, extract and expand, and the two- and three-output forms the
  handshake uses. The references are RFC 2104 and RFC 5869.
\<close>

subsection \<open>HMAC\<close>

definition hmac_k :: "bytes \<Rightarrow> bytes" where
  "hmac_k key = (if length key > 64 then sha256_hash key else key)"

definition k_pad :: "byte \<Rightarrow> bytes \<Rightarrow> bytes" where
  "k_pad fill k = map (\<lambda>i. if i < length k then fill XOR k ! i else fill) [0..<64]"

definition hmac_sha256 :: "bytes \<Rightarrow> bytes \<Rightarrow> bytes" where
  "hmac_sha256 key data =
     (let k = hmac_k key;
          (inner, c) = sha256_finish (sha256_update (sha256_update sha256_fresh (k_pad 0x36 k)) data)
      in fst (sha256_finish (sha256_update (sha256_update (sha256_reset c) (k_pad 0x5c k)) inner)))"

definition hmac_sha256_2 :: "bytes \<Rightarrow> bytes \<Rightarrow> bytes \<Rightarrow> bytes" where
  "hmac_sha256_2 key data1 data2 =
     (let k = hmac_k key;
          (inner, c) = sha256_finish (sha256_update (sha256_update (sha256_update sha256_fresh (k_pad 0x36 k)) data1) data2)
      in fst (sha256_finish (sha256_update (sha256_update (sha256_reset c) (k_pad 0x5c k)) inner)))"

subsection \<open>Extract and expand\<close>

definition hkdf_sha256_extract :: "bytes \<Rightarrow> bytes \<Rightarrow> bytes" where
  "hkdf_sha256_extract salt ikm = hmac_sha256 (if salt = [] then replicate 32 0 else salt) ikm"

text \<open>
  The loop of \<open>rats_hkdf_sha256_expand\<close>: the context, the previous block (empty before the
  first), the counter byte and the length still to produce.
\<close>

function expand_loop :: "bytes \<Rightarrow> bytes \<Rightarrow> sha256_context \<Rightarrow> bytes \<Rightarrow> byte \<Rightarrow> nat \<Rightarrow> bytes" where
  "expand_loop prk info ctx t counter okm_len =
     (if okm_len = 0 then []
      else
        let c0 = sha256_update (sha256_reset ctx) (k_pad 0x36 (take 32 prk));
            c1 = (if t \<noteq> [] then sha256_update c0 t else c0);
            c2 = (if info \<noteq> [] then sha256_update c1 info else c1);
            (inner, c3) = sha256_finish (sha256_update c2 [counter]);
            (t1, c4) = sha256_finish (sha256_update (sha256_update (sha256_reset c3) (k_pad 0x5c (take 32 prk))) inner);
            copy_len = min okm_len 32
        in take copy_len t1 @ expand_loop prk info c4 t1 (counter + 1) (okm_len - copy_len))"
  by pat_completeness auto
termination
  by (relation "measure (\<lambda>(prk, info, ctx, t, counter, n). n)") auto

declare expand_loop.simps [simp del]

definition hkdf_sha256_expand :: "bytes \<Rightarrow> bytes \<Rightarrow> nat \<Rightarrow> bytes" where
  "hkdf_sha256_expand prk info okm_len = expand_loop prk info sha256_fresh [] 1 okm_len"

definition hkdf_sha256 :: "bytes \<Rightarrow> bytes \<Rightarrow> bytes \<Rightarrow> nat \<Rightarrow> bytes" where
  "hkdf_sha256 salt ikm info okm_len = hkdf_sha256_expand (hkdf_sha256_extract salt ikm) info okm_len"

definition noise_hkdf_2 :: "bytes \<Rightarrow> bytes \<Rightarrow> bytes \<times> bytes" where
  "noise_hkdf_2 chaining_key input_key =
     (let temp_key = hmac_sha256 chaining_key input_key;
          output1 = hmac_sha256 temp_key [1];
          output2 = hmac_sha256_2 temp_key output1 [2]
      in (output1, output2))"

definition noise_hkdf_3 :: "bytes \<Rightarrow> bytes \<Rightarrow> bytes \<times> bytes \<times> bytes" where
  "noise_hkdf_3 chaining_key input_key =
     (let temp_key = hmac_sha256 chaining_key input_key;
          output1 = hmac_sha256 temp_key [1];
          output2 = hmac_sha256_2 temp_key output1 [2];
          output3 = hmac_sha256_2 temp_key output2 [3]
      in (output1, output2, output3))"

subsection \<open>The standards\<close>

text \<open>RFC 2104: the key, hashed when longer than a block, padded with zeros to a block.\<close>

definition rfc_hmac :: "bytes \<Rightarrow> bytes \<Rightarrow> bytes" where
  "rfc_hmac key text =
     (let k0 = (if length key > 64 then fips_sha256 key else key);
          k = k0 @ replicate (64 - length k0) 0
      in fips_sha256 (map (\<lambda>b. b XOR 0x5c) k @ fips_sha256 (map (\<lambda>b. b XOR 0x36) k @ text)))"

text \<open>RFC 5869: \<open>T(0)\<close> is empty, \<open>T(n)\<close> is the keyed hash of \<open>T(n - 1)\<close>, the info and \<open>n\<close>.\<close>

fun rfc_T :: "bytes \<Rightarrow> bytes \<Rightarrow> nat \<Rightarrow> bytes" where
  "rfc_T prk info 0 = []"
| "rfc_T prk info (Suc n) = rfc_hmac prk (rfc_T prk info n @ info @ [of_nat (Suc n)])"

definition rfc_hkdf :: "bytes \<Rightarrow> bytes \<Rightarrow> bytes \<Rightarrow> nat \<Rightarrow> bytes" where
  "rfc_hkdf salt ikm info l =
     (let prk = rfc_hmac (if salt = [] then replicate 32 0 else salt) ikm
      in take l (concat (map (rfc_T prk info) [1..<(l + 31) div 32 + 1])))"

subsection \<open>Correctness\<close>

lemma k_pad_map: "length k \<le> 64 \<Longrightarrow> k_pad fill k = map (\<lambda>b. b XOR fill) (k @ replicate (64 - length k) 0)"
  by (rule nth_equalityI) (auto simp: k_pad_def nth_append xor.commute)

text \<open>The keyed hash over any number of pieces, from any started context.\<close>

lemma keyed_hash:
  fixes pieces :: "bytes list"
  assumes "sha_started c" "length k \<le> 64"
  defines "r \<equiv> sha256_finish (foldl sha256_update c (k_pad 0x36 k # pieces))"
  shows "fst (sha256_finish (sha256_update (sha256_update (sha256_reset (snd r)) (k_pad 0x5c k)) (fst r))) = rfc_hmac k (concat pieces)"
    "length (sh_m (snd (sha256_finish (sha256_update (sha256_update (sha256_reset (snd r)) (k_pad 0x5c k)) (fst r))))) = 64"
proof -
  have inner: "fst r = fips_sha256 (k_pad 0x36 k @ concat pieces)" and m: "length (sh_m (snd r)) = 64"
    using digest_exact [OF assms(1), of "k_pad 0x36 k # pieces"] by (simp_all add: r_def)
  note outer = digest_exact [OF reset_started [OF m], of "[k_pad 0x5c k, fst r]"]
  show "fst (sha256_finish (sha256_update (sha256_update (sha256_reset (snd r)) (k_pad 0x5c k)) (fst r))) = rfc_hmac k (concat pieces)"
    using outer(1) assms(2) by (simp add: inner rfc_hmac_def k_pad_map Let_def)
  show "length (sh_m (snd (sha256_finish (sha256_update (sha256_update (sha256_reset (snd r)) (k_pad 0x5c k)) (fst r))))) = 64"
    using outer(2) by simp
qed

lemma hmac_k_short: "length (hmac_k key) \<le> 64" "rfc_hmac (hmac_k key) d = rfc_hmac key d"
  by (simp_all add: hmac_k_def sha256_hash_fips rfc_hmac_def)

lemma hmac_exact: "hmac_sha256 key d = rfc_hmac key d"
  using keyed_hash(1) [OF fresh_started hmac_k_short(1), of key "[d]"]
  by (simp add: hmac_sha256_def Let_def split_beta hmac_k_short(2))

lemma hmac_2_exact: "hmac_sha256_2 key d e = rfc_hmac key (d @ e)"
  using keyed_hash(1) [OF fresh_started hmac_k_short(1), of key "[d, e]"]
  by (simp add: hmac_sha256_2_def Let_def split_beta hmac_k_short(2))

lemma length_rfc_hmac [simp]: "length (rfc_hmac k d) = 32"
  by (simp add: rfc_hmac_def Let_def)

lemma update_nil [simp]: "sha256_update c [] = c"
  by (simp add: sha256_update.simps)

lemma expand_exact:
  assumes "length prk = 32" "length (sh_m c) = 64"
  shows "expand_loop prk info c (rfc_T prk info n) (of_nat (Suc n)) l =
    take l (concat (map (rfc_T prk info) [Suc n..<Suc n + (l + 31) div 32]))"
  using assms(2)
proof (induction l arbitrary: c n rule: less_induct)
  case (less l)
  show ?case
  proof (cases "l = 0")
    case False
    let ?t = "rfc_T prk info n" and ?ctr = "of_nat (Suc n) :: byte"
    define r where "r = sha256_finish (foldl sha256_update (sha256_reset c) [k_pad 0x36 prk, ?t, info, [?ctr]])"
    define s where "s = sha256_finish (sha256_update (sha256_update (sha256_reset (snd r)) (k_pad 0x5c prk)) (fst r))"
    have step: "fst s = rfc_T prk info (Suc n)" "length (sh_m (snd s)) = 64"
      using keyed_hash [OF reset_started [OF less.prems], of prk "[?t, info, [?ctr]]"] assms(1) by (simp_all add: s_def r_def)
    have "expand_loop prk info c ?t ?ctr l = take (min l 32) (fst s) @ expand_loop prk info (snd s) (fst s) (?ctr + 1) (l - min l 32)"
      using False assms(1) by (subst expand_loop.simps) (simp add: Let_def split_beta s_def r_def)
    also have "expand_loop prk info (snd s) (fst s) (?ctr + 1) (l - min l 32) =
        take (l - 32) (concat (map (rfc_T prk info) [Suc (Suc n)..<Suc (Suc n) + (l - 32 + 31) div 32]))"
      using less.IH [of "l - min l 32" "snd s" "Suc n"] False step by (simp add: min_def add.commute split: if_splits)
    finally have turn: "expand_loop prk info c ?t ?ctr l = take (min l 32) (rfc_T prk info (Suc n)) @
        take (l - 32) (concat (map (rfc_T prk info) [Suc (Suc n)..<Suc (Suc n) + (l - 32 + 31) div 32]))"
      by (simp only: step)
    have len: "length (rfc_T prk info (Suc n)) = 32" by simp
    have blocks: "(l + 31) div 32 = Suc ((l - 32 + 31) div 32) \<or> l \<le> 32 \<and> (l + 31) div 32 = 1"
      using False by (cases "l \<le> 32") (simp_all add: div_nat_eqI div_if [of "l + 31"])
    have upt: "[Suc n..<Suc n + Suc k] = Suc n # [Suc (Suc n)..<Suc (Suc n) + k]" for k by (simp add: upt_conv_Cons)
    show ?thesis
      using blocks
    proof
      assume "(l + 31) div 32 = Suc ((l - 32 + 31) div 32)"
      then show ?thesis unfolding turn using upt len by (simp add: min_def del: rfc_T.simps upt_Suc)
    next
      assume "l \<le> 32 \<and> (l + 31) div 32 = 1"
      then show ?thesis unfolding turn using upt [of 0] len by (simp add: min_def del: rfc_T.simps upt_Suc)
    qed
  qed (simp add: expand_loop.simps)
qed

text \<open>
  C37: extract and expand compute the HKDF of RFC 5869 for every output length, and the
  two-output derivation of the handshake is that HKDF with an empty info and 64 bytes of
  output, for a chaining key that is not empty.
\<close>

theorem hkdf_exact:
  "hkdf_sha256 salt ikm info l = rfc_hkdf salt ikm info l \<and>
   (salt \<noteq> [] \<longrightarrow> (case noise_hkdf_2 salt ikm of (k1, k2) \<Rightarrow> k1 @ k2) = rfc_hkdf salt ikm [] 64)"
proof
  show "hkdf_sha256 salt ikm info l = rfc_hkdf salt ikm info l"
    using expand_exact [of "rfc_hmac (if salt = [] then replicate 32 0 else salt) ikm" sha256_fresh info 0 l] fresh_started
    by (simp add: hkdf_sha256_def hkdf_sha256_expand_def hkdf_sha256_extract_def hmac_exact rfc_hkdf_def Let_def sha_started_def)
  show "salt \<noteq> [] \<longrightarrow> (case noise_hkdf_2 salt ikm of (k1, k2) \<Rightarrow> k1 @ k2) = rfc_hkdf salt ikm [] 64"
    by (simp add: noise_hkdf_2_def rfc_hkdf_def Let_def hmac_exact hmac_2_exact upt_rec numeral_2_eq_2)
qed

theorem hkdf_exact_witness:
  "(case noise_hkdf_2 [7] [] of (k1, k2) \<Rightarrow> k1 @ k2) = rfc_hkdf [7] [] [] 64"
  using hkdf_exact [of "[7]" "[]" "[]" 64] by simp

end
