(* ===== verification/Noise.thy ===== *)
theory Noise
  imports Chachapoly Hkdf
begin

text \<open>
  The Noise XX handshake and its transport ciphers (\<open>src/librats/crypto/noise.h\<close> and
  \<open>noise.cpp\<close>): cipher state, symmetric state, handshake state and session. The X25519 function
  \<open>rats_curve25519_donna(private, public)\<close> is the argument \<open>dh\<close>; the bytes the random device
  returns are arguments too. An operation that may fail returns its error (or the sentinel,
  as \<open>None\<close>) together with the state it leaves behind.
\<close>

subsection \<open>Constants and helpers\<close>

definition NOISE_HASH_SIZE :: nat where "NOISE_HASH_SIZE = 32"
definition NOISE_DH_SIZE :: nat where "NOISE_DH_SIZE = 32"
definition NOISE_TAG_SIZE :: nat where "NOISE_TAG_SIZE = 16"
definition NOISE_MAX_MESSAGE_SIZE :: nat where "NOISE_MAX_MESSAGE_SIZE = 65535"

lemmas noise_sizes = NOISE_HASH_SIZE_def NOISE_DH_SIZE_def NOISE_TAG_SIZE_def NOISE_MAX_MESSAGE_SIZE_def

definition NOISE_PROTOCOL_NAME :: bytes where "NOISE_PROTOCOL_NAME = str ''Noise_XX_25519_ChaChaPoly_SHA256''"

datatype noise_error = OK | INVALID_STATE | DECRYPT_FAILED | MESSAGE_TOO_LARGE | HANDSHAKE_NOT_COMPLETE
  | HANDSHAKE_ALREADY_COMPLETE | INVALID_KEY | INTERNAL_ERROR

definition basepoint :: bytes where "basepoint = 9 # replicate 31 0"

definition make_nonce :: "u64 \<Rightarrow> bytes" where
  "make_nonce n =
     [0, 0, 0, 0, ucast n, ucast (drop_bit 8 n), ucast (drop_bit 16 n), ucast (drop_bit 24 n),
      ucast (drop_bit 32 n), ucast (drop_bit 40 n), ucast (drop_bit 48 n), ucast (drop_bit 56 n)]"

subsection \<open>Cipher state\<close>

record noise_cipher =
  ci_key :: bytes
  ci_nonce :: u64
  ci_has_key :: bool

definition cipher_new :: noise_cipher where
  "cipher_new = \<lparr>ci_key = replicate 32 0, ci_nonce = 0, ci_has_key = False\<rparr>"

definition initialize_key :: "bytes \<Rightarrow> noise_cipher \<Rightarrow> noise_cipher" where
  "initialize_key key ci = ci\<lparr>ci_key := key, ci_nonce := 0, ci_has_key := True\<rparr>"

definition encrypt_with_ad :: "bytes \<Rightarrow> bytes \<Rightarrow> bytes \<Rightarrow> noise_cipher \<Rightarrow> bytes \<times> noise_cipher" where
  "encrypt_with_ad ad plaintext out ci =
     (if \<not> ci_has_key ci then (plaintext, ci)
      else
        let result = chachapoly_encrypt (ci_key ci) (make_nonce (ci_nonce ci)) ad plaintext out
        in (result, if length result > 0 then ci\<lparr>ci_nonce := ci_nonce ci + 1\<rparr> else ci))"

definition decrypt_with_ad :: "bytes \<Rightarrow> bytes \<Rightarrow> bytes \<Rightarrow> noise_cipher \<Rightarrow> bytes option \<times> noise_cipher" where
  "decrypt_with_ad ad ciphertext out ci =
     (if \<not> ci_has_key ci then (Some ciphertext, ci)
      else if length ciphertext < NOISE_TAG_SIZE then (None, ci)
      else
        case chachapoly_decrypt (ci_key ci) (make_nonce (ci_nonce ci)) ad ciphertext out of
          Some p \<Rightarrow> (Some p, ci\<lparr>ci_nonce := ci_nonce ci + 1\<rparr>)
        | None \<Rightarrow> (None, ci))"

definition cipher_clear :: "noise_cipher \<Rightarrow> noise_cipher" where
  "cipher_clear ci = ci\<lparr>ci_key := replicate 32 0, ci_nonce := 0, ci_has_key := False\<rparr>"

subsection \<open>Symmetric state\<close>

record noise_symmetric =
  sy_ck :: bytes
  sy_h :: bytes
  sy_cipher :: noise_cipher

definition symmetric_new :: noise_symmetric where
  "symmetric_new = \<lparr>sy_ck = replicate 32 0, sy_h = replicate 32 0, sy_cipher = cipher_new\<rparr>"

definition initialize_symmetric :: "bytes \<Rightarrow> noise_symmetric \<Rightarrow> noise_symmetric" where
  "initialize_symmetric name sy =
     (let h = (if length name \<le> NOISE_HASH_SIZE then name @ replicate (NOISE_HASH_SIZE - length name) 0
               else sha256_hash name)
      in sy\<lparr>sy_h := h, sy_ck := h\<rparr>)"

definition mix_key :: "bytes \<Rightarrow> noise_symmetric \<Rightarrow> noise_symmetric" where
  "mix_key ikm sy =
     (let (ck, temp_k) = noise_hkdf_2 (sy_ck sy) ikm
      in sy\<lparr>sy_ck := ck, sy_cipher := initialize_key temp_k (sy_cipher sy)\<rparr>)"

definition mix_hash :: "bytes \<Rightarrow> noise_symmetric \<Rightarrow> noise_symmetric" where
  "mix_hash data sy =
     sy\<lparr>sy_h := fst (sha256_finish (sha256_update (sha256_update sha256_fresh (sy_h sy)) data))\<rparr>"

definition encrypt_and_hash :: "bytes \<Rightarrow> bytes \<Rightarrow> noise_symmetric \<Rightarrow> bytes \<times> noise_symmetric" where
  "encrypt_and_hash plaintext out sy =
     (let (c, ci) = encrypt_with_ad (sy_h sy) plaintext out (sy_cipher sy)
      in (c, mix_hash c (sy\<lparr>sy_cipher := ci\<rparr>)))"

definition decrypt_and_hash :: "bytes \<Rightarrow> bytes \<Rightarrow> nat \<Rightarrow> noise_symmetric \<Rightarrow> bytes option \<times> noise_symmetric" where
  "decrypt_and_hash ciphertext out cap sy =
     (let pt_max = (if ci_has_key (sy_cipher sy)
          then (if NOISE_TAG_SIZE \<le> length ciphertext then length ciphertext - NOISE_TAG_SIZE else 0)
          else length ciphertext)
      in if pt_max > cap then (None, sy)
         else
           let h_backup = sy_h sy; sy1 = mix_hash ciphertext sy;
               (p, ci) = decrypt_with_ad h_backup ciphertext out (sy_cipher sy1)
           in (p, sy1\<lparr>sy_cipher := ci\<rparr>))"

definition split_symmetric :: "noise_symmetric \<Rightarrow> noise_cipher \<times> noise_cipher" where
  "split_symmetric sy =
     (let (k1, k2) = noise_hkdf_2 (sy_ck sy) [] in (initialize_key k1 cipher_new, initialize_key k2 cipher_new))"

definition symmetric_clear :: "noise_symmetric \<Rightarrow> noise_symmetric" where
  "symmetric_clear sy = sy\<lparr>sy_ck := replicate 32 0, sy_h := replicate 32 0, sy_cipher := cipher_clear (sy_cipher sy)\<rparr>"

subsection \<open>Handshake state\<close>

record noise_keypair =
  kp_private :: bytes
  kp_public :: bytes
  kp_has :: bool

definition keypair_new :: noise_keypair where
  "keypair_new = \<lparr>kp_private = replicate 32 0, kp_public = replicate 32 0, kp_has = False\<rparr>"

definition keypair_clear :: "noise_keypair \<Rightarrow> noise_keypair" where
  "keypair_clear kp = kp\<lparr>kp_private := replicate 32 0, kp_public := replicate 32 0, kp_has := False\<rparr>"

definition clamp :: "bytes \<Rightarrow> bytes" where
  "clamp k =
     (let k1 = k[0 := k ! 0 AND 248]; k2 = k1[31 := k1 ! 31 AND 127] in k2[31 := k2 ! 31 OR 64])"

definition noise_generate_keypair :: "(bytes \<Rightarrow> bytes \<Rightarrow> bytes) \<Rightarrow> bytes \<Rightarrow> noise_keypair" where
  "noise_generate_keypair dh rnd =
     \<lparr>kp_private = clamp rnd, kp_public = dh (clamp rnd) basepoint, kp_has = True\<rparr>"

definition noise_derive_public_key :: "(bytes \<Rightarrow> bytes \<Rightarrow> bytes) \<Rightarrow> bytes \<Rightarrow> bytes" where
  "noise_derive_public_key dh private = dh (clamp private) basepoint"

text \<open>\<open>nh_random\<close> is what the random device will return when the ephemeral key is drawn.\<close>

record noise_handshake =
  nh_symmetric :: noise_symmetric
  nh_s :: noise_keypair
  nh_e :: noise_keypair
  nh_rs :: noise_keypair
  nh_re :: noise_keypair
  nh_initiator :: bool
  nh_index :: nat
  nh_complete :: bool
  nh_initialized :: bool
  nh_random :: bytes

definition handshake_new :: "bytes \<Rightarrow> noise_handshake" where
  "handshake_new rnd =
     \<lparr>nh_symmetric = symmetric_new, nh_s = keypair_new, nh_e = keypair_new, nh_rs = keypair_new, nh_re = keypair_new,
      nh_initiator = False, nh_index = 0, nh_complete = False, nh_initialized = False, nh_random = rnd\<rparr>"

definition generate_ephemeral :: "(bytes \<Rightarrow> bytes \<Rightarrow> bytes) \<Rightarrow> noise_handshake \<Rightarrow> noise_handshake" where
  "generate_ephemeral dh hs = hs\<lparr>nh_e := noise_generate_keypair dh (nh_random hs)\<rparr>"

definition mix_dh :: "(bytes \<Rightarrow> bytes \<Rightarrow> bytes) \<Rightarrow> bytes \<Rightarrow> bytes \<Rightarrow> noise_handshake \<Rightarrow> noise_handshake" where
  "mix_dh dh local_private remote_public hs =
     hs\<lparr>nh_symmetric := mix_key (dh local_private remote_public) (nh_symmetric hs)\<rparr>"

definition write_e :: "(bytes \<Rightarrow> bytes \<Rightarrow> bytes) \<Rightarrow> noise_handshake \<Rightarrow> bytes \<times> noise_handshake" where
  "write_e dh hs =
     (let hs1 = (if \<not> kp_has (nh_e hs) then generate_ephemeral dh hs else hs)
      in (kp_public (nh_e hs1), hs1\<lparr>nh_symmetric := mix_hash (kp_public (nh_e hs1)) (nh_symmetric hs1)\<rparr>))"

definition write_s :: "noise_handshake \<Rightarrow> bytes \<times> noise_handshake" where
  "write_s hs =
     (let (c, sy) = encrypt_and_hash (kp_public (nh_s hs)) [] (nh_symmetric hs) in (c, hs\<lparr>nh_symmetric := sy\<rparr>))"

definition read_e :: "bytes \<Rightarrow> noise_handshake \<Rightarrow> nat \<times> noise_handshake" where
  "read_e inp hs =
     (if length inp < NOISE_DH_SIZE then (0, hs)
      else
        let re = take NOISE_DH_SIZE inp
        in (NOISE_DH_SIZE, hs\<lparr>nh_re := (nh_re hs)\<lparr>kp_public := re, kp_has := True\<rparr>,
              nh_symmetric := mix_hash re (nh_symmetric hs)\<rparr>))"

definition read_s :: "bytes \<Rightarrow> noise_handshake \<Rightarrow> nat \<times> noise_handshake" where
  "read_s inp hs =
     (let expected = NOISE_DH_SIZE + (if ci_has_key (sy_cipher (nh_symmetric hs)) then NOISE_TAG_SIZE else 0)
      in if length inp < expected then (0, hs)
         else
           case decrypt_and_hash (take expected inp) (kp_public (nh_rs hs)) NOISE_DH_SIZE (nh_symmetric hs) of
             (None, sy) \<Rightarrow> (0, hs\<lparr>nh_symmetric := sy\<rparr>)
           | (Some p, sy) \<Rightarrow>
               let hs1 = hs\<lparr>nh_symmetric := sy,
                     nh_rs := (nh_rs hs)\<lparr>kp_public := p @ drop (length p) (kp_public (nh_rs hs))\<rparr>\<rparr>
               in if length p \<noteq> NOISE_DH_SIZE then (0, hs1)
                  else (expected, hs1\<lparr>nh_rs := (nh_rs hs1)\<lparr>kp_has := True\<rparr>\<rparr>))"

definition initialize ::
  "(bytes \<Rightarrow> bytes \<Rightarrow> bytes) \<Rightarrow> bool \<Rightarrow> noise_keypair option \<Rightarrow> bytes \<Rightarrow> bytes \<Rightarrow> noise_handshake \<Rightarrow> noise_handshake" where
  "initialize dh is_initiator static_keypair rnd prologue hs =
     (let sy = mix_hash prologue (initialize_symmetric NOISE_PROTOCOL_NAME (nh_symmetric hs));
          s = (case static_keypair of
                 Some kp \<Rightarrow> if kp_has kp then kp else noise_generate_keypair dh rnd
               | None \<Rightarrow> noise_generate_keypair dh rnd)
      in hs\<lparr>nh_initiator := is_initiator, nh_index := 0, nh_complete := False, nh_symmetric := sy,
            nh_s := s, nh_initialized := True\<rparr>)"

text \<open>The tokens of the XX pattern that \<open>write_message\<close> writes before the payload.\<close>

definition write_tokens ::
  "(bytes \<Rightarrow> bytes \<Rightarrow> bytes) \<Rightarrow> nat \<Rightarrow> noise_handshake \<Rightarrow> (noise_error + bytes) \<times> noise_handshake" where
  "write_tokens dh max_len hs =
     (if nh_initiator hs then
        if nh_index hs = 0 then
          if max_len < NOISE_DH_SIZE then (Inl MESSAGE_TOO_LARGE, hs)
          else let (e, hs1) = write_e dh hs in (Inr e, hs1)
        else if nh_index hs = 2 then
          if max_len < NOISE_DH_SIZE + NOISE_TAG_SIZE then (Inl MESSAGE_TOO_LARGE, hs)
          else
            let (s, hs1) = write_s hs; hs2 = mix_dh dh (kp_private (nh_s hs1)) (kp_public (nh_re hs1)) hs1
            in (Inr s, hs2\<lparr>nh_complete := True\<rparr>)
        else (Inr [], hs)
      else
        if nh_index hs = 1 then
          if max_len < NOISE_DH_SIZE + NOISE_DH_SIZE + NOISE_TAG_SIZE then (Inl MESSAGE_TOO_LARGE, hs)
          else
            let (e, hs1) = write_e dh hs;
                hs2 = mix_dh dh (kp_private (nh_e hs1)) (kp_public (nh_re hs1)) hs1;
                (s, hs3) = write_s hs2;
                hs4 = mix_dh dh (kp_private (nh_s hs3)) (kp_public (nh_re hs3)) hs3
            in (Inr (e @ s), hs4)
        else (Inr [], hs))"

definition write_message ::
  "(bytes \<Rightarrow> bytes \<Rightarrow> bytes) \<Rightarrow> bytes \<Rightarrow> nat \<Rightarrow> noise_handshake \<Rightarrow> (noise_error + bytes) \<times> noise_handshake" where
  "write_message dh payload max_len hs =
     (if \<not> nh_initialized hs then (Inl INVALID_STATE, hs)
      else if nh_complete hs then (Inl HANDSHAKE_ALREADY_COMPLETE, hs)
      else
        case write_tokens dh max_len hs of
          (Inl err, hs1) \<Rightarrow> (Inl err, hs1)
        | (Inr msg, hs1) \<Rightarrow>
            let tag = (if ci_has_key (sy_cipher (nh_symmetric hs1)) then NOISE_TAG_SIZE else 0)
            in if length msg + length payload + tag > max_len then (Inl MESSAGE_TOO_LARGE, hs1)
               else
                 let (c, sy) = encrypt_and_hash payload [] (nh_symmetric hs1)
                 in (Inr (msg @ c), hs1\<lparr>nh_symmetric := sy, nh_index := nh_index hs1 + 1\<rparr>))"

text \<open>The tokens \<open>read_message\<close> reads before the payload; the number of bytes they took.\<close>

definition read_tokens ::
  "(bytes \<Rightarrow> bytes \<Rightarrow> bytes) \<Rightarrow> bytes \<Rightarrow> noise_handshake \<Rightarrow> (noise_error + nat) \<times> noise_handshake" where
  "read_tokens dh message hs =
     (if nh_initiator hs then
        if nh_index hs = 1 then
          let (n1, hs1) = read_e message hs
          in if n1 = 0 then (Inl DECRYPT_FAILED, hs1)
             else
               let hs2 = mix_dh dh (kp_private (nh_e hs1)) (kp_public (nh_re hs1)) hs1;
                   (n2, hs3) = read_s (drop n1 message) hs2
               in if n2 = 0 then (Inl DECRYPT_FAILED, hs3)
                  else (Inr (n1 + n2), mix_dh dh (kp_private (nh_e hs3)) (kp_public (nh_rs hs3)) hs3)
        else (Inr 0, hs)
      else
        if nh_index hs = 0 then
          let (n1, hs1) = read_e message hs in if n1 = 0 then (Inl DECRYPT_FAILED, hs1) else (Inr n1, hs1)
        else if nh_index hs = 2 then
          let (n1, hs1) = read_s message hs
          in if n1 = 0 then (Inl DECRYPT_FAILED, hs1)
             else
               let hs2 = mix_dh dh (kp_private (nh_e hs1)) (kp_public (nh_rs hs1)) hs1
               in (Inr n1, hs2\<lparr>nh_complete := True\<rparr>)
        else (Inr 0, hs))"

definition read_message ::
  "(bytes \<Rightarrow> bytes \<Rightarrow> bytes) \<Rightarrow> bytes \<Rightarrow> bytes \<Rightarrow> nat \<Rightarrow> noise_handshake \<Rightarrow> (noise_error + bytes) \<times> noise_handshake" where
  "read_message dh message payload_out payload_cap hs =
     (if \<not> nh_initialized hs then (Inl INVALID_STATE, hs)
      else if nh_complete hs then (Inl HANDSHAKE_ALREADY_COMPLETE, hs)
      else
        case read_tokens dh message hs of
          (Inl err, hs1) \<Rightarrow> (Inl err, hs1)
        | (Inr offset, hs1) \<Rightarrow>
            (case decrypt_and_hash (drop offset message) payload_out payload_cap (nh_symmetric hs1) of
               (None, sy) \<Rightarrow> (Inl DECRYPT_FAILED, hs1\<lparr>nh_symmetric := sy\<rparr>)
             | (Some p, sy) \<Rightarrow> (Inr p, hs1\<lparr>nh_symmetric := sy, nh_index := nh_index hs1 + 1\<rparr>)))"

definition split_handshake :: "noise_handshake \<Rightarrow> noise_error + (noise_cipher \<times> noise_cipher)" where
  "split_handshake hs =
     (if \<not> nh_complete hs then Inl HANDSHAKE_NOT_COMPLETE
      else let (c1, c2) = split_symmetric (nh_symmetric hs) in Inr (if nh_initiator hs then (c1, c2) else (c2, c1)))"

definition handshake_clear :: "noise_handshake \<Rightarrow> noise_handshake" where
  "handshake_clear hs =
     hs\<lparr>nh_symmetric := symmetric_clear (nh_symmetric hs), nh_s := keypair_clear (nh_s hs), nh_e := keypair_clear (nh_e hs),
        nh_rs := keypair_clear (nh_rs hs), nh_re := keypair_clear (nh_re hs),
        nh_initiator := False, nh_index := 0, nh_complete := False, nh_initialized := False\<rparr>"

subsection \<open>Session\<close>

record noise_session =
  ns_handshake :: noise_handshake
  ns_send :: noise_cipher
  ns_recv :: noise_cipher
  ns_ready :: bool

definition session_new :: "bytes \<Rightarrow> noise_session" where
  "session_new rnd =
     \<lparr>ns_handshake = handshake_new rnd, ns_send = cipher_new, ns_recv = cipher_new, ns_ready = False\<rparr>"

definition session_start ::
  "(bytes \<Rightarrow> bytes \<Rightarrow> bytes) \<Rightarrow> bool \<Rightarrow> noise_keypair option \<Rightarrow> bytes \<Rightarrow> bytes \<Rightarrow> noise_session \<Rightarrow> noise_session" where
  "session_start dh is_initiator kp rnd prologue ns =
     ns\<lparr>ns_ready := False, ns_handshake := initialize dh is_initiator kp rnd prologue (ns_handshake ns)\<rparr>"

text \<open>
  A received message that is absent or empty is not read. The result is the error, the message
  to send (\<open>None\<close>: \<open>need_to_send\<close> is false) and the session.
\<close>

definition handshake_step ::
  "(bytes \<Rightarrow> bytes \<Rightarrow> bytes) \<Rightarrow> bytes \<Rightarrow> nat \<Rightarrow> noise_session \<Rightarrow> noise_error \<times> bytes option \<times> noise_session" where
  "handshake_step dh received send_cap ns =
     (if ns_ready ns then (HANDSHAKE_ALREADY_COMPLETE, None, ns)
      else
        let (rd, hs1) = (if received \<noteq> [] then read_message dh received [] 256 (ns_handshake ns) else (Inr [], ns_handshake ns))
        in case rd of
             Inl err \<Rightarrow> (err, None, ns\<lparr>ns_handshake := hs1\<rparr>)
           | Inr payload \<Rightarrow>
               let (send, hs2) =
                     (if \<not> nh_complete hs1
                      then case write_message dh [] send_cap hs1 of
                             (Inr m, h) \<Rightarrow> (Some m, h)
                           | (Inl err, h) \<Rightarrow> (None, h)
                      else (None, hs1))
               in if nh_complete hs2
                  then case split_handshake hs2 of
                         Inl err \<Rightarrow> (err, send, ns\<lparr>ns_handshake := hs2\<rparr>)
                       | Inr (c1, c2) \<Rightarrow> (OK, send, ns\<lparr>ns_handshake := hs2, ns_send := c1, ns_recv := c2, ns_ready := True\<rparr>)
                  else (OK, send, ns\<lparr>ns_handshake := hs2\<rparr>))"

definition session_encrypt :: "bytes \<Rightarrow> bytes \<Rightarrow> noise_session \<Rightarrow> bytes \<times> noise_session" where
  "session_encrypt plaintext out ns =
     (if \<not> ns_ready ns then ([], ns)
      else let (c, ci) = encrypt_with_ad [] plaintext out (ns_send ns) in (c, ns\<lparr>ns_send := ci\<rparr>))"

definition session_decrypt :: "bytes \<Rightarrow> bytes \<Rightarrow> noise_session \<Rightarrow> bytes option \<times> noise_session" where
  "session_decrypt ciphertext out ns =
     (if \<not> ns_ready ns then (Some [], ns)
      else let (p, ci) = decrypt_with_ad [] ciphertext out (ns_recv ns) in (p, ns\<lparr>ns_recv := ci\<rparr>))"

definition session_clear :: "noise_session \<Rightarrow> noise_session" where
  "session_clear ns =
     ns\<lparr>ns_handshake := handshake_clear (ns_handshake ns), ns_send := cipher_clear (ns_send ns),
        ns_recv := cipher_clear (ns_recv ns), ns_ready := False\<rparr>"

definition get_handshake_hash :: "noise_session \<Rightarrow> bytes" where
  "get_handshake_hash ns = sy_h (nh_symmetric (ns_handshake ns))"

text \<open>A cleared session is the one its constructor makes: nothing of the keys remains.\<close>

lemma cleared:
  "session_clear ns = session_new (nh_random (ns_handshake ns))"
  by (simp add: session_clear_def session_new_def handshake_clear_def handshake_new_def symmetric_clear_def symmetric_new_def
      cipher_clear_def cipher_new_def keypair_clear_def keypair_new_def)

end
