(* ===== verification/Noise_Agreement.thy ===== *)
theory Noise_Agreement
  imports Noise
begin

text \<open>
  The two sides of the XX handshake (\<open>src/librats/crypto/noise.cpp\<close>) compute the same
  transcript. Each message of the pattern is written as a function of the symmetric state and
  of the keys mixed into it; the writer and the reader are shown to compute that function, so
  the symmetric states of both sides are equal after every message.
\<close>

lemma cipher_dual:
  assumes "encrypt_with_ad ad p out ci = (c, ci')" "length p < 2 ^ 32"
  shows "decrypt_with_ad ad c out' ci = (Some p, ci')" "length c = length p + (if ci_has_key ci then 16 else 0)"
  using assms
  by (auto simp: encrypt_with_ad_def decrypt_with_ad_def Let_def noise_sizes decrypt_encrypt length_encrypt_eq split: if_splits)

lemma hash_dual:
  assumes "encrypt_and_hash p out sy = (c, sy')" "length p < 2 ^ 32" "length p \<le> cap"
  shows "decrypt_and_hash c out' cap sy = (Some p, sy')"
    "length c = length p + (if ci_has_key (sy_cipher sy) then 16 else 0)"
proof -
  obtain ci where e: "encrypt_with_ad (sy_h sy) p out (sy_cipher sy) = (c, ci)" "sy' = mix_hash c (sy\<lparr>sy_cipher := ci\<rparr>)"
    using assms(1) by (auto simp: encrypt_and_hash_def split: prod.splits)
  note d = cipher_dual [OF e(1) assms(2)]
  show "length c = length p + (if ci_has_key (sy_cipher sy) then 16 else 0)" by (rule d(2))
  show "decrypt_and_hash c out' cap sy = (Some p, sy')"
    using d assms(3) by (simp add: decrypt_and_hash_def noise_sizes e(2) mix_hash_def)
qed

lemma keyed [simp]:
  "ci_has_key (sy_cipher (mix_key k sy))"
  "sy_cipher (mix_hash d sy) = sy_cipher sy"
  by (simp_all add: mix_key_def mix_hash_def initialize_key_def split: prod.splits)

lemma encrypt_keyed [simp]:
  "ci_has_key (sy_cipher (snd (encrypt_and_hash p out sy))) = ci_has_key (sy_cipher sy)"
  by (auto simp: encrypt_and_hash_def encrypt_with_ad_def Let_def split: prod.splits if_splits)

lemma encrypt_unkeyed:
  "\<not> ci_has_key (sy_cipher sy) \<Longrightarrow> encrypt_and_hash p out sy = (p, mix_hash p sy)"
  by (simp add: encrypt_and_hash_def encrypt_with_ad_def)

lemma decrypt_unkeyed:
  "\<not> ci_has_key (sy_cipher sy) \<Longrightarrow> length c \<le> cap \<Longrightarrow> decrypt_and_hash c out cap sy = (Some c, mix_hash c sy)"
  by (simp add: decrypt_and_hash_def decrypt_with_ad_def Let_def mix_hash_def)

subsection \<open>The messages of the pattern\<close>

definition xx_one :: "bytes \<Rightarrow> noise_symmetric \<Rightarrow> bytes \<times> noise_symmetric" where
  "xx_one e sy = (e, mix_hash [] (mix_hash e sy))"

definition xx_static :: "bytes \<Rightarrow> bytes \<Rightarrow> noise_symmetric \<Rightarrow> bytes \<times> noise_symmetric" where
  "xx_static s k sy =
     (let (c1, sy1) = encrypt_and_hash s [] sy; (c2, sy2) = encrypt_and_hash [] [] (mix_key k sy1) in (c1 @ c2, sy2))"

definition xx_two :: "bytes \<Rightarrow> bytes \<Rightarrow> bytes \<Rightarrow> bytes \<Rightarrow> noise_symmetric \<Rightarrow> bytes \<times> noise_symmetric" where
  "xx_two e ee s es sy = (let (c, sy1) = xx_static s es (mix_key ee (mix_hash e sy)) in (e @ c, sy1))"

definition hs_at :: "bool \<Rightarrow> nat \<Rightarrow> noise_handshake \<Rightarrow> bool" where
  "hs_at initiator i hs \<longleftrightarrow>
     nh_initialized hs \<and> \<not> nh_complete hs \<and> nh_initiator hs = initiator \<and> nh_index hs = i"

lemma static_length:
  assumes "length s = 32" "ci_has_key (sy_cipher sy)" "xx_static s k sy = (m, sy')"
  shows "length m = 64"
proof -
  obtain c1 sy1 where 1: "encrypt_and_hash s [] sy = (c1, sy1)" by fastforce
  obtain c2 sy2 where 2: "encrypt_and_hash [] [] (mix_key k sy1) = (c2, sy2)" by fastforce
  show ?thesis using assms hash_dual(2) [OF 1, of 32] hash_dual(2) [OF 2, of 0] 1 2 by (auto simp: xx_static_def)
qed

text \<open>Reading an encrypted static key and the payload after it.\<close>

lemma read_static:
  assumes "xx_static s k (nh_symmetric hs) = (m, sy')" "length s = 32" "ci_has_key (sy_cipher (nh_symmetric hs))"
  obtains hs1 where "read_s m hs = (48, hs1)"
    "hs1 = hs\<lparr>nh_symmetric := nh_symmetric hs1, nh_rs := (nh_rs hs)\<lparr>kp_public := s @ drop 32 (kp_public (nh_rs hs)), kp_has := True\<rparr>\<rparr>"
    "\<And>out. decrypt_and_hash (drop 48 m) out 256 (mix_key k (nh_symmetric hs1)) = (Some [], sy')"
proof -
  obtain c1 sy1 where 1: "encrypt_and_hash s [] (nh_symmetric hs) = (c1, sy1)" by fastforce
  obtain c2 sy2 where 2: "encrypt_and_hash [] [] (mix_key k sy1) = (c2, sy2)" by fastforce
  have m: "m = c1 @ c2" "sy' = sy2" using assms(1) 1 2 by (simp_all add: xx_static_def)
  note d1 = hash_dual [OF 1, of 32] and d2 = hash_dual(1) [OF 2, of 256]
  have len: "length c1 = 48" using d1(2) assms(2,3) by simp
  let ?hs = "hs\<lparr>nh_symmetric := sy1, nh_rs := (nh_rs hs)\<lparr>kp_public := s @ drop 32 (kp_public (nh_rs hs)), kp_has := True\<rparr>\<rparr>"
  show thesis
  proof (rule that [of ?hs])
    show "read_s m hs = (48, ?hs)"
      using d1(1) assms(2,3) len by (simp add: read_s_def noise_sizes m)
    show "decrypt_and_hash (drop 48 m) out 256 (mix_key k (nh_symmetric ?hs)) = (Some [], sy')" for out
      using d2 len by (simp add: m)
  qed simp
qed

lemma write_one:
  fixes dh :: "bytes \<Rightarrow> bytes \<Rightarrow> bytes" and hs :: noise_handshake
  assumes "hs_at True 0 hs" "\<not> kp_has (nh_e hs)" "\<not> ci_has_key (sy_cipher (nh_symmetric hs))"
  defines "e \<equiv> noise_generate_keypair dh (nh_random hs)"
  assumes "length (kp_public e) = 32" "xx_one (kp_public e) (nh_symmetric hs) = (m, sy')"
  shows "write_message dh [] 65535 hs = (Inr m, hs\<lparr>nh_e := e, nh_symmetric := sy', nh_index := 1\<rparr>)"
  using assms
  by (auto simp: write_message_def write_tokens_def hs_at_def write_e_def generate_ephemeral_def Let_def
      noise_sizes encrypt_unkeyed xx_one_def)

lemma read_one:
  assumes "hs_at False 0 hs" "\<not> ci_has_key (sy_cipher (nh_symmetric hs))"
    and "length e = 32" "xx_one e (nh_symmetric hs) = (m, sy')"
  shows "read_message dh m [] 256 hs =
    (Inr [], hs\<lparr>nh_re := (nh_re hs)\<lparr>kp_public := e, kp_has := True\<rparr>, nh_symmetric := sy', nh_index := 1\<rparr>)"
  using assms
  by (auto simp: read_message_def read_tokens_def hs_at_def read_e_def noise_sizes decrypt_unkeyed xx_one_def)

lemma write_two:
  fixes dh :: "bytes \<Rightarrow> bytes \<Rightarrow> bytes" and hs :: noise_handshake
  assumes "hs_at False 1 hs" "\<not> kp_has (nh_e hs)" "length (kp_public (nh_s hs)) = 32"
  defines "e \<equiv> noise_generate_keypair dh (nh_random hs)" and "re \<equiv> kp_public (nh_re hs)"
  assumes "length (kp_public e) = 32"
    and "xx_two (kp_public e) (dh (kp_private e) re) (kp_public (nh_s hs)) (dh (kp_private (nh_s hs)) re) (nh_symmetric hs) = (m, sy')"
  shows "write_message dh [] 65535 hs = (Inr m, hs\<lparr>nh_e := e, nh_symmetric := sy', nh_index := 2\<rparr>)"
proof -
  let ?sy = "mix_key (dh (kp_private e) re) (mix_hash (kp_public e) (nh_symmetric hs))"
  obtain c1 sy1 where 1: "encrypt_and_hash (kp_public (nh_s hs)) [] ?sy = (c1, sy1)" by fastforce
  let ?k = "mix_key (dh (kp_private (nh_s hs)) re) sy1"
  obtain c2 sy2 where 2: "encrypt_and_hash [] [] ?k = (c2, sy2)" by fastforce
  have "length c1 = 48" using hash_dual(2) [OF 1, of 32] assms(3) by simp
  with assms 1 2 show ?thesis
    by (auto simp: write_message_def write_tokens_def hs_at_def write_e_def generate_ephemeral_def Let_def
        noise_sizes xx_two_def xx_static_def write_s_def mix_dh_def)
qed

lemma read_two:
  assumes "hs_at True 1 hs" "length e = 32" "length s = 32" "length (kp_public (nh_rs hs)) = 32"
    and "xx_two e (dh (kp_private (nh_e hs)) e) s (dh (kp_private (nh_e hs)) s) (nh_symmetric hs) = (m, sy')"
  shows "read_message dh m [] 256 hs =
    (Inr [], hs\<lparr>nh_re := (nh_re hs)\<lparr>kp_public := e, kp_has := True\<rparr>,
       nh_rs := (nh_rs hs)\<lparr>kp_public := s, kp_has := True\<rparr>, nh_symmetric := sy', nh_index := 2\<rparr>)"
proof -
  let ?p = "kp_private (nh_e hs)"
  let ?hs = "hs\<lparr>nh_re := (nh_re hs)\<lparr>kp_public := e, kp_has := True\<rparr>,
    nh_symmetric := mix_key (dh ?p e) (mix_hash e (nh_symmetric hs))\<rparr>"
  obtain c where c: "xx_static s (dh ?p s) (nh_symmetric ?hs) = (c, sy')" "m = e @ c"
    using assms(5) by (auto simp: xx_two_def split: prod.splits)
  obtain hs1 where r: "read_s c ?hs = (48, hs1)"
    "hs1 = ?hs\<lparr>nh_symmetric := nh_symmetric hs1, nh_rs := (nh_rs ?hs)\<lparr>kp_public := s @ drop 32 (kp_public (nh_rs ?hs)), kp_has := True\<rparr>\<rparr>"
    "\<And>out. decrypt_and_hash (drop 48 c) out 256 (mix_key (dh ?p s) (nh_symmetric hs1)) = (Some [], sy')"
    using read_static [OF c(1) assms(3)] by auto
  then obtain sy1 where hs1: "hs1 = ?hs\<lparr>nh_symmetric := sy1, nh_rs := (nh_rs hs)\<lparr>kp_public := s, kp_has := True\<rparr>\<rparr>"
    "decrypt_and_hash (drop 48 c) [] 256 (mix_key (dh ?p s) sy1) = (Some [], sy')"
    using assms(4) by fastforce
  show ?thesis
    using assms(1,2) r(1) hs1 c(2)
    by (simp add: read_message_def read_tokens_def hs_at_def read_e_def noise_sizes mix_dh_def)
qed

lemma write_three:
  assumes "hs_at True 2 hs" "length (kp_public (nh_s hs)) = 32" "ci_has_key (sy_cipher (nh_symmetric hs))"
    and "xx_static (kp_public (nh_s hs)) (dh (kp_private (nh_s hs)) (kp_public (nh_re hs))) (nh_symmetric hs) = (m, sy')"
  shows "write_message dh [] 65535 hs = (Inr m, hs\<lparr>nh_complete := True, nh_symmetric := sy', nh_index := 3\<rparr>)"
proof -
  obtain c1 sy1 where 1: "encrypt_and_hash (kp_public (nh_s hs)) [] (nh_symmetric hs) = (c1, sy1)" by fastforce
  let ?k = "mix_key (dh (kp_private (nh_s hs)) (kp_public (nh_re hs))) sy1"
  obtain c2 sy2 where 2: "encrypt_and_hash [] [] ?k = (c2, sy2)" by fastforce
  have "length c1 = 48" using hash_dual(2) [OF 1, of 32] assms(2,3) by simp
  with assms 1 2 show ?thesis
    by (auto simp: write_message_def write_tokens_def hs_at_def Let_def noise_sizes xx_static_def write_s_def mix_dh_def)
qed

lemma read_three:
  assumes "hs_at False 2 hs" "length s = 32" "length (kp_public (nh_rs hs)) = 32" "ci_has_key (sy_cipher (nh_symmetric hs))"
    and "xx_static s (dh (kp_private (nh_e hs)) s) (nh_symmetric hs) = (m, sy')"
  shows "read_message dh m [] 256 hs =
    (Inr [], hs\<lparr>nh_rs := (nh_rs hs)\<lparr>kp_public := s, kp_has := True\<rparr>, nh_complete := True,
       nh_symmetric := sy', nh_index := 3\<rparr>)"
proof -
  let ?p = "kp_private (nh_e hs)"
  obtain hs1 where r: "read_s m hs = (48, hs1)"
    "hs1 = hs\<lparr>nh_symmetric := nh_symmetric hs1, nh_rs := (nh_rs hs)\<lparr>kp_public := s @ drop 32 (kp_public (nh_rs hs)), kp_has := True\<rparr>\<rparr>"
    "\<And>out. decrypt_and_hash (drop 48 m) out 256 (mix_key (dh ?p s) (nh_symmetric hs1)) = (Some [], sy')"
    using read_static [OF assms(5,2,4)] by blast
  then obtain sy1 where "hs1 = hs\<lparr>nh_symmetric := sy1, nh_rs := (nh_rs hs)\<lparr>kp_public := s, kp_has := True\<rparr>\<rparr>"
    "decrypt_and_hash (drop 48 m) [] 256 (mix_key (dh ?p s) sy1) = (Some [], sy')"
    using assms(3) by fastforce
  then show ?thesis
    using assms(1) r(1) by (simp add: read_message_def read_tokens_def hs_at_def mix_dh_def)
qed

end
