(* ===== verification/Noise_Security.thy ===== *)
theory Noise_Security
  imports Security Noise_Agreement
begin

text \<open>
  The Noise secure channel (\<open>src/librats/security/noise_security.h\<close>, \<open>noise_security.cpp\<close>)
  behind the interface of \<open>Security\<close>, and a node's identity (\<open>identity.h\<close>). The transport's
  \<open>Bytes\<close> results are fresh vectors, so the buffers a session writes to start as zeros.
\<close>

subsection \<open>Identity\<close>

record identity =
  id_keypair :: noise_keypair
  id_id :: peer_id

definition generate_identity :: "(bytes \<Rightarrow> bytes \<Rightarrow> bytes) \<Rightarrow> bytes \<Rightarrow> identity" where
  "generate_identity dh rnd =
     (let kp = noise_generate_keypair dh rnd in \<lparr>id_keypair = kp, id_id = from_public_key (kp_public kp)\<rparr>)"

definition from_private_key :: "(bytes \<Rightarrow> bytes \<Rightarrow> bytes) \<Rightarrow> bytes \<Rightarrow> identity" where
  "from_private_key dh private =
     (let pub = noise_derive_public_key dh private
      in \<lparr>id_keypair = \<lparr>kp_private = private, kp_public = pub, kp_has = True\<rparr>, id_id = from_public_key pub\<rparr>)"

subsection \<open>Session and handshaker\<close>

record noise_adapter =
  na_session :: noise_session
  na_remote_id :: peer_id

definition noise_encrypt :: "noise_adapter \<Rightarrow> bytes \<Rightarrow> (bytes \<times> noise_adapter) option" where
  "noise_encrypt a plain =
     (let (c, ns) = session_encrypt plain (replicate (length plain + NOISE_TAG_SIZE) 0) (na_session a)
      in if length c = 0 \<and> length plain \<noteq> 0 then None else Some (c, a\<lparr>na_session := ns\<rparr>))"

definition noise_decrypt :: "noise_adapter \<Rightarrow> bytes \<Rightarrow> (bytes \<times> noise_adapter) option" where
  "noise_decrypt a cipher =
     (if length cipher < NOISE_TAG_SIZE then None
      else
        case session_decrypt cipher (replicate (length cipher) 0) (na_session a) of
          (None, ns) \<Rightarrow> None
        | (Some p, ns) \<Rightarrow> Some (p, a\<lparr>na_session := ns\<rparr>))"

record noise_handshaker =
  hk_session :: noise_session
  hk_initiator :: bool

definition noise_step ::
  "(bytes \<Rightarrow> bytes \<Rightarrow> bytes) \<Rightarrow> noise_handshaker \<Rightarrow> bytes \<Rightarrow> (bytes \<times> noise_handshaker) option" where
  "noise_step dh h received =
     (if length received > NOISE_MAX_MESSAGE_SIZE then None
      else
        case handshake_step dh received NOISE_MAX_MESSAGE_SIZE (hk_session h) of
          (err, send, ns) \<Rightarrow>
            if err \<noteq> OK then None
            else Some (case send of Some m \<Rightarrow> m | None \<Rightarrow> [], h\<lparr>hk_session := ns\<rparr>))"

definition noise_start ::
  "(bytes \<Rightarrow> bytes \<Rightarrow> bytes) \<Rightarrow> noise_handshaker \<Rightarrow> (bytes \<times> noise_handshaker) option" where
  "noise_start dh h = (if \<not> hk_initiator h then Some ([], h) else noise_step dh h [])"

definition noise_consume ::
  "(bytes \<Rightarrow> bytes \<Rightarrow> bytes) \<Rightarrow> noise_handshaker \<Rightarrow> bytes \<Rightarrow> (noise_handshaker, noise_adapter) outcome \<times> bytes" where
  "noise_consume dh h incoming =
     (case noise_step dh h incoming of
        None \<Rightarrow> (Failed, [])
      | Some (out, h1) \<Rightarrow>
          if ns_ready (hk_session h1)
          then let remote = from_public_key (kp_public (nh_rs (ns_handshake (hk_session h1))))
               in (Done \<lparr>na_session = hk_session h1, na_remote_id = remote\<rparr> remote, out)
          else (NeedMore h1, out))"

text \<open>
  \<open>rnd\<close> gives the bytes of the random device for the handshaker's ephemeral key, and for a
  static key should the identity have none.
\<close>

definition noise_create ::
  "(bytes \<Rightarrow> bytes \<Rightarrow> bytes) \<Rightarrow> identity \<Rightarrow> bytes \<Rightarrow> (conn_role \<Rightarrow> bytes \<times> bytes) \<Rightarrow> conn_role \<Rightarrow> noise_handshaker" where
  "noise_create dh ident prologue rnd role =
     \<lparr>hk_session = session_start dh (role = Outbound) (Some (id_keypair ident)) (snd (rnd role)) prologue
        (session_new (fst (rnd role))),
      hk_initiator = (role = Outbound)\<rparr>"

definition noise_security ::
  "(bytes \<Rightarrow> bytes \<Rightarrow> bytes) \<Rightarrow> identity \<Rightarrow> bytes \<Rightarrow> (conn_role \<Rightarrow> bytes \<times> bytes) \<Rightarrow> (noise_handshaker, noise_adapter) security_ops" where
  "noise_security dh ident protocol rnd =
     \<lparr>sec_create = noise_create dh ident (protocol_id protocol) rnd, hs_start = noise_start dh,
      hs_consume = noise_consume dh, ses_encrypt = noise_encrypt, ses_decrypt = noise_decrypt,
      ses_remote_id = na_remote_id, ses_is_secure = (\<lambda>s. True), sec_local_id = id_id ident\<rparr>"

subsection \<open>The channel contract\<close>

definition noise_linked :: "noise_adapter \<Rightarrow> noise_adapter \<Rightarrow> bool" where
  "noise_linked a b \<longleftrightarrow>
     ns_ready (na_session a) \<and> ns_ready (na_session b) \<and> ci_has_key (ns_send (na_session a)) \<and>
     ns_send (na_session a) = ns_recv (na_session b)"

lemma length_into_zeros: "length (chacha_into key nonce m (replicate (length m + k) 0)) = length m"
  by (simp add: chacha_into_def Let_def min_def)

lemma noise_encrypt_cases:
  assumes "noise_encrypt a p = Some (c, a')"
  obtains "\<not> ns_ready (na_session a)" "c = []" "a' = a"
  | ci where "ns_ready (na_session a)" "encrypt_with_ad [] p (replicate (length p + 16) 0) (ns_send (na_session a)) = (c, ci)"
    "a' = a\<lparr>na_session := (na_session a)\<lparr>ns_send := ci\<rparr>\<rparr>"
  using assms
  by (auto simp: noise_encrypt_def session_encrypt_def noise_sizes split: prod.splits if_splits)

lemma noise_enc_length:
  assumes "noise_encrypt a p = Some (c, a')"
  shows "length c \<le> length p + 16"
  using assms
proof (cases rule: noise_encrypt_cases)
  case (2 ci)
  then show ?thesis
    by (auto simp: encrypt_with_ad_def Let_def encrypt_eq length_into_zeros split: if_splits)
qed simp

lemma noise_dec_enc:
  assumes "noise_linked a b" "noise_encrypt a p = Some (c, a')" "length c < 2 ^ 32"
  shows "\<exists>b'. noise_decrypt b c = Some (p, b') \<and> noise_linked a' b'"
  using assms(2)
proof (cases rule: noise_encrypt_cases)
  case (2 ci)
  let ?k = "ns_send (na_session a)"
  have k: "ci_has_key ?k" and r: "ns_recv (na_session b) = ?k" "ns_ready (na_session b)"
    using assms(1) by (auto simp: noise_linked_def)
  have "length c = length p + 16" using 2(2) k by (auto simp: encrypt_with_ad_def Let_def encrypt_eq length_into_zeros)
  moreover from this have "decrypt_with_ad [] c (replicate (length c) 0) ?k = (Some p, ci)"
    using cipher_dual(1) [OF 2(2)] assms(3) by simp
  moreover have "ci_has_key ci" using 2(2) k by (auto simp: encrypt_with_ad_def Let_def)
  ultimately show ?thesis
    using r 2 by (simp add: noise_decrypt_def session_decrypt_def noise_sizes noise_linked_def)
qed (use assms(1) in \<open>simp add: noise_linked_def\<close>)

lemma noise_receiver_sends:
  assumes "noise_linked a b" "noise_encrypt b p = Some (c, b')"
  shows "noise_linked a b'"
  using assms(2,1) by (cases rule: noise_encrypt_cases) (auto simp: noise_linked_def)

text \<open>The limit is the largest length that the 32-bit length argument of the cipher can carry.\<close>

interpretation noise: secure_channel noise_encrypt noise_decrypt noise_linked 16 "2 ^ 32 - 1"
  by unfold_locales (use noise_dec_enc noise_receiver_sends noise_enc_length in fastforce)+

subsection \<open>The handshake\<close>

text \<open>
  What the handshake relies on of X25519: on 32-byte keys the result has 32 bytes, and the two
  orders of combining two private keys with the base point agree.
\<close>

definition dh_laws :: "(bytes \<Rightarrow> bytes \<Rightarrow> bytes) \<Rightarrow> bool" where
  "dh_laws dh \<longleftrightarrow>
     (\<forall>a b. length a = 32 \<longrightarrow> length b = 32 \<longrightarrow>
        length (dh a b) = 32 \<and> dh a (dh b basepoint) = dh b (dh a basepoint))"

definition valid_keypair :: "(bytes \<Rightarrow> bytes \<Rightarrow> bytes) \<Rightarrow> noise_keypair \<Rightarrow> bool" where
  "valid_keypair dh kp \<longleftrightarrow> kp_has kp \<and> length (kp_private kp) = 32 \<and> kp_public kp = dh (kp_private kp) basepoint"

lemma length_clamp [simp]: "length (clamp k) = length k"
  by (simp add: clamp_def Let_def)

lemma generated_valid: "length rnd = 32 \<Longrightarrow> valid_keypair dh (noise_generate_keypair dh rnd)"
  by (simp add: valid_keypair_def noise_generate_keypair_def)

lemma valid_public: "dh_laws dh \<Longrightarrow> valid_keypair dh kp \<Longrightarrow> length (kp_public kp) = 32"
  by (simp add: dh_laws_def valid_keypair_def basepoint_def)

lemma valid_commute:
  "dh_laws dh \<Longrightarrow> valid_keypair dh a \<Longrightarrow> valid_keypair dh b \<Longrightarrow>
     dh (kp_private a) (kp_public b) = dh (kp_private b) (kp_public a)"
  by (simp add: dh_laws_def valid_keypair_def)

lemma step_write:
  assumes "\<not> ns_ready ns" "\<not> nh_complete (ns_handshake ns)" "write_message dh [] 65535 (ns_handshake ns) = (Inr m, hs)"
    and "\<not> nh_complete hs"
  shows "handshake_step dh [] 65535 ns = (OK, Some m, ns\<lparr>ns_handshake := hs\<rparr>)"
  using assms by (simp add: handshake_step_def)

lemma step_reply:
  assumes "\<not> ns_ready ns" "m \<noteq> []" "read_message dh m [] 256 (ns_handshake ns) = (Inr p, hs1)" "\<not> nh_complete hs1"
    and "write_message dh [] 65535 hs1 = (Inr m2, hs2)"
  shows "handshake_step dh m 65535 ns =
    (if nh_complete hs2
     then (case split_symmetric (nh_symmetric hs2) of (c1, c2) \<Rightarrow>
       (OK, Some m2, ns\<lparr>ns_handshake := hs2, ns_send := if nh_initiator hs2 then c1 else c2,
          ns_recv := if nh_initiator hs2 then c2 else c1, ns_ready := True\<rparr>))
     else (OK, Some m2, ns\<lparr>ns_handshake := hs2\<rparr>))"
  using assms by (simp add: handshake_step_def split_handshake_def split: prod.splits)

lemma step_finish:
  assumes "\<not> ns_ready ns" "m \<noteq> []" "read_message dh m [] 256 (ns_handshake ns) = (Inr p, hs)" "nh_complete hs" "\<not> nh_initiator hs"
  shows "handshake_step dh m 65535 ns =
    (case split_symmetric (nh_symmetric hs) of (c1, c2) \<Rightarrow>
       (OK, None, ns\<lparr>ns_handshake := hs, ns_send := c2, ns_recv := c1, ns_ready := True\<rparr>))"
  using assms by (simp add: handshake_step_def split_handshake_def split: prod.splits)

lemma static_keyed: "xx_static s k sy = (m, sy') \<Longrightarrow> ci_has_key (sy_cipher sy')"
  by (auto simp: xx_static_def split: prod.splits) (metis encrypt_keyed keyed(1) snd_conv)

lemma two_shape:
  assumes "xx_two e ee s es sy = (m, sy')" "length e = 32" "length s = 32"
  shows "length m = 96" "ci_has_key (sy_cipher sy')"
proof -
  obtain c where c: "xx_static s es (mix_key ee (mix_hash e sy)) = (c, sy')" "m = e @ c"
    using assms(1) by (auto simp: xx_two_def split: prod.splits)
  from static_length [OF assms(3) _ c(1)] c(2) assms(2) show "length m = 96" by simp
  from static_keyed [OF c(1)] show "ci_has_key (sy_cipher sy')" .
qed

lemma initial_handshake:
  fixes dh ini r prologue rnd
  assumes "kp_has kp"
  defines "hs \<equiv> ns_handshake (session_start dh ini (Some kp) r prologue (session_new rnd))"
  shows "hs_at ini 0 hs" "\<not> kp_has (nh_e hs)" "nh_s hs = kp" "nh_random hs = rnd" "length (kp_public (nh_rs hs)) = 32"
    "nh_symmetric hs = mix_hash prologue (initialize_symmetric NOISE_PROTOCOL_NAME symmetric_new)"
    "\<not> ci_has_key (sy_cipher (nh_symmetric hs))"
  using assms(1)
  by (simp_all add: hs_def session_start_def session_new_def initialize_def handshake_new_def keypair_new_def
      hs_at_def Let_def initialize_symmetric_def symmetric_new_def cipher_new_def)

text \<open>The six handshake steps of a run, with the transcripts of both sides equal throughout.\<close>

lemma xx_handshakes:
  fixes dh kpa kpb ra rb ra' rb' prologue
  assumes "dh_laws dh" "valid_keypair dh kpa" "valid_keypair dh kpb" "length ra = 32" "length rb = 32"
  defines "ha \<equiv> ns_handshake (session_start dh True (Some kpa) ra' prologue (session_new ra))"
    and "hb \<equiv> ns_handshake (session_start dh False (Some kpb) rb' prologue (session_new rb))"
  obtains m1 m2 m3 ha1 ha2 ha3 hb1 hb2 hb3 where
    "write_message dh [] 65535 ha = (Inr m1, ha1)" "read_message dh m1 [] 256 hb = (Inr [], hb1)"
    "write_message dh [] 65535 hb1 = (Inr m2, hb2)" "read_message dh m2 [] 256 ha1 = (Inr [], ha2)"
    "write_message dh [] 65535 ha2 = (Inr m3, ha3)" "read_message dh m3 [] 256 hb2 = (Inr [], hb3)"
    "length m1 = 32" "length m2 = 96" "length m3 = 64"
    "\<not> nh_complete ha" "\<not> nh_complete ha1" "\<not> nh_complete hb1" "\<not> nh_complete hb2" "\<not> nh_complete ha2"
    "nh_complete ha3" "nh_complete hb3" "nh_initiator ha3" "\<not> nh_initiator hb3" "nh_symmetric ha3 = nh_symmetric hb3"
    "kp_public (nh_rs ha3) = kp_public kpb" "kp_public (nh_rs hb3) = kp_public kpa"
proof -
  define ea where "ea = noise_generate_keypair dh ra"
  define eb where "eb = noise_generate_keypair dh rb"
  note valid = assms(2,3) generated_valid [OF assms(4), of dh, folded ea_def] generated_valid [OF assms(5), of dh, folded eb_def]
  note len = valid_public [OF assms(1) valid(1)] valid_public [OF assms(1) valid(2)]
    valid_public [OF assms(1) valid(3)] valid_public [OF assms(1) valid(4)]
  note comm = valid_commute [OF assms(1)]
  have has: "kp_has kpa" "kp_has kpb" using assms(2,3) by (simp_all add: valid_keypair_def)
  note ia = initial_handshake [OF has(1), where dh = dh and ini = True and r = ra' and prologue = prologue and rnd = ra, folded ha_def]
  note ib = initial_handshake [OF has(2), where dh = dh and ini = False and r = rb' and prologue = prologue and rnd = rb, folded hb_def]
  obtain m1 sy1 where 1: "xx_one (kp_public ea) (nh_symmetric ha) = (m1, sy1)" by fastforce
  obtain m2 sy2 where 2: "xx_two (kp_public eb) (dh (kp_private eb) (kp_public ea)) (kp_public kpb)
      (dh (kp_private kpb) (kp_public ea)) sy1 = (m2, sy2)" by fastforce
  obtain m3 sy3 where 3: "xx_static (kp_public kpa) (dh (kp_private kpa) (kp_public eb)) sy2 = (m3, sy3)" by fastforce
  have lens: "length m1 = 32" "length m2 = 96" "length m3 = 64" and keyed2: "ci_has_key (sy_cipher sy2)"
    using 1 len two_shape [OF 2] static_length [OF _ _ 3] by (auto simp: xx_one_def)
  define ha1 where "ha1 = ha\<lparr>nh_e := ea, nh_symmetric := sy1, nh_index := 1\<rparr>"
  define hb1 where "hb1 = hb\<lparr>nh_re := (nh_re hb)\<lparr>kp_public := kp_public ea, kp_has := True\<rparr>, nh_symmetric := sy1, nh_index := 1\<rparr>"
  define hb2 where "hb2 = hb1\<lparr>nh_e := eb, nh_symmetric := sy2, nh_index := 2\<rparr>"
  define ha2 where "ha2 = ha1\<lparr>nh_re := (nh_re ha1)\<lparr>kp_public := kp_public eb, kp_has := True\<rparr>,
    nh_rs := (nh_rs ha1)\<lparr>kp_public := kp_public kpb, kp_has := True\<rparr>, nh_symmetric := sy2, nh_index := 2\<rparr>"
  define ha3 where "ha3 = ha2\<lparr>nh_complete := True, nh_symmetric := sy3, nh_index := 3\<rparr>"
  define hb3 where "hb3 = hb2\<lparr>nh_rs := (nh_rs hb2)\<lparr>kp_public := kp_public kpa, kp_has := True\<rparr>, nh_complete := True,
    nh_symmetric := sy3, nh_index := 3\<rparr>"
  note defs = ha1_def ha2_def ha3_def hb1_def hb2_def hb3_def
  show thesis
  proof (rule that)
    show "write_message dh [] 65535 ha = (Inr m1, ha1)"
      using write_one [of ha dh m1 sy1] ia 1 len by (simp add: ha1_def ea_def)
    show "read_message dh m1 [] 256 hb = (Inr [], hb1)"
      unfolding hb1_def using ia ib 1 len by (intro read_one) simp_all
    show "write_message dh [] 65535 hb1 = (Inr m2, hb2)"
      using write_two [of hb1 dh m2 sy2] ib 2 len by (simp add: hb1_def hb2_def hs_at_def eb_def)
    show "read_message dh m2 [] 256 ha1 = (Inr [], ha2)"
      unfolding ha2_def using ia 2 len comm [OF valid(3,4)] comm [OF valid(3,2)]
      by (intro read_two) (simp_all add: ha1_def hs_at_def)
    show "write_message dh [] 65535 ha2 = (Inr m3, ha3)"
      unfolding ha3_def using ia 3 len keyed2 by (intro write_three) (simp_all add: ha2_def ha1_def hs_at_def)
    show "read_message dh m3 [] 256 hb2 = (Inr [], hb3)"
      unfolding hb3_def using ib 3 len keyed2 comm [OF valid(4,1)]
      by (intro read_three) (simp_all add: hb2_def hb1_def hs_at_def)
  qed (use lens ia(1) ib(1) in \<open>simp_all add: defs hs_at_def\<close>)
qed

lemma xx_sessions:
  fixes dh kpa kpb ra rb ra' rb' prologue
  assumes "dh_laws dh" "valid_keypair dh kpa" "valid_keypair dh kpb" "length ra = 32" "length rb = 32"
  defines "a0 \<equiv> session_start dh True (Some kpa) ra' prologue (session_new ra)"
    and "b0 \<equiv> session_start dh False (Some kpb) rb' prologue (session_new rb)"
  obtains m1 m2 m3 a1 a2 b1 b2 where
    "handshake_step dh [] 65535 a0 = (OK, Some m1, a1)" "handshake_step dh m1 65535 b0 = (OK, Some m2, b1)"
    "handshake_step dh m2 65535 a1 = (OK, Some m3, a2)" "handshake_step dh m3 65535 b1 = (OK, None, b2)"
    "length m1 = 32" "length m2 = 96" "length m3 = 64" "\<not> ns_ready a1" "\<not> ns_ready b1" "ns_ready a2" "ns_ready b2"
    "kp_public (nh_rs (ns_handshake a2)) = kp_public kpb" "kp_public (nh_rs (ns_handshake b2)) = kp_public kpa"
    "ns_send a2 = ns_recv b2" "ns_send b2 = ns_recv a2" "ci_has_key (ns_send a2)" "ci_has_key (ns_send b2)"
proof (rule xx_handshakes [OF assms(1-5), of ra' prologue rb', folded a0_def b0_def])
  fix m1 m2 m3 ha1 ha2 ha3 hb1 hb2 hb3
  assume w1: "write_message dh [] 65535 (ns_handshake a0) = (Inr m1, ha1)"
    and r1: "read_message dh m1 [] 256 (ns_handshake b0) = (Inr [], hb1)"
    and w2: "write_message dh [] 65535 hb1 = (Inr m2, hb2)" and r2: "read_message dh m2 [] 256 ha1 = (Inr [], ha2)"
    and w3: "write_message dh [] 65535 ha2 = (Inr m3, ha3)" and r3: "read_message dh m3 [] 256 hb2 = (Inr [], hb3)"
    and lens: "length m1 = 32" "length m2 = 96" "length m3 = 64"
    and flags: "\<not> nh_complete (ns_handshake a0)" "\<not> nh_complete ha1" "\<not> nh_complete hb1" "\<not> nh_complete hb2" "\<not> nh_complete ha2"
      "nh_complete ha3" "nh_complete hb3" "nh_initiator ha3" "\<not> nh_initiator hb3" "nh_symmetric ha3 = nh_symmetric hb3"
    and ids: "kp_public (nh_rs ha3) = kp_public kpb" "kp_public (nh_rs hb3) = kp_public kpa"
  obtain c1 c2 where c: "split_symmetric (nh_symmetric hb3) = (c1, c2)" by fastforce
  then have ck: "ci_has_key c1" "ci_has_key c2" by (auto simp: split_symmetric_def initialize_key_def split: prod.splits)
  have n: "\<not> ns_ready a0" "\<not> ns_ready b0" by (simp_all add: a0_def b0_def session_start_def)
  have ne: "m1 \<noteq> []" "m2 \<noteq> []" "m3 \<noteq> []" using lens by auto
  let ?a1 = "a0\<lparr>ns_handshake := ha1\<rparr>" and ?b1 = "b0\<lparr>ns_handshake := hb2\<rparr>"
  show thesis
  proof (rule that)
    show "handshake_step dh [] 65535 a0 = (OK, Some m1, ?a1)" using step_write n w1 flags by simp
    show "handshake_step dh m1 65535 b0 = (OK, Some m2, ?b1)" using step_reply [OF n(2) ne(1) r1] w2 flags by simp
    show "handshake_step dh m2 65535 ?a1 = (OK, Some m3, ?a1\<lparr>ns_handshake := ha3, ns_send := c1, ns_recv := c2, ns_ready := True\<rparr>)"
      using step_reply [of ?a1, OF _ ne(2)] n r2 w3 flags c by simp
    show "handshake_step dh m3 65535 ?b1 = (OK, None, ?b1\<lparr>ns_handshake := hb3, ns_send := c2, ns_recv := c1, ns_ready := True\<rparr>)"
      using step_finish [of ?b1, OF _ ne(3)] n r3 flags c by simp
  qed (use lens n ck ids in simp_all)
qed

lemma noise_run:
  fixes dh ida idb proto ra rb
  assumes "dh_laws dh" "valid_keypair dh (id_keypair ida)" "valid_keypair dh (id_keypair idb)"
    and "length (fst (ra Outbound)) = 32" "length (fst (rb Inbound)) = 32"
  defines "A \<equiv> noise_security dh ida proto ra" and "B \<equiv> noise_security dh idb proto rb"
  obtains m1 m2 m3 ha hb sa sb where "hs_start A (sec_create A Outbound) = Some (m1, ha)"
    "hs_start B (sec_create B Inbound) = Some ([], sec_create B Inbound)"
    "hs_consume B (sec_create B Inbound) m1 = (NeedMore hb, m2)"
    "hs_consume A ha m2 = (Done sa (from_public_key (kp_public (id_keypair idb))), m3)"
    "hs_consume B hb m3 = (Done sb (from_public_key (kp_public (id_keypair ida))), [])"
    "noise_linked sa sb" "noise_linked sb sa" "length m1 = 32" "length m2 = 96" "length m3 = 64"
proof (rule xx_sessions [OF assms(1-5), of "snd (ra Outbound)" "protocol_id proto" "snd (rb Inbound)"])
  let ?a0 = "session_start dh True (Some (id_keypair ida)) (snd (ra Outbound)) (protocol_id proto) (session_new (fst (ra Outbound)))"
  let ?b0 = "session_start dh False (Some (id_keypair idb)) (snd (rb Inbound)) (protocol_id proto) (session_new (fst (rb Inbound)))"
  fix m1 m2 m3 a1 a2 b1 b2
  assume steps: "handshake_step dh [] 65535 ?a0 = (OK, Some m1, a1)" "handshake_step dh m1 65535 ?b0 = (OK, Some m2, b1)"
    "handshake_step dh m2 65535 a1 = (OK, Some m3, a2)" "handshake_step dh m3 65535 b1 = (OK, None, b2)"
    and lens: "length m1 = 32" "length m2 = 96" "length m3 = 64"
    and ready: "\<not> ns_ready a1" "\<not> ns_ready b1" "ns_ready a2" "ns_ready b2"
    and ids: "kp_public (nh_rs (ns_handshake a2)) = kp_public (id_keypair idb)" "kp_public (nh_rs (ns_handshake b2)) = kp_public (id_keypair ida)"
    and keys: "ns_send a2 = ns_recv b2" "ns_send b2 = ns_recv a2" "ci_has_key (ns_send a2)" "ci_has_key (ns_send b2)"
  let ?pa = "from_public_key (kp_public (id_keypair ida))" and ?pb = "from_public_key (kp_public (id_keypair idb))"
  define sa sb where "sa = \<lparr>na_session = a2, na_remote_id = ?pb\<rparr>" and "sb = \<lparr>na_session = b2, na_remote_id = ?pa\<rparr>"
  have "noise_linked sa sb" "noise_linked sb sa" using ready keys by (simp_all add: noise_linked_def sa_def sb_def)
  moreover have "hs_start A (sec_create A Outbound) = Some (m1, \<lparr>hk_session = a1, hk_initiator = True\<rparr>)"
    "hs_start B (sec_create B Inbound) = Some ([], sec_create B Inbound)"
    "hs_consume B (sec_create B Inbound) m1 = (NeedMore \<lparr>hk_session = b1, hk_initiator = False\<rparr>, m2)"
    "hs_consume A \<lparr>hk_session = a1, hk_initiator = True\<rparr> m2 = (Done sa ?pb, m3)"
    "hs_consume B \<lparr>hk_session = b1, hk_initiator = False\<rparr> m3 = (Done sb ?pa, [])"
    using steps lens ready ids
    by (simp_all add: A_def B_def noise_security_def noise_create_def noise_start_def noise_consume_def noise_step_def
        noise_sizes sa_def sb_def Let_def)
  ultimately show thesis using that lens by blast
qed

subsection \<open>Properties\<close>

text \<open>
  C33: two nodes that run the Noise handshake with the same protocol string complete it in three
  messages. Each side ends with the peer identity of the other's static key, and the two
  sessions are linked in both directions: what either encrypts, the other decrypts.
\<close>

theorem noise_handshake:
  fixes dh ida idb proto ra rb
  assumes "dh_laws dh" "valid_keypair dh (id_keypair ida)" "valid_keypair dh (id_keypair idb)"
    and "length (fst (ra Outbound)) = 32" "length (fst (rb Inbound)) = 32"
  defines "A \<equiv> noise_security dh ida proto ra" and "B \<equiv> noise_security dh idb proto rb"
  shows "\<exists>m1 m2 m3 ha hb sa sb. hs_start A (sec_create A Outbound) = Some (m1, ha) \<and>
    hs_start B (sec_create B Inbound) = Some ([], sec_create B Inbound) \<and>
    hs_consume B (sec_create B Inbound) m1 = (NeedMore hb, m2) \<and>
    hs_consume A ha m2 = (Done sa (from_public_key (kp_public (id_keypair idb))), m3) \<and>
    hs_consume B hb m3 = (Done sb (from_public_key (kp_public (id_keypair ida))), []) \<and>
    noise_linked sa sb \<and> noise_linked sb sa"
  unfolding A_def B_def
  by (rule noise_run [where ra = ra and rb = rb and proto = proto, OF assms(1-5)]) blast

text \<open>An instance of the laws: combining keys by exclusive or.\<close>

definition demo_dh :: "bytes \<Rightarrow> bytes \<Rightarrow> bytes" where
  "demo_dh a b = map2 (XOR) a b"

lemma demo_dh_laws: "dh_laws demo_dh"
  by (auto simp: dh_laws_def demo_dh_def basepoint_def intro!: nth_equalityI) (simp add: xor.left_commute)

definition demo_identity :: "byte \<Rightarrow> identity" where
  "demo_identity k = generate_identity demo_dh (replicate 32 k)"

lemma demo_identity_valid: "valid_keypair demo_dh (id_keypair (demo_identity k))"
  by (simp add: demo_identity_def generate_identity_def Let_def generated_valid)

theorem noise_handshake_witness:
  "\<exists>m1 ha. hs_start (noise_security demo_dh (demo_identity 1) (str ''p'') (\<lambda>r. (replicate 32 3, [])))
     (sec_create (noise_security demo_dh (demo_identity 1) (str ''p'') (\<lambda>r. (replicate 32 3, []))) Outbound) = Some (m1, ha)"
  using noise_handshake [OF demo_dh_laws demo_identity_valid [of 1] demo_identity_valid [of 2],
      of "\<lambda>r. (replicate 32 3, [])" "\<lambda>r. (replicate 32 4, [])" "str ''p''"]
  by auto

lemma mixed_ck:
  "sy_ck (mix_hash d sy) = sy_ck sy" "sy_ck (mix_key k sy) = fst (noise_hkdf_2 (sy_ck sy) k)"
  "sy_ck (snd (encrypt_and_hash p out sy)) = sy_ck sy"
  by (simp_all add: mix_hash_def mix_key_def encrypt_and_hash_def split: prod.splits)

text \<open>The initiator's turns when nothing has been read.\<close>

lemma write_nothing:
  assumes "hs_at True 1 hs" "\<not> ci_has_key (sy_cipher (nh_symmetric hs))"
  shows "write_message dh [] 65535 hs = (Inr [], hs\<lparr>nh_symmetric := mix_hash [] (nh_symmetric hs), nh_index := 2\<rparr>)"
  using assms by (simp add: write_message_def write_tokens_def hs_at_def encrypt_unkeyed)

lemma write_static_clear:
  assumes "hs_at True 2 hs" "\<not> ci_has_key (sy_cipher (nh_symmetric hs))" "length (kp_public (nh_s hs)) = 32"
  obtains t sy where "write_message dh [] 65535 hs =
      (Inr (kp_public (nh_s hs) @ t), hs\<lparr>nh_symmetric := sy, nh_complete := True, nh_index := 3\<rparr>)"
    "sy_ck sy = fst (noise_hkdf_2 (sy_ck (nh_symmetric hs)) (dh (kp_private (nh_s hs)) (kp_public (nh_re hs))))"
proof -
  let ?k = "mix_key (dh (kp_private (nh_s hs)) (kp_public (nh_re hs))) (mix_hash (kp_public (nh_s hs)) (nh_symmetric hs))"
  obtain t sy where t: "encrypt_and_hash [] [] ?k = (t, sy)" by fastforce
  then have "sy_ck sy = sy_ck ?k" using mixed_ck(3) [of "[]" "[]" ?k] by simp
  moreover have "write_message dh [] 65535 hs =
      (Inr (kp_public (nh_s hs) @ t), hs\<lparr>nh_symmetric := sy, nh_complete := True, nh_index := 3\<rparr>)"
    using assms t by (simp add: write_message_def write_tokens_def hs_at_def write_s_def mix_dh_def encrypt_unkeyed noise_sizes)
  ultimately show thesis using that by (simp add: mixed_ck)
qed

text \<open>
  An initiator accepts a responder that never sends a key. After its first message, two
  empty handshake messages are not read but answered: the second answer carries its static key
  in the clear and completes the handshake, with the peer identity of the all-zero key and
  session keys derived from nothing but the public protocol name and \<open>dh\<close> of its static key and
  the all-zero point.
\<close>

lemma empty_messages_complete_handshake:
  fixes dh ida proto ra
  assumes "dh_laws dh" "valid_keypair dh (id_keypair ida)" "length (fst (ra Outbound)) = 32"
  defines "A \<equiv> noise_security dh ida proto ra" and "kp \<equiv> id_keypair ida" and "zeros \<equiv> replicate 32 0"
  shows "\<exists>m1 h0 h1 s t. hs_start A (sec_create A Outbound) = Some (m1, h0) \<and>
    hs_consume A h0 [] = (NeedMore h1, []) \<and>
    hs_consume A h1 [] = (Done s (from_public_key zeros), kp_public kp @ t) \<and>
    (let ck = fst (noise_hkdf_2 NOISE_PROTOCOL_NAME (dh (kp_private kp) zeros)); (k1, k2) = noise_hkdf_2 ck []
     in ci_key (ns_send (na_session s)) = k1 \<and> ci_key (ns_recv (na_session s)) = k2)"
proof -
  have has: "kp_has kp" using assms(2) by (simp add: valid_keypair_def kp_def)
  define ns where "ns = session_start dh True (Some kp) (snd (ra Outbound)) (protocol_id proto) (session_new (fst (ra Outbound)))"
  define e where "e = noise_generate_keypair dh (fst (ra Outbound))"
  let ?hs = "ns_handshake ns"
  note i = initial_handshake [OF has, where dh = dh and ini = True and r = "snd (ra Outbound)" and prologue = "protocol_id proto"
      and rnd = "fst (ra Outbound)", folded ns_def]
  have lens: "length (kp_public e) = 32" "length (kp_public kp) = 32"
    using valid_public [OF assms(1)] generated_valid [OF assms(3)] assms(2) by (simp_all add: e_def kp_def)
  obtain sy1 where 1: "xx_one (kp_public e) (nh_symmetric ?hs) = (kp_public e, sy1)" by (simp add: xx_one_def)
  have sy1: "\<not> ci_has_key (sy_cipher sy1)" "sy_ck sy1 = NOISE_PROTOCOL_NAME"
    using 1 i(7) by (auto simp: xx_one_def i(6) mix_hash_def initialize_symmetric_def NOISE_PROTOCOL_NAME_def str_def noise_sizes Let_def)
  define hs1 where "hs1 = ?hs\<lparr>nh_e := e, nh_symmetric := sy1, nh_index := 1\<rparr>"
  define hs2 where "hs2 = hs1\<lparr>nh_symmetric := mix_hash [] sy1, nh_index := 2\<rparr>"
  have w1: "write_message dh [] 65535 ?hs = (Inr (kp_public e), hs1)"
    using write_one [of ?hs dh "kp_public e" sy1] i 1 lens by (simp add: hs1_def e_def)
  have w2: "write_message dh [] 65535 hs1 = (Inr [], hs2)"
    using write_nothing [of hs1] i(1) sy1(1) by (simp add: hs1_def hs2_def hs_at_def)
  have keys: "nh_s hs2 = kp" "kp_public (nh_re hs2) = zeros" "kp_public (nh_rs hs2) = zeros" "sy_ck (nh_symmetric hs2) = NOISE_PROTOCOL_NAME"
    "hs_at True 2 hs2" "\<not> ci_has_key (sy_cipher (nh_symmetric hs2))"
    using i(1,3) sy1 by (simp_all add: hs2_def hs1_def ns_def session_start_def session_new_def initialize_def handshake_new_def
        keypair_new_def zeros_def mixed_ck hs_at_def Let_def)
  obtain t sy where w3: "write_message dh [] 65535 hs2 = (Inr (kp_public kp @ t), hs2\<lparr>nh_symmetric := sy, nh_complete := True, nh_index := 3\<rparr>)"
    and ck: "sy_ck sy = fst (noise_hkdf_2 NOISE_PROTOCOL_NAME (dh (kp_private kp) zeros))"
    using write_static_clear [of hs2 dh] keys lens(2) by metis
  let ?n1 = "ns\<lparr>ns_handshake := hs1\<rparr>" and ?n2 = "ns\<lparr>ns_handshake := hs2\<rparr>"
  obtain k1 k2 where k: "noise_hkdf_2 (sy_ck sy) [] = (k1, k2)" by fastforce
  let ?n3 = "ns\<lparr>ns_handshake := hs2\<lparr>nh_symmetric := sy, nh_complete := True, nh_index := 3\<rparr>,
    ns_send := initialize_key k1 cipher_new, ns_recv := initialize_key k2 cipher_new, ns_ready := True\<rparr>"
  have n: "\<not> ns_ready ns" "\<not> nh_complete ?hs" "\<not> nh_complete hs1" "\<not> nh_complete hs2" "nh_initiator hs2"
    using i(1) by (simp_all add: ns_def session_start_def hs1_def hs2_def hs_at_def)
  have "handshake_step dh [] 65535 ns = (OK, Some (kp_public e), ?n1)" "handshake_step dh [] 65535 ?n1 = (OK, Some [], ?n2)"
    "handshake_step dh [] 65535 ?n2 = (OK, Some (kp_public kp @ t), ?n3)"
    using n w1 w2 w3 k by (simp_all add: handshake_step_def split_handshake_def split_symmetric_def)
  then have "hs_start A (sec_create A Outbound) = Some (kp_public e, \<lparr>hk_session = ?n1, hk_initiator = True\<rparr>) \<and>
    hs_consume A \<lparr>hk_session = ?n1, hk_initiator = True\<rparr> [] = (NeedMore \<lparr>hk_session = ?n2, hk_initiator = True\<rparr>, []) \<and>
    hs_consume A \<lparr>hk_session = ?n2, hk_initiator = True\<rparr> [] =
      (Done \<lparr>na_session = ?n3, na_remote_id = from_public_key zeros\<rparr> (from_public_key zeros), kp_public kp @ t)"
    using n(1) keys(3)
    by (simp add: A_def noise_security_def noise_create_def noise_start_def noise_consume_def noise_step_def noise_sizes
        ns_def kp_def Let_def)
  then show ?thesis using k ck by (force simp: initialize_key_def)
qed

end
