(* ===== verification/Noise_Stream.thy ===== *)
theory Noise_Stream
  imports Connection_Stream Noise_Security
begin

text \<open>
  Connections over the Noise channel: the handshake run through the transport of
  \<open>src/librats/transport/connection.cpp\<close>, from two fresh connections to two established ones
  with linked sessions, and the delivery of frames that follows.
\<close>

subsection \<open>Handshake messages on a connection\<close>

definition outgoing :: "('h, 's) connection \<Rightarrow> bytes" where
  "outgoing c = cn_wire c @ sb_view (cn_tx c)"

text \<open>The peer's block arrives whole and the poller reports the socket readable.\<close>

definition feed :: "('h, 's) conn_env \<Rightarrow> bytes \<Rightarrow> ('h, 's) connection \<Rightarrow> bool \<times> ('h, 's) connection" where
  "feed env m c = on_readable env (c\<lparr>cn_rd := [Received (encode_block m)]\<rparr>)"

definition settled :: "('h, 's) connection \<Rightarrow> bool" where
  "settled c \<longleftrightarrow> conn_inv c \<and> rb_view (cn_rx c) = [] \<and> Send_Error \<notin> set (cn_wr c)"

lemma flush_loop_ok:
  "Send_Error \<notin> set rs \<Longrightarrow> fst (flush_loop rs tx wire) \<and> set (fst (snd (flush_loop rs tx wire))) \<subseteq> set rs"
proof (induction rs tx wire rule: flush_loop.induct)
  case (2 r rs tx wire)
  show ?case
  proof (cases "\<exists>n. r = Accepted n \<and> \<not> sb_is_empty tx \<and> take n (gathered tx) \<noteq> []")
    case True
    then obtain n where n: "r = Accepted n" "\<not> sb_is_empty tx" "take n (gathered tx) \<noteq> []" by blast
    from "2.IH" [OF n(2,1) refl n(3)] "2.prems" n show ?thesis by (auto simp: Let_def)
  next
    case False
    with "2.prems" show ?thesis by (cases r) auto
  qed
qed simp

lemma flush_ok:
  assumes "sb_inv (cn_tx c)" "Send_Error \<notin> set (cn_wr c)"
  obtains c' where "flush c = (True, c')" "outgoing c' = outgoing c" "Send_Error \<notin> set (cn_wr c')"
proof -
  obtain k c' where f: "flush c = (k, c')" by fastforce
  note ok = flush_loop_ok [OF assms(2), of "cn_tx c" "cn_wire c"]
  have "k" "Send_Error \<notin> set (cn_wr c')"
    using f ok assms(2)
    by (auto simp: flush_def Let_def arm_write_def disarm_write_def split: prod.splits if_splits)
  with f flush_facts(2) [OF assms(1) f] show thesis using that by (simp add: outgoing_def)
qed

text \<open>
  \<open>grown n c c'\<close>: the high-water mark is the same and the memory the send queue holds grew by
  at most \<open>n\<close>.
\<close>

definition grown :: "nat \<Rightarrow> ('h, 's) connection \<Rightarrow> ('h, 's) connection \<Rightarrow> bool" where
  "grown n c c' \<longleftrightarrow> cn_high_water c' = cn_high_water c \<and> sb_held (cn_tx c') \<le> sb_held (cn_tx c) + n"

lemma grown_trans: "grown m a b \<Longrightarrow> grown n b c \<Longrightarrow> grown (m + n) a c"
  by (simp add: grown_def)

lemma queue_block_grown: "grown (2 * kScratchCapacity + length m) c (queue_block m c)"
proof -
  let ?h = "append_copy (encode_block_header (length m)) (cn_tx c)"
  have "sb_held ?h \<le> sb_held (cn_tx c) + kScratchCapacity"
    using append_copy_held [of "encode_block_header (length m)" "cn_tx c"] by (simp add: kScratchCapacity_def)
  moreover have "sb_held (cn_tx (queue_block m c)) \<le> sb_held ?h + (kScratchCapacity + length m)"
  proof (cases "length m \<le> kInlineBlockLimit")
    case True
    with append_copy_held [of m ?h] show ?thesis by (simp add: queue_block_def Let_def kInlineBlockLimit_def)
  qed (simp add: queue_block_def Let_def append_own_def sb_held_def)
  ultimately show ?thesis by (simp add: grown_def)
qed

lemma flush_grown: "flush c = (k, c') \<Longrightarrow> sb_inv (cn_tx c) \<Longrightarrow> grown 0 c c'"
  using flush_fields(6) [of c k c'] flush_facts(3) [of c k c'] by (simp add: grown_def)

lemma reply_ok:
  assumes "sb_inv (cn_tx c)" "Send_Error \<notin> set (cn_wr c)" "cn_state c = Handshaking"
  obtains c' where "(if out = [] then (True, c) else flush (queue_block out c)) = (True, c')"
    "outgoing c' = outgoing c @ (if out = [] then [] else encode_block out)" "Send_Error \<notin> set (cn_wr c')"
    "kept c c'" "cn_state c' = cn_state c" "cn_session c' = cn_session c"
    "grown (2 * kScratchCapacity + length out) c c'"
proof (cases "out = []")
  case False
  let ?q = "queue_block out c"
  have "sb_inv (cn_tx ?q)" "Send_Error \<notin> set (cn_wr ?q)" "outgoing ?q = outgoing c @ encode_block out"
    using queue_block_facts [OF assms(1)] assms(2) by (simp_all add: outgoing_def queue_block_def Let_def)
  then obtain c' where f: "flush ?q = (True, c')" "outgoing c' = outgoing c @ encode_block out" "Send_Error \<notin> set (cn_wr c')"
    using flush_ok by metis
  have "kept ?q c'" using kept_flush [OF f(1)] assms(3) by simp
  with kept_queue_block have "kept c c'" by (rule kept_trans)
  moreover have "grown (2 * kScratchCapacity + length out) c c'"
    using grown_trans [OF queue_block_grown flush_grown [OF f(1)]] queue_block_facts(1) [OF assms(1)] by simp
  ultimately show thesis using that [of c'] f False flush_fields(3,8) [OF f(1)] by simp
qed (use that assms in \<open>auto simp: grown_def\<close>)

text \<open>What the handshaker answered is what the connection does.\<close>

definition answered :: "('h, 's) outcome \<Rightarrow> ('h, 's) connection \<Rightarrow> bool" where
  "answered oc c \<longleftrightarrow>
     (case oc of
        NeedMore h \<Rightarrow> cn_state c = Handshaking \<and> cn_handshaker c = Some h
      | Done s remote \<Rightarrow> cn_state c = Established \<and> cn_session c = Some s \<and> cn_remote_id c = remote
      | Failed \<Rightarrow> False)"

definition quiet :: "('h, 's) conn_env \<Rightarrow> bool" where
  "quiet env \<longleftrightarrow> (\<forall>log p. ce_delegate env (log @ [Established_Ev p]) = [])"

lemma delivered_handshaking: "conn_inv c \<Longrightarrow> cn_state c = Handshaking \<Longrightarrow> delivered c = []"
  by (auto simp: conn_inv_def phase_ok_def calls_ok_def calls_def delivered_def is_call_def filter_empty_conv split: conn_event.splits; blast)

lemma established_quiet:
  fixes c :: "('h, 's) connection"
  assumes "quiet env"
  defines "c' \<equiv> complete_established env c"
  shows "cn_state c' = Established" "cn_session c' = cn_session c" "cn_remote_id c' = cn_remote_id c"
    "outgoing c' = outgoing c" "cn_wr c' = cn_wr c" "delivered c' = delivered c" "grown 0 c c'"
  using assms
  by (simp_all add: grown_def complete_established_def call_delegate_def cancel_establish_timer_def quiet_def outgoing_def delivered_def Let_def)

lemma drive_answered:
  assumes "conn_inv c" "cn_state c = Handshaking" "Send_Error \<notin> set (cn_wr c)" "quiet env"
    and "cn_handshaker c = Some h" "hs_consume (ce_sec env) h m = (oc, out)" "oc \<noteq> Failed"
  obtains c' where "drive_handshake env m c = (True, c')" "answered oc c'" "delivered c' = []"
    "outgoing c' = outgoing c @ (if out = [] then [] else encode_block out)" "Send_Error \<notin> set (cn_wr c')"
    "grown (2 * kScratchCapacity + length out) c c'"
proof -
  have tx: "sb_inv (cn_tx c)" using assms(1) by (simp add: conn_inv_def)
  obtain c1 where c1: "(if out = [] then (True, c) else flush (queue_block out c)) = (True, c1)"
    "outgoing c1 = outgoing c @ (if out = [] then [] else encode_block out)" "Send_Error \<notin> set (cn_wr c1)"
    "kept c c1" "cn_state c1 = Handshaking" "grown (2 * kScratchCapacity + length out) c c1"
    using reply_ok [OF tx assms(3,2)] assms(2) by metis
  have d: "delivered c1 = []" using c1(4) delivered_handshaking [OF assms(1,2)] by (simp add: kept_def)
  show thesis
  proof (cases oc)
    case (NeedMore h1)
    then have "drive_handshake env m c = (True, c1\<lparr>cn_handshaker := Some h1\<rparr>)"
      using assms(5,6) c1(1) by (simp add: drive_handshake_def)
    then show thesis
      using that NeedMore c1 d by (simp add: answered_def outgoing_def delivered_def grown_def)
  next
    case (Done s remote)
    let ?d = "c1\<lparr>cn_session := Some s, cn_remote_id := remote, cn_handshaker := None\<rparr>"
    have "drive_handshake env m c = (True, complete_established env ?d)"
      using assms(5,6) c1(1) Done by (simp add: drive_handshake_def)
    moreover have "outgoing ?d = outgoing c1" "cn_wr ?d = cn_wr c1" "delivered ?d = delivered c1"
      by (simp_all add: outgoing_def delivered_def)
    moreover have "grown (2 * kScratchCapacity + length out) c (complete_established env ?d)"
      using established_quiet(7) [OF assms(4), of ?d] c1(6) by (simp add: grown_def)
    ultimately show thesis
      using that Done c1 d established_quiet(1-6) [OF assms(4), of ?d] by (simp add: answered_def)
  qed (use assms(7) in simp)
qed

lemma feed_answered:
  assumes "settled c" "cn_state c = Handshaking" "quiet env" "cn_handshaker c = Some h"
    and "hs_consume (ce_sec env) h m = (oc, out)" "oc \<noteq> Failed" "4 + length m < kRecvChunk"
  obtains c' where "feed env m c = (True, c')" "settled c'" "answered oc c'" "delivered c' = []"
    "outgoing c' = outgoing c @ (if out = [] then [] else encode_block out)"
    "grown (2 * kScratchCapacity + length out) c c'"
proof -
  let ?b = "encode_block m"
  have inv: "conn_inv c" and wr: "Send_Error \<notin> set (cn_wr c)" and view: "rb_view (cn_rx c) = []"
    using assms(1) by (simp_all add: settled_def)
  obtain rx1 span where p: "prepare (read_size (c\<lparr>cn_rd := [Received ?b]\<rparr>)) (cn_rx c) = (rx1, span)" by fastforce
  have "kRecvChunk \<le> span"
    using prepare_facts(3) [of "cn_rx c" kRecvChunk] p inv assms(2) by (simp add: conn_inv_def read_size_def)
  with assms(7) have sp: "length ?b < span" "take span ?b = ?b" "drop span ?b = []" by (simp_all add: length_encode_block')
  have ne: "?b \<noteq> []" using length_encode_block' [of m] by auto
  let ?rx = "commit (length ?b) (fill ?b rx1)"
  let ?c = "c\<lparr>cn_rx := ?rx, cn_rd := [], cn_rx_need := 0\<rparr>"
  have rx: "rb_view ?rx = ?b"
    using receive_facts(1) [of "cn_rx c" ?b "read_size (c\<lparr>cn_rd := [Received ?b]\<rparr>)"] p sp inv view by (simp add: conn_inv_def receive_def)
  have inv1: "conn_inv ?c" using recv_step [OF inv, of _ rx1 span ?b "[]"] p sp(1) kernel_step(3) by fastforce
  obtain d where d: "drive_handshake env m ?c = (True, d)" "answered oc d" "delivered d = []"
    "outgoing d = outgoing c @ (if out = [] then [] else encode_block out)" "Send_Error \<notin> set (cn_wr d)"
    "grown (2 * kScratchCapacity + length out) c d"
    using drive_answered [OF inv1 _ _ assms(3) _ assms(5,6)] assms(2,4) wr by (auto simp: outgoing_def grown_def)
  define e where "e = d\<lparr>cn_rx := consume (4 + length m) ?rx\<rparr>"
  have rxd: "cn_rx d = ?rx" using drive_handshake_rx(1) [of env m ?c] unfolding d(1) by simp
  have tb: "take_block env m (4 + length m) ?c = (True, e)"
    using assms(2) d(1) rxd by (simp add: take_block_def e_def)
  have sz: "4 + length m \<le> rb_size ?rx" using length_rb_view_le [of ?rx] rx by (simp add: length_encode_block')
  have inv2: "conn_inv e" using take_block_step [OF inv1, of "4 + length m" env m] tb sz by simp
  have view2: "rb_view (cn_rx e) = []"
    using consume_facts(1) [OF _ sz] inv1 rx by (simp add: conn_inv_def e_def length_encode_block')
  have bk: "try_take_block (rb_view ?rx) = \<lparr>bk_status = Ok, bk_consumed = 4 + length m, bk_body = m, bk_needed = 4 + length m\<rparr>"
    using try_take_block_encode [of m "[]"] rx assms(7) by (simp add: kRecvChunk_def kMaxBlockSize_def)
  have st: "cn_state e \<noteq> Closing" "cn_state e \<noteq> Closed"
    using d(2) by (auto simp: e_def answered_def split: outcome.splits)
  have "process_loop env e = (True, e)"
    using rb_view_empty [of "cn_rx e"] view2 inv2 by (simp add: process_loop.simps [of env e] conn_inv_def)
  moreover have "\<not> rb_empty ?rx" using rb_view_empty [of ?rx] rx ne inv1 by (simp add: conn_inv_def)
  ultimately have "process_blocks env (c\<lparr>cn_rx := ?rx, cn_rd := []\<rparr>) = (True, e)"
    using tb st bk by (simp add: process_blocks_def) (subst process_loop.simps, simp add: Let_def)
  then have "feed env m c = (True, e)"
    using p sp ne by (simp add: feed_def on_readable.simps Let_def rd_rest_def)
  then show thesis
    using that d inv2 view2 by (simp add: settled_def e_def answered_def outgoing_def delivered_def grown_def split: outcome.splits)
qed

lemma start_answered:
  assumes "settled c" "cn_state c = Connecting" "hs_start (ce_sec env) (sec_create (ce_sec env) (cn_role c)) = Some (out, h)"
  defines "c' \<equiv> start_handshake env c"
  shows "settled c'" "cn_state c' = Handshaking" "cn_handshaker c' = Some h"
    "outgoing c' = outgoing c @ (if out = [] then [] else encode_block out)"
    "grown (2 * kScratchCapacity + length out) c c'"
proof -
  have inv: "conn_inv c" using assms(1) by (simp add: settled_def)
  let ?c = "(emit (Interest_Ev False) (c\<lparr>cn_state := Handshaking, cn_want_write := False\<rparr>))\<lparr>cn_handshaker := Some h\<rparr>"
  have c: "sb_inv (cn_tx ?c)" "Send_Error \<notin> set (cn_wr ?c)" "cn_state ?c = Handshaking"
    using assms(1) by (simp_all add: settled_def conn_inv_def)
  obtain c1 where c1: "(if out = [] then (True, ?c) else flush (queue_block out ?c)) = (True, c1)"
    "outgoing c1 = outgoing ?c @ (if out = [] then [] else encode_block out)" "Send_Error \<notin> set (cn_wr c1)"
    "kept ?c c1" "cn_state c1 = cn_state ?c" "cn_session c1 = cn_session ?c"
    "grown (2 * kScratchCapacity + length out) ?c c1"
    using reply_ok [OF c] by metis
  have c': "c' = c1"
    using assms(2,3) c1(1) by (auto simp: c'_def start_handshake_def begin_handshake_def Let_def split: if_splits)
  have "conn_inv c'" using begin_handshake_step [OF inv assms(2), of env] assms(2) by (simp add: c'_def start_handshake_def)
  with assms(1) c1 c' show "settled c'" "cn_state c' = Handshaking" "cn_handshaker c' = Some h"
    "outgoing c' = outgoing c @ (if out = [] then [] else encode_block out)"
    "grown (2 * kScratchCapacity + length out) c c'"
    by (simp_all add: settled_def kept_def outgoing_def grown_def)
qed

lemma new_settled:
  fixes role :: conn_role
  assumes "Send_Error \<notin> set w"
  defines "c \<equiv> (new_connection role)\<lparr>cn_wr := w\<rparr>"
  shows "settled c" "cn_state c = Connecting" "cn_role c = role" "outgoing c = []"
    "cn_high_water c = kDefaultSendHighWater" "sb_held (cn_tx c) = 0"
proof -
  have "conn_inv c" unfolding c_def using kernel_step(2) [OF conn_inv_new] by blast
  then show "settled c" using assms(1) by (simp add: settled_def c_def new_connection_def)
  show "sb_held (cn_tx c) = 0" by (simp add: c_def new_connection_def sb_held_def sb_null_def vec_empty_def)
qed (simp_all add: c_def outgoing_def new_connection_def)

subsection \<open>The Noise environment\<close>

definition noise_env ::
  "(bytes \<Rightarrow> bytes \<Rightarrow> bytes) \<Rightarrow> identity \<Rightarrow> bytes \<Rightarrow> (conn_role \<Rightarrow> bytes \<times> bytes) \<Rightarrow> (conn_event list \<Rightarrow> delegate_act list) \<Rightarrow>
     (noise_handshaker, noise_adapter) conn_env" where
  "noise_env dh ident proto rnd d = \<lparr>ce_sec = noise_security dh ident proto rnd, ce_delegate = d\<rparr>"

interpretation noise_conn: channel_env "noise_env dh ident proto rnd d" noise_linked 16 "2 ^ 32 - 1" for dh ident proto rnd d
  by (unfold_locales; simp add: noise_env_def noise_security_def kMaxBlockSize_def
      noise.dec_enc noise.receiver_sends noise.enc_length)

lemma noise_encrypts: "ns_ready (na_session a) \<Longrightarrow> ci_has_key (ns_send (na_session a)) \<Longrightarrow>
  \<exists>c a'. noise_encrypt a p = Some (c, a') \<and> ns_ready (na_session a') \<and> ci_has_key (ns_send (na_session a'))"
  by (auto simp: noise_encrypt_def session_encrypt_def encrypt_with_ad_def Let_def)

lemma noise_encrypts_all: "noise_linked a b \<Longrightarrow> encrypt_all noise_encrypt a ps \<noteq> None"
proof -
  have "encrypt_all noise_encrypt a ps \<noteq> None" if "ns_ready (na_session a)" "ci_has_key (ns_send (na_session a))" for a ps
    using that
  proof (induction ps arbitrary: a)
    case (Cons p ps)
    from noise_encrypts [OF Cons.prems] obtain c a' where "noise_encrypt a p = Some (c, a')"
      "ns_ready (na_session a')" "ci_has_key (ns_send (na_session a'))" by blast
    with Cons.IH show ?case by (auto split: option.splits)
  qed simp
  then show "noise_linked a b \<Longrightarrow> encrypt_all noise_encrypt a ps \<noteq> None" unfolding noise_linked_def by blast
qed

lemma noise_sends:
  assumes "settled A" "answered (Done sa pa) A" "noise_linked sa sb"
    and "cn_state (send_all (noise_env dh ident proto rnd d) ms A) = Established"
  shows "\<exists>cs. length cs = length ms \<and>
    outgoing (send_all (noise_env dh ident proto rnd d) ms A) = outgoing A @ concat (map encode_block cs)"
proof -
  let ?ea = "noise_env dh ident proto rnd d"
  have c: "ses_encrypt (ce_sec ?ea) = noise_encrypt" by (simp add: noise_env_def noise_security_def)
  obtain cs sa' where cs: "encrypt_all (ses_encrypt (ce_sec ?ea)) sa (map frame_bytes ms) = Some (cs, sa')"
    using noise_encrypts_all [OF assms(3)] unfolding c by fastforce
  from send_all_effect [OF _ _ cs assms(4)] assms(1,2) encrypt_all_length [OF cs] show ?thesis
    by (auto simp: settled_def answered_def outgoing_def wire_of_def)
qed

lemma noise_accepts:
  assumes "settled A" "answered (Done sa pa) A" "noise_linked sa sb"
    and "sb_held (cn_tx A) + (2 * kScratchCapacity + (length (fr_payload f) + 20)) \<le> cn_high_water A"
  shows "cn_state (send_all (noise_env dh ident proto rnd d) [f] A) = Established"
proof -
  let ?ea = "noise_env dh ident proto rnd d"
  have c: "ses_encrypt (ce_sec ?ea) = noise_encrypt" by (simp add: noise_env_def noise_security_def)
  have a: "cn_state A = Established" "cn_session A = Some sa" "sb_inv (cn_tx A)" "Send_Error \<notin> set (cn_wr A)"
    using assms(1,2) by (simp_all add: settled_def answered_def conn_inv_def)
  obtain x sa' where x: "noise_encrypt sa (encode_message (fr_header f) (fr_payload f)) = Some (x, sa')"
    using noise_encrypts assms(3) unfolding noise_linked_def by blast
  then have len: "length x \<le> length (fr_payload f) + 20" using noise.enc_length [OF x] by simp
  let ?q = "queue_block x (A\<lparr>cn_session := Some sa'\<rparr>)"
  have g: "sb_held (cn_tx ?q) \<le> cn_high_water A"
    using queue_block_grown [of x "A\<lparr>cn_session := Some sa'\<rparr>"] len assms(4) by (simp add: grown_def)
  have "sb_inv (cn_tx ?q)" "Send_Error \<notin> set (cn_wr ?q)"
    using queue_block_facts(1) [of "A\<lparr>cn_session := Some sa'\<rparr>" x] a(3,4) by (simp_all add: queue_block_def Let_def)
  then obtain c' where f: "flush ?q = (True, c')" using flush_ok by metis
  then have "cn_state c' = Established" using flush_fields(8) [OF f] a(1) by simp
  with a x g f show ?thesis by (simp add: send_all_def send_def c not_less)
qed

lemma noise_delivers:
  fixes A B :: "(noise_handshaker, noise_adapter) connection" and dhb idb proto_b rb db
  assumes "settled A" "answered (Done sa pa) A" "settled B" "answered (Done sb pb) B" "noise_linked sa sb"
    and "list_all (\<lambda>f. length (fr_payload f) + 20 \<le> kMaxBlockSize) ms"
    and "cn_state (send_all (noise_env dha ida proto_a ra da) ms A) = Established"
    and "outgoing (send_all (noise_env dha ida proto_a ra da) ms A) = outgoing A @ concat chunks" "[] \<notin> set chunks"
  defines "eb \<equiv> noise_env dhb idb proto_b rb db" and "B' \<equiv> B\<lparr>cn_rd := map Received chunks\<rparr>"
  defines "r \<equiv> pump eb (Suc (rd_weight (cn_rd B'))) B'"
  shows "(if fst r then delivered (snd r) = delivered B @ ms \<and> rb_view (cn_rx (snd r)) = []
     else closed_by_reply eb (snd r) \<and> (\<exists>k. delivered (snd r) = delivered B @ take k ms)) \<and>
    (silent eb \<longrightarrow> fst r)"
proof -
  let ?ea = "noise_env dha ida proto_a ra da"
  have c: "ses_encrypt (ce_sec eb) = noise_encrypt" "ses_encrypt (ce_sec ?ea) = ses_encrypt (ce_sec eb)"
    by (simp_all add: eb_def noise_env_def noise_security_def)
  have e: "encrypt_all (ses_encrypt (ce_sec eb)) sa (map frame_bytes ms) \<noteq> None"
    unfolding c(1) by (rule noise_encrypts_all [OF assms(5)])
  have m: "list_all (\<lambda>f. 4 + length (fr_payload f) + 16 \<le> kMaxBlockSize) ms"
    using assms(6) by (simp add: list_all_iff add.commute)
  have ch: "channel_env eb noise_linked 16 (2 ^ 32 - 1)" unfolding eb_def by (rule noise_conn.channel_env_axioms)
  show ?thesis
    unfolding r_def B'_def
    by (rule stream_delivered [OF ch _ _ _ _ _ _ assms(5) m e c(2) refl assms(7) _ assms(9)])
      (use assms(1-4,8) in \<open>simp_all add: settled_def answered_def outgoing_def\<close>)
qed

lemma noise_dial_established:
  fixes dh ida idb proto ra rb da db wa wb
  assumes "dh_laws dh" "valid_keypair dh (id_keypair ida)" "valid_keypair dh (id_keypair idb)"
    and "length (fst (ra Outbound)) = 32" "length (fst (rb Inbound)) = 32"
    and "Send_Error \<notin> set wa" "Send_Error \<notin> set wb"
  defines "ea \<equiv> noise_env dh ida proto ra da" and "eb \<equiv> noise_env dh idb proto rb db"
  assumes "quiet ea" "quiet eb"
  defines "A0 \<equiv> start_handshake ea ((new_connection Outbound)\<lparr>cn_wr := wa\<rparr>)"
    and "B0 \<equiv> start_handshake eb ((new_connection Inbound)\<lparr>cn_wr := wb\<rparr>)"
  obtains m1 m2 m3 B1 A B sa sb where "outgoing A0 = encode_block m1"
    "feed eb m1 B0 = (True, B1)" "outgoing B1 = encode_block m2"
    "feed ea m2 A0 = (True, A)" "outgoing A = encode_block m1 @ encode_block m3"
    "feed eb m3 B1 = (True, B)" "outgoing B = encode_block m2"
    "settled A" "answered (Done sa (from_public_key (kp_public (id_keypair idb)))) A"
    "settled B" "answered (Done sb (from_public_key (kp_public (id_keypair ida)))) B"
    "noise_linked sa sb" "delivered B = []"
    "cn_high_water A = kDefaultSendHighWater" "sb_held (cn_tx A) \<le> 4 * kScratchCapacity + 96"
proof (rule noise_run [where ra = ra and rb = rb and proto = proto, OF assms(1-5)])
  let ?pa = "from_public_key (kp_public (id_keypair ida))" and ?pb = "from_public_key (kp_public (id_keypair idb))"
  let ?a = "noise_security dh ida proto ra" and ?b = "noise_security dh idb proto rb"
  fix m1 m2 m3 ha hb sa sb
  assume run: "hs_start ?a (sec_create ?a Outbound) = Some (m1, ha)"
    "hs_start ?b (sec_create ?b Inbound) = Some ([], sec_create ?b Inbound)"
    "hs_consume ?b (sec_create ?b Inbound) m1 = (NeedMore hb, m2)" "hs_consume ?a ha m2 = (Done sa ?pb, m3)"
    "hs_consume ?b hb m3 = (Done sb ?pa, [])" "noise_linked sa sb"
    and lens: "length m1 = 32" "length m2 = 96" "length m3 = 64"
  have env: "ce_sec ea = ?a" "ce_sec eb = ?b" by (simp_all add: ea_def eb_def noise_env_def)
  have ne: "m1 \<noteq> []" "m2 \<noteq> []" "m3 \<noteq> []" using lens by auto
  have small: "4 + length m1 < kRecvChunk" "4 + length m2 < kRecvChunk" "4 + length m3 < kRecvChunk"
    using lens by (simp_all add: kRecvChunk_def)
  note na = new_settled [OF assms(6), of Outbound] and nb = new_settled [OF assms(7), of Inbound]
  have "hs_start (ce_sec ea) (sec_create (ce_sec ea) (cn_role ((new_connection Outbound)\<lparr>cn_wr := wa\<rparr>))) = Some (m1, ha)"
    "hs_start (ce_sec eb) (sec_create (ce_sec eb) (cn_role ((new_connection Inbound)\<lparr>cn_wr := wb\<rparr>))) = Some ([], sec_create ?b Inbound)"
    unfolding na(3) nb(3) using run(1,2) by (simp_all add: env)
  note a0 = start_answered [OF na(1,2) this(1), folded A0_def, unfolded na(4)]
    and b0 = start_answered [OF nb(1,2) this(2), folded B0_def, unfolded nb(4)]
  obtain B1 where b1: "feed eb m1 B0 = (True, B1)" "settled B1" "answered (NeedMore hb) B1" "outgoing B1 = encode_block m2"
    using feed_answered [OF b0(1,2) assms(11) b0(3) _ _ small(1)] run(3) ne(2) b0(4) by (auto simp: env)
  obtain A where a: "feed ea m2 A0 = (True, A)" "settled A" "answered (Done sa ?pb) A" "outgoing A = encode_block m1 @ encode_block m3"
    "grown (2 * kScratchCapacity + length m3) A0 A"
    using feed_answered [OF a0(1,2) assms(10) a0(3) _ _ small(2)] run(4) ne(1,3) a0(4) by (auto simp: env)
  obtain B where b: "feed eb m3 B1 = (True, B)" "settled B" "answered (Done sb ?pa) B" "outgoing B = encode_block m2" "delivered B = []"
    using feed_answered [OF b1(2) _ assms(11) _ _ _ small(3), of hb "Done sb ?pa" "[]"] b1(3,4) run(5)
    by (auto simp: env answered_def)
  have "cn_high_water A = kDefaultSendHighWater" "sb_held (cn_tx A) \<le> 4 * kScratchCapacity + 96"
    using grown_trans [OF a0(5) a(5)] lens unfolding grown_def na(5,6) by simp_all
  with a0(4) ne(1) a(1-4) b b1(1,4) run(6) show thesis by (intro that) simp_all
qed

subsection \<open>Properties\<close>


text \<open>Two concrete nodes for the witness, whose delegates send nothing.\<close>

definition demo_node :: "byte \<Rightarrow> (noise_handshaker, noise_adapter) conn_env" where
  "demo_node k = noise_env demo_dh (demo_identity k) (str ''p'') (\<lambda>r. (replicate 32 k, [])) (\<lambda>_. [])"


text \<open>
  C32: an outbound Noise connection becomes established without any peer key. Two empty blocks,
  eight zero bytes on the wire, take it from handshaking to established and secure, with the
  identity of the all-zero key; on the way it sends its static key in the clear, and its session
  keys depend on nothing but the public protocol name and \<open>dh\<close> of its static key with the
  all-zero point.
\<close>

theorem empty_blocks_establish:
  fixes dh ida proto ra da wa
  assumes "dh_laws dh" "valid_keypair dh (id_keypair ida)" "length (fst (ra Outbound)) = 32" "Send_Error \<notin> set wa"
  defines "ea \<equiv> noise_env dh ida proto ra da" and "kp \<equiv> id_keypair ida" and "zeros \<equiv> replicate 32 0"
  assumes "quiet ea"
  defines "A0 \<equiv> start_handshake ea ((new_connection Outbound)\<lparr>cn_wr := wa\<rparr>)"
  shows "encode_block [] = [0, 0, 0, 0] \<and>
    (\<exists>A1 A s t. feed ea [] A0 = (True, A1) \<and> feed ea [] A1 = (True, A) \<and>
      cn_state A = Established \<and> is_secure ea A \<and> cn_remote_id A = from_public_key zeros \<and>
      outgoing A = outgoing A0 @ encode_block (kp_public kp @ t) \<and> cn_session A = Some s \<and>
      (let ck = fst (noise_hkdf_2 NOISE_PROTOCOL_NAME (dh (kp_private kp) zeros)); (k1, k2) = noise_hkdf_2 ck []
       in ci_key (ns_send (na_session s)) = k1 \<and> ci_key (ns_recv (na_session s)) = k2))"
proof -
  let ?a = "noise_security dh ida proto ra"
  have env: "ce_sec ea = ?a" by (simp add: ea_def noise_env_def)
  obtain m1 h0 h1 s t where run: "hs_start ?a (sec_create ?a Outbound) = Some (m1, h0)" "hs_consume ?a h0 [] = (NeedMore h1, [])"
    "hs_consume ?a h1 [] = (Done s (from_public_key zeros), kp_public kp @ t)"
    and keys: "let ck = fst (noise_hkdf_2 NOISE_PROTOCOL_NAME (dh (kp_private kp) zeros)); (k1, k2) = noise_hkdf_2 ck []
      in ci_key (ns_send (na_session s)) = k1 \<and> ci_key (ns_recv (na_session s)) = k2"
    using empty_messages_complete_handshake [where ra = ra and proto = proto, OF assms(1-3)] unfolding kp_def zeros_def by blast
  note na = new_settled [OF assms(4), of Outbound]
  have "hs_start (ce_sec ea) (sec_create (ce_sec ea) (cn_role ((new_connection Outbound)\<lparr>cn_wr := wa\<rparr>))) = Some (m1, h0)"
    unfolding na(3) using run(1) by (simp add: env)
  note a0 = start_answered [OF na(1,2) this, folded A0_def]
  have small: "4 + length ([] :: bytes) < kRecvChunk" by (simp add: kRecvChunk_def)
  obtain A1 where a1: "feed ea [] A0 = (True, A1)" "settled A1" "answered (NeedMore h1) A1" "outgoing A1 = outgoing A0"
    using feed_answered [OF a0(1,2) assms(8) a0(3) _ _ small] run(2) by (auto simp: env)
  have hs: "cn_state A1 = Handshaking" "cn_handshaker A1 = Some h1" using a1(3) by (simp_all add: answered_def)
  have ne: "kp_public kp @ t \<noteq> []" using valid_public [OF assms(1,2)] by (auto simp: kp_def)
  have "\<exists>A. feed ea [] A1 = (True, A) \<and> answered (Done s (from_public_key zeros)) A \<and>
      outgoing A = outgoing A0 @ encode_block (kp_public kp @ t)"
    by (rule feed_answered [OF a1(2) hs(1) assms(8) hs(2) run(3) [folded env] _ small]) (use ne in \<open>auto simp: a1(4)\<close>)
  then obtain A where a: "feed ea [] A1 = (True, A)" "answered (Done s (from_public_key zeros)) A"
    "outgoing A = outgoing A0 @ encode_block (kp_public kp @ t)" by blast
  have "is_secure ea A" using a(2) by (simp add: is_secure_def answered_def env noise_security_def)
  moreover have "encode_block [] = [0, 0, 0, 0]" by (simp add: encode_block_def encode_block_header_def u32_be_def)
  ultimately show ?thesis using a1(1) a keys unfolding answered_def outcome.case by blast
qed

theorem empty_blocks_establish_witness:
  "\<exists>A1 A. feed (noise_env demo_dh (demo_identity 1) (str ''p'') (\<lambda>r. (replicate 32 3, [])) (\<lambda>_. [])) []
      (start_handshake (noise_env demo_dh (demo_identity 1) (str ''p'') (\<lambda>r. (replicate 32 3, [])) (\<lambda>_. []))
        ((new_connection Outbound)\<lparr>cn_wr := []\<rparr>)) = (True, A1) \<and>
    feed (noise_env demo_dh (demo_identity 1) (str ''p'') (\<lambda>r. (replicate 32 3, [])) (\<lambda>_. [])) [] A1 = (True, A) \<and>
    cn_state A = Established"
proof -
  have "quiet (noise_env demo_dh (demo_identity 1) (str ''p'') (\<lambda>r. (replicate 32 3, [])) (\<lambda>_. []))" by (simp add: quiet_def noise_env_def)
  from empty_blocks_establish [OF demo_dh_laws demo_identity_valid _ _ this, of "[]"] show ?thesis by auto
qed

end
