(* ===== verification/Spec2Isabelle.thy ===== *)
theory Spec2Isabelle
  imports Connection_Stream Message_Router Timer_Queue Node Reactor_Safety Reconnection Routing_Lookup Storage_Net Bencode
    Dht_Node Noise_Stream
begin

text \<open>
  \<^bold>\<open>Verification of librats\<close>, a peer-to-peer networking library in C++ (\<open>src/src/librats\<close>; the
  paths below are relative to it). A node owns reactors; a reactor owns connections, timers and
  a task queue; a connection frames, encrypts and buffers the bytes of one socket and hands
  frames to the node, which keeps the peer directory and routes frames to subsystems: identify,
  reconnection, replicated storage, distributed hash table, BitTorrent.

  \<^bold>\<open>Conventions.\<close> A byte is an \<open>8 word\<close>, \<open>uint16_t\<close>/\<open>uint32_t\<close>/\<open>uint64_t\<close> are words of their width
  (arithmetic wraps), \<open>size_t\<close> and clock readings that cannot overflow are \<open>nat\<close>. A class is a
  record and each method a function from the object to the updated object. An unordered map is
  an association list updated in place. A failed operation is a value: \<open>None\<close>, an error
  constructor, or \<open>False\<close> beside the state. What lies outside the sources is an argument:
  system calls are scripts of results, the clock and the random device are arguments, a delegate
  or callback is any function of the calls made so far, \<open>inet_pton\<close> and \<open>inet_ntop\<close> are functions.
  A mutex is the atomicity of the operation that takes it.

  \<^bold>\<open>Transport.\<close>
  \<^item> \<open>Wire_Frame\<close>: length-prefixed blocks and message headers (\<open>wire/frame.cpp\<close>). Decoding inverts
    encoding, and the decoder accepts exactly the encodings.
  \<^item> \<open>Message_Router\<close>: channel identifiers and dispatch (\<open>wire/message_router.cpp\<close>).
  \<^item> \<open>Byte_Fifo\<close>: the contract of a byte queue, a locale; \<open>Receive_Buffer\<close>
    (\<open>core/receive_buffer.cpp\<close>) and \<open>Send_Buffer\<close> (\<open>core/chained_send_buffer.cpp\<close>) interpret it. Over any run
    no byte is lost, repeated or reordered; memory follows use.
  \<^item> \<open>Timer_Queue\<close>: the timer heap with its tombstones and the task queue (\<open>core/timer_queue.h\<close>,
    \<open>core/mpsc_queue.h\<close>).
  \<^item> \<open>Security\<close>: the interface \<open>SecurityProvider\<close>/\<open>Handshaker\<close>/\<open>Session\<close> as a record of functions,
    its contract as the locale \<open>secure_channel\<close>, and the plaintext provider
    (\<open>security/plaintext_security.h\<close>).
  \<^item> \<open>Connection\<close>, \<open>Connection_Safety\<close>, \<open>Connection_Stream\<close>: the connection state machine
    (\<open>transport/connection.cpp\<close>), its invariant over every sequence of calls, and end-to-end delivery
    for every channel that meets the contract (locale \<open>channel_env\<close>).
  \<^item> \<open>Reactor\<close>, \<open>Reactor_Safety\<close>: one reactor (\<open>transport/reactor.cpp\<close>), its maps, deadlines and
    deferred teardown; every adopted connection is reported closed exactly once.

  \<^bold>\<open>Cryptography.\<close>
  \<^item> \<open>Block_Hash\<close>: the contract of a streaming block hash (locale \<open>stream_hash\<close>), interpreted by
    \<open>Sha256\<close> (\<open>crypto/sha256.c\<close>) and \<open>Sha1\<close> (\<open>crypto/sha1.cpp\<close>); both equal FIPS 180-4.
  \<^item> \<open>Hkdf\<close> (\<open>crypto/hkdf.c\<close>): HMAC and HKDF equal RFC 2104 and RFC 5869.
  \<^item> \<open>Chacha\<close> (\<open>crypto/chacha.c\<close>): the scalar and the vector form compute the same stream.
  \<^item> \<open>Poly1305\<close> (\<open>crypto/poly1305.c\<close>, 64-bit form): the limb arithmetic is the RFC 8439 polynomial.
  \<^item> \<open>Chachapoly\<close> (\<open>crypto/chachapoly.c\<close>): decryption accepts exactly what encryption makes.
  \<^item> \<open>Noise\<close>, \<open>Noise_Agreement\<close> (\<open>crypto/noise.cpp\<close>): the XX handshake; both sides compute the same
    transcript. \<open>Noise_Security\<close> (\<open>security/noise_security.cpp\<close>, \<open>security/identity.h\<close>): the provider,
    which interprets \<open>secure_channel\<close>. \<open>Noise_Stream\<close>: from two fresh connections to delivered frames
    over Noise, and how two empty blocks establish a connection without a peer.

  \<^bold>\<open>Peers and node.\<close>
  \<^item> \<open>Peer_Id\<close> (\<open>peer/peer_id.cpp\<close>), \<open>Address\<close> (\<open>core/ip_address.cpp\<close>, \<open>core/address.cpp\<close>,
    \<open>core/endpoint_parse.cpp\<close>), \<open>Identify\<close> (\<open>node/identify.cpp\<close>): identities, endpoints and the identify message,
    with round trips of their text and wire forms.
  \<^item> \<open>Peer_Table\<close> (\<open>peer/peer_table.cpp\<close>), \<open>Node\<close> (\<open>node/node.cpp\<close>): the directory and the node as
    delegate of its connections; simultaneous dials converge on one connection.
  \<^item> \<open>Peer_Book\<close> (\<open>peer/peer_book.cpp\<close>), \<open>Sorting\<close>, \<open>Reconnection\<close> (\<open>subsystems/reconnection.cpp\<close>): the
    history of peers and the re-dialling service, with its backoff and liveness.

  \<^bold>\<open>Distributed hash table.\<close> \<open>Dht_Id\<close> (\<open>dht/id.h\<close>), \<open>Dht_Entry\<close> (\<open>dht/node_entry.h\<close>, \<open>dht/bep42.cpp\<close>,
  \<open>dht/dos_blocker.cpp\<close>), \<open>Routing_Table\<close>, \<open>Routing_Safety\<close>, \<open>Routing_Lookup\<close> (\<open>dht/routing_table.cpp\<close>): the
  metric, contacts, the bucket tree and its invariant, and that the tiered search returns exactly
  the nearest contacts. \<open>Krpc\<close> (\<open>dht/krpc.cpp\<close>): the messages and their wire form, with round trips in
  both directions. \<open>Dht_Storage\<close> (\<open>dht/storage.cpp\<close>): write tokens, whose lifetime and binding are shown,
  and the announced peers, which implement their history. \<open>Dht_Lookup\<close> (\<open>dht/rpc_manager.cpp\<close>,
  \<open>dht/traversal.cpp\<close>, \<open>dht/find_peers.cpp\<close>, \<open>dht/announce.cpp\<close>) and \<open>Dht_Node\<close> (\<open>dht/node.cpp\<close>): queries in
  flight, iterative lookups and the node, over a heap of shared observers.

  \<^bold>\<open>Replicated storage.\<close> \<open>Storage_Entry\<close>, \<open>Storage\<close>, \<open>Storage_Safety\<close> (\<open>storage/storage.cpp\<close>,
  \<open>crypto/crc32.cpp\<close>): entries, operations, snapshots and the data file; \<open>Last_Writer\<close> is the contract of
  a last-writer-wins map the store interprets; \<open>Storage_Net\<close> is a network of replicas as a step
  relation, which converges and terminates under every interleaving.

  \<^bold>\<open>Codecs.\<close> \<open>Bencode\<close> (\<open>bittorrent/bencode.cpp\<close>): the value type, the encoder and the hardened
  decoder.

  \<^bold>\<open>Fuel and bounds.\<close> Loops that consume a buffer or a script recurse on it. Where a count bounds a
  loop it is computed from the state: the SHA-1 zero fill needs at most 64 steps to reach 56
  bytes; \<open>run_due\<close> takes the number of timers a callback may add; the pump of the end-to-end
  theorems takes one more than the number of bytes still to read. The theorems that use such a
  bound prove that it is enough.

  \<^bold>\<open>Not modelled.\<close> Threads, sockets, files and logging, whose results are arguments; the C API and
  the Kotlin bindings, which forward calls; X25519, an argument of the handshake whose two laws
  are named in \<open>dh_laws\<close>, since they rest on the group law of the curve; the 32-bit form of Poly1305;
  the thread, socket and contact file around the DHT node and its optional crawler; publish/subscribe, file transfer, JSON, NAT traversal,
  mDNS and the BitTorrent engine above bencode.
\<close>

end
